(* ===== verification/Prelude.thy ===== *)
theory Prelude
  imports Main "HOL-Library.Word" "HOL-Library.Monad_Syntax"
begin

text \<open>
  The vocabulary shared by every component of the kernel model.

  \<^item> Machine integers keep the width of \<^verbatim>\<open>include/xos/types.h\<close>: \<open>u8\<close>, \<open>u16\<close>, \<open>u32\<close>,
    \<open>u64\<close> are words, an \<open>i32\<close> is a 32-bit word read with \<open>sint\<close>, an address is a \<open>u32\<close>
    and \<open>0\<close> is \<open>NULL\<close>.
  \<^item> A computation of the kernel that may not come back has an \<open>option\<close> type.
    \<open>None\<close> says that control never returns to the caller: a failed \<^verbatim>\<open>assert\<close> and a
    \<^verbatim>\<open>panic\<close> print a message and then spin in \<^verbatim>\<open>while (true)\<close> (\<^verbatim>\<open>kernel/assert.c\<close>), an access
    through \<open>NULL\<close> hits the unmapped page 0 and ends in the failed assertion of the page
    fault handler, and a loop that runs forever does not return either.
  \<^item> A \<^verbatim>\<open>for\<close> loop with known bounds is \<open>forM\<close> over its index list.
\<close>

type_synonym u8 = "8 word"
type_synonym u16 = "16 word"
type_synonym u32 = "32 word"
type_synonym u64 = "64 word"
type_synonym i32 = "32 word"
type_synonym addr = "32 word"

named_theorems kernel_simps
  \<open>equations that run one step of a kernel operation on a known state\<close>

section \<open>Assertions, panics and loops\<close>

definition assert_c :: "bool \<Rightarrow> unit option" where
  "assert_c e = (if e then Some () else None)"

definition panic :: "string \<Rightarrow> 'a option" where
  "panic msg = None"

primrec forM :: "'i list \<Rightarrow> ('i \<Rightarrow> 's \<Rightarrow> 's option) \<Rightarrow> 's \<Rightarrow> 's option" where
  "forM [] f s = Some s"
| "forM (i # is) f s = do { s' \<leftarrow> f i s; forM is f s' }"

lemma bind_assert_c [simp]: "Option.bind (assert_c e) f = (if e then f () else None)"
  by (simp add: assert_c_def)

lemma assert_c_eq_Some [simp]: "assert_c e = Some u \<longleftrightarrow> e"
  by (simp add: assert_c_def)

lemma bind_panic [simp]: "Option.bind (panic msg) f = None"
  by (simp add: panic_def)

lemma panic_eq_Some [simp]: "panic msg = Some x \<longleftrightarrow> False"
  by (simp add: panic_def)

lemma forM_append: "forM (xs @ ys) f s = Option.bind (forM xs f s) (forM ys f)"
  by (induction xs arbitrary: s) (auto split: Option.bind_split)

lemma forM_invariant:
  assumes "forM is f s = Some s'" and "P s"
    and "\<And>i t t'. i \<in> set is \<Longrightarrow> P t \<Longrightarrow> f i t = Some t' \<Longrightarrow> P t'"
  shows "P s'"
  using assms
proof (induction "is" arbitrary: s)
  case Nil
  then show ?case by simp
next
  case (Cons i "is")
  from Cons.prems(1) obtain t where t: "f i s = Some t" "forM is f t = Some s'"
    by (auto split: Option.bind_splits)
  have pt: "P t" using Cons.prems(2,3) t(1) by auto
  show ?case by (rule Cons.IH [OF t(2) pt]) (use Cons.prems(3) in auto)
qed

lemma forM_total:
  assumes "P s"
    and "\<And>i t. i \<in> set is \<Longrightarrow> P t \<Longrightarrow> \<exists>t'. f i t = Some t' \<and> P t'"
  shows "\<exists>s'. forM is f s = Some s' \<and> P s'"
  using assms
proof (induction "is" arbitrary: s)
  case Nil
  then show ?case by simp
next
  case (Cons i "is")
  from Cons.prems obtain t where t: "f i s = Some t" "P t" by fastforce
  with Cons.IH [of t] Cons.prems(2) show ?case by auto
qed

section \<open>Lists\<close>

lemma in_set_tlD: "x \<in> set (tl xs) \<Longrightarrow> x \<in> set xs"
  by (cases xs) auto

lemma takeWhile_neq_split:
  "x \<in> set xs \<Longrightarrow> distinct xs \<Longrightarrow> xs = takeWhile (\<lambda>y. y \<noteq> x) xs @ x # tl (dropWhile (\<lambda>y. y \<noteq> x) xs)"
  by (induction xs) auto

lemma remove1_middle [simp]: "x \<notin> set xs \<Longrightarrow> remove1 x (xs @ x # ys) = xs @ ys"
  by (simp add: remove1_append)

lemma upt_split: "n < m \<Longrightarrow> [0 ..< m] = [0 ..< n] @ n # [Suc n ..< m]"
  using upt_add_eq_append [of 0 n "m - n"] by (simp add: upt_conv_Cons)

lemma last_append_Cons [simp]: "last (xs @ y # ys) = last (y # ys)"
  by simp

section \<open>Words\<close>

lemma word_neq_0_unat: "(x :: 'a::len word) \<noteq> 0 \<longleftrightarrow> 0 < unat x"
  by (simp add: unat_gt_0)

lemma unat_u32 [simp]: "unat (x :: u32) < 4294967296" "unat (x :: u32) \<le> 4294967296"
proof -
  have "unat x < 2 ^ LENGTH(32)" by (rule unsigned_less)
  then show "unat x < 4294967296" "unat x \<le> 4294967296" by simp_all
qed

lemma word_of_nat_unat_u32: "of_nat (unat (x :: u32)) = x"
  by simp

lemma unat_minus_1: "unat (- 1 :: u32) = 4294967295"
proof -
  have "(- 1 :: u32) = 4294967295" by simp
  then show ?thesis by (simp only: unat_numeral) (simp add: take_bit_eq_mod)
qed

lemma unat_plus_noof:
  "unat (x :: 'a::len word) + unat y < 2 ^ LENGTH('a) \<Longrightarrow> unat (x + y) = unat x + unat y"
  by (simp add: unat_word_ariths)

lemma unat_minus_le: "(y :: 'a::len word) \<le> x \<Longrightarrow> unat (x - y) = unat x - unat y"
  by (simp add: unat_sub)

end
