(* ===== verification/Klist.thy ===== *)
theory Klist
  imports Prelude "HOL-Library.Multiset"
begin

text \<open>
  The intrusive doubly linked lists of \<^verbatim>\<open>lib/list.c\<close>, on an explicit heap of nodes.

  A \<^verbatim>\<open>list_node_t\<close> at address \<open>a\<close> is \<open>h a\<close>; a \<^verbatim>\<open>list_t\<close> at address \<open>l\<close> holds its
  sentinel \<^verbatim>\<open>head\<close> at \<open>l\<close> and its sentinel \<^verbatim>\<open>tail\<close> 8 bytes later. The operations follow
  the C statement by statement, so aliasing of nodes is visible. \<open>dlist h l xs\<close> says that
  \<open>l\<close> is a well-formed list whose nodes are \<open>xs\<close> in order, and \<open>klists h L\<close> that \<open>h\<close> holds
  a whole family of disjoint lists. The lemmas show that each operation implements the
  obvious operation on \<open>xs\<close>; the locale \<open>list_store\<close> states this as an interface for the
  components that keep their objects in such lists.
\<close>

section \<open>Nodes and the heap\<close>

record list_node =
  nprev :: addr
  nnext :: addr

type_synonym heap = "addr \<Rightarrow> list_node"

definition list_head :: "addr \<Rightarrow> addr" where
  "list_head l = l"

definition list_tail :: "addr \<Rightarrow> addr" where
  "list_tail l = l + 8"

text \<open>Reading or writing a node through \<open>NULL\<close> does not return.\<close>

definition load :: "heap \<Rightarrow> addr \<Rightarrow> list_node option" where
  "load h a = (if a = 0 then None else Some (h a))"

definition store_prev :: "heap \<Rightarrow> addr \<Rightarrow> addr \<Rightarrow> heap option" where
  "store_prev h a p = (if a = 0 then None else Some (h(a := (h a)\<lparr>nprev := p\<rparr>)))"

definition store_next :: "heap \<Rightarrow> addr \<Rightarrow> addr \<Rightarrow> heap option" where
  "store_next h a n = (if a = 0 then None else Some (h(a := (h a)\<lparr>nnext := n\<rparr>)))"

section \<open>The operations of list.c\<close>

definition list_init :: "heap \<Rightarrow> addr \<Rightarrow> heap option" where
  "list_init h l = do {
     h \<leftarrow> store_prev h (list_head l) 0;
     h \<leftarrow> store_next h (list_head l) (list_tail l);
     h \<leftarrow> store_prev h (list_tail l) (list_head l);
     store_next h (list_tail l) 0 }"

definition list_insert_before :: "heap \<Rightarrow> addr \<Rightarrow> addr \<Rightarrow> heap option" where
  "list_insert_before h anchor node = do {
     a \<leftarrow> load h anchor;
     h \<leftarrow> store_prev h node (nprev a);
     h \<leftarrow> store_next h node anchor;
     a \<leftarrow> load h anchor;
     h \<leftarrow> store_next h (nprev a) node;
     store_prev h anchor node }"

definition list_insert_after :: "heap \<Rightarrow> addr \<Rightarrow> addr \<Rightarrow> heap option" where
  "list_insert_after h anchor node = do {
     h \<leftarrow> store_prev h node anchor;
     a \<leftarrow> load h anchor;
     h \<leftarrow> store_next h node (nnext a);
     a \<leftarrow> load h anchor;
     h \<leftarrow> store_prev h (nnext a) node;
     store_next h anchor node }"

definition list_remove :: "heap \<Rightarrow> addr \<Rightarrow> heap option" where
  "list_remove h node = do {
     n \<leftarrow> load h node;
     assert_c (nprev n \<noteq> 0);
     assert_c (nnext n \<noteq> 0);
     h \<leftarrow> store_next h (nprev n) (nnext n);
     n \<leftarrow> load h node;
     h \<leftarrow> store_prev h (nnext n) (nprev n);
     h \<leftarrow> store_prev h node 0;
     store_next h node 0 }"

definition node_free :: "heap \<Rightarrow> addr \<Rightarrow> bool" where
  "node_free h a \<longleftrightarrow> nprev (h a) = 0 \<and> nnext (h a) = 0"

text \<open>
  The loops of \<^verbatim>\<open>list_size\<close>, \<^verbatim>\<open>list_contains\<close> and \<^verbatim>\<open>list_insert_sort\<close> follow the \<^verbatim>\<open>next\<close>
  pointers until they meet the tail sentinel; on a damaged list they need not stop, so they
  are partial functions.
\<close>

partial_function (option) size_loop :: "heap \<Rightarrow> addr \<Rightarrow> addr \<Rightarrow> u32 \<Rightarrow> u32 option" where
  "size_loop h tail cur cnt =
     (if cur = tail then Some cnt
      else do { n \<leftarrow> load h cur; size_loop h tail (nnext n) (cnt + 1) })"

partial_function (option) contains_loop :: "heap \<Rightarrow> addr \<Rightarrow> addr \<Rightarrow> addr \<Rightarrow> bool option" where
  "contains_loop h tail cur node =
     (if cur = tail then Some False
      else if cur = node then Some True
      else do { n \<leftarrow> load h cur; contains_loop h tail (nnext n) node })"

partial_function (option) sort_loop ::
  "heap \<Rightarrow> (addr \<Rightarrow> int) \<Rightarrow> addr \<Rightarrow> addr \<Rightarrow> int \<Rightarrow> addr option" where
  "sort_loop h key tail ptr k =
     (if ptr = tail then Some tail
      else if key ptr \<ge> k then Some ptr
      else do { n \<leftarrow> load h ptr; sort_loop h key tail (nnext n) k })"

definition list_size :: "heap \<Rightarrow> addr \<Rightarrow> u32 option" where
  "list_size h l = do { n \<leftarrow> load h (list_head l); size_loop h (list_tail l) (nnext n) 0 }"

definition list_contains :: "heap \<Rightarrow> addr \<Rightarrow> addr \<Rightarrow> bool option" where
  "list_contains h l node =
     do { n \<leftarrow> load h (list_head l); contains_loop h (list_tail l) (nnext n) node }"

definition list_empty :: "heap \<Rightarrow> addr \<Rightarrow> bool option" where
  "list_empty h l = do {
     hn \<leftarrow> load h (list_head l);
     tn \<leftarrow> load h (list_tail l);
     Some (nnext hn = list_tail l \<and> nprev tn = list_head l) }"

definition list_singular :: "heap \<Rightarrow> addr \<Rightarrow> bool option" where
  "list_singular h l = do {
     e \<leftarrow> list_empty h l;
     if e then Some False
     else do {
       hn \<leftarrow> load h (list_head l);
       n \<leftarrow> load h (nnext hn);
       Some (nnext n = list_tail l) } }"

definition list_istail :: "heap \<Rightarrow> addr \<Rightarrow> addr \<Rightarrow> bool option" where
  "list_istail h l node = do { n \<leftarrow> load h node; Some (nnext n = list_tail l) }"

definition list_ishead :: "heap \<Rightarrow> addr \<Rightarrow> addr \<Rightarrow> bool option" where
  "list_ishead h l node = do { n \<leftarrow> load h node; Some (nprev n = list_head l) }"

definition list_push_front :: "heap \<Rightarrow> addr \<Rightarrow> addr \<Rightarrow> heap option" where
  "list_push_front h l node = do {
     c \<leftarrow> list_contains h l node;
     assert_c (\<not> c);
     list_insert_after h (list_head l) node }"

definition list_pop_front :: "heap \<Rightarrow> addr \<Rightarrow> (addr \<times> heap) option" where
  "list_pop_front h l = do {
     e \<leftarrow> list_empty h l;
     assert_c (\<not> e);
     n \<leftarrow> load h (list_head l);
     h \<leftarrow> list_remove h (nnext n);
     Some (nnext n, h) }"

definition list_push_back :: "heap \<Rightarrow> addr \<Rightarrow> addr \<Rightarrow> heap option" where
  "list_push_back h l node = do {
     c \<leftarrow> list_contains h l node;
     assert_c (\<not> c);
     list_insert_before h (list_tail l) node }"

definition list_pop_back :: "heap \<Rightarrow> addr \<Rightarrow> (addr \<times> heap) option" where
  "list_pop_back h l = do {
     e \<leftarrow> list_empty h l;
     assert_c (\<not> e);
     n \<leftarrow> load h (list_tail l);
     h \<leftarrow> list_remove h (nprev n);
     Some (nprev n, h) }"

text \<open>
  The sort key of a node is an \<^verbatim>\<open>int\<close> field of the object the node lives in, at a fixed
  offset from the node; \<open>key\<close> stands for that read (\<^verbatim>\<open>list_node_key\<close>).
\<close>

definition list_insert_sort :: "heap \<Rightarrow> (addr \<Rightarrow> int) \<Rightarrow> addr \<Rightarrow> addr \<Rightarrow> heap option" where
  "list_insert_sort h key l node = do {
     n \<leftarrow> load h (list_head l);
     anchor \<leftarrow> sort_loop h key (list_tail l) (nnext n) (key node);
     nd \<leftarrow> load h node;
     assert_c (nprev nd = 0 \<and> nnext nd = 0);
     list_insert_before h anchor node }"

section \<open>Well-formed lists\<close>

fun linked :: "heap \<Rightarrow> addr list \<Rightarrow> bool" where
  "linked h (a # b # ns) \<longleftrightarrow> nnext (h a) = b \<and> nprev (h b) = a \<and> linked h (b # ns)"
| "linked h [a] \<longleftrightarrow> True"
| "linked h [] \<longleftrightarrow> True"

definition list_nodes :: "addr \<Rightarrow> addr list \<Rightarrow> addr list" where
  "list_nodes l xs = list_head l # xs @ [list_tail l]"

definition dlist :: "heap \<Rightarrow> addr \<Rightarrow> addr list \<Rightarrow> bool" where
  "dlist h l xs \<longleftrightarrow>
     linked h (list_nodes l xs) \<and> distinct (list_nodes l xs) \<and> 0 \<notin> set (list_nodes l xs) \<and>
     nprev (h (list_head l)) = 0 \<and> nnext (h (list_tail l)) = 0"

lemma linked_append:
  "linked h (as @ p # q # bs) \<longleftrightarrow>
     linked h (as @ [p]) \<and> nnext (h p) = q \<and> nprev (h q) = p \<and> linked h (q # bs)"
proof (induction as)
  case Nil
  then show ?case by simp
next
  case (Cons a as)
  then show ?case by (cases as) auto
qed

lemma linked_cong:
  "\<lbrakk>\<And>a. a \<in> set (butlast ns) \<Longrightarrow> nnext (h' a) = nnext (h a);
    \<And>a. a \<in> set (tl ns) \<Longrightarrow> nprev (h' a) = nprev (h a)\<rbrakk> \<Longrightarrow> linked h' ns = linked h ns"
proof (induction h ns rule: linked.induct)
  case (1 h a b ns)
  have "linked h' (b # ns) = linked h (b # ns)"
    by (rule "1.IH") (use "1.prems" in \<open>auto dest: in_set_tlD\<close>)
  then show ?case using "1.prems"(1) [of a] "1.prems"(2) [of b] by simp
qed auto

text \<open>The heap after \<open>x\<close> is linked in between \<open>p\<close> and \<open>q\<close>, and after it is unlinked.\<close>

definition ins :: "heap \<Rightarrow> addr \<Rightarrow> addr \<Rightarrow> addr \<Rightarrow> heap" where
  "ins h p x q = h(x := \<lparr>nprev = p, nnext = q\<rparr>, p := (h p)\<lparr>nnext := x\<rparr>, q := (h q)\<lparr>nprev := x\<rparr>)"

definition del :: "heap \<Rightarrow> addr \<Rightarrow> addr \<Rightarrow> addr \<Rightarrow> heap" where
  "del h p x q = h(p := (h p)\<lparr>nnext := q\<rparr>, q := (h q)\<lparr>nprev := p\<rparr>, x := \<lparr>nprev = 0, nnext = 0\<rparr>)"

lemmas heap_access = load_def store_prev_def store_next_def

lemma list_insert_before_ins:
  "\<lbrakk>nprev (h q) = p; x \<noteq> p; x \<noteq> q; p \<noteq> q; x \<noteq> 0; p \<noteq> 0; q \<noteq> 0\<rbrakk>
   \<Longrightarrow> list_insert_before h q x = Some (ins h p x q)"
  by (auto simp: list_insert_before_def heap_access ins_def fun_eq_iff)

lemma list_insert_after_ins:
  "\<lbrakk>nnext (h p) = q; x \<noteq> p; x \<noteq> q; p \<noteq> q; x \<noteq> 0; p \<noteq> 0; q \<noteq> 0\<rbrakk>
   \<Longrightarrow> list_insert_after h p x = Some (ins h p x q)"
  by (auto simp: list_insert_after_def heap_access ins_def fun_eq_iff)

lemma list_remove_del:
  "\<lbrakk>nprev (h x) = p; nnext (h x) = q; x \<noteq> p; x \<noteq> q; p \<noteq> q; x \<noteq> 0; p \<noteq> 0; q \<noteq> 0\<rbrakk>
   \<Longrightarrow> list_remove h x = Some (del h p x q)"
  by (auto simp: list_remove_def heap_access del_def fun_eq_iff)

lemma linked_ins:
  assumes "linked h (as @ p # q # bs)" and "distinct (as @ p # q # bs)"
    and "x \<notin> set (as @ p # q # bs)"
  shows "linked (ins h p x q) (as @ p # x # q # bs)"
proof -
  have "linked (ins h p x q) (as @ [p]) = linked h (as @ [p])"
    by (rule linked_cong) (use assms in \<open>auto simp: ins_def dest: in_set_tlD\<close>)
  moreover have "linked (ins h p x q) (q # bs) = linked h (q # bs)"
    by (rule linked_cong) (use assms in \<open>auto simp: ins_def dest: in_set_butlastD split: if_splits\<close>)
  ultimately show ?thesis
    using assms by (simp add: linked_append) (auto simp: ins_def)
qed

lemma linked_del:
  assumes "linked h (as @ p # x # q # bs)" and "distinct (as @ p # x # q # bs)"
  shows "linked (del h p x q) (as @ p # q # bs)"
proof -
  have "linked (del h p x q) (as @ [p]) = linked h (as @ [p])"
    by (rule linked_cong) (use assms in \<open>auto simp: del_def dest: in_set_tlD\<close>)
  moreover have "linked (del h p x q) (q # bs) = linked h (q # bs)"
    by (rule linked_cong) (use assms in \<open>auto simp: del_def dest: in_set_butlastD split: if_splits\<close>)
  ultimately show ?thesis
    using assms by (simp add: linked_append) (auto simp: del_def)
qed

text \<open>The neighbours of a position in a list: the sentinels stand in at the ends.\<close>

definition before :: "addr \<Rightarrow> addr list \<Rightarrow> addr" where
  "before l as = last (list_head l # as)"

definition after :: "addr \<Rightarrow> addr list \<Rightarrow> addr" where
  "after l bs = hd (bs @ [list_tail l])"

lemma list_nodes_split:
  "list_nodes l (as @ bs) = butlast (list_head l # as) @ before l as # after l bs # tl (bs @ [list_tail l])"
  unfolding list_nodes_def before_def after_def
  by (cases bs; cases as rule: rev_cases) auto

lemma list_nodes_split3:
  "list_nodes l (as @ x # bs) =
     butlast (list_head l # as) @ before l as # x # after l bs # tl (bs @ [list_tail l])"
  unfolding list_nodes_def before_def after_def
  by (cases bs; cases as rule: rev_cases) auto

lemma before_in: "before l as \<in> set (list_head l # as)"
  unfolding before_def by (rule last_in_set) simp

lemma after_in: "after l bs \<in> set (bs @ [list_tail l])"
  unfolding after_def by (rule hd_in_set) simp

lemma linked_nodes_ins:
  assumes "linked h (list_nodes l (as @ bs))" and "distinct (list_nodes l (as @ bs))"
    and "x \<notin> set (list_nodes l (as @ bs))"
  shows "linked (ins h (before l as) x (after l bs)) (list_nodes l (as @ x # bs))"
  using assms linked_ins unfolding list_nodes_split [of l as bs] list_nodes_split3 by blast

lemma linked_nodes_del:
  assumes "linked h (list_nodes l (as @ x # bs))" and "distinct (list_nodes l (as @ x # bs))"
  shows "linked (del h (before l as) x (after l bs)) (list_nodes l (as @ bs))"
  using assms linked_del unfolding list_nodes_split [of l as bs] list_nodes_split3 by blast

lemma dlist_ins:
  assumes d: "dlist h l (as @ bs)" and x: "x \<notin> set (list_nodes l (as @ bs))" "x \<noteq> 0"
  shows "dlist (ins h (before l as) x (after l bs)) l (as @ x # bs)"
proof -
  let ?h = "ins h (before l as) x (after l bs)"
  have "before l as \<noteq> list_tail l" "after l bs \<noteq> list_head l" "x \<noteq> list_head l" "x \<noteq> list_tail l"
    using before_in [of l as] after_in [of l bs] d x by (auto simp: dlist_def list_nodes_def)
  then have "nprev (?h (list_head l)) = 0" "nnext (?h (list_tail l)) = 0"
    using d by (auto simp: ins_def dlist_def)
  moreover have "distinct (list_nodes l (as @ x # bs))" "0 \<notin> set (list_nodes l (as @ x # bs))"
    using d x by (auto simp: dlist_def list_nodes_def)
  ultimately show ?thesis
    using linked_nodes_ins d x by (simp add: dlist_def)
qed

lemma dlist_del:
  assumes d: "dlist h l (as @ x # bs)"
  shows "dlist (del h (before l as) x (after l bs)) l (as @ bs)"
proof -
  let ?h = "del h (before l as) x (after l bs)"
  have "before l as \<noteq> list_tail l" "after l bs \<noteq> list_head l" "x \<noteq> list_head l" "x \<noteq> list_tail l"
    using before_in [of l as] after_in [of l bs] d by (auto simp: dlist_def list_nodes_def)
  then have "nprev (?h (list_head l)) = 0" "nnext (?h (list_tail l)) = 0"
    using d by (auto simp: del_def dlist_def)
  moreover have "distinct (list_nodes l (as @ bs))" "0 \<notin> set (list_nodes l (as @ bs))"
    using d by (auto simp: dlist_def list_nodes_def)
  ultimately show ?thesis
    using linked_nodes_del d by (simp add: dlist_def)
qed

text \<open>What the pointers of a well-formed list say about its neighbours.\<close>

lemma dlist_adjacent:
  assumes "dlist h l (as @ bs)"
  shows "nnext (h (before l as)) = after l bs" "nprev (h (after l bs)) = before l as"
    "before l as \<noteq> after l bs" "before l as \<noteq> 0" "after l bs \<noteq> 0"
  using assms unfolding dlist_def list_nodes_split [of l as bs] by (auto simp: linked_append)

lemma dlist_middle:
  assumes "dlist h l (as @ x # bs)"
  shows "nprev (h x) = before l as" "nnext (h x) = after l bs"
    "before l as \<noteq> after l bs" "x \<noteq> before l as" "x \<noteq> after l bs"
    "before l as \<noteq> 0" "after l bs \<noteq> 0" "x \<noteq> 0"
  using assms unfolding dlist_def list_nodes_split3
    linked_append [of h "butlast (list_head l # as)" "before l as" x]
  by (auto simp del: butlast.simps)

lemma dlist_cong:
  assumes "\<And>a. a \<in> set (list_nodes l xs) \<Longrightarrow> h' a = h a"
  shows "dlist h' l xs = dlist h l xs"
proof -
  have "linked h' (list_nodes l xs) = linked h (list_nodes l xs)"
    by (rule linked_cong) (use assms in \<open>auto dest: in_set_butlastD in_set_tlD\<close>)
  moreover have "h' (list_head l) = h (list_head l)" "h' (list_tail l) = h (list_tail l)"
    using assms by (auto simp: list_nodes_def)
  ultimately show ?thesis by (simp add: dlist_def)
qed

section \<open>The loops on a well-formed list\<close>

text \<open>
  From a node whose remaining list is \<open>bs\<close>, a loop that follows \<open>nnext\<close> visits exactly
  \<open>bs\<close> and stops at the tail. Each loop is computed by induction on \<open>bs\<close>.
\<close>

lemma dlist_shift: "dlist h l (as @ x # bs) \<Longrightarrow> dlist h l ((as @ [x]) @ bs)"
  by simp

lemma dlist_suffix_facts:
  assumes "dlist h l (as @ x # bs)"
  shows "x \<noteq> list_tail l" "load h x = Some (h x)" "nnext (h x) = after l bs"
  using assms dlist_middle [OF assms] by (auto simp: dlist_def list_nodes_def load_def)

lemma after_simps [simp]: "after l [] = list_tail l" "after l (x # bs) = x"
  by (simp_all add: after_def)

lemma before_simps [simp]: "before l [] = list_head l" "before l (as @ [x]) = x"
  by (simp_all add: before_def)

lemma size_loop_dlist:
  "dlist h l (as @ bs) \<Longrightarrow> size_loop h (list_tail l) (after l bs) c = Some (c + of_nat (length bs))"
proof (induction bs arbitrary: as c)
  case Nil
  then show ?case by (simp add: size_loop.simps)
next
  case (Cons x bs)
  from dlist_suffix_facts [OF Cons.prems] Cons.IH [OF dlist_shift [OF Cons.prems]]
  show ?case by (simp add: size_loop.simps [of h _ x] algebra_simps)
qed

lemma contains_loop_dlist:
  "dlist h l (as @ bs) \<Longrightarrow> contains_loop h (list_tail l) (after l bs) x = Some (x \<in> set bs)"
proof (induction bs arbitrary: as)
  case Nil
  then show ?case by (simp add: contains_loop.simps)
next
  case (Cons y bs)
  from dlist_suffix_facts [OF Cons.prems] Cons.IH [OF dlist_shift [OF Cons.prems]]
  show ?case by (auto simp: contains_loop.simps [of h _ y])
qed

lemma sort_loop_dlist:
  "dlist h l (as @ bs) \<Longrightarrow>
     sort_loop h key (list_tail l) (after l bs) k = Some (after l (dropWhile (\<lambda>y. key y < k) bs))"
proof (induction bs arbitrary: as)
  case Nil
  then show ?case by (simp add: sort_loop.simps)
next
  case (Cons y bs)
  from dlist_suffix_facts [OF Cons.prems] Cons.IH [OF dlist_shift [OF Cons.prems]]
  show ?case by (auto simp: sort_loop.simps [of h _ _ y])
qed

lemma dlist_first:
  assumes "dlist h l xs"
  shows "load h (list_head l) = Some (h (list_head l))" "nnext (h (list_head l)) = after l xs"
    "load h (list_tail l) = Some (h (list_tail l))" "nprev (h (list_tail l)) = before l xs"
  using assms dlist_adjacent [of h l "[]" xs] dlist_adjacent [of h l xs "[]"]
  by (auto simp: dlist_def list_nodes_def load_def)

lemma list_size_dlist: "dlist h l xs \<Longrightarrow> list_size h l = Some (of_nat (length xs))"
  using size_loop_dlist [of h l "[]" xs 0] by (simp add: list_size_def dlist_first)

lemma list_contains_dlist [kernel_simps]: "dlist h l xs \<Longrightarrow> list_contains h l x = Some (x \<in> set xs)"
  using contains_loop_dlist [of h l "[]" xs x] by (simp add: list_contains_def dlist_first)

lemma list_empty_dlist [kernel_simps]: "dlist h l xs \<Longrightarrow> list_empty h l = Some (xs = [])"
  using before_in [of l xs]
  by (cases xs) (auto simp: list_empty_def dlist_first dest: dlist_suffix_facts(1) [of h l "[]", simplified])

lemma list_singular_dlist [kernel_simps]:
  assumes d: "dlist h l xs"
  shows "list_singular h l = Some (length xs = 1)"
proof (cases xs)
  case Nil
  with d show ?thesis by (simp add: list_singular_def list_empty_dlist)
next
  case (Cons x ys)
  have "after l ys = list_tail l \<longleftrightarrow> ys = []"
    using d after_in [of l ys] Cons by (cases ys) (auto simp: dlist_def list_nodes_def)
  with d dlist_suffix_facts [of h l "[]" x ys] Cons show ?thesis
    by (simp add: list_singular_def list_empty_dlist dlist_first)
qed

section \<open>A family of disjoint lists\<close>

text \<open>
  The kernel keeps many lists over one pool of nodes (a node moves between the waiting
  queues, for instance). \<open>L\<close> maps the address of every \<^verbatim>\<open>list_t\<close> to its contents; \<open>owned L\<close>
  are the addresses of all sentinels and linked nodes.
\<close>

definition owned :: "(addr \<rightharpoonup> addr list) \<Rightarrow> addr set" where
  "owned L = (\<Union>l \<in> dom L. set (list_nodes l (the (L l))))"

definition klists :: "heap \<Rightarrow> (addr \<rightharpoonup> addr list) \<Rightarrow> bool" where
  "klists h L \<longleftrightarrow>
     (\<forall>l xs. L l = Some xs \<longrightarrow> dlist h l xs) \<and>
     (\<forall>l l' xs xs'. L l = Some xs \<longrightarrow> L l' = Some xs' \<longrightarrow> l \<noteq> l' \<longrightarrow>
        set (list_nodes l xs) \<inter> set (list_nodes l' xs') = {})"

definition insert_by :: "(addr \<Rightarrow> int) \<Rightarrow> addr \<Rightarrow> addr list \<Rightarrow> addr list" where
  "insert_by key x xs =
     takeWhile (\<lambda>y. key y < key x) xs @ x # dropWhile (\<lambda>y. key y < key x) xs"

lemma ownedI: "L l = Some xs \<Longrightarrow> a \<in> set (list_nodes l xs) \<Longrightarrow> a \<in> owned L"
  by (auto simp: owned_def intro!: bexI [of _ l])

lemma in_list_owned [intro]: "L l = Some xs \<Longrightarrow> x \<in> set xs \<Longrightarrow> x \<in> owned L"
  by (rule ownedI) (auto simp: list_nodes_def)

lemma in_owned_iff:
  "a \<in> owned L \<longleftrightarrow> (\<exists>k zs. L k = Some zs \<and> a \<in> set (list_nodes k zs))"
  by (auto simp: owned_def dom_def) (metis option.sel)

lemma in_owned_cases:
  "L l = Some xs \<Longrightarrow> a \<in> owned L \<longleftrightarrow>
     a \<in> set (list_nodes l xs) \<or> (\<exists>k zs. k \<noteq> l \<and> L k = Some zs \<and> a \<in> set (list_nodes k zs))"
  by (auto simp: in_owned_iff) (metis option.inject)

lemma in_owned_upd:
  "a \<in> owned (L(l \<mapsto> ys)) \<longleftrightarrow>
     a \<in> set (list_nodes l ys) \<or> (\<exists>k zs. k \<noteq> l \<and> L k = Some zs \<and> a \<in> set (list_nodes k zs))"
  by (auto simp: in_owned_iff)

lemma owned_upd_split:
  "L l = Some (as @ bs) \<Longrightarrow> owned (L(l \<mapsto> as @ x # bs)) = insert x (owned L)"
  by (rule set_eqI) (auto simp: in_owned_upd in_owned_cases [of L l "as @ bs"] list_nodes_def)

lemma klistsD: "klists h L \<Longrightarrow> L l = Some xs \<Longrightarrow> dlist h l xs"
  by (auto simp: klists_def)

lemma klists_disjoint:
  "klists h L \<Longrightarrow> L l = Some xs \<Longrightarrow> L l' = Some xs' \<Longrightarrow> l \<noteq> l' \<Longrightarrow>
     set (list_nodes l xs) \<inter> set (list_nodes l' xs') = {}"
  unfolding klists_def by blast

lemma lists_nonnull: "klists h L \<Longrightarrow> 0 \<notin> owned L"
  by (auto simp: klists_def owned_def dlist_def)

lemma lists_update:
  assumes "klists h L" and "L l = Some xs" and "dlist h' l ys"
    and "set (list_nodes l ys) \<subseteq> set (list_nodes l xs) \<union> (- owned L)"
    and "\<And>a. a \<notin> set (list_nodes l xs) \<Longrightarrow> a \<in> owned L \<Longrightarrow> h' a = h a"
  shows "klists h' (L(l \<mapsto> ys))"
proof -
  have other: "dlist h' k zs \<and> set (list_nodes k zs) \<inter> set (list_nodes l ys) = {}"
    if k: "L k = Some zs" "k \<noteq> l" for k zs
  proof -
    have d: "set (list_nodes k zs) \<inter> set (list_nodes l xs) = {}"
      using klists_disjoint [OF assms(1) k(1) assms(2) k(2)] .
    have o: "set (list_nodes k zs) \<subseteq> owned L" using k(1) ownedI by blast
    have "dlist h' k zs = dlist h k zs"
      by (rule dlist_cong) (use d o assms(5) in blast)
    with d o k assms(4) klistsD [OF assms(1) k(1)] show ?thesis by blast
  qed
  show ?thesis
    unfolding klists_def
  proof (intro conjI allI impI)
    fix k zs assume "(L(l \<mapsto> ys)) k = Some zs"
    then show "dlist h' k zs" using other assms(3) by (auto split: if_splits)
  next
    fix k k' zs zs'
    assume "(L(l \<mapsto> ys)) k = Some zs" "(L(l \<mapsto> ys)) k' = Some zs'" "k \<noteq> k'"
    then show "set (list_nodes k zs) \<inter> set (list_nodes k' zs') = {}"
      using other klists_disjoint [OF assms(1)] by (auto split: if_splits)
  qed
qed

lemma lists_ins:
  assumes "klists h L" and "L l = Some (as @ bs)" and "x \<notin> owned L" and "x \<noteq> 0"
  shows "klists (ins h (before l as) x (after l bs)) (L(l \<mapsto> as @ x # bs))"
    and "a \<notin> owned L \<Longrightarrow> a \<noteq> x \<Longrightarrow> ins h (before l as) x (after l bs) a = h a"
proof -
  have "before l as \<in> set (list_nodes l (as @ bs))" "after l bs \<in> set (list_nodes l (as @ bs))"
    using before_in [of l as] after_in [of l bs] by (auto simp: list_nodes_def)
  note pq = this this [THEN ownedI [of L l, OF assms(2)]]
  show "klists (ins h (before l as) x (after l bs)) (L(l \<mapsto> as @ x # bs))"
  proof (rule lists_update [OF assms(1,2)])
    show "dlist (ins h (before l as) x (after l bs)) l (as @ x # bs)"
      by (rule dlist_ins) (use assms klistsD [OF assms(1,2)] ownedI [of L l, OF assms(2)] in auto)
    show "set (list_nodes l (as @ x # bs)) \<subseteq> set (list_nodes l (as @ bs)) \<union> - owned L"
      using assms(3) by (auto simp: list_nodes_def)
  qed (use pq assms(3) in \<open>auto simp: ins_def\<close>)
  show "ins h (before l as) x (after l bs) a = h a" if "a \<notin> owned L" "a \<noteq> x"
    using pq that by (auto simp: ins_def)
qed

lemma lists_del:
  assumes "klists h L" and "L l = Some (as @ x # bs)"
  shows "klists (del h (before l as) x (after l bs)) (L(l \<mapsto> as @ bs))"
    and "a \<notin> owned L \<Longrightarrow> del h (before l as) x (after l bs) a = h a"
proof -
  have "before l as \<in> set (list_nodes l (as @ x # bs))" "after l bs \<in> set (list_nodes l (as @ x # bs))"
    "x \<in> set (list_nodes l (as @ x # bs))"
    using before_in [of l as] after_in [of l bs] by (auto simp: list_nodes_def)
  note pq = this this [THEN ownedI [of L l, OF assms(2)]]
  show "klists (del h (before l as) x (after l bs)) (L(l \<mapsto> as @ bs))"
  proof (rule lists_update [OF assms])
    show "dlist (del h (before l as) x (after l bs)) l (as @ bs)"
      by (rule dlist_del) (rule klistsD [OF assms])
    show "set (list_nodes l (as @ bs)) \<subseteq> set (list_nodes l (as @ x # bs)) \<union> - owned L"
      by (auto simp: list_nodes_def)
  qed (use pq in \<open>auto simp: del_def\<close>)
  show "del h (before l as) x (after l bs) a = h a" if "a \<notin> owned L"
    using pq that by (auto simp: del_def)
qed

section \<open>The operations on a family of lists\<close>

text \<open>
  \<open>moved h h' A\<close>: outside \<open>A\<close> the operation left every node alone.
\<close>

definition moved :: "heap \<Rightarrow> heap \<Rightarrow> addr set \<Rightarrow> bool" where
  "moved h h' A \<longleftrightarrow> (\<forall>a. a \<notin> A \<longrightarrow> h' a = h a)"

lemma list_insert_before_lists:
  assumes "klists h L" and "L l = Some (as @ bs)" and "x \<notin> owned L" and "x \<noteq> 0"
  shows "\<exists>h'. list_insert_before h (after l bs) x = Some h' \<and> klists h' (L(l \<mapsto> as @ x # bs)) \<and>
     moved h h' (insert x (owned L))"
proof -
  note d = klistsD [OF assms(1,2)]
  have "x \<noteq> before l as" "x \<noteq> after l bs"
    using assms(3) ownedI [of L l, OF assms(2)] before_in [of l as] after_in [of l bs]
    by (auto simp: list_nodes_def)
  with dlist_adjacent [OF d] assms(4)
  have "list_insert_before h (after l bs) x = Some (ins h (before l as) x (after l bs))"
    by (intro list_insert_before_ins) auto
  with lists_ins [OF assms] show ?thesis by (auto simp: moved_def)
qed

lemma list_insert_after_lists:
  assumes "klists h L" and "L l = Some (as @ bs)" and "x \<notin> owned L" and "x \<noteq> 0"
  shows "\<exists>h'. list_insert_after h (before l as) x = Some h' \<and> klists h' (L(l \<mapsto> as @ x # bs)) \<and>
     moved h h' (insert x (owned L))"
proof -
  note d = klistsD [OF assms(1,2)]
  have "x \<noteq> before l as" "x \<noteq> after l bs"
    using assms(3) ownedI [of L l, OF assms(2)] before_in [of l as] after_in [of l bs]
    by (auto simp: list_nodes_def)
  with dlist_adjacent [OF d] assms(4)
  have "list_insert_after h (before l as) x = Some (ins h (before l as) x (after l bs))"
    by (intro list_insert_after_ins) auto
  with lists_ins [OF assms] show ?thesis by (auto simp: moved_def)
qed

lemma list_remove_lists:
  assumes "klists h L" and "L l = Some (as @ x # bs)"
  shows "\<exists>h'. list_remove h x = Some h' \<and> klists h' (L(l \<mapsto> as @ bs)) \<and>
     moved h h' (owned L) \<and> node_free h' x"
proof -
  note d = klistsD [OF assms]
  from dlist_middle [OF d]
  have "list_remove h x = Some (del h (before l as) x (after l bs))"
    by (intro list_remove_del) auto
  with lists_del [OF assms] show ?thesis
    by (auto simp: moved_def node_free_def del_def)
qed

lemma list_push_back_lists:
  assumes "klists h L" and "L l = Some xs" and "x \<notin> owned L" and "x \<noteq> 0"
  shows "\<exists>h'. list_push_back h l x = Some h' \<and> klists h' (L(l \<mapsto> xs @ [x])) \<and>
     moved h h' (insert x (owned L))"
  using list_insert_before_lists [of h L l xs "[]" x] assms
  by (auto simp: list_push_back_def list_contains_dlist [OF klistsD [OF assms(1,2)]])

lemma list_push_front_lists:
  assumes "klists h L" and "L l = Some xs" and "x \<notin> owned L" and "x \<noteq> 0"
  shows "\<exists>h'. list_push_front h l x = Some h' \<and> klists h' (L(l \<mapsto> x # xs)) \<and>
     moved h h' (insert x (owned L))"
  using list_insert_after_lists [of h L l "[]" xs x] assms
  by (auto simp: list_push_front_def list_contains_dlist [OF klistsD [OF assms(1,2)]])

lemma list_pop_front_lists:
  assumes "klists h L" and "L l = Some (x # xs)"
  shows "\<exists>h'. list_pop_front h l = Some (x, h') \<and> klists h' (L(l \<mapsto> xs)) \<and>
     moved h h' (owned L) \<and> node_free h' x"
  using list_remove_lists [of h L l "[]" x xs] assms
  by (auto simp: list_pop_front_def list_empty_dlist [OF klistsD [OF assms]]
      dlist_first [OF klistsD [OF assms]])

lemma list_pop_back_lists:
  assumes "klists h L" and "L l = Some (xs @ [x])"
  shows "\<exists>h'. list_pop_back h l = Some (x, h') \<and> klists h' (L(l \<mapsto> xs)) \<and>
     moved h h' (owned L) \<and> node_free h' x"
  using list_remove_lists [of h L l xs x "[]"] assms
  by (auto simp: list_pop_back_def list_empty_dlist [OF klistsD [OF assms]]
      dlist_first [OF klistsD [OF assms]])

lemma list_pop_empty:
  assumes "klists h L" and "L l = Some []"
  shows "list_pop_front h l = None" "list_pop_back h l = None"
  by (simp_all add: list_pop_front_def list_pop_back_def list_empty_dlist [OF klistsD [OF assms]])

lemma list_insert_sort_lists:
  assumes "klists h L" and "L l = Some xs" and "x \<notin> owned L" and "x \<noteq> 0" and "node_free h x"
  shows "\<exists>h'. list_insert_sort h key l x = Some h' \<and> klists h' (L(l \<mapsto> insert_by key x xs)) \<and>
     moved h h' (insert x (owned L))"
proof -
  note d = klistsD [OF assms(1,2)]
  let ?as = "takeWhile (\<lambda>y. key y < key x) xs" and ?bs = "dropWhile (\<lambda>y. key y < key x) xs"
  have L: "L l = Some (?as @ ?bs)" using assms(2) by simp
  have "sort_loop h key (list_tail l) (after l xs) (key x) = Some (after l ?bs)"
    using sort_loop_dlist [of h l "[]" xs] d by simp
  with list_insert_before_lists [OF assms(1) L assms(3,4)] assms(4,5) show ?thesis
    by (auto simp: list_insert_sort_def dlist_first [OF d] insert_by_def load_def [of h x] node_free_def)
qed

lemma list_init_lists:
  assumes "klists h L" and "list_head l \<notin> owned L" and "list_tail l \<notin> owned L"
    and "l \<noteq> 0" and "list_tail l \<noteq> 0"
  shows "\<exists>h'. list_init h l = Some h' \<and> klists h' (L(l \<mapsto> [])) \<and> moved h h' {list_head l, list_tail l}"
proof -
  let ?h = "h(l := \<lparr>nprev = 0, nnext = list_tail l\<rparr>, list_tail l := \<lparr>nprev = l, nnext = 0\<rparr>)"
  have t: "list_tail l \<noteq> l" by (simp add: list_tail_def)
  have "list_init h l = Some ?h"
    using assms(4,5) t by (auto simp: list_init_def heap_access list_head_def fun_eq_iff)
  moreover have l: "dlist ?h l []"
    using assms(4,5) t by (simp add: dlist_def list_nodes_def list_head_def)
  have o: "dlist ?h k zs \<and> set (list_nodes k zs) \<inter> set (list_nodes l []) = {}"
    if "L k = Some zs" for k zs
    using that assms(2,3) klistsD [OF assms(1) that] ownedI [of L k, OF that]
    by (subst dlist_cong [of k zs ?h h]) (auto simp: list_nodes_def list_head_def)
  have "L l = None"
  proof (rule ccontr)
    assume "L l \<noteq> None"
    then obtain zs where "L l = Some zs" by auto
    from ownedI [of L l, OF this, of "list_head l"] assms(2) show False by (simp add: list_nodes_def)
  qed
  then have "klists ?h (L(l \<mapsto> []))"
    using l o klists_disjoint [OF assms(1)] unfolding klists_def
    by (simp add: Int_commute)
  moreover have "moved h ?h {list_head l, list_tail l}"
    by (simp add: moved_def list_head_def)
  ultimately show ?thesis by blast
qed

section \<open>The interface\<close>

text \<open>
  What the rest of the kernel relies on. A store \<open>holds\<close> a family \<open>L\<close>; \<open>free\<close> is the
  test of \<^verbatim>\<open>ASSERT_NODE_FREE\<close>; \<open>frame h h' A\<close> bounds what an operation touched.
\<close>

primrec pops :: "('h \<Rightarrow> (addr \<times> 'h) option) \<Rightarrow> nat \<Rightarrow> 'h \<Rightarrow> (addr list \<times> 'h) option" where
  "pops pop 0 h = Some ([], h)"
| "pops pop (Suc n) h =
     do { (x, h) \<leftarrow> pop h; (xs, h) \<leftarrow> pops pop n h; Some (x # xs, h) }"

locale list_store =
  fixes holds :: "'h \<Rightarrow> (addr \<rightharpoonup> addr list) \<Rightarrow> bool"
    and free :: "'h \<Rightarrow> addr \<Rightarrow> bool"
    and frame :: "'h \<Rightarrow> 'h \<Rightarrow> addr set \<Rightarrow> bool"
    and push_front :: "'h \<Rightarrow> addr \<Rightarrow> addr \<Rightarrow> 'h option"
    and push_back :: "'h \<Rightarrow> addr \<Rightarrow> addr \<Rightarrow> 'h option"
    and pop_front :: "'h \<Rightarrow> addr \<Rightarrow> (addr \<times> 'h) option"
    and rm :: "'h \<Rightarrow> addr \<Rightarrow> 'h option"
    and insert_sort :: "'h \<Rightarrow> (addr \<Rightarrow> int) \<Rightarrow> addr \<Rightarrow> addr \<Rightarrow> 'h option"
  assumes push_front: "\<lbrakk>holds h L; L l = Some xs; x \<notin> owned L; x \<noteq> 0\<rbrakk> \<Longrightarrow>
      \<exists>h'. push_front h l x = Some h' \<and> holds h' (L(l \<mapsto> x # xs)) \<and> frame h h' (insert x (owned L))"
    and push_back: "\<lbrakk>holds h L; L l = Some xs; x \<notin> owned L; x \<noteq> 0\<rbrakk> \<Longrightarrow>
      \<exists>h'. push_back h l x = Some h' \<and> holds h' (L(l \<mapsto> xs @ [x])) \<and> frame h h' (insert x (owned L))"
    and pop_front: "\<lbrakk>holds h L; L l = Some (x # xs)\<rbrakk> \<Longrightarrow>
      \<exists>h'. pop_front h l = Some (x, h') \<and> holds h' (L(l \<mapsto> xs)) \<and> frame h h' (owned L) \<and> free h' x"
    and rm: "\<lbrakk>holds h L; L l = Some (as @ x # bs)\<rbrakk> \<Longrightarrow>
      \<exists>h'. rm h x = Some h' \<and> holds h' (L(l \<mapsto> as @ bs)) \<and> frame h h' (owned L) \<and> free h' x"
    and insert_sort: "\<lbrakk>holds h L; L l = Some xs; x \<notin> owned L; x \<noteq> 0; free h x\<rbrakk> \<Longrightarrow>
      \<exists>h'. insert_sort h key l x = Some h' \<and> holds h' (L(l \<mapsto> insert_by key x xs)) \<and>
        frame h h' (insert x (owned L))"
    and disjoint: "\<lbrakk>holds h L; L l = Some xs; L k = Some ys; l \<noteq> k\<rbrakk> \<Longrightarrow>
      set (list_nodes l xs) \<inter> set (list_nodes k ys) = {}"
    and distinct: "\<lbrakk>holds h L; L l = Some xs\<rbrakk> \<Longrightarrow> distinct (list_nodes l xs) \<and> 0 \<notin> set (list_nodes l xs)"
    and frame_free: "\<lbrakk>frame h h' A; a \<notin> A\<rbrakk> \<Longrightarrow> free h' a = free h a"

lemma set_insert_by: "set (insert_by key x xs) = insert x (set xs)"
  unfolding insert_by_def by (metis Un_insert_right list.set(2) set_append takeWhile_dropWhile_id)

lemma sorted_insert_by:
  assumes "sorted (map key xs)"
  shows "sorted (map key (insert_by key x xs))"
  using assms
proof (induction xs)
  case Nil
  then show ?case by (simp add: insert_by_def)
next
  case (Cons y ys)
  then show ?case
    by (cases "key y < key x")
      (auto simp: insert_by_def dest: set_takeWhileD set_dropWhileD)
qed

context list_store
begin

lemma removed_not_owned:
  assumes "holds h L" and "L l = Some (as @ x # bs)"
  shows "x \<notin> owned (L(l \<mapsto> as @ bs))" and "owned (L(l \<mapsto> as @ bs)) \<subseteq> owned L"
proof -
  have "x \<notin> set (list_nodes k zs)" if "k \<noteq> l" "L k = Some zs" for k zs
    using disjoint [OF assms that(2)] that(1) by (auto simp: list_nodes_def)
  moreover have "x \<notin> set (list_nodes l (as @ bs))"
    using distinct [OF assms] by (auto simp: list_nodes_def)
  ultimately show "x \<notin> owned (L(l \<mapsto> as @ bs))" by (auto simp: in_owned_upd)
  show "owned (L(l \<mapsto> as @ bs)) \<subseteq> owned L"
    by (auto simp: in_owned_upd in_owned_cases [of L l, OF assms(2)] list_nodes_def)
qed

text \<open>Moving a node from one queue to the end of another, as the kernel does with tasks.\<close>

lemma move_back:
  assumes "holds h L" and "L l = Some (as @ x # bs)" and "L k = Some ys" and "k \<noteq> l"
  shows "\<exists>h1 h2. rm h x = Some h1 \<and> free h1 x \<and> push_back h1 k x = Some h2 \<and>
     holds h2 (L(l \<mapsto> as @ bs, k \<mapsto> ys @ [x]))"
proof -
  from rm [OF assms(1,2)] obtain h1 where
    h1: "rm h x = Some h1" "holds h1 (L(l \<mapsto> as @ bs))" "free h1 x" by blast
  have x0: "x \<noteq> 0" using distinct [OF assms(1,2)] by (auto simp: list_nodes_def)
  have "(L(l \<mapsto> as @ bs)) k = Some ys" using assms(3,4) by simp
  from push_back [OF h1(2) this removed_not_owned(1) [OF assms(1,2)] x0] h1(1,3)
  show ?thesis by blast
qed

lemma rm_member:
  assumes "holds h L" and "L l = Some xs" and "x \<in> set xs"
  shows "\<exists>h'. rm h x = Some h' \<and> holds h' (L(l \<mapsto> remove1 x xs)) \<and> frame h h' (owned L) \<and> free h' x"
proof -
  from assms(3) obtain as bs where xs: "xs = as @ x # bs" "x \<notin> set as" by (meson split_list_first)
  with rm [OF assms(1), of l as x bs] assms(2) show ?thesis by auto
qed

text \<open>A list used with \<open>push_back\<close> and \<open>pop_front\<close> is a first-in first-out queue.\<close>

lemma push_all:
  assumes "holds h L" and "L l = Some ys" and "distinct xs" and "set xs \<inter> owned L = {}" and "0 \<notin> set xs"
  shows "\<exists>h'. forM xs (\<lambda>x h. push_back h l x) h = Some h' \<and> holds h' (L(l \<mapsto> ys @ xs))"
  using assms
proof (induction xs arbitrary: h L ys)
  case Nil
  then show ?case by (simp add: map_upd_triv)
next
  case (Cons x xs)
  from push_back [of h L l ys x] Cons.prems obtain h1 where
    h1: "push_back h l x = Some h1" "holds h1 (L(l \<mapsto> ys @ [x]))" by auto
  have "owned (L(l \<mapsto> ys @ [x])) = insert x (owned L)"
    using owned_upd_split [of L l ys "[]"] Cons.prems(2) by simp
  with Cons.IH [OF h1(2), of "ys @ [x]"] Cons.prems h1(1) show ?case
    by (auto simp del: fun_upd_apply simp: fun_upd_same)
qed

lemma pop_all:
  assumes "holds h L" and "L l = Some xs"
  shows "\<exists>h'. pops (\<lambda>h. pop_front h l) (length xs) h = Some (xs, h') \<and> holds h' (L(l \<mapsto> []))"
  using assms
proof (induction xs arbitrary: h L)
  case Nil
  then show ?case by (simp add: map_upd_triv)
next
  case (Cons x xs)
  from pop_front [OF Cons.prems] obtain h1 where
    h1: "pop_front h l = Some (x, h1)" "holds h1 (L(l \<mapsto> xs))" by blast
  from Cons.IH [OF h1(2)] h1(1) show ?case
    by (auto simp del: fun_upd_apply simp: fun_upd_same)
qed

lemma fifo:
  assumes "holds h L" and "L l = Some []" and "distinct xs" and "set xs \<inter> owned L = {}" and "0 \<notin> set xs"
  shows "\<exists>h1 h2. forM xs (\<lambda>x h. push_back h l x) h = Some h1 \<and>
     pops (\<lambda>h. pop_front h l) (length xs) h1 = Some (xs, h2) \<and> holds h2 L"
proof -
  from push_all [OF assms] obtain h1 where
    h1: "forM xs (\<lambda>x h. push_back h l x) h = Some h1" "holds h1 (L(l \<mapsto> xs))" by auto
  from pop_all [OF h1(2), of l xs] obtain h2 where
    "pops (\<lambda>h. pop_front h l) (length xs) h1 = Some (xs, h2)" "holds h2 (L(l \<mapsto> []))" by auto
  with h1(1) assms(2) show ?thesis by (metis map_upd_triv)
qed

lemma insert_sort_sorted:
  assumes "holds h L" and "L l = Some xs" and "x \<notin> owned L" and "x \<noteq> 0" and "free h x"
    and "sorted (map key xs)"
  shows "\<exists>h' ys. insert_sort h key l x = Some h' \<and> holds h' (L(l \<mapsto> ys)) \<and>
     sorted (map key ys) \<and> set ys = insert x (set xs)"
  using insert_sort [OF assms(1-5), of key] sorted_insert_by [OF assms(6)] set_insert_by by blast

end

interpretation klist: list_store klists node_free moved list_push_front list_push_back
  list_pop_front list_remove list_insert_sort
proof unfold_locales
  fix h L l xs k ys
  assume "klists h L" "L l = Some xs" "L k = Some ys" "l \<noteq> k"
  then show "set (list_nodes l xs) \<inter> set (list_nodes k ys) = {}" by (rule klists_disjoint)
next
  fix h L l xs assume "klists h L" "L l = Some xs"
  then show "distinct (list_nodes l xs) \<and> 0 \<notin> set (list_nodes l xs)"
    by (auto dest: klistsD simp: dlist_def)
next
  fix h h' A a assume "moved h h' A" "a \<notin> A"
  then show "node_free h' a = node_free h a" by (simp add: moved_def node_free_def)
qed (rule list_push_front_lists list_push_back_lists list_pop_front_lists
    list_remove_lists list_insert_sort_lists; assumption)+

section \<open>Properties\<close>

definition sample_heap :: heap where
  "sample_heap = (\<lambda>_. \<lparr>nprev = 0, nnext = 0\<rparr>)
     (0x100 := \<lparr>nprev = 0, nnext = 0x108\<rparr>, 0x108 := \<lparr>nprev = 0x100, nnext = 0\<rparr>)"

lemma sample_klists: "klists sample_heap [0x100 \<mapsto> []]"
  by (simp add: klists_def dlist_def list_nodes_def list_head_def list_tail_def sample_heap_def)

lemma sample_owned: "owned [0x100 \<mapsto> []] = {0x100, 0x108}"
  by (auto simp: owned_def list_nodes_def list_head_def list_tail_def)

text \<open>
  Pushing any sequence of fresh nodes on an empty list with \<^verbatim>\<open>list_push_back\<close> and
  popping as many with \<^verbatim>\<open>list_pop_front\<close> returns the nodes in the order they were pushed,
  never halts, and gives the family of lists back as it was.
\<close>

theorem list_fifo:
  assumes "klists h L" and "L l = Some []" and "distinct xs" and "set xs \<inter> owned L = {}"
    and "0 \<notin> set xs"
  shows "\<exists>h1 h2. forM xs (\<lambda>x h. list_push_back h l x) h = Some h1 \<and>
     pops (\<lambda>h. list_pop_front h l) (length xs) h1 = Some (xs, h2) \<and> klists h2 L"
  using klist.fifo [OF assms] .

theorem list_fifo_witness:
  "\<exists>h1 h2. forM [0x200, 0x300] (\<lambda>x h. list_push_back h 0x100 x) sample_heap = Some h1 \<and>
     pops (\<lambda>h. list_pop_front h 0x100) (length [0x200, 0x300 :: addr]) h1 = Some ([0x200, 0x300], h2) \<and>
     klists h2 [0x100 \<mapsto> []]"
  by (rule list_fifo [OF sample_klists]) (simp_all add: sample_owned)

text \<open>
  Property C29. \<^verbatim>\<open>list_remove\<close> unlinks a node from whatever list it is in without being told
  which one: that list loses exactly this node, every other list is unchanged, no node
  outside the lists is written, and the node passes \<^verbatim>\<open>ASSERT_NODE_FREE\<close> afterwards.
\<close>

theorem list_remove_anywhere:
  assumes "klists h L" and "L l = Some xs" and "x \<in> set xs"
  shows "\<exists>h'. list_remove h x = Some h' \<and> klists h' (L(l \<mapsto> remove1 x xs)) \<and>
     moved h h' (owned L) \<and> node_free h' x"
  using klist.rm_member [OF assms] .

theorem list_remove_anywhere_witness:
  "\<exists>h h'. klists h [0x100 \<mapsto> [0x200]] \<and> list_remove h 0x200 = Some h' \<and>
     klists h' [0x100 \<mapsto> []] \<and> node_free h' 0x200"
proof -
  from klist.push_back [OF sample_klists, of "0x100" "[]" "0x200"]
  obtain h where h: "klists h [0x100 \<mapsto> [0x200]]" by (auto simp: sample_owned)
  from list_remove_anywhere [OF h, of "0x100" "[0x200]" "0x200"] show ?thesis using h by auto
qed

text \<open>
  \<^verbatim>\<open>list_insert_sort\<close> of a free node into a list sorted by the signed key leaves the
  list sorted, adds exactly that node, and returns.
\<close>

theorem list_insert_sort_keeps_sorted:
  assumes "klists h L" and "L l = Some xs" and "x \<notin> owned L" and "x \<noteq> 0" and "node_free h x"
    and "sorted (map key xs)"
  shows "\<exists>h' ys. list_insert_sort h key l x = Some h' \<and> klists h' (L(l \<mapsto> ys)) \<and>
     sorted (map key ys) \<and> mset ys = mset xs + {#x#}"
proof -
  have "mset (insert_by key x xs) = mset xs + {#x#}"
    unfolding insert_by_def by (metis mset.simps(2) mset_append takeWhile_dropWhile_id union_mset_add_mset_right add_mset_add_single)
  with klist.insert_sort [OF assms(1-5), of key] sorted_insert_by [OF assms(6)] show ?thesis
    by blast
qed

theorem list_insert_sort_keeps_sorted_witness:
  "\<exists>h' ys. list_insert_sort sample_heap uint 0x100 0x200 = Some h' \<and>
     klists h' [0x100 \<mapsto> ys] \<and> mset ys = {#0x200#}"
  using list_insert_sort_keeps_sorted [OF sample_klists, of "0x100" "[]" "0x200" uint]
  by (auto simp: sample_owned node_free_def sample_heap_def)

end
