(* ===== verification/Kstring.thy ===== *)
theory Kstring
  imports Prelude
begin

text \<open>
  The memory and string routines of \<^verbatim>\<open>lib/string.c\<close> on a byte-addressed memory
  \<open>mem :: addr \<Rightarrow> u8\<close>. Loops with a count are structural recursions on the count, in the
  order of the C (so overlapping copies behave as the code does); loops that look for a
  terminating \<open>EOS\<close> are partial functions. \<^verbatim>\<open>char\<close> is signed on the target (gcc, i386).
\<close>

type_synonym mem = "addr \<Rightarrow> u8"

section \<open>Words in memory\<close>

unbundle bit_operations_syntax

text \<open>Little-endian 16- and 32-bit members of the packed structures that the kernel lays over a buffer.\<close>

definition rd16 :: "mem \<Rightarrow> addr \<Rightarrow> u16" where
  "rd16 m a = ucast (m a) OR push_bit 8 (ucast (m (a + 1)))"

definition wr16 :: "mem \<Rightarrow> addr \<Rightarrow> u16 \<Rightarrow> mem" where
  "wr16 m a v = m(a := ucast v, a + 1 := ucast (drop_bit 8 v))"

definition rd32 :: "mem \<Rightarrow> addr \<Rightarrow> u32" where
  "rd32 m a = ucast (rd16 m a) OR push_bit 16 (ucast (rd16 m (a + 2)))"

section \<open>Buffers\<close>

primrec memset_loop :: "mem \<Rightarrow> addr \<Rightarrow> u8 \<Rightarrow> nat \<Rightarrow> mem" where
  "memset_loop m ptr ch 0 = m"
| "memset_loop m ptr ch (Suc n) = memset_loop (m(ptr := ch)) (ptr + 1) ch n"

definition memset :: "mem \<Rightarrow> addr \<Rightarrow> u32 \<Rightarrow> u32 \<Rightarrow> mem" where
  "memset m dest ch count = memset_loop m dest (ucast ch) (unat count)"

primrec memcpy_loop :: "mem \<Rightarrow> addr \<Rightarrow> addr \<Rightarrow> nat \<Rightarrow> mem" where
  "memcpy_loop m ptr src 0 = m"
| "memcpy_loop m ptr src (Suc n) = memcpy_loop (m(ptr := m src)) (ptr + 1) (src + 1) n"

definition memcpy :: "mem \<Rightarrow> addr \<Rightarrow> addr \<Rightarrow> u32 \<Rightarrow> mem" where
  "memcpy m dest src count = memcpy_loop m dest src (unat count)"

text \<open>
  \<^verbatim>\<open>memcmp\<close> tests \<^verbatim>\<open>--count > 0\<close> on an unsigned counter after the first comparison.
\<close>

partial_function (option) memcmp_loop :: "mem \<Rightarrow> addr \<Rightarrow> addr \<Rightarrow> u32 \<Rightarrow> (addr \<times> addr) option" where
  "memcmp_loop m lptr rptr count =
     (if m lptr = m rptr \<and> count - 1 > 0 then memcmp_loop m (lptr + 1) (rptr + 1) (count - 1)
      else Some (lptr, rptr))"

definition memcmp :: "mem \<Rightarrow> addr \<Rightarrow> addr \<Rightarrow> u32 \<Rightarrow> int option" where
  "memcmp m lhs rhs count = do {
     (l, r) \<leftarrow> memcmp_loop m lhs rhs count;
     Some (if m l < m r then - 1 else if m l > m r then 1 else 0) }"

primrec memchr_loop :: "mem \<Rightarrow> addr \<Rightarrow> u32 \<Rightarrow> nat \<Rightarrow> addr" where
  "memchr_loop m str ch 0 = str"
| "memchr_loop m str ch (Suc n) = (if ucast (m str) = ch then str else memchr_loop m (str + 1) ch n)"

definition memchr :: "mem \<Rightarrow> addr \<Rightarrow> u32 \<Rightarrow> u32 \<Rightarrow> addr" where
  "memchr m ptr ch count = memchr_loop m ptr ch (unat count)"

section \<open>Strings\<close>

definition schar :: "u8 \<Rightarrow> int" where
  "schar b = sint b"

partial_function (option) strcpy_loop :: "mem \<Rightarrow> addr \<Rightarrow> addr \<Rightarrow> mem option" where
  "strcpy_loop m ptr src =
     (let c = m src; m' = m(ptr := c)
      in if m' src = 0 then Some m' else strcpy_loop m' (ptr + 1) (src + 1))"

definition strcpy :: "mem \<Rightarrow> addr \<Rightarrow> addr \<Rightarrow> mem option" where
  "strcpy m dest src = strcpy_loop m dest src"

primrec strncpy_loop :: "mem \<Rightarrow> addr \<Rightarrow> addr \<Rightarrow> nat \<Rightarrow> mem" where
  "strncpy_loop m ptr src 0 = m"
| "strncpy_loop m ptr src (Suc n) =
     (let m' = m(ptr := m src)
      in if m' src = 0 then m' else strncpy_loop m' (ptr + 1) (src + 1) n)"

definition strncpy :: "mem \<Rightarrow> addr \<Rightarrow> addr \<Rightarrow> u32 \<Rightarrow> mem" where
  "strncpy m dest src count =
     (strncpy_loop m dest src (unat count))(dest + (count - 1) := 0)"

partial_function (option) strend :: "mem \<Rightarrow> addr \<Rightarrow> addr option" where
  "strend m ptr = (if m ptr \<noteq> 0 then strend m (ptr + 1) else Some ptr)"

definition strlen :: "mem \<Rightarrow> addr \<Rightarrow> u32 option" where
  "strlen m str = do { ptr \<leftarrow> strend m str; Some (ptr - str) }"

definition strcat :: "mem \<Rightarrow> addr \<Rightarrow> addr \<Rightarrow> mem option" where
  "strcat m dest src = do { ptr \<leftarrow> strend m dest; strcpy_loop m ptr src }"

partial_function (option) strcmp_loop :: "mem \<Rightarrow> addr \<Rightarrow> addr \<Rightarrow> (addr \<times> addr) option" where
  "strcmp_loop m lhs rhs =
     (if m lhs = m rhs \<and> m lhs \<noteq> 0 \<and> m rhs \<noteq> 0 then strcmp_loop m (lhs + 1) (rhs + 1)
      else Some (lhs, rhs))"

definition strcmp :: "mem \<Rightarrow> addr \<Rightarrow> addr \<Rightarrow> int option" where
  "strcmp m lhs rhs = do {
     (l, r) \<leftarrow> strcmp_loop m lhs rhs;
     Some (if schar (m l) < schar (m r) then - 1 else if schar (m l) > schar (m r) then 1 else 0) }"

text \<open>A \<^verbatim>\<open>char\<close> compared with the \<^verbatim>\<open>int\<close> argument is sign-extended first.\<close>

partial_function (option) strchr_loop :: "mem \<Rightarrow> addr \<Rightarrow> int \<Rightarrow> addr option" where
  "strchr_loop m ptr ch =
     (if schar (m ptr) = ch then Some ptr
      else if m ptr = 0 then Some 0
      else strchr_loop m (ptr + 1) ch)"

definition strchr :: "mem \<Rightarrow> addr \<Rightarrow> int \<Rightarrow> addr option" where
  "strchr m str ch = strchr_loop m str ch"

partial_function (option) strrchr_loop :: "mem \<Rightarrow> addr \<Rightarrow> addr \<Rightarrow> int \<Rightarrow> addr option" where
  "strrchr_loop m ptr found ch =
     (let found' = (if schar (m ptr) = ch then ptr else found)
      in if m ptr = 0 then Some found' else strrchr_loop m (ptr + 1) found' ch)"

definition strrchr :: "mem \<Rightarrow> addr \<Rightarrow> int \<Rightarrow> addr option" where
  "strrchr m str ch = strrchr_loop m str 0 ch"

section \<open>Ranges of addresses\<close>

text \<open>\<open>a\<close> lies in the \<open>n\<close> bytes from \<open>p\<close> on (the range may wrap around the top of memory).\<close>

definition in_range :: "addr \<Rightarrow> nat \<Rightarrow> addr \<Rightarrow> bool" where
  "in_range p n a \<longleftrightarrow> unat (a - p) < n"

lemma in_range_0 [simp]: "\<not> in_range p 0 a"
  by (simp add: in_range_def)

lemma in_range_Suc:
  assumes "Suc n \<le> 2 ^ 32"
  shows "in_range p (Suc n) a \<longleftrightarrow> a = p \<or> in_range (p + 1) n a"
proof (cases "a = p")
  case True
  then show ?thesis by (simp add: in_range_def)
next
  case False
  then have "1 \<le> a - p" by (metis eq_iff_diff_eq_0 word_less_1 not_le)
  then have "unat (a - p - 1) = unat (a - p) - 1" "0 < unat (a - p)"
    by (simp_all add: unat_sub unat_gt_0) (use False in simp)
  moreover have "a - (p + 1) = a - p - 1" by simp
  ultimately show ?thesis using False unfolding in_range_def by (metis Suc_less_eq Suc_pred diff_Suc_1)
qed

lemma memset_loop_eq:
  "n \<le> 2 ^ 32 \<Longrightarrow> memset_loop m p c n = (\<lambda>a. if in_range p n a then c else m a)"
proof (induction n arbitrary: m p)
  case 0
  then show ?case by simp
next
  case (Suc n)
  then show ?case by (auto simp: fun_eq_iff in_range_Suc)
qed

lemma memset_eq: "memset m p c n = (\<lambda>a. if in_range p (unat n) a then ucast c else m a)"
  by (simp add: memset_def memset_loop_eq)

lemma in_range_offset: "i < n \<Longrightarrow> n \<le> 2 ^ 32 \<Longrightarrow> in_range p n (p + of_nat i)"
  by (simp add: in_range_def unat_of_nat)

text \<open>A copy between disjoint buffers puts the source bytes at the destination.\<close>

lemma memcpy_loop_eq:
  assumes "\<And>j. j < n \<Longrightarrow> \<not> in_range d n (s + of_nat j)" and "n \<le> 2 ^ 32"
  shows "memcpy_loop m d s n = (\<lambda>a. if in_range d n a then m (s + (a - d)) else m a)"
  using assms
proof (induction n arbitrary: m d s)
  case 0
  then show ?case by simp
next
  case (Suc n)
  have sub: "\<not> in_range (d + 1) n (s + 1 + of_nat j)" if "j < n" for j
    using Suc.prems(1) [of "Suc j"] Suc.prems(2) that in_range_Suc [of n d] by (simp add: add.assoc)
  have ne: "s + (a - d) \<noteq> d" if "in_range d (Suc n) a" for a
  proof
    assume eq: "s + (a - d) = d"
    from that have "unat (a - d) < Suc n" by (simp add: in_range_def)
    from Suc.prems(1) [OF this] eq show False by (simp add: in_range_def)
  qed
  show ?case
  proof (rule ext)
    fix a
    let ?m = "m(d := m s)"
    have "memcpy_loop m d s (Suc n) a = (if in_range (d + 1) n a then ?m (s + 1 + (a - (d + 1))) else ?m a)"
      using Suc.IH [OF sub, of ?m] Suc.prems(2) by (simp del: fun_upd_apply)
    moreover have "s + 1 + (a - (d + 1)) = s + (a - d)" by simp
    moreover have "\<not> in_range (d + 1) n d" using Suc.prems(2) by (simp add: in_range_def unat_minus_1)
    ultimately show "memcpy_loop m d s (Suc n) a = (if in_range d (Suc n) a then m (s + (a - d)) else m a)"
      using Suc.prems(2) ne [of a] in_range_Suc [of n d a] by (cases "a = d") auto
  qed
qed

lemma memcpy_eq:
  assumes "\<And>a. in_range s (unat n) a \<Longrightarrow> \<not> in_range d (unat n) a"
  shows "memcpy m d s n = (\<lambda>a. if in_range d (unat n) a then m (s + (a - d)) else m a)"
  unfolding memcpy_def
proof (rule memcpy_loop_eq)
  show n: "unat n \<le> 2 ^ 32" by simp
  show "\<not> in_range d (unat n) (s + of_nat j)" if "j < unat n" for j
    using assms in_range_offset [OF that n] by blast
qed

section \<open>Null-terminated strings\<close>

text \<open>\<open>cstr m p s\<close>: the memory holds the string \<open>s\<close> and its \<open>EOS\<close> from \<open>p\<close> on.\<close>

fun cstr :: "mem \<Rightarrow> addr \<Rightarrow> u8 list \<Rightarrow> bool" where
  "cstr m p [] \<longleftrightarrow> m p = 0"
| "cstr m p (c # cs) \<longleftrightarrow> c \<noteq> 0 \<and> m p = c \<and> cstr m (p + 1) cs"

lemma cstr_cong:
  "length s < 2 ^ 32 \<Longrightarrow> (\<And>a. in_range p (Suc (length s)) a \<Longrightarrow> m' a = m a) \<Longrightarrow> cstr m' p s = cstr m p s"
proof (induction s arbitrary: p)
  case Nil
  then show ?case by (simp add: in_range_def)
next
  case (Cons c s)
  have "cstr m' (p + 1) s = cstr m (p + 1) s"
    by (rule Cons.IH) (use Cons.prems in \<open>auto simp: in_range_Suc\<close>)
  moreover have "m' p = m p" using Cons.prems(2) [of p] by (simp add: in_range_def)
  ultimately show ?case by simp
qed

lemma strend_cstr: "cstr m p s \<Longrightarrow> strend m p = Some (p + of_nat (length s))"
proof (induction s arbitrary: p)
  case Nil
  then show ?case by (simp add: strend.simps)
next
  case (Cons c s)
  then show ?case by (simp add: strend.simps [of m p] add.assoc)
qed

lemma strlen_cstr: "cstr m p s \<Longrightarrow> strlen m p = Some (of_nat (length s))"
  by (simp add: strlen_def strend_cstr)

lemma strcpy_loop_cstr:
  assumes "cstr m src s" and "length s < 2 ^ 32"
    and "\<And>a. in_range src (Suc (length s)) a \<Longrightarrow> \<not> in_range d (Suc (length s)) a"
  shows "\<exists>m'. strcpy_loop m d src = Some m' \<and> cstr m' d s \<and>
     (\<forall>a. \<not> in_range d (Suc (length s)) a \<longrightarrow> m' a = m a)"
  using assms
proof (induction s arbitrary: m d src)
  case Nil
  have "src \<noteq> d" using Nil.prems(3) [of src] by (auto simp: in_range_def)
  with Nil.prems(1) show ?case
    by (auto simp: strcpy_loop.simps [of m] in_range_def)
next
  case (Cons c s)
  let ?m = "m(d := c)"
  have len: "Suc (length s) \<le> 2 ^ 32" "Suc (Suc (length s)) \<le> 2 ^ 32" using Cons.prems(2) by auto
  have ne: "src \<noteq> d" using Cons.prems(3) [of src] by (auto simp: in_range_def)
  have dis: "in_range (src + 1) (Suc (length s)) a \<Longrightarrow>
      \<not> in_range (d + 1) (Suc (length s)) a \<and> a \<noteq> d" for a
    using Cons.prems(3) [of a] in_range_Suc [OF len(2)] by simp
  have "cstr ?m (src + 1) s = cstr m (src + 1) s"
    by (rule cstr_cong) (use Cons.prems(2) dis in auto)
  with Cons.IH [of ?m "src + 1" "d + 1"] Cons.prems(1,2) dis obtain m' where
    m': "strcpy_loop ?m (d + 1) (src + 1) = Some m'" "cstr m' (d + 1) s"
      "\<And>a. \<not> in_range (d + 1) (Suc (length s)) a \<Longrightarrow> m' a = ?m a" by fastforce
  have "\<not> in_range (d + 1) (Suc (length s)) d"
    using Cons.prems(2) by (simp add: in_range_def unat_minus_1)
  with m'(3) have "m' d = c" by simp
  with m' Cons.prems(1) ne in_range_Suc [OF len(2), of d] show ?case
    by (auto simp: strcpy_loop.simps [of m])
qed

text \<open>The order \<^verbatim>\<open>strcmp\<close> decides: signed characters, with \<open>EOS\<close> as 0 at the end.\<close>

fun strcmp_ref :: "u8 list \<Rightarrow> u8 list \<Rightarrow> int" where
  "strcmp_ref (c # s) (d # t) =
     (if c = d then strcmp_ref s t else if schar c < schar d then - 1 else 1)"
| "strcmp_ref [] [] = 0"
| "strcmp_ref [] (d # t) = (if 0 < schar d then - 1 else 1)"
| "strcmp_ref (c # s) [] = (if schar c < 0 then - 1 else 1)"

lemma schar_eq_iff: "schar a = schar b \<longleftrightarrow> a = b"
  unfolding schar_def by (auto intro: signed_word_eqI)

lemma schar_zero: "schar 0 = 0" "schar a = 0 \<longleftrightarrow> a = 0"
  using schar_eq_iff [of a 0] by (simp_all add: schar_def)

lemma strcmp_cstr: "cstr m p s \<Longrightarrow> cstr m q t \<Longrightarrow> strcmp m p q = Some (strcmp_ref s t)"
proof (induction s t arbitrary: p q rule: strcmp_ref.induct)
  case (1 c s d t)
  show ?case
  proof (cases "c = d")
    case True
    with 1 show ?thesis by (simp add: strcmp_def strcmp_loop.simps [of m p])
  next
    case False
    with 1 schar_eq_iff [of c d] show ?thesis
      by (auto simp: strcmp_def strcmp_loop.simps [of m p])
  qed
next
  case (3 d t)
  then show ?case
    using schar_zero(2) [of d] by (auto simp: strcmp_def strcmp_loop.simps [of m p] schar_zero)
next
  case (4 c s)
  then show ?case
    using schar_zero(2) [of c] by (auto simp: strcmp_def strcmp_loop.simps [of m p] schar_zero)
qed (simp add: strcmp_def strcmp_loop.simps schar_zero)

lemma strcmp_ref_0: "strcmp_ref s t = 0 \<longleftrightarrow> s = t"
  by (induction s t rule: strcmp_ref.induct) auto

section \<open>Properties\<close>

lemma memchr_loop_absent:
  "(\<And>j. j < n \<Longrightarrow> ucast (m (p + of_nat j)) \<noteq> ch) \<Longrightarrow> memchr_loop m p ch n = p + of_nat n"
proof (induction n arbitrary: p)
  case 0
  then show ?case by simp
next
  case (Suc n)
  have "memchr_loop m (p + 1) ch n = p + 1 + of_nat n"
  proof (rule Suc.IH)
    show "ucast (m (p + 1 + of_nat j)) \<noteq> ch" if "j < n" for j
      using Suc.prems [of "Suc j"] that by (simp add: add.assoc)
  qed
  with Suc.prems [of 0] show ?case by (simp add: add.assoc)
qed

text \<open>A byte that is not there: \<^verbatim>\<open>memchr\<close> returns the end of the array, not \<open>NULL\<close>.\<close>

lemma memchr_absent:
  "(\<And>j. j < unat n \<Longrightarrow> ucast (m (p + of_nat j)) \<noteq> ch) \<Longrightarrow> memchr m p ch n = p + n"
  by (simp add: memchr_def memchr_loop_absent)

text \<open>
  Copying a string to a disjoint buffer with \<^verbatim>\<open>strcpy\<close> returns, writes only the
  bytes of the string and its \<open>EOS\<close>, and makes the two strings equal: both have the same
  \<^verbatim>\<open>strlen\<close> and \<^verbatim>\<open>strcmp\<close> of the copy with the original is 0.
\<close>

theorem strcpy_copies:
  assumes "cstr m src s" and "length s < 2 ^ 32"
    and "\<And>a. in_range src (Suc (length s)) a \<Longrightarrow> \<not> in_range dest (Suc (length s)) a"
  shows "\<exists>m'. strcpy m dest src = Some m' \<and> cstr m' dest s \<and> cstr m' src s \<and>
     (\<forall>a. \<not> in_range dest (Suc (length s)) a \<longrightarrow> m' a = m a) \<and>
     strlen m' dest = Some (of_nat (length s)) \<and> strcmp m' dest src = Some 0"
proof -
  from strcpy_loop_cstr [OF assms] obtain m' where
    m': "strcpy_loop m dest src = Some m'" "cstr m' dest s"
      "\<And>a. \<not> in_range dest (Suc (length s)) a \<Longrightarrow> m' a = m a" by blast
  have "cstr m' src s = cstr m src s"
    by (rule cstr_cong) (use assms m'(3) in auto)
  with assms(1) have "cstr m' src s" by simp
  with m' show ?thesis
    by (auto simp: strcpy_def strlen_cstr strcmp_cstr strcmp_ref_0)
qed

theorem strcpy_copies_witness:
  "\<exists>m'. strcpy ((\<lambda>_. 0)(0x10 := 104, 0x11 := 105)) 0x20 0x10 = Some m' \<and> cstr m' 0x20 [104, 105] \<and>
     strcmp m' 0x20 0x10 = Some 0"
proof -
  have "cstr ((\<lambda>_. 0)(0x10 := 104, 0x11 := 105)) 0x10 [104, 105]" by simp
  moreover have "\<not> in_range (0x20 :: addr) 3 a" if "in_range 0x10 3 a" for a
  proof -
    from that have "a = 0x10 \<or> a = 0x11 \<or> a = 0x12"
      by (simp add: numeral_3_eq_3 in_range_Suc)
    then show ?thesis by (auto simp: in_range_def)
  qed
  ultimately show ?thesis
    using strcpy_copies [of "(\<lambda>_. 0)(0x10 := 104, 0x11 := 105)" "0x10" "[104, 105]" "0x20"]
    by (simp add: numeral_3_eq_3 del: cstr.simps fun_upd_apply) blast
qed

text \<open>
  On two null-terminated strings \<^verbatim>\<open>strcmp\<close> always returns, its result is 0 exactly
  for equal strings, and exchanging the arguments exchanges the sign.
\<close>

theorem strcmp_decides_equality:
  assumes "cstr m p s" and "cstr m q t"
  shows "\<exists>r. strcmp m p q = Some r \<and> strcmp m q p = Some (- r) \<and> (r = 0 \<longleftrightarrow> s = t)"
proof -
  have nz: "c \<in> set u \<Longrightarrow> c \<noteq> 0" if "cstr m a u" for a c u
    using that by (induction u arbitrary: a) auto
  have "strcmp_ref t s = - strcmp_ref s t" if "0 \<notin> set s" "0 \<notin> set t" for s t
    using that
  proof (induction s t rule: strcmp_ref.induct)
    case (1 c s d t)
    then show ?case using schar_eq_iff [of c d] by (cases "c = d") auto
  next
    case (3 d t)
    then show ?case using schar_zero(2) [of d] by auto
  next
    case (4 c s)
    then show ?case using schar_zero(2) [of c] by auto
  qed simp
  then have "strcmp_ref t s = - strcmp_ref s t" using nz assms by blast
  then show ?thesis
    using strcmp_cstr [OF assms] strcmp_cstr [OF assms(2,1)] strcmp_ref_0 by auto
qed

theorem strcmp_decides_equality_witness:
  "\<exists>r. strcmp ((\<lambda>_. 0)(0x10 := 104)) 0x10 0x20 = Some r \<and> r \<noteq> 0"
  using strcmp_decides_equality [of "(\<lambda>_. 0)(0x10 := 104)" "0x10" "[104]" "0x20" "[]"] by auto

end
