(* ===== verification/Bitmap.thy ===== *)
theory Bitmap
  imports Kstring
begin

text \<open>
  The bitmaps of \<^verbatim>\<open>lib/bitmap.c\<close>: a descriptor (buffer address, size in bytes, first index,
  end index) over the bytes of memory. The kernel and user address spaces and the block and
  inode maps of the file system are such bitmaps.

  \<open>used m b\<close> is the set of indices whose bit is set, as natural numbers; \<open>bitmap_ok b\<close> says
  that neither the index range nor the buffer wraps around. The lemmas show that the
  operations are insertion into, removal from and membership in that set, and that
  \<^verbatim>\<open>bitmap_insert_nbits\<close> is first fit. The locale \<open>index_alloc\<close> is what the page and block
  allocators rely on.
\<close>

unbundle bit_operations_syntax

section \<open>The operations of bitmap.c\<close>

record bitmap =
  bm_bits :: addr
  bm_size :: u32
  bm_offset :: u32
  bm_length :: u32

definition EOF :: u32 where
  "EOF = - 1"

definition bitmap_new :: "addr \<Rightarrow> u32 \<Rightarrow> u32 \<Rightarrow> bitmap" where
  "bitmap_new bits sz offset =
     \<lparr>bm_bits = bits, bm_size = sz, bm_offset = offset, bm_length = offset + sz * 8\<rparr>"

definition bitmap_init :: "mem \<Rightarrow> addr \<Rightarrow> u32 \<Rightarrow> u32 \<Rightarrow> bitmap \<times> mem" where
  "bitmap_init m bits sz offset =
     (let b = bitmap_new bits sz offset in (b, memset m (bm_bits b) 0 (bm_size b)))"

definition bitmap_contains :: "mem \<Rightarrow> bitmap \<Rightarrow> u32 \<Rightarrow> bool option" where
  "bitmap_contains m b index = do {
     assert_c (index \<ge> bm_offset b \<and> index < bm_length b);
     let i = index - bm_offset b;
     let bytes = i div 8;
     let bits = i mod 8;
     Some (m (bm_bits b + bytes) AND push_bit (unat bits) 1 \<noteq> 0) }"

definition bitmap_set :: "mem \<Rightarrow> bitmap \<Rightarrow> u32 \<Rightarrow> bool \<Rightarrow> mem option" where
  "bitmap_set m b index value = do {
     assert_c (index \<ge> bm_offset b \<and> index < bm_length b);
     let i = index - bm_offset b;
     let bytes = i div 8;
     let bits = i mod 8;
     let a = bm_bits b + bytes;
     Some (if value then m(a := m a OR push_bit (unat bits) 1)
           else m(a := m a AND NOT (push_bit (unat bits) 1))) }"

definition bitmap_insert :: "mem \<Rightarrow> bitmap \<Rightarrow> u32 \<Rightarrow> mem option" where
  "bitmap_insert m b index = bitmap_set m b index True"

definition bitmap_remove :: "mem \<Rightarrow> bitmap \<Rightarrow> u32 \<Rightarrow> mem option" where
  "bitmap_remove m b index = bitmap_set m b index False"

text \<open>
  The two loops of \<^verbatim>\<open>bitmap_insert_nbits\<close>: both count an unsigned variable down to 0, so they
  are recursions on its value.
\<close>

primrec scan_loop :: "mem \<Rightarrow> bitmap \<Rightarrow> u32 \<Rightarrow> nat \<Rightarrow> u32 \<Rightarrow> u32 \<Rightarrow> (u32 \<times> u32) option" where
  "scan_loop m b n 0 next_bit counter = Some (EOF, counter)"
| "scan_loop m b n (Suc bits_left) next_bit counter = do {
     c \<leftarrow> bitmap_contains m b next_bit;
     let counter = (if \<not> c then counter + 1 else 0);
     let next_bit = next_bit + 1;
     if counter = n then Some (next_bit - counter, counter)
     else scan_loop m b n bits_left next_bit counter }"

primrec fill_loop :: "mem \<Rightarrow> bitmap \<Rightarrow> nat \<Rightarrow> u32 \<Rightarrow> mem option" where
  "fill_loop m b 0 next_bit = Some m"
| "fill_loop m b (Suc counter) next_bit = do {
     m \<leftarrow> bitmap_insert m b next_bit;
     fill_loop m b counter (next_bit + 1) }"

definition bitmap_insert_nbits :: "mem \<Rightarrow> bitmap \<Rightarrow> u32 \<Rightarrow> (u32 \<times> mem) option" where
  "bitmap_insert_nbits m b n = do {
     (start, counter) \<leftarrow> scan_loop m b n (unat (bm_size b * 8)) (bm_offset b) 0;
     if start = EOF then Some (EOF, m)
     else do {
       m \<leftarrow> fill_loop m b (unat counter) start;
       Some (start, m) } }"

section \<open>Bits as a set of indices\<close>

definition bit_at :: "mem \<Rightarrow> bitmap \<Rightarrow> nat \<Rightarrow> bool" where
  "bit_at m b i = bit (m (bm_bits b + of_nat (i div 8))) (i mod 8)"

definition bits_of :: "bitmap \<Rightarrow> nat set" where
  "bits_of b = {unat (bm_offset b) ..< unat (bm_offset b) + 8 * unat (bm_size b)}"

definition used :: "mem \<Rightarrow> bitmap \<Rightarrow> nat set" where
  "used m b = {i \<in> bits_of b. bit_at m b (i - unat (bm_offset b))}"

definition bitmap_ok :: "bitmap \<Rightarrow> bool" where
  "bitmap_ok b \<longleftrightarrow> unat (bm_offset b) + 8 * unat (bm_size b) < 2 ^ 32 \<and>
     bm_length b = bm_offset b + bm_size b * 8"

definition in_buffer :: "bitmap \<Rightarrow> addr \<Rightarrow> bool" where
  "in_buffer b a \<longleftrightarrow> in_range (bm_bits b) (unat (bm_size b)) a"

lemma bitmap_ok_length:
  assumes "bitmap_ok b"
  shows "unat (bm_size b * 8) = 8 * unat (bm_size b)"
    and "unat (bm_length b) = unat (bm_offset b) + 8 * unat (bm_size b)"
proof -
  show 1: "unat (bm_size b * 8) = 8 * unat (bm_size b)"
    using assms by (simp add: bitmap_ok_def unat_word_ariths mult.commute)
  show "unat (bm_length b) = unat (bm_offset b) + 8 * unat (bm_size b)"
    using assms 1 by (simp add: bitmap_ok_def unat_word_ariths)
qed

lemma bitmap_new_ok: "unat offset + 8 * unat sz < 2 ^ 32 \<Longrightarrow> bitmap_ok (bitmap_new bits sz offset)"
  by (simp add: bitmap_ok_def bitmap_new_def)

lemma index_in_bits:
  assumes "bitmap_ok b"
  shows "bm_offset b \<le> index \<and> index < bm_length b \<longleftrightarrow> unat index \<in> bits_of b"
  using bitmap_ok_length [OF assms] by (simp add: bits_of_def word_le_nat_alt word_less_nat_alt)

text \<open>The byte and bit of an index, in natural numbers.\<close>

lemma index_parts:
  assumes "bm_offset b \<le> index"
  defines "i \<equiv> unat index - unat (bm_offset b)"
  shows "(index - bm_offset b) div 8 = of_nat (i div 8)" "unat ((index - bm_offset b) mod 8) = i mod 8"
proof -
  have u: "unat (index - bm_offset b) = i" using assms by (simp add: unat_sub)
  show "unat ((index - bm_offset b) mod 8) = i mod 8" by (simp add: unat_mod u)
  have "unat ((index - bm_offset b) div 8) = i div 8" by (simp add: unat_div u)
  then show "(index - bm_offset b) div 8 = of_nat (i div 8)"
    by (metis word_of_nat_unat_u32)
qed

lemma bitmap_contains_used:
  assumes "bitmap_ok b" and "unat index \<in> bits_of b"
  shows "bitmap_contains m b index = Some (unat index \<in> used m b)"
proof -
  from assms have le: "bm_offset b \<le> index" "index < bm_length b"
    using index_in_bits [OF assms(1), of index] by auto
  with assms(2) show ?thesis
    by (simp add: bitmap_contains_def index_parts [OF le(1)] used_def bit_at_def
        and_exp_eq_0_iff_not_bit)
qed

lemma bitmap_contains_outside:
  "bitmap_ok b \<Longrightarrow> unat index \<notin> bits_of b \<Longrightarrow> bitmap_contains m b index = None"
  unfolding bitmap_contains_def using index_in_bits [of b index] by auto

lemma byte_of_index_inj:
  assumes "i < 8 * n" and "j < 8 * n" and "8 * n < 2 ^ 32"
  shows "(p :: addr) + of_nat (i div 8) = p + of_nat (j div 8) \<longleftrightarrow> i div 8 = j div 8"
proof
  assume "p + of_nat (i div 8) = p + of_nat (j div 8)"
  then have "unat (of_nat (i div 8) :: addr) = unat (of_nat (j div 8) :: addr)" by simp
  with assms show "i div 8 = j div 8" by (simp add: unat_of_nat)
qed simp

lemma bit_of_byte:
  "k < 8 \<Longrightarrow> bit ((x :: u8) OR push_bit k 1) j \<longleftrightarrow> bit x j \<or> j = k"
  "k < 8 \<Longrightarrow> bit ((x :: u8) AND NOT (push_bit k 1)) j \<longleftrightarrow> bit x j \<and> j \<noteq> k"
  by (auto simp: bit_or_iff bit_and_iff bit_not_iff bit_exp_iff dest: bit_imp_le_length)

lemma bit_at_set:
  assumes "i < 8 * unat (bm_size b)" and "j < 8 * unat (bm_size b)"
    and "8 * unat (bm_size b) < 2 ^ 32"
  defines "a \<equiv> bm_bits b + of_nat (i div 8)"
  shows "bit_at (m(a := m a OR push_bit (i mod 8) 1)) b j \<longleftrightarrow> bit_at m b j \<or> j = i"
    and "bit_at (m(a := m a AND NOT (push_bit (i mod 8) 1))) b j \<longleftrightarrow> bit_at m b j \<and> j \<noteq> i"
proof -
  have ij: "j = i \<longleftrightarrow> j div 8 = i div 8 \<and> j mod 8 = i mod 8" by (metis div_mult_mod_eq)
  have "bm_bits b + of_nat (j div 8) = a \<longleftrightarrow> j div 8 = i div 8"
    unfolding a_def by (rule byte_of_index_inj [OF assms(2,1,3)])
  then show "bit_at (m(a := m a OR push_bit (i mod 8) 1)) b j \<longleftrightarrow> bit_at m b j \<or> j = i"
    and "bit_at (m(a := m a AND NOT (push_bit (i mod 8) 1))) b j \<longleftrightarrow> bit_at m b j \<and> j \<noteq> i"
    using ij by (auto simp: bit_at_def a_def bit_of_byte simp del: push_bit_of_1)
qed

lemma bitmap_set_used:
  assumes ok: "bitmap_ok b" and idx: "unat index \<in> bits_of b"
  shows "\<exists>m'. bitmap_set m b index v = Some m' \<and>
     used m' b = (if v then insert (unat index) (used m b) else used m b - {unat index}) \<and>
     (\<forall>a. \<not> in_buffer b a \<longrightarrow> m' a = m a)"
proof -
  define i where "i = unat index - unat (bm_offset b)"
  define a where "a = bm_bits b + of_nat (i div 8)"
  let ?m = "if v then m(a := m a OR push_bit (i mod 8) 1) else m(a := m a AND NOT (push_bit (i mod 8) 1))"
  have le: "bm_offset b \<le> index" "index < bm_length b"
    using idx index_in_bits [OF ok, of index] by auto
  have sz: "8 * unat (bm_size b) < 2 ^ 32" "i < 8 * unat (bm_size b)"
    using ok idx by (auto simp: bitmap_ok_def bits_of_def i_def)
  have "bitmap_set m b index v = Some ?m"
    using le by (simp add: bitmap_set_def index_parts [OF le(1)] Let_def i_def a_def del: push_bit_of_1)
  moreover have "used ?m b = (if v then insert (unat index) (used m b) else used m b - {unat index})"
  proof -
    have "bit_at ?m b (j - unat (bm_offset b)) \<longleftrightarrow>
        (if v then bit_at m b (j - unat (bm_offset b)) \<or> j = unat index
         else bit_at m b (j - unat (bm_offset b)) \<and> j \<noteq> unat index)" if "j \<in> bits_of b" for j
    proof -
      have "j - unat (bm_offset b) < 8 * unat (bm_size b)"
        "j - unat (bm_offset b) = i \<longleftrightarrow> j = unat index"
        using that idx by (auto simp: bits_of_def i_def)
      with bit_at_set [OF sz(2) this(1) sz(1), of m] show ?thesis by (auto simp: a_def)
    qed
    then show ?thesis using idx by (auto simp: used_def)
  qed
  moreover have "in_buffer b a"
    unfolding in_buffer_def a_def by (rule in_range_offset) (use sz in auto)
  then have "\<forall>c. \<not> in_buffer b c \<longrightarrow> ?m c = m c" by auto
  ultimately show ?thesis by blast
qed

lemma used_subset: "used m b \<subseteq> bits_of b"
  by (auto simp: used_def)

lemma used_cong:
  assumes "bitmap_ok b" and "\<And>a. in_buffer b a \<Longrightarrow> m' a = m a"
  shows "used m' b = used m b"
proof -
  have "bit_at m' b i = bit_at m b i" if "i < 8 * unat (bm_size b)" for i
  proof -
    have "i div 8 < unat (bm_size b)" using that by auto
    then have "in_buffer b (bm_bits b + of_nat (i div 8))"
      using assms(1) unfolding in_buffer_def by (intro in_range_offset) (simp_all add: bitmap_ok_def)
    then show ?thesis by (simp add: bit_at_def assms(2))
  qed
  then show ?thesis by (auto simp: used_def bits_of_def)
qed

lemma finite_bits_of: "finite (bits_of b)"
  by (simp add: bits_of_def)

lemma bitmap_init_used:
  assumes "bitmap_init m bits sz offset = (b, m')" and "unat offset + 8 * unat sz < 2 ^ 32"
  shows "bitmap_ok b" "used m' b = {}" "bits_of b = {unat offset ..< unat offset + 8 * unat sz}"
    "\<forall>a. \<not> in_range bits (unat sz) a \<longrightarrow> m' a = m a"
proof -
  have b: "b = bitmap_new bits sz offset" "m' = memset m bits 0 sz"
    using assms(1) by (auto simp: bitmap_init_def Let_def bitmap_new_def)
  show "bitmap_ok b" using assms(2) by (simp add: b bitmap_new_ok)
  show bo: "bits_of b = {unat offset ..< unat offset + 8 * unat sz}"
    by (simp add: b bitmap_new_def bits_of_def)
  show "\<forall>a. \<not> in_range bits (unat sz) a \<longrightarrow> m' a = m a" by (simp add: b memset_eq)
  have "\<not> bit_at m' b (i - unat offset)" if "i \<in> bits_of b" for i
  proof -
    have "in_range bits (unat sz) (bits + of_nat ((i - unat offset) div 8))"
      by (rule in_range_offset) (use that bo in auto)
    then show ?thesis by (simp add: bit_at_def b memset_eq bitmap_new_def)
  qed
  then show "used m' b = {}" by (auto simp: used_def b bitmap_new_def)
qed

section \<open>First fit\<close>

text \<open>The search of \<^verbatim>\<open>bitmap_insert_nbits\<close> on a set of used indices.\<close>

primrec find_run :: "nat set \<Rightarrow> nat \<Rightarrow> nat \<Rightarrow> nat \<Rightarrow> nat \<Rightarrow> nat option" where
  "find_run U n 0 p c = None"
| "find_run U n (Suc k) p c =
     (let c' = (if p \<notin> U then Suc c else 0)
      in if c' = n then Some (Suc p - c') else find_run U n k (Suc p) c')"

lemma find_run_correct:
  assumes "c < n" and "lo + c \<le> p" and "{p - c ..< p} \<inter> U = {}"
    and "p - c = lo \<or> p - c - 1 \<in> U"
    and "\<And>s. lo \<le> s \<Longrightarrow> s + n \<le> p \<Longrightarrow> {s ..< s + n} \<inter> U \<noteq> {}"
  shows "case find_run U n k p c of
      None \<Rightarrow> \<forall>s \<ge> lo. s + n \<le> p + k \<longrightarrow> {s ..< s + n} \<inter> U \<noteq> {}
    | Some s \<Rightarrow> lo \<le> s \<and> s + n \<le> p + k \<and> {s ..< s + n} \<inter> U = {} \<and>
        (\<forall>s' \<ge> lo. s' < s \<longrightarrow> {s' ..< s' + n} \<inter> U \<noteq> {})"
  using assms
proof (induction k arbitrary: p c)
  case 0
  then show ?case by simp
next
  case (Suc k)
  show ?case
  proof (cases "p \<in> U")
    case True
    have "{s ..< s + n} \<inter> U \<noteq> {}" if "lo \<le> s" "s + n \<le> Suc p" for s
    proof (cases "s + n = Suc p")
      case wend: True
      then have "p \<in> {s ..< s + n}" using Suc.prems(1) by auto
      with True show ?thesis by blast
    next
      case False
      with that show ?thesis by (intro Suc.prems(5)) auto
    qed
    with Suc.IH [of 0 "Suc p"] Suc.prems(1,2) True show ?thesis by (simp split: option.splits)
  next
    case False
    have run: "{Suc p - Suc c ..< Suc p} \<inter> U = {}"
      using Suc.prems(2,3) False by (auto simp: disjoint_iff less_Suc_eq)
    show ?thesis
    proof (cases "Suc c = n")
      case True
      with False run Suc.prems(2,5) show ?thesis by (auto simp: Let_def)
    next
      case neq: False
      have "{s ..< s + n} \<inter> U \<noteq> {}" if "lo \<le> s" "s + n \<le> Suc p" for s
      proof (cases "s + n = Suc p")
        case True
        then have "p - c - 1 \<in> {s ..< s + n}" "p - c \<noteq> lo"
          using that(1) neq Suc.prems(1,2) by auto
        with Suc.prems(4) show ?thesis by blast
      next
        case False
        with that show ?thesis by (intro Suc.prems(5)) auto
      qed
      with Suc.IH [of "Suc c" "Suc p"] False neq run Suc.prems(1,2,4) show ?thesis
        by (simp split: option.splits)
    qed
  qed
qed

lemma scan_loop_find_run:
  assumes "bitmap_ok b" and "unat next + k = unat (bm_offset b) + 8 * unat (bm_size b)"
    and "unat (bm_offset b) + unat counter \<le> unat next"
  shows "case find_run (used m b) (unat n) k (unat next) (unat counter) of
      None \<Rightarrow> \<exists>c. scan_loop m b n k next counter = Some (EOF, c)
    | Some s \<Rightarrow> scan_loop m b n k next counter = Some (of_nat s, n)"
  using assms(2,3)
proof (induction k arbitrary: "next" counter)
  case 0
  then show ?case by simp
next
  case (Suc k)
  have "unat next < 2 ^ 32 - 1" using Suc.prems(1) assms(1) by (simp add: bitmap_ok_def)
  then have u: "unat (next + 1) = Suc (unat next)" by (simp add: unat_word_ariths)
  have cu: "unat (counter + 1) = Suc (unat counter)"
    using Suc.prems(2) \<open>unat next < 2 ^ 32 - 1\<close> by (simp add: unat_word_ariths)
  have "unat next \<in> bits_of b" using Suc.prems by (simp add: bits_of_def)
  note c = bitmap_contains_used [OF assms(1) this, of m]
  have start: "next + 1 - x = of_nat (Suc (unat next) - unat x)" if "unat x \<le> Suc (unat next)" for x
  proof -
    have "x \<le> next + 1" using that u by (simp add: word_le_nat_alt)
    then have "unat (next + 1 - x) = Suc (unat next) - unat x" using u by (simp add: unat_sub)
    then show ?thesis by (metis word_of_nat_unat_u32)
  qed
  show ?case
  proof (cases "unat next \<in> used m b")
    case True
    with Suc.IH [of "next + 1" 0] Suc.prems c u start [of 0] show ?thesis
      by (auto simp: Let_def unat_eq_0 split: option.splits)
  next
    case False
    have n: "Suc (unat counter) = unat n \<longleftrightarrow> counter + 1 = n" using cu by (metis word_unat_eq_iff)
    from False Suc.IH [of "next + 1" "counter + 1"] Suc.prems c u cu start [of "counter + 1"] n
    show ?thesis by (auto simp: Let_def split: option.splits)
  qed
qed

lemma fill_loop_used:
  assumes "bitmap_ok b" and "unat start + k \<le> unat (bm_offset b) + 8 * unat (bm_size b)"
    and "unat (bm_offset b) \<le> unat start"
  shows "\<exists>m'. fill_loop m b k start = Some m' \<and> used m' b = used m b \<union> {unat start ..< unat start + k} \<and>
     (\<forall>a. \<not> in_buffer b a \<longrightarrow> m' a = m a)"
  using assms(2,3)
proof (induction k arbitrary: m start)
  case 0
  then show ?case by simp
next
  case (Suc k)
  have "unat start < 2 ^ 32 - 1" using Suc.prems assms(1) by (simp add: bitmap_ok_def)
  then have u: "unat (start + 1) = Suc (unat start)" by (simp add: unat_word_ariths)
  have "unat start \<in> bits_of b" using Suc.prems by (simp add: bits_of_def)
  from bitmap_set_used [OF assms(1) this, of m True] obtain m1 where
    m1: "bitmap_insert m b start = Some m1" "used m1 b = insert (unat start) (used m b)"
      "\<forall>a. \<not> in_buffer b a \<longrightarrow> m1 a = m a" by (auto simp: bitmap_insert_def)
  from Suc.IH [of "start + 1" m1] Suc.prems u m1 show ?case by (fastforce simp: less_Suc_eq_le)
qed

text \<open>\<open>fits m b n s\<close>: the \<open>n\<close> indices from \<open>s\<close> on are in range and unused.\<close>

definition fits :: "mem \<Rightarrow> bitmap \<Rightarrow> nat \<Rightarrow> nat \<Rightarrow> bool" where
  "fits m b n s \<longleftrightarrow> {s ..< s + n} \<subseteq> bits_of b - used m b"

lemma fits_iff:
  "0 < n \<Longrightarrow> fits m b n s \<longleftrightarrow>
     unat (bm_offset b) \<le> s \<and> s + n \<le> unat (bm_offset b) + 8 * unat (bm_size b) \<and>
     {s ..< s + n} \<inter> used m b = {}"
proof -
  assume "0 < n"
  then have "{s ..< s + n} \<subseteq> bits_of b \<longleftrightarrow>
      unat (bm_offset b) \<le> s \<and> s + n \<le> unat (bm_offset b) + 8 * unat (bm_size b)"
    unfolding bits_of_def by (auto dest: atLeastLessThan_subset_iff)
  then show ?thesis unfolding fits_def by blast
qed

lemma bitmap_insert_nbits_first_fit:
  assumes ok: "bitmap_ok b" and n: "n \<noteq> 0"
  shows "\<exists>r m'. bitmap_insert_nbits m b n = Some (r, m') \<and>
     (\<forall>a. \<not> in_buffer b a \<longrightarrow> m' a = m a) \<and>
     (if \<exists>s. fits m b (unat n) s
      then r \<noteq> EOF \<and> fits m b (unat n) (unat r) \<and> (\<forall>s < unat r. \<not> fits m b (unat n) s) \<and>
        used m' b = used m b \<union> {unat r ..< unat r + unat n}
      else r = EOF \<and> m' = m)"
proof -
  let ?lo = "unat (bm_offset b)" and ?k = "8 * unat (bm_size b)" and ?n = "unat n"
  have n0: "0 < ?n" using n by (simp add: unat_gt_0)
  note sz = bitmap_ok_length(1) [OF ok]
  note scan = scan_loop_find_run [OF ok, of "bm_offset b" ?k 0 m n]
  note find = find_run_correct [of 0 ?n ?lo ?lo "used m b" ?k]
  show ?thesis
  proof (cases "find_run (used m b) ?n ?k ?lo 0")
    case None
    with scan obtain c where "scan_loop m b n ?k (bm_offset b) 0 = Some (EOF, c)" by auto
    moreover have "\<not> fits m b ?n s" for s
      using None find n0 by (simp add: fits_iff)
    ultimately show ?thesis by (simp add: bitmap_insert_nbits_def sz)
  next
    case (Some s)
    have s: "fits m b ?n s" "\<And>s'. s' < s \<Longrightarrow> \<not> fits m b ?n s'"
      using Some find n0 by (auto simp: fits_iff)
    then have bnd: "?lo \<le> s" "s + ?n \<le> ?lo + ?k" "?lo + ?k < 2 ^ 32"
      using n0 ok by (simp_all add: fits_iff bitmap_ok_def)
    have us: "unat (of_nat s :: u32) = s" using bnd n0 by (simp add: unat_of_nat)
    have ne: "of_nat s \<noteq> EOF"
    proof
      assume "of_nat s = EOF"
      then have "s = unat (- 1 :: u32)" using us by (simp add: EOF_def)
      with bnd n0 show False by (simp add: unat_minus_1)
    qed
    from fill_loop_used [OF ok, of "of_nat s" ?n m] bnd us obtain m' where
      "fill_loop m b ?n (of_nat s) = Some m'" "used m' b = used m b \<union> {s ..< s + ?n}"
      "\<forall>a. \<not> in_buffer b a \<longrightarrow> m' a = m a" by auto
    with Some scan s ne us show ?thesis
      by (auto simp: bitmap_insert_nbits_def sz)
  qed
qed

section \<open>The interface\<close>

definition release_run ::
  "('s \<Rightarrow> 'b \<Rightarrow> u32 \<Rightarrow> bool option) \<Rightarrow> ('s \<Rightarrow> 'b \<Rightarrow> u32 \<Rightarrow> 's option) \<Rightarrow> 'b \<Rightarrow> u32 \<Rightarrow> nat \<Rightarrow> 's \<Rightarrow> 's option" where
  "release_run has rem b idx n =
     forM [0 ..< n] (\<lambda>i s. do {
       c \<leftarrow> has s b (idx + of_nat i);
       assert_c c;
       rem s b (idx + of_nat i) })"

text \<open>
  What an allocator of consecutive indices promises. \<open>rng\<close> is the set of indices it manages,
  \<open>occ s b\<close> the occupied ones, \<open>same b s s'\<close> says that outside of \<open>b\<close>'s buffer nothing moved.
\<close>

locale index_alloc =
  fixes valid :: "'b \<Rightarrow> bool"
    and rng :: "'b \<Rightarrow> nat set"
    and occ :: "'s \<Rightarrow> 'b \<Rightarrow> nat set"
    and same :: "'b \<Rightarrow> 's \<Rightarrow> 's \<Rightarrow> bool"
    and contains :: "'s \<Rightarrow> 'b \<Rightarrow> u32 \<Rightarrow> bool option"
    and insert_idx :: "'s \<Rightarrow> 'b \<Rightarrow> u32 \<Rightarrow> 's option"
    and remove_idx :: "'s \<Rightarrow> 'b \<Rightarrow> u32 \<Rightarrow> 's option"
    and alloc :: "'s \<Rightarrow> 'b \<Rightarrow> u32 \<Rightarrow> (u32 \<times> 's) option"
  assumes contains: "\<lbrakk>valid b; unat i \<in> rng b\<rbrakk> \<Longrightarrow> contains s b i = Some (unat i \<in> occ s b)"
    and contains_out: "\<lbrakk>valid b; unat i \<notin> rng b\<rbrakk> \<Longrightarrow> contains s b i = None"
    and insert_idx: "\<lbrakk>valid b; unat i \<in> rng b\<rbrakk> \<Longrightarrow>
      \<exists>s'. insert_idx s b i = Some s' \<and> occ s' b = insert (unat i) (occ s b) \<and> same b s s'"
    and remove_idx: "\<lbrakk>valid b; unat i \<in> rng b\<rbrakk> \<Longrightarrow>
      \<exists>s'. remove_idx s b i = Some s' \<and> occ s' b = occ s b - {unat i} \<and> same b s s'"
    and alloc: "\<lbrakk>valid b; n \<noteq> 0\<rbrakk> \<Longrightarrow> \<exists>r s'. alloc s b n = Some (r, s') \<and> same b s s' \<and>
      (if \<exists>k. {k ..< k + unat n} \<subseteq> rng b - occ s b
       then r \<noteq> EOF \<and> {unat r ..< unat r + unat n} \<subseteq> rng b - occ s b \<and>
         occ s' b = occ s b \<union> {unat r ..< unat r + unat n}
       else r = EOF \<and> s' = s)"
    and occ_sub: "occ s b \<subseteq> rng b"
    and rng_small: "valid b \<Longrightarrow> rng b \<subseteq> {..< 2 ^ 32}"
    and same_refl: "same b s s"
    and same_trans: "\<lbrakk>same b s s'; same b s' s''\<rbrakk> \<Longrightarrow> same b s s''"
begin

lemma alloc_Some:
  assumes "valid b" and "n \<noteq> 0" and "alloc s b n = Some (r, s')" and "r \<noteq> EOF"
  shows "{unat r ..< unat r + unat n} \<subseteq> rng b - occ s b"
    and "occ s' b = occ s b \<union> {unat r ..< unat r + unat n}" and "same b s s'"
  using alloc [OF assms(1,2), of s] assms(3,4) by (auto split: if_splits)

text \<open>Two allocations that both succeed never overlap.\<close>

lemma alloc_disjoint:
  assumes "valid b" and "n \<noteq> 0" and "n' \<noteq> 0"
    and "alloc s b n = Some (r, s1)" and "r \<noteq> EOF"
    and "alloc s1 b n' = Some (r', s2)" and "r' \<noteq> EOF"
  shows "{unat r ..< unat r + unat n} \<inter> {unat r' ..< unat r' + unat n'} = {}"
  using alloc_Some [OF assms(1,2,4,5)] alloc_Some [OF assms(1,3,6,7)] by blast

text \<open>The release loop: every index must still be occupied, then it is removed.\<close>

lemma release_loop:
  assumes "valid b" and "{unat k ..< unat k + n} \<subseteq> occ s b"
  shows "\<exists>s'. release_run contains remove_idx b k n s = Some s' \<and>
     occ s' b = occ s b - {unat k ..< unat k + n} \<and> same b s s'"
  using assms(2)
proof (induction n)
  case 0
  then show ?case by (simp add: same_refl release_run_def)
next
  case (Suc n)
  then have "{unat k ..< unat k + n} \<subseteq> occ s b" by auto
  from Suc.IH [OF this] obtain s1 where
    s1: "release_run contains remove_idx b k n s = Some s1"
      "occ s1 b = occ s b - {unat k ..< unat k + n}" "same b s s1" by blast
  have mem: "unat k + n \<in> occ s b" using Suc.prems by auto
  then have small: "unat k + n < 2 ^ 32" using occ_sub rng_small [OF assms(1)] by blast
  then have u: "unat (k + of_nat n) = unat k + n" by (simp add: unat_word_ariths unat_of_nat)
  have r: "unat (k + of_nat n) \<in> rng b" using mem occ_sub u by auto
  from remove_idx [OF assms(1) r, of s1] obtain s2 where
    s2: "remove_idx s1 b (k + of_nat n) = Some s2" "occ s2 b = occ s1 b - {unat k + n}"
      "same b s1 s2" using u by auto
  have "contains s1 b (k + of_nat n) = Some True"
    using contains [OF assms(1) r, of s1] u s1(2) mem by simp
  then have "release_run contains remove_idx b k (Suc n) s = Some s2"
    using s1(1) s2(1) by (simp add: release_run_def forM_append)
  moreover have "{unat k ..< unat k + Suc n} = insert (unat k + n) {unat k ..< unat k + n}"
    by auto
  then have "occ s2 b = occ s b - {unat k ..< unat k + Suc n}"
    unfolding s1(2) s2(2) by (metis Diff_insert)
  moreover have "same b s s2" using same_trans [OF s1(3) s2(3)] .
  ultimately show ?case by blast
qed

text \<open>Allocating and releasing again gives the occupied set back.\<close>

lemma alloc_release:
  assumes "valid b" and "n \<noteq> 0" and "alloc s b n = Some (r, s1)" and "r \<noteq> EOF"
  shows "\<exists>s2. release_run contains remove_idx b r (unat n) s1 = Some s2 \<and>
     occ s2 b = occ s b \<and> same b s s2"
proof -
  note a = alloc_Some [OF assms]
  have "{unat r ..< unat r + unat n} \<subseteq> occ s1 b" using a(2) by blast
  from release_loop [OF assms(1) this] obtain s2 where
    s2: "release_run contains remove_idx b r (unat n) s1 = Some s2"
    "occ s2 b = occ s1 b - {unat r ..< unat r + unat n}" "same b s1 s2" by auto
  have "{unat r ..< unat r + unat n} \<inter> occ s b = {}" using a(1) by blast
  then have "occ s2 b = occ s b" unfolding s2(2) a(2) by (simp add: Un_Diff Diff_triv Int_commute)
  with s2(1) same_trans [OF a(3) s2(3)] show ?thesis by blast
qed

end

definition same_outside :: "bitmap \<Rightarrow> mem \<Rightarrow> mem \<Rightarrow> bool" where
  "same_outside b m m' \<longleftrightarrow> (\<forall>a. \<not> in_buffer b a \<longrightarrow> m' a = m a)"

interpretation bm: index_alloc bitmap_ok bits_of used same_outside
  bitmap_contains bitmap_insert bitmap_remove bitmap_insert_nbits
proof unfold_locales
  fix b m and i :: u32 assume "bitmap_ok b" "unat i \<in> bits_of b"
  then show "bitmap_contains m b i = Some (unat i \<in> used m b)" by (rule bitmap_contains_used)
next
  fix b m and i :: u32 assume "bitmap_ok b" "unat i \<notin> bits_of b"
  then show "bitmap_contains m b i = None" by (rule bitmap_contains_outside)
next
  fix b m and i :: u32 assume "bitmap_ok b" "unat i \<in> bits_of b"
  then show "\<exists>m'. bitmap_insert m b i = Some m' \<and> used m' b = insert (unat i) (used m b) \<and> same_outside b m m'"
    and "\<exists>m'. bitmap_remove m b i = Some m' \<and> used m' b = used m b - {unat i} \<and> same_outside b m m'"
    using bitmap_set_used [of b i m True] bitmap_set_used [of b i m False]
    by (auto simp: bitmap_insert_def bitmap_remove_def same_outside_def)
next
  fix b m and n :: u32 assume "bitmap_ok b" "n \<noteq> 0"
  from bitmap_insert_nbits_first_fit [OF this, of m] obtain r m' where
    "bitmap_insert_nbits m b n = Some (r, m')" "\<forall>a. \<not> in_buffer b a \<longrightarrow> m' a = m a"
    "if \<exists>s. fits m b (unat n) s
     then r \<noteq> EOF \<and> fits m b (unat n) (unat r) \<and> (\<forall>s < unat r. \<not> fits m b (unat n) s) \<and>
       used m' b = used m b \<union> {unat r ..< unat r + unat n}
     else r = EOF \<and> m' = m" by blast
  then show "\<exists>r m'. bitmap_insert_nbits m b n = Some (r, m') \<and> same_outside b m m' \<and>
      (if \<exists>k. {k ..< k + unat n} \<subseteq> bits_of b - used m b
       then r \<noteq> EOF \<and> {unat r ..< unat r + unat n} \<subseteq> bits_of b - used m b \<and>
         used m' b = used m b \<union> {unat r ..< unat r + unat n}
       else r = EOF \<and> m' = m)"
    unfolding same_outside_def by (intro exI [of _ r] exI [of _ m']) (simp add: fits_def split: if_splits)
next
  fix b m show "used m b \<subseteq> bits_of b" by (rule used_subset)
qed (auto simp: same_outside_def bits_of_def bitmap_ok_def)

section \<open>Properties\<close>

text \<open>
  Property C30. \<^verbatim>\<open>bitmap_insert_nbits\<close> is first fit: when some \<open>n\<close> consecutive indices are unused
  it returns the least such start and marks exactly these \<open>n\<close> indices as used; otherwise it
  returns \<open>EOF\<close> and changes nothing. It always returns and writes only the bitmap's buffer.
\<close>

theorem bitmap_first_fit:
  assumes "bitmap_ok b" and "n \<noteq> 0"
  shows "\<exists>r m'. bitmap_insert_nbits m b n = Some (r, m') \<and> same_outside b m m' \<and>
     (if \<exists>s. fits m b (unat n) s
      then r \<noteq> EOF \<and> fits m b (unat n) (unat r) \<and> (\<forall>s < unat r. \<not> fits m b (unat n) s) \<and>
        used m' b = used m b \<union> {unat r ..< unat r + unat n}
      else r = EOF \<and> m' = m)"
  using bitmap_insert_nbits_first_fit [OF assms, of m] unfolding same_outside_def .

definition sample_bitmap :: bitmap where
  "sample_bitmap = bitmap_new 0x1000 1 16"

lemma sample_bitmap_ok: "bitmap_ok sample_bitmap" "bits_of sample_bitmap = {16 ..< 24}"
  by (simp_all add: sample_bitmap_def bitmap_new_ok) (simp add: bitmap_new_def bits_of_def)

lemma sample_used: "used (\<lambda>_. 0) b = {}"
  by (simp add: used_def bit_at_def)

theorem bitmap_first_fit_witness:
  "\<exists>m'. bitmap_insert_nbits (\<lambda>_. 0) sample_bitmap 2 = Some (16, m') \<and> used m' sample_bitmap = {16, 17}"
proof -
  have fit: "fits (\<lambda>_. 0) sample_bitmap 2 s \<longleftrightarrow> 16 \<le> s \<and> s \<le> 22" for s
    unfolding fits_def sample_used sample_bitmap_ok(2) by auto
  then have ex: "\<exists>s. fits (\<lambda>_. 0) sample_bitmap 2 s" by (intro exI [of _ 16]) simp
  from bitmap_first_fit [OF sample_bitmap_ok(1), of 2 "\<lambda>_. 0"] obtain r m' where
    r: "bitmap_insert_nbits (\<lambda>_. 0) sample_bitmap 2 = Some (r, m')"
      "16 \<le> unat r" "\<forall>s < unat r. \<not> (16 \<le> s \<and> s \<le> 22)"
      "used m' sample_bitmap = {unat r ..< unat r + 2}"
    using ex by (simp add: fit sample_used) blast
  have "\<not> 16 < unat r" using r(3) by auto
  with r(2) have "unat r = 16" by simp
  moreover from this have "r = 16" by (metis of_nat_numeral word_of_nat_unat_u32)
  moreover have "{16 ..< 16 + 2 :: nat} = {16, 17}" by auto
  ultimately show ?thesis using r by auto
qed

text \<open>
  A bitmap is a set of indices: after \<^verbatim>\<open>bitmap_insert\<close> (\<^verbatim>\<open>bitmap_remove\<close>) of an index in
  range, \<^verbatim>\<open>bitmap_contains\<close> answers yes (no) for it and as before for every other index in
  range, and the memory outside the buffer is as it was.
\<close>

theorem bitmap_insert_remove_contains:
  assumes "bitmap_ok b" and "unat i \<in> bits_of b" and "unat j \<in> bits_of b"
  shows "\<exists>m1 m2. bitmap_insert m b i = Some m1 \<and> bitmap_remove m b i = Some m2 \<and>
     bitmap_contains m1 b j = Some (j = i \<or> unat j \<in> used m b) \<and>
     bitmap_contains m2 b j = Some (j \<noteq> i \<and> unat j \<in> used m b) \<and>
     same_outside b m m1 \<and> same_outside b m m2"
proof -
  obtain m1 m2 where
    m: "bitmap_insert m b i = Some m1" "used m1 b = insert (unat i) (used m b)" "same_outside b m m1"
      "bitmap_remove m b i = Some m2" "used m2 b = used m b - {unat i}" "same_outside b m m2"
    using bm.insert_idx [OF assms(1,2), of m] bm.remove_idx [OF assms(1,2), of m] by blast
  have "unat j = unat i \<longleftrightarrow> j = i" by (metis word_of_nat_unat_u32)
  with m bm.contains [OF assms(1,3)] show ?thesis by auto
qed

theorem bitmap_insert_remove_contains_witness:
  "\<exists>m1. bitmap_insert (\<lambda>_. 0) sample_bitmap 17 = Some m1 \<and>
     bitmap_contains m1 sample_bitmap 17 = Some True"
  using bitmap_insert_remove_contains [OF sample_bitmap_ok(1), of 17 17 "\<lambda>_. 0"]
  by (auto simp: sample_bitmap_ok(2))



end
