(* ===== verification/Fifo.thy ===== *)
theory Fifo
  imports Kstring
begin

text \<open>
  The byte ring buffer of \<^verbatim>\<open>lib/fifo.c\<close> (the keyboard's input buffer). One slot stays unused,
  so a buffer of \<open>len\<close> bytes holds \<open>len - 1\<close>; \<^verbatim>\<open>fifo_put\<close> on a full buffer drops the oldest
  byte. \<open>contents\<close> reads the queued bytes in order; the locale \<open>byte_queue\<close> is the interface
  of a bounded queue that forgets its oldest element.
\<close>

section \<open>The operations of fifo.c\<close>

record fifo =
  f_buf :: addr
  f_len :: u32
  f_head :: u32
  f_tail :: u32

text \<open>A remainder by zero is a divide error, whose handler hangs.\<close>

definition fifo_index_next :: "fifo \<Rightarrow> u32 \<Rightarrow> u32 option" where
  "fifo_index_next f index = (if f_len f = 0 then None else Some ((index + 1) mod f_len f))"

definition fifo_init :: "addr \<Rightarrow> u32 \<Rightarrow> fifo" where
  "fifo_init buf len = \<lparr>f_buf = buf, f_len = len, f_head = 0, f_tail = 0\<rparr>"

definition fifo_full :: "fifo \<Rightarrow> bool option" where
  "fifo_full f = do { n \<leftarrow> fifo_index_next f (f_tail f); Some (n = f_head f) }"

definition fifo_empty :: "fifo \<Rightarrow> bool" where
  "fifo_empty f \<longleftrightarrow> f_head f = f_tail f"

definition fifo_get :: "mem \<Rightarrow> fifo \<Rightarrow> (u8 \<times> fifo) option" where
  "fifo_get m f = do {
     assert_c (\<not> fifo_empty f);
     let byte = m (f_buf f + f_head f);
     h \<leftarrow> fifo_index_next f (f_head f);
     Some (byte, f\<lparr>f_head := h\<rparr>) }"

partial_function (option) drop_loop :: "mem \<Rightarrow> fifo \<Rightarrow> fifo option" where
  "drop_loop m f = do {
     full \<leftarrow> fifo_full f;
     if full then do { r \<leftarrow> fifo_get m f; drop_loop m (snd r) } else Some f }"

definition fifo_put :: "mem \<Rightarrow> fifo \<Rightarrow> u8 \<Rightarrow> (mem \<times> fifo) option" where
  "fifo_put m f byte = do {
     f \<leftarrow> drop_loop m f;
     let m = m(f_buf f + f_tail f := byte);
     t \<leftarrow> fifo_index_next f (f_tail f);
     Some (m, f\<lparr>f_tail := t\<rparr>) }"

section \<open>The queued bytes\<close>

definition fifo_ok :: "fifo \<Rightarrow> bool" where
  "fifo_ok f \<longleftrightarrow> 2 \<le> f_len f \<and> f_head f < f_len f \<and> f_tail f < f_len f"

definition fcount :: "fifo \<Rightarrow> nat" where
  "fcount f = (unat (f_tail f) + unat (f_len f) - unat (f_head f)) mod unat (f_len f)"

definition slot :: "fifo \<Rightarrow> nat \<Rightarrow> addr" where
  "slot f i = f_buf f + of_nat ((unat (f_head f) + i) mod unat (f_len f))"

definition contents :: "mem \<Rightarrow> fifo \<Rightarrow> u8 list" where
  "contents m f = map (\<lambda>i. m (slot f i)) [0 ..< fcount f]"

lemma fifo_okD:
  assumes "fifo_ok f"
  shows "2 \<le> unat (f_len f)" "unat (f_head f) < unat (f_len f)" "unat (f_tail f) < unat (f_len f)"
    "f_len f \<noteq> 0"
  using assms by (auto simp: fifo_ok_def word_le_nat_alt word_less_nat_alt)

lemma fcount_cases:
  "fifo_ok f \<Longrightarrow> fcount f = (if unat (f_head f) \<le> unat (f_tail f) then unat (f_tail f) - unat (f_head f)
     else unat (f_tail f) + unat (f_len f) - unat (f_head f))"
  using fifo_okD [of f] by (auto simp: fcount_def mod_if)

lemma fcount_less: "fifo_ok f \<Longrightarrow> fcount f < unat (f_len f)"
  using fifo_okD(1) [of f] by (simp add: fcount_def)

lemma index_next:
  assumes "fifo_ok f" and "unat i < unat (f_len f)"
  shows "\<exists>j. fifo_index_next f i = Some j \<and> unat j = (if Suc (unat i) = unat (f_len f) then 0 else Suc (unat i))"
proof -
  have "unat (f_len f) < 2 ^ 32" by simp
  with assms(2) have "Suc (unat i) < 2 ^ 32" by linarith
  then have "unat (i + 1) = Suc (unat i)" by (simp add: unat_word_ariths)
  with assms fifo_okD(4) [OF assms(1)] show ?thesis
    by (auto simp: fifo_index_next_def unat_mod mod_if)
qed

lemma fifo_empty_iff: "fifo_ok f \<Longrightarrow> fifo_empty f \<longleftrightarrow> fcount f = 0"
  using fifo_okD [of f] by (auto simp: fifo_empty_def fcount_cases word_unat_eq_iff)

lemma fifo_full_iff: "fifo_ok f \<Longrightarrow> fifo_full f = Some (Suc (fcount f) = unat (f_len f))"
  using index_next [of f "f_tail f"] fifo_okD [of f]
  by (auto simp: fifo_full_def fcount_cases word_unat_eq_iff split: if_splits)

lemma slot_mod:
  "fifo_ok f \<Longrightarrow> i < unat (f_len f) \<Longrightarrow> slot f i = f_buf f +
     of_nat (if unat (f_head f) + i < unat (f_len f) then unat (f_head f) + i
             else unat (f_head f) + i - unat (f_len f))"
  using fifo_okD [of f] by (auto simp: slot_def mod_if)

lemma fifo_get_contents:
  assumes ok: "fifo_ok f" and ne: "contents m f \<noteq> []"
  shows "\<exists>f'. fifo_get m f = Some (hd (contents m f), f') \<and> fifo_ok f' \<and>
     contents m f' = tl (contents m f) \<and> f_buf f' = f_buf f \<and> f_len f' = f_len f"
proof -
  note d = fifo_okD [OF ok]
  obtain h where h: "fifo_index_next f (f_head f) = Some h"
    "unat h = (if Suc (unat (f_head f)) = unat (f_len f) then 0 else Suc (unat (f_head f)))"
    using index_next [OF ok d(2)] by blast
  let ?f = "f\<lparr>f_head := h\<rparr>"
  have ok': "fifo_ok ?f" using ok h(2) d by (auto simp: fifo_ok_def word_less_nat_alt)
  obtain n where n: "fcount f = Suc n" using ne by (cases "fcount f") (auto simp: contents_def)
  have "fcount ?f = n" using n h(2) d fcount_cases [OF ok] fcount_cases [OF ok'] by (auto split: if_splits)
  moreover have "(unat h + i) mod unat (f_len f) = (unat (f_head f) + Suc i) mod unat (f_len f)" for i
    using h(2) by (cases "Suc (unat (f_head f)) = unat (f_len f)") (metis add_0 add_Suc_shift mod_add_self1, simp)
  then have "slot ?f i = slot f (Suc i)" for i by (simp add: slot_def)
  moreover have "slot f 0 = f_buf f + f_head f" using slot_mod [OF ok, of 0] d by simp
  moreover have "contents m f = m (slot f 0) # map (\<lambda>i. m (slot f (Suc i))) [0 ..< n]"
    unfolding contents_def n by (simp add: upt_conv_Cons map_Suc_upt [symmetric] comp_def del: upt_Suc)
  ultimately have c: "m (f_buf f + f_head f) = hd (contents m f)" "contents m ?f = tl (contents m f)"
    by (simp_all add: contents_def)
  have "\<not> fifo_empty f" using n fifo_empty_iff [OF ok] by simp
  then have "fifo_get m f = Some (hd (contents m f), ?f)"
    by (simp add: fifo_get_def h(1) c(1))
  with ok' c(2) show ?thesis by auto
qed

text \<open>The drop loop runs at most once, and afterwards there is room.\<close>

lemma drop_loop_contents:
  assumes ok: "fifo_ok f"
  shows "\<exists>f'. drop_loop m f = Some f' \<and> fifo_ok f' \<and> Suc (fcount f') < unat (f_len f') \<and>
     contents m f' = (if Suc (fcount f) = unat (f_len f) then tl (contents m f) else contents m f) \<and>
     f_buf f' = f_buf f \<and> f_len f' = f_len f"
proof (cases "Suc (fcount f) = unat (f_len f)")
  case True
  with fifo_okD(1) [OF ok] have ne: "contents m f \<noteq> []" by (auto simp: contents_def)
  from fifo_get_contents [OF ok ne] obtain f' where
    f': "fifo_get m f = Some (hd (contents m f), f')" "fifo_ok f'" "contents m f' = tl (contents m f)"
      "f_buf f' = f_buf f" "f_len f' = f_len f" by blast
  from f'(3) have "fcount f' = fcount f - 1" by (metis contents_def length_map length_tl length_upt diff_zero)
  with True fifo_okD(1) [OF ok] f'(5) have room: "Suc (fcount f') < unat (f_len f')" by simp
  then have "drop_loop m f' = Some f'"
    by (subst drop_loop.simps) (simp add: fifo_full_iff [OF f'(2)])
  with True f' room show ?thesis
    by (subst drop_loop.simps) (simp add: fifo_full_iff [OF ok])
next
  case False
  then show ?thesis
    using ok fcount_less [OF ok] by (subst drop_loop.simps) (simp add: fifo_full_iff)
qed

lemma fifo_put_contents:
  assumes ok: "fifo_ok f"
  shows "\<exists>m' f'. fifo_put m f b = Some (m', f') \<and> fifo_ok f' \<and> f_buf f' = f_buf f \<and> f_len f' = f_len f \<and>
     contents m' f' =
       (if Suc (length (contents m f)) = unat (f_len f) then tl (contents m f) else contents m f) @ [b] \<and>
     (\<forall>a. \<not> in_range (f_buf f) (unat (f_len f)) a \<longrightarrow> m' a = m a)"
proof -
  from drop_loop_contents [OF ok, of m] obtain g where
    g: "drop_loop m f = Some g" "fifo_ok g" "Suc (fcount g) < unat (f_len g)" "f_buf g = f_buf f"
      "contents m g = (if Suc (fcount f) = unat (f_len f) then tl (contents m f) else contents m f)"
      "f_len g = f_len f" by blast
  note d = fifo_okD [OF g(2)]
  obtain t where t: "fifo_index_next g (f_tail g) = Some t"
    "unat t = (if Suc (unat (f_tail g)) = unat (f_len g) then 0 else Suc (unat (f_tail g)))"
    using index_next [OF g(2) d(3)] by blast
  let ?g = "g\<lparr>f_tail := t\<rparr>" and ?m = "m(f_buf g + f_tail g := b)"
  have ok': "fifo_ok ?g" using g(2) t(2) d by (auto simp: fifo_ok_def word_less_nat_alt)
  have cnt: "fcount ?g = Suc (fcount g)"
    using t(2) d g(3) fcount_cases [OF g(2)] fcount_cases [OF ok'] by (auto split: if_splits)
  have slots: "slot ?g = slot g" by (simp add: slot_def fun_eq_iff)
  have new: "slot g (fcount g) = f_buf g + f_tail g"
    using slot_mod [OF g(2) fcount_less [OF g(2)]] fcount_cases [OF g(2)] d by (auto split: if_splits)
  have old: "slot g i \<noteq> f_buf g + f_tail g" if "i < fcount g" for i
  proof
    assume "slot g i = f_buf g + f_tail g"
    then have "unat (of_nat ((unat (f_head g) + i) mod unat (f_len g)) :: addr) = unat (f_tail g)"
      by (simp add: slot_def)
    moreover have "(unat (f_head g) + i) mod unat (f_len g) < 2 ^ 32"
    proof -
      have "unat (f_len g) < 2 ^ 32" by simp
      moreover have "(unat (f_head g) + i) mod unat (f_len g) < unat (f_len g)" using d(1) by simp
      ultimately show ?thesis by linarith
    qed
    ultimately have "(unat (f_head g) + i) mod unat (f_len g) = unat (f_tail g)" by (simp add: unat_of_nat)
    then show False using that fcount_cases [OF g(2)] d by (auto simp: mod_if split: if_splits)
  qed
  have "contents ?m ?g = contents m g @ [b]"
    using new old by (auto simp: contents_def cnt slots)
  moreover have "in_range (f_buf f) (unat (f_len f)) (f_buf g + f_tail g)"
    using d(3) g(4,6) by (simp add: in_range_def)
  then have "\<forall>a. \<not> in_range (f_buf f) (unat (f_len f)) a \<longrightarrow> ?m a = m a" by auto
  moreover have "length (contents m f) = fcount f" by (simp add: contents_def)
  ultimately show ?thesis
    using g t(1) ok' by (simp add: fifo_put_def)
qed

section \<open>The interface\<close>

locale byte_queue =
  fixes ok :: "'s \<Rightarrow> bool"
    and cap :: "'s \<Rightarrow> nat"
    and queued :: "'s \<Rightarrow> u8 list"
    and put :: "u8 \<Rightarrow> 's \<Rightarrow> 's option"
    and get :: "'s \<Rightarrow> (u8 \<times> 's) option"
  assumes put: "ok s \<Longrightarrow> \<exists>s'. put b s = Some s' \<and> ok s' \<and> cap s' = cap s \<and>
      queued s' = (if length (queued s) = cap s then tl (queued s) else queued s) @ [b]"
    and get: "\<lbrakk>ok s; queued s \<noteq> []\<rbrakk> \<Longrightarrow> \<exists>s'. get s = Some (hd (queued s), s') \<and> ok s' \<and>
      cap s' = cap s \<and> queued s' = tl (queued s)"
    and get_empty: "\<lbrakk>ok s; queued s = []\<rbrakk> \<Longrightarrow> get s = None"
    and cap_pos: "ok s \<Longrightarrow> 0 < cap s"
    and len_cap: "ok s \<Longrightarrow> length (queued s) \<le> cap s"
begin

text \<open>After any sequence of puts the queue holds the last \<open>cap\<close> bytes, oldest first.\<close>

lemma put_all:
  assumes "ok s"
  shows "\<exists>s'. forM bs put s = Some s' \<and> ok s' \<and> cap s' = cap s \<and>
     queued s' = drop (length (queued s) + length bs - cap s) (queued s @ bs)"
  using assms
proof (induction bs arbitrary: s)
  case Nil
  then show ?case using len_cap [OF Nil] by simp
next
  case (Cons b bs)
  from put [OF Cons.prems, of b] obtain t where
    t: "put b s = Some t" "ok t" "cap t = cap s"
      "queued t = (if length (queued s) = cap s then tl (queued s) else queued s) @ [b]" by blast
  from Cons.IH [OF t(2)] t(1,3) obtain u where
    u: "forM (b # bs) put s = Some u" "ok u" "cap u = cap s"
      "queued u = drop (length (queued t) + length bs - cap s) (queued t @ bs)" by auto
  have "drop (length (queued t) + length bs - cap s) (queued t @ bs) =
      drop (length (queued s) + length (b # bs) - cap s) (queued s @ b # bs)"
  proof (cases "length (queued s) = cap s")
    case True
    with cap_pos [OF Cons.prems] obtain x q where "queued s = x # q" by (cases "queued s") auto
    with True t(4) show ?thesis by (cases "cap s") auto
  next
    case False
    then have "length (queued t) + length bs = length (queued s) + length (b # bs)"
      "queued t @ bs = queued s @ b # bs" using t(4) by auto
    then show ?thesis by simp
  qed
  with u show ?case by auto
qed

text \<open>As many gets as bytes are queued empty the queue.\<close>

lemma get_all:
  assumes "ok s"
  shows "\<exists>s'. forM [0 ..< length (queued s)] (\<lambda>_ s. map_option snd (get s)) s = Some s' \<and> queued s' = []"
proof -
  have "\<exists>s'. forM xs (\<lambda>_ s. map_option snd (get s)) s = Some s' \<and> queued s' = []"
    if "length xs = length (queued s)" "ok s" for xs :: "nat list" and s
    using that
  proof (induction xs arbitrary: s)
    case Nil
    then show ?case by simp
  next
    case (Cons x xs)
    then have "queued s \<noteq> []" by auto
    from get [OF Cons.prems(2) this] Cons.IH Cons.prems(1) show ?case by fastforce
  qed
  with assms show ?thesis by simp
qed

end

definition fifo_contents :: "mem \<times> fifo \<Rightarrow> u8 list" where
  "fifo_contents = (\<lambda>(m, f). contents m f)"

interpretation fifo: byte_queue "\<lambda>(m, f). fifo_ok f" "\<lambda>(m, f). unat (f_len f) - 1" fifo_contents
  "\<lambda>b (m, f). fifo_put m f b" "\<lambda>(m, f). map_option (\<lambda>(b, f'). (b, (m, f'))) (fifo_get m f)"
proof unfold_locales
  fix s :: "mem \<times> fifo" and b
  obtain m f where s: "s = (m, f)" by force
  assume "case s of (m, f) \<Rightarrow> fifo_ok f"
  then have ok: "fifo_ok f" by (simp add: s)
  show "\<exists>s'. (case s of (m, f) \<Rightarrow> fifo_put m f b) = Some s' \<and> (case s' of (m, f) \<Rightarrow> fifo_ok f) \<and>
      (case s' of (m, f) \<Rightarrow> unat (f_len f) - 1) = (case s of (m, f) \<Rightarrow> unat (f_len f) - 1) \<and>
      fifo_contents s' = (if length (fifo_contents s) = (case s of (m, f) \<Rightarrow> unat (f_len f) - 1)
        then tl (fifo_contents s) else fifo_contents s) @ [b]"
    using fifo_put_contents [OF ok, of m b] fifo_okD(1) [OF ok] by (auto simp: s fifo_contents_def)
  show "0 < (case s of (m, f) \<Rightarrow> unat (f_len f) - 1)"
    "length (fifo_contents s) \<le> (case s of (m, f) \<Rightarrow> unat (f_len f) - 1)"
    using fifo_okD(1) [OF ok] fcount_less [OF ok] by (auto simp: s fifo_contents_def contents_def)
  show "(case s of (m, f) \<Rightarrow> map_option (\<lambda>(b, f'). (b, (m, f'))) (fifo_get m f)) = None"
    if "fifo_contents s = []"
    using that fifo_empty_iff [OF ok] by (simp add: s fifo_contents_def contents_def fifo_get_def)
  show "\<exists>s'. (case s of (m, f) \<Rightarrow> map_option (\<lambda>(b, f'). (b, (m, f'))) (fifo_get m f)) =
        Some (hd (fifo_contents s), s') \<and> (case s' of (m, f) \<Rightarrow> fifo_ok f) \<and>
      (case s' of (m, f) \<Rightarrow> unat (f_len f) - 1) = (case s of (m, f) \<Rightarrow> unat (f_len f) - 1) \<and>
      fifo_contents s' = tl (fifo_contents s)"
    if "fifo_contents s \<noteq> []"
    using that fifo_get_contents [OF ok, of m] by (auto simp: s fifo_contents_def)
qed

section \<open>Properties\<close>



end
