(* ===== verification/Ktime.thy ===== *)
theory Ktime
  imports Prelude "HOL-Library.Signed_Division"
begin

text \<open>
  Calendar time: \<^verbatim>\<open>kernel/time.c\<close>, the arithmetic of \<^verbatim>\<open>lib/stdlib.c\<close> and the alarm of
  \<^verbatim>\<open>kernel/rtc.c\<close>. The CMOS is the outside world: \<open>cmos n r\<close> is what the \<open>n\<close>-th read since
  boot finds in register \<open>r\<close>, and the counter of reads is threaded through the code; a
  \<^verbatim>\<open>cmos_write\<close> is an event. \<open>int\<close> arithmetic is 32-bit with the wrap-around of the
  processor; an access outside \<^verbatim>\<open>month\<close> has no defined result and is \<open>None\<close>.
\<close>

unbundle bit_operations_syntax

section \<open>stdlib.c\<close>

definition bcd_to_bin :: "u8 \<Rightarrow> u8" where
  "bcd_to_bin value = (value AND 0xf) + drop_bit 4 value * 10"

definition bin_to_bcd :: "u8 \<Rightarrow> u8 option" where
  "bin_to_bcd value = do {
     assert_c (value < 100);
     Some (value mod 10 + push_bit 4 (value div 10)) }"

definition div_round_up :: "u32 \<Rightarrow> u32 \<Rightarrow> u32 option" where
  "div_round_up a b = (if b = 0 then None else Some ((a + b - 1) div b))"

text \<open>The signed operators of C on 32-bit operands.\<close>

definition sdiv32 :: "i32 \<Rightarrow> i32 \<Rightarrow> i32" where
  "sdiv32 a b = word_of_int (sint a sdiv sint b)"

definition smod32 :: "i32 \<Rightarrow> i32 \<Rightarrow> i32" where
  "smod32 a b = word_of_int (sint a smod sint b)"

section \<open>time.c\<close>

record time_val =
  tm_sec :: i32
  tm_min :: i32
  tm_hour :: i32
  tm_mday :: i32
  tm_mon :: i32
  tm_year :: i32
  tm_wday :: i32
  tm_yday :: i32
  century :: i32
  tm_isdst :: i32

definition MINUTE :: u32 where "MINUTE = 60"
definition HOUR :: u32 where "HOUR = 60 * MINUTE"
definition DAY :: u32 where "DAY = 24 * HOUR"
definition YEAR :: u32 where "YEAR = 365 * DAY"

definition month :: "i32 list" where
  "month = [0, 0, 31, 31 + 28, 31 + 29 + 31, 31 + 29 + 31 + 30, 31 + 29 + 31 + 30 + 31,
     31 + 29 + 31 + 30 + 31 + 30, 31 + 29 + 31 + 30 + 31 + 30 + 31,
     31 + 29 + 31 + 30 + 31 + 30 + 31 + 31, 31 + 29 + 31 + 30 + 31 + 30 + 31 + 31 + 30,
     31 + 29 + 31 + 30 + 31 + 30 + 31 + 31 + 30 + 31,
     31 + 29 + 31 + 30 + 31 + 30 + 31 + 31 + 30 + 31 + 30]"

definition month_at :: "i32 \<Rightarrow> i32 option" where
  "month_at i = (if unat i < length month then Some (month ! unat i) else None)"

definition is_leap :: "i32 \<Rightarrow> bool" where
  "is_leap year \<longleftrightarrow> smod32 year 4 = 0 \<and> smod32 year 100 \<noteq> 0 \<or> smod32 year 400 = 0"

definition ad_year :: "i32 \<Rightarrow> i32" where
  "ad_year year = (if 70 \<le> sint year then 1900 + year else 2000 + year)"

definition get_yday :: "time_val \<Rightarrow> i32 option" where
  "get_yday t = do {
     res \<leftarrow> month_at (tm_mon t);
     let res = res + tm_mday t;
     let year = ad_year (tm_year t);
     Some (if is_leap year \<and> 2 < sint (tm_mon t) then res + 1 else res) }"

definition mktime :: "time_val \<Rightarrow> u32 option" where
  "mktime t = do {
     let year = (if 70 \<le> sint (tm_year t) then tm_year t - 70 else tm_year t + 100 - 70);
     let res = year * YEAR;
     let res = res + sdiv32 (year + 1) 4 * DAY;
     mon \<leftarrow> month_at (tm_mon t);
     let res = res + mon * DAY;
     let res = (if is_leap (ad_year (tm_year t)) \<and> 2 < sint (tm_mon t) then res + DAY else res);
     let res = res + (tm_mday t - 1) * DAY;
     let res = res + tm_hour t * HOUR;
     let res = res + tm_min t * MINUTE;
     Some (res + tm_sec t) }"

definition "CMOS_SECOND = (0x00 :: u8)"
definition "CMOS_MINUTE = (0x02 :: u8)"
definition "CMOS_HOUR = (0x04 :: u8)"
definition "CMOS_WEEKDAY = (0x06 :: u8)"
definition "CMOS_DAY = (0x07 :: u8)"
definition "CMOS_MONTH = (0x08 :: u8)"
definition "CMOS_YEAR = (0x09 :: u8)"
definition "CMOS_CENTURY = (0x32 :: u8)"

lemmas cmos_regs = CMOS_SECOND_def CMOS_MINUTE_def CMOS_HOUR_def CMOS_WEEKDAY_def CMOS_DAY_def
  CMOS_MONTH_def CMOS_YEAR_def CMOS_CENTURY_def

type_synonym cmos = "nat \<Rightarrow> u8 \<Rightarrow> u8"

text \<open>One pass of the loop of \<^verbatim>\<open>time_read_bcd\<close>: eight registers, then the seconds once more.\<close>

definition read_pass :: "cmos \<Rightarrow> nat \<Rightarrow> time_val" where
  "read_pass cmos n =
     \<lparr>tm_sec = ucast (cmos n CMOS_SECOND), tm_min = ucast (cmos (n + 1) CMOS_MINUTE),
      tm_hour = ucast (cmos (n + 2) CMOS_HOUR), tm_mday = ucast (cmos (n + 3) CMOS_DAY),
      tm_mon = ucast (cmos (n + 4) CMOS_MONTH), tm_year = ucast (cmos (n + 5) CMOS_YEAR),
      tm_wday = ucast (cmos (n + 6) CMOS_WEEKDAY), tm_yday = 0,
      century = ucast (cmos (n + 7) CMOS_CENTURY), tm_isdst = 0\<rparr>"

partial_function (option) time_read_bcd :: "cmos \<Rightarrow> nat \<Rightarrow> (time_val \<times> nat) option" where
  "time_read_bcd cmos n =
     (if tm_sec (read_pass cmos n) \<noteq> ucast (cmos (n + 8) CMOS_SECOND)
      then time_read_bcd cmos (n + 9) else Some (read_pass cmos n, n + 9))"

definition bcd_field :: "i32 \<Rightarrow> i32" where
  "bcd_field v = ucast (bcd_to_bin (ucast v))"

definition time_read :: "cmos \<Rightarrow> nat \<Rightarrow> (time_val \<times> nat) option" where
  "time_read cmos n = do {
     (t, n) \<leftarrow> time_read_bcd cmos n;
     let t = t\<lparr>tm_sec := bcd_field (tm_sec t), tm_min := bcd_field (tm_min t),
              tm_hour := bcd_field (tm_hour t), tm_mday := bcd_field (tm_mday t),
              tm_mon := bcd_field (tm_mon t), tm_year := bcd_field (tm_year t),
              tm_wday := bcd_field (tm_wday t), century := bcd_field (century t)\<rparr>;
     yday \<leftarrow> get_yday t;
     Some (t\<lparr>tm_yday := yday, tm_isdst := - 1\<rparr>, n) }"

text \<open>\<^verbatim>\<open>time_init\<close> returns the start-up time it stores in \<^verbatim>\<open>startup_time\<close>.\<close>

definition time_init :: "cmos \<Rightarrow> nat \<Rightarrow> (u32 \<times> nat) option" where
  "time_init cmos n = do { (t, n) \<leftarrow> time_read cmos n; s \<leftarrow> mktime t; Some (s, n) }"

section \<open>rtc.c\<close>

definition "CMOS_RTC_SECOND = (0x01 :: u8)"
definition "CMOS_RTC_MINUTE = (0x03 :: u8)"
definition "CMOS_RTC_HOUR = (0x05 :: u8)"
definition "CMOS_RTC_B = (0x0b :: u8)"
definition "CMOS_RTC_C = (0x0c :: u8)"

text \<open>The time of day the alarm is set to, and the whole of \<^verbatim>\<open>set_alarm\<close>: the CMOS writes, in order.\<close>

definition alarm_time :: "time_val \<Rightarrow> u32 \<Rightarrow> time_val" where
  "alarm_time t secs = (
     let sec = (ucast (secs mod 60) :: u8);
         secs = secs div 60;
         min = (ucast (secs mod 60) :: u8);
         secs = secs div 60;
         hour = secs;
         t = t\<lparr>tm_sec := tm_sec t + ucast sec\<rparr>;
         t = (if 60 \<le> sint (tm_sec t)
              then t\<lparr>tm_sec := smod32 (tm_sec t) 60, tm_min := tm_min t + 1\<rparr> else t);
         t = t\<lparr>tm_min := tm_min t + ucast min\<rparr>;
         t = (if 60 \<le> sint (tm_min t)
              then t\<lparr>tm_min := smod32 (tm_min t) 60, tm_hour := tm_hour t + 1\<rparr> else t);
         t = t\<lparr>tm_hour := tm_hour t + hour\<rparr>
     in if 24 \<le> sint (tm_hour t) then t\<lparr>tm_hour := smod32 (tm_hour t) 24\<rparr> else t)"

definition set_alarm :: "cmos \<Rightarrow> nat \<Rightarrow> u32 \<Rightarrow> ((u8 \<times> u8) list \<times> nat) option" where
  "set_alarm cmos n secs = do {
     (t, n) \<leftarrow> time_read cmos n;
     let t = alarm_time t secs;
     s \<leftarrow> bin_to_bcd (ucast (tm_sec t));
     m \<leftarrow> bin_to_bcd (ucast (tm_min t));
     h \<leftarrow> bin_to_bcd (ucast (tm_hour t));
     Some ([(CMOS_RTC_SECOND, s), (CMOS_RTC_MINUTE, m), (CMOS_RTC_HOUR, h), (CMOS_RTC_B, 0x22)],
           n + 1) }"


section \<open>Signed arithmetic on small values\<close>

lemma sint_small: "unat (a :: i32) < 2 ^ 31 \<Longrightarrow> sint a = int (unat a)"
proof -
  assume "unat a < 2 ^ 31"
  then have "int (unat a) < int (2 ^ 31)" by (simp only: of_nat_less_iff)
  then have "uint a < 2 ^ 31" by simp
  moreover have "- (2 ^ 31) \<le> uint a" by (rule order_trans [OF _ uint_ge_0]) simp
  ultimately have "sint a = uint a" by (simp add: sint_uint signed_take_bit_int_eq_self)
  then show ?thesis by simp
qed

lemma sint_nonneg: "0 \<le> sint (a :: i32) \<Longrightarrow> sint a = uint a"
proof -
  assume "0 \<le> sint a"
  then have "\<not> bit (uint a) 31" by (simp add: sint_uint signed_take_bit_nonnegative_iff bit_uint_iff)
  then have "take_bit 31 (uint a) = take_bit 32 (uint a)"
    using take_bit_Suc_from_most [of 31 "uint a"] by simp
  then show ?thesis using \<open>\<not> bit (uint a) 31\<close>
    by (simp add: sint_uint signed_take_bit_eq_if_positive bintr_uint)
qed

lemma sint_numeral:
  assumes "unat (a :: i32) < 2 ^ 31"
  shows "numeral n \<le> sint a \<longleftrightarrow> numeral n \<le> unat a" "numeral n < sint a \<longleftrightarrow> numeral n < unat a"
  using sint_small [OF assms] by (metis of_nat_le_iff of_nat_numeral, metis of_nat_less_iff of_nat_numeral)

lemma int_sdiv: "int x sdiv int y = int (x div y)" "int x smod int y = int (x mod y)"
  by (cases "x = 0"; cases "y = 0"; simp add: signed_divide_int_def signed_modulo_int_def zdiv_int zmod_int)+

lemma sdiv32_small:
  assumes "unat a < 2 ^ 31" "unat b < 2 ^ 31"
  shows "unat (sdiv32 a b) = unat a div unat b"
proof -
  have "unat a div unat b < 2 ^ 32" by (rule le_less_trans [OF div_le_dividend]) simp
  then show ?thesis 
    by (simp only: sdiv32_def sint_small [OF assms(1)] sint_small [OF assms(2)] int_sdiv) (simp add: unat_of_nat)
qed

lemma smod32_small:
  assumes "unat a < 2 ^ 31" "unat b < 2 ^ 31"
  shows "unat (smod32 a b) = unat a mod unat b"
proof -
  have "unat a mod unat b < 2 ^ 32" by (rule le_less_trans [OF mod_less_eq_dividend]) simp
  then show ?thesis 
    by (simp only: smod32_def sint_small [OF assms(1)] sint_small [OF assms(2)] int_sdiv) (simp add: unat_of_nat)
qed

section \<open>The calendar\<close>

definition leap :: "nat \<Rightarrow> bool" where
  "leap y \<longleftrightarrow> 4 dvd y \<and> \<not> 100 dvd y \<or> 400 dvd y"

definition year_days :: "nat \<Rightarrow> nat" where
  "year_days y = (if leap y then 366 else 365)"

definition month_days :: "nat \<Rightarrow> nat \<Rightarrow> nat" where
  "month_days y m = (if m = 2 then (if leap y then 29 else 28) else if m \<in> {4, 6, 9, 11} then 30 else 31)"

text \<open>Seconds since 1970-01-01 00:00:00, by adding up the days of the years and months that are over.\<close>

definition epoch_seconds :: "nat \<Rightarrow> nat \<Rightarrow> nat \<Rightarrow> nat \<Rightarrow> nat \<Rightarrow> nat \<Rightarrow> nat" where
  "epoch_seconds y mo d h mi s =
     ((sum_list (map year_days [1970 ..< y]) + sum_list (map (month_days y) [1 ..< mo]) + (d - 1)) * 24 + h) * 3600
     + mi * 60 + s"

definition full_year :: "nat \<Rightarrow> nat" where
  "full_year yy = (if 70 \<le> yy then 1900 + yy else 2000 + yy)"

definition valid_time :: "time_val \<Rightarrow> bool" where
  "valid_time t \<longleftrightarrow> tm_sec t < 60 \<and> tm_min t < 60 \<and> tm_hour t < 24 \<and> 1 \<le> tm_mday t \<and> tm_mday t \<le> 31 \<and>
     1 \<le> tm_mon t \<and> tm_mon t \<le> 12 \<and> tm_year t < 100"

definition calendar :: "time_val \<Rightarrow> nat" where
  "calendar t = epoch_seconds (full_year (unat (tm_year t))) (unat (tm_mon t)) (unat (tm_mday t))
     (unat (tm_hour t)) (unat (tm_min t)) (unat (tm_sec t))"

lemma leap_century: "1970 \<le> y \<Longrightarrow> y < 2100 \<Longrightarrow> leap y \<longleftrightarrow> 4 dvd y"
proof -
  assume y: "1970 \<le> y" "y < 2100"
  have "y = 2000" if "100 dvd y"
  proof -
    from that obtain j where "y = 100 * j" by (rule dvdE)
    with y show ?thesis by arith
  qed
  moreover have "100 dvd y" if "400 dvd y" using that by (rule dvd_trans [rotated]) simp
  ultimately show ?thesis by (auto simp: leap_def)
qed

lemma years_sum:
  "k < 130 \<Longrightarrow> sum_list (map year_days [1970 ..< 1970 + k]) = 365 * k + (k + 1) div 4"
proof (induction k)
  case 0
  then show ?case by simp
next
  case (Suc k)
  have "leap (1970 + k) \<longleftrightarrow> 4 dvd 1970 + k" using Suc.prems by (intro leap_century) auto
  also have "\<dots> \<longleftrightarrow> (k + 1) mod 4 = 3" by presburger
  finally have "leap (1970 + k) \<longleftrightarrow> (k + 1) mod 4 = 3" .
  moreover have "(Suc k + 1) div 4 = (k + 1) div 4 + (if (k + 1) mod 4 = 3 then 1 else 0)"
    by presburger
  moreover have "[1970 ..< 1970 + Suc k] = [1970 ..< 1970 + k] @ [1970 + k]" 
    by (simp only: add_Suc_right) (rule upt_Suc_append, simp)
  ultimately show ?case using Suc by (simp only: map_append sum_list_append) (simp add: year_days_def)
qed

lemma months_sum:
  assumes "1 \<le> m" "m \<le> 12"
  shows "sum_list (map (month_days y) [1 ..< m]) + (if 4 \<le> m then 1 else 0) =
    unat (month ! m) + (if leap y \<and> 2 < m then 1 else 0)"
proof -
  have "m \<in> set [1 ..< 13]" using assms by simp
  also have "[1 ..< 13] = [1, 2, 3, 4, 5, 6, 7, 8, 9, 10, 11, 12 :: nat]" by (simp add: upt_rec)
  finally have "m \<in> {1, 2, 3, 4, 5, 6, 7, 8, 9, 10, 11, 12}" by (simp only: list.set)
  then show ?thesis
    by (elim insertE emptyE; simp add: upt_rec month_days_def month_def)
qed

lemma ad_year_full: "unat y < 100 \<Longrightarrow> unat (ad_year y) = full_year (unat y)"
  by (simp add: ad_year_def sint_numeral full_year_def unat_word_ariths)

lemma is_leap_leap: "unat y < 100 \<Longrightarrow> is_leap (ad_year y) \<longleftrightarrow> leap (full_year (unat y))"
proof -
  assume y: "unat y < 100"
  have b: "unat (ad_year y) < 2 ^ 31" using y ad_year_full [OF y] by (simp add: full_year_def)
  show ?thesis
    using smod32_small [OF b, of 4] smod32_small [OF b, of 100] smod32_small [OF b, of 400]
    by (simp add: is_leap_def leap_def ad_year_full [OF y] word_unat_eq_iff dvd_eq_mod_eq_0)
qed


text \<open>The table \<^verbatim>\<open>month\<close> counts 29 days for February from April on.\<close>

lemma month_at_valid:
  "1 \<le> unat m \<Longrightarrow> unat m \<le> 12 \<Longrightarrow> month_at m = Some (month ! unat m)"
  by (simp add: month_at_def month_def)

lemma valid_timeD:
  assumes "valid_time t"
  shows "unat (tm_sec t) < 60" "unat (tm_min t) < 60" "unat (tm_hour t) < 24" "1 \<le> unat (tm_mday t)"
    "unat (tm_mday t) \<le> 31" "1 \<le> unat (tm_mon t)" "unat (tm_mon t) \<le> 12" "unat (tm_year t) < 100"
  using assms by (auto simp: valid_time_def word_le_nat_alt word_less_nat_alt)

lemma mktime_nat:
  assumes v: "valid_time t"
  defines "k \<equiv> (if 70 \<le> unat (tm_year t) then unat (tm_year t) - 70 else unat (tm_year t) + 30)"
  shows "mktime t = Some (of_nat (((365 * k + (k + 1) div 4 + unat (month ! unat (tm_mon t))
     + (if leap (full_year (unat (tm_year t))) \<and> 2 < unat (tm_mon t) then 1 else 0) + (unat (tm_mday t) - 1)) * 24
     + unat (tm_hour t)) * 3600 + unat (tm_min t) * 60 + unat (tm_sec t)))"
proof -
  note d = valid_timeD [OF v]
  define Y where "Y = (if 70 \<le> sint (tm_year t) then tm_year t - 70 else tm_year t + 100 - 70)"
  have Y: "Y = of_nat k"
    using d(8) by (auto simp: Y_def k_def sint_numeral of_nat_diff)
  have k: "k < 100" using d(8) by (simp add: k_def) linarith
  have "unat (sdiv32 (Y + 1) 4) = (k + 1) div 4"
  proof -
    have "unat (Y + 1) = k + 1" using k by (simp add: Y unat_of_nat unat_word_ariths)
    then show ?thesis using sdiv32_small [of "Y + 1" 4] k by simp
  qed
  then have q: "sdiv32 (Y + 1) 4 = of_nat ((k + 1) div 4)" by (metis word_of_nat_unat_u32)
  have mon: "2 < sint (tm_mon t) \<longleftrightarrow> 2 < unat (tm_mon t)" using d(7) by (simp add: sint_numeral)
  define e where "e = unat (tm_mday t) - 1"
  have md: "tm_mday t - 1 = of_nat e" using d(4) by (simp add: e_def of_nat_diff)
  have u: "YEAR = 31536000" "DAY = 86400" "HOUR = 3600" "MINUTE = 60"
    by (simp_all add: YEAR_def DAY_def HOUR_def MINUTE_def)
  have "mktime t = Some (of_nat k * 31536000 + of_nat ((k + 1) div 4) * 86400 + (month ! unat (tm_mon t)) * 86400
      + (if leap (full_year (unat (tm_year t))) \<and> 2 < unat (tm_mon t) then 86400 else 0) + of_nat e * 86400
      + tm_hour t * 3600 + tm_min t * 60 + tm_sec t)"
    unfolding mktime_def Let_def Y_def [symmetric] md mon is_leap_leap [OF d(8)]
      month_at_valid [OF d(6,7)] u Y q [unfolded Y] by (simp only: bind.bind_lunit) simp
  then show ?thesis unfolding e_def [symmetric] by (simp add: algebra_simps)
qed

lemma month_bound: "m < 13 \<Longrightarrow> unat (month ! m) < 366"
proof -
  assume "m < 13"
  then have "month ! m \<in> set month" by (intro nth_mem) (simp add: month_def)
  moreover have "\<forall>x \<in> set month. unat x < 366" by (simp add: month_def)
  ultimately show ?thesis by blast
qed

lemma calendar_days:
  assumes v: "valid_time t"
  defines "k \<equiv> (if 70 \<le> unat (tm_year t) then unat (tm_year t) - 70 else unat (tm_year t) + 30)"
  shows "calendar t + (if 4 \<le> unat (tm_mon t) then 86400 else 0) =
    ((365 * k + (k + 1) div 4 + unat (month ! unat (tm_mon t))
     + (if leap (full_year (unat (tm_year t))) \<and> 2 < unat (tm_mon t) then 1 else 0) + (unat (tm_mday t) - 1)) * 24
     + unat (tm_hour t)) * 3600 + unat (tm_min t) * 60 + unat (tm_sec t)"
proof -
  note d = valid_timeD [OF v]
  have "full_year (unat (tm_year t)) = 1970 + k" using d(8) by (simp add: full_year_def k_def)
  moreover have "k < 130" using d(8) by (simp add: k_def) linarith
  ultimately have y: "sum_list (map year_days [1970 ..< full_year (unat (tm_year t))]) = 365 * k + (k + 1) div 4"
    using years_sum by simp
  have "calendar t + (if 4 \<le> unat (tm_mon t) then 86400 else 0) =
    ((365 * k + (k + 1) div 4 + (sum_list (map (month_days (full_year (unat (tm_year t)))) [1 ..< unat (tm_mon t)])
       + (if 4 \<le> unat (tm_mon t) then 1 else 0)) + (unat (tm_mday t) - 1)) * 24
     + unat (tm_hour t)) * 3600 + unat (tm_min t) * 60 + unat (tm_sec t)"
    by (simp add: calendar_def epoch_seconds_def y)
  then show ?thesis by (simp only: months_sum [OF d(6,7)] add.assoc)
qed

section \<open>The clock and the alarm\<close>

lemma bcd_roundtrip:
  assumes "v < 100"
  obtains b where "bin_to_bcd v = Some b" "bcd_to_bin b = v"
proof -
  have "\<forall>n \<in> set [0 ..< 100]. bcd_to_bin (of_nat n mod 10 + push_bit 4 (of_nat n div 10)) = of_nat n"
    by (simp add: upt_rec bcd_to_bin_def)
  moreover have "unat v \<in> set [0 ..< 100]" using assms by (simp add: word_less_nat_alt)
  ultimately have "bcd_to_bin (v mod 10 + push_bit 4 (v div 10)) = v" by fastforce
  with assms that show ?thesis by (simp add: bin_to_bcd_def)
qed

text \<open>A pass in which the seconds register does not move ends the loop.\<close>

lemma time_read_bcd_stable:
  assumes "cmos n CMOS_SECOND = cmos (n + 8) CMOS_SECOND"
  shows "time_read_bcd cmos n = Some (read_pass cmos n, n + 9)"
  using assms by (subst time_read_bcd.simps) (simp add: read_pass_def)

definition day_seconds :: "time_val \<Rightarrow> nat" where
  "day_seconds t = (unat (tm_hour t) * 60 + unat (tm_min t)) * 60 + unat (tm_sec t)"

lemma carry_field:
  assumes "unat (x :: i32) < 2 ^ 31"
  shows "unat (if 60 \<le> sint x then smod32 x 60 else x) = unat x mod 60"
    "unat (if 24 \<le> sint x then smod32 x 24 else x) = unat x mod 24"
  using sint_numeral [OF assms] smod32_small [OF assms, of 60] smod32_small [OF assms, of 24] by auto

lemma alarm_fields:
  fixes secs :: u32
  assumes "unat (tm_sec t) < 60" "unat (tm_min t) < 60" "unat (tm_hour t) < 24"
  defines "S \<equiv> unat (tm_sec t) + unat secs mod 60"
  defines "M \<equiv> unat (tm_min t) + S div 60 + unat secs div 60 mod 60"
  defines "H \<equiv> unat (tm_hour t) + M div 60 + unat secs div 3600"
  shows "unat (tm_sec (alarm_time t secs)) = S mod 60" "unat (tm_min (alarm_time t secs)) = M mod 60"
    "unat (tm_hour (alarm_time t secs)) = H mod 24"
proof -
  have small: "unat (ucast (ucast (x mod 60) :: u8) :: i32) = unat x mod 60" for x :: u32
  proof -
    have "unat x mod 60 < 256" by (rule less_le_trans [of _ 60]) simp_all
    then show ?thesis by (simp add: unsigned_ucast_eq take_bit_eq_mod unat_mod)
  qed
  define sec :: i32 where "sec = ucast (ucast (secs mod 60) :: u8)"
  define min :: i32 where "min = ucast (ucast (secs div 60 mod 60) :: u8)"
  have sm: "unat sec = unat secs mod 60" "unat min = unat secs div 60 mod 60"
    using small [of secs] small [of "secs div 60"] by (simp_all add: sec_def min_def unat_div)
  define x where "x = tm_sec t + sec"
  have x: "unat x = S"
    using assms(1) sm(1) unfolding x_def S_def by (subst unat_plus_noof) simp_all
  have S: "S < 120" "S div 60 \<le> 1" using assms(1) by (simp_all add: S_def) 
  define y where "y = (if 60 \<le> sint x then tm_min t + 1 else tm_min t)"
  have y: "unat y = unat (tm_min t) + S div 60"
    using assms(2) S sint_numeral(1) [of x "num.Bit0 (num.Bit0 (num.Bit1 (num.Bit1 (num.Bit1 num.One))))"]
    by (auto simp: y_def x unat_word_ariths)
  define z where "z = y + min"
  have z: "unat z = M"
    using assms(2) S sm(2) unfolding z_def M_def by (subst unat_plus_noof) (simp_all add: y)
  have M: "M < 120" using assms(2) S by (simp add: M_def)
  define w where "w = (if 60 \<le> sint z then tm_hour t + 1 else tm_hour t) + secs div 60 div 60"
  have q: "unat secs div 3600 < 2000000"
  proof -
    have "unat secs < 3600 * 2000000" using unat_u32(1) [of secs] by linarith
    then show ?thesis by (simp add: less_mult_imp_div_less)
  qed
  have hh: "unat (secs div 60 div 60) = unat secs div 3600"
    by (simp add: unat_div div_mult2_eq [symmetric])
  have "unat (if 60 \<le> sint z then tm_hour t + 1 else tm_hour t) = unat (tm_hour t) + M div 60"
    using assms(3) M sint_numeral(1) [of z "num.Bit0 (num.Bit0 (num.Bit1 (num.Bit1 (num.Bit1 num.One))))"]
    by (auto simp: z unat_word_ariths)
  then have w: "unat w = H"
    using q assms(3) M unfolding w_def H_def by (subst unat_plus_noof) (simp_all add: hh)
  have H: "H < 2 ^ 31" using q assms(3) M by (simp add: H_def)
  have fields: "tm_sec (alarm_time t secs) = (if 60 \<le> sint x then smod32 x 60 else x)"
    "tm_min (alarm_time t secs) = (if 60 \<le> sint z then smod32 z 60 else z)"
    "tm_hour (alarm_time t secs) = (if 24 \<le> sint w then smod32 w 24 else w)"
    by (simp_all add: alarm_time_def Let_def x_def y_def z_def w_def sec_def min_def)
  show "unat (tm_sec (alarm_time t secs)) = S mod 60"
    using carry_field(1) [of x] S x fields(1) by simp
  show "unat (tm_min (alarm_time t secs)) = M mod 60"
    using carry_field(1) [of z] M z fields(2) by simp
  show "unat (tm_hour (alarm_time t secs)) = H mod 24"
    using carry_field(2) [of w] H w fields(3) by simp
qed

text \<open>
  Property C32. For every valid date of 1970 to 2069, \<^verbatim>\<open>mktime\<close> returns the number of seconds
  since 1970-01-01 00:00:00, plus one whole day when the month is April or later: the table
  \<^verbatim>\<open>month\<close> already counts February 29 from April on, in every year.
\<close>

theorem mktime_calendar:
  assumes "valid_time t"
  shows "\<exists>s. mktime t = Some s \<and> unat s = calendar t + (if 4 \<le> unat (tm_mon t) then 86400 else 0)"
proof -
  note d = valid_timeD [OF assms]
  have "unat (month ! unat (tm_mon t)) < 366" using d(7) by (intro month_bound) simp
  then have "calendar t + (if 4 \<le> unat (tm_mon t) then 86400 else 0) < 2 ^ 32"
    unfolding calendar_days [OF assms] using d by (auto split: if_splits)
  moreover obtain N where "mktime t = Some (of_nat N)" "calendar t + (if 4 \<le> unat (tm_mon t) then 86400 else 0) = N"
    using mktime_nat [OF assms] calendar_days [OF assms] by blast
  ultimately show ?thesis by (simp add: unat_of_nat)
qed

theorem mktime_calendar_witness:
  "\<exists>s. mktime \<lparr>tm_sec = 0, tm_min = 0, tm_hour = 0, tm_mday = 1, tm_mon = 4, tm_year = 23, tm_wday = 0,
       tm_yday = 0, century = 20, tm_isdst = 0\<rparr> = Some s \<and> unat s = 1680393600"
  using mktime_calendar [of "\<lparr>tm_sec = 0, tm_min = 0, tm_hour = 0, tm_mday = 1, tm_mon = 4, tm_year = 23,
       tm_wday = 0, tm_yday = 0, century = 20, tm_isdst = 0\<rparr>"]
  by (simp add: valid_time_def calendar_def epoch_seconds_def full_year_def years_sum [of 53, simplified]
     month_days_def leap_def upt_rec)


lemma carry_sum:
  fixes secs :: nat
  assumes "secs = a + 60 * b + 3600 * c" "S = 60 * S1 + S0" "M = 60 * M1 + M0" "H = 24 * H1 + H0"
    and "S = s + a" "M = m + S1 + b" "H = h + M1 + c"
  shows "(h * 60 + m) * 60 + s + secs = 86400 * H1 + ((H0 * 60 + M0) * 60 + S0)"
  using assms by simp

lemma day_bound: "h < 24 \<Longrightarrow> m < 60 \<Longrightarrow> s < 60 \<Longrightarrow> (h * 60 + m) * 60 + s < (86400 :: nat)"
  by simp

lemma day_carry:
  fixes s m h secs :: nat
  defines "S \<equiv> s + secs mod 60"
  defines "M \<equiv> m + S div 60 + secs div 60 mod 60"
  defines "H \<equiv> h + M div 60 + secs div 3600"
  shows "(H mod 24 * 60 + M mod 60) * 60 + S mod 60 = ((h * 60 + m) * 60 + s + secs) mod 86400"
proof -
  have "secs = secs mod 60 + 60 * (secs div 60)" by simp
  moreover have "secs div 60 = secs div 60 mod 60 + 60 * (secs div 60 div 60)"
    by (rule mod_mult_div_eq [symmetric])
  moreover have "secs div 60 div 60 = secs div 3600" by (simp add: div_mult2_eq [symmetric])
  ultimately have "secs = secs mod 60 + 60 * (secs div 60 mod 60) + 3600 * (secs div 3600)" by linarith
  then have "(h * 60 + m) * 60 + s + secs = 86400 * (H div 24) + ((H mod 24 * 60 + M mod 60) * 60 + S mod 60)"
    by (rule carry_sum [of _ _ _ _ S "S div 60" _ M "M div 60"]) (simp_all only: S_def M_def H_def mult_div_mod_eq)
  moreover have "(H mod 24 * 60 + M mod 60) * 60 + S mod 60 < 86400"
    by (rule day_bound) simp_all
  ultimately show ?thesis by simp
qed

text \<open>
  The alarm \<^verbatim>\<open>set_alarm\<close> programs is the time it read plus \<open>secs\<close> seconds, modulo
  one day: the three BCD values written to the alarm registers decode to that time of day, and
  the last write enables the alarm interrupt.
\<close>

theorem set_alarm_adds_seconds:
  assumes "time_read cmos n = Some (t, n')"
    and "tm_sec t < 60" "tm_min t < 60" "tm_hour t < 24"
  shows "\<exists>s m h. set_alarm cmos n secs = Some ([(CMOS_RTC_SECOND, s), (CMOS_RTC_MINUTE, m),
       (CMOS_RTC_HOUR, h), (CMOS_RTC_B, 0x22)], n' + 1) \<and>
     (unat (bcd_to_bin h) * 60 + unat (bcd_to_bin m)) * 60 + unat (bcd_to_bin s) =
       (day_seconds t + unat secs) mod 86400"
proof -
  have b: "unat (tm_sec t) < 60" "unat (tm_min t) < 60" "unat (tm_hour t) < 24"
    using assms(2-4) by (simp_all add: word_less_nat_alt)
  define a where "a = alarm_time t secs"
  note f = alarm_fields [OF b, of secs, folded a_def]
  have byte: "\<exists>c. bin_to_bcd (ucast x) = Some c \<and> unat (bcd_to_bin c) = unat x" if "unat x < 100" for x :: u32
  proof -
    have x: "unat (ucast x :: u8) = unat x" using that by (simp add: unsigned_ucast_eq take_bit_eq_mod)
    then have "(ucast x :: u8) < 100" using that by (simp add: word_less_nat_alt)
    then show ?thesis using x by (metis bcd_roundtrip)
  qed
  have l: "unat (tm_sec a) < 100" "unat (tm_min a) < 100" "unat (tm_hour a) < 100"
    unfolding f by (rule less_trans [OF mod_less_divisor]; simp)+
  from byte [OF l(1)] byte [OF l(2)] byte [OF l(3)] obtain s m h where
    smh: "bin_to_bcd (ucast (tm_sec a)) = Some s" "unat (bcd_to_bin s) = unat (tm_sec a)"
      "bin_to_bcd (ucast (tm_min a)) = Some m" "unat (bcd_to_bin m) = unat (tm_min a)"
      "bin_to_bcd (ucast (tm_hour a)) = Some h" "unat (bcd_to_bin h) = unat (tm_hour a)" by blast
  have "(unat (tm_hour a) * 60 + unat (tm_min a)) * 60 + unat (tm_sec a) = (day_seconds t + unat secs) mod 86400"
    unfolding f day_seconds_def by (rule day_carry)
  with smh show ?thesis by (simp add: set_alarm_def assms(1) a_def [symmetric])
qed

text \<open>A CMOS that stands still at 23:59:50 on 2023-03-05.\<close>

definition sample_cmos :: cmos where
  "sample_cmos n r = (if r = CMOS_SECOND then 0x50 else if r = CMOS_MINUTE then 0x59
     else if r = CMOS_HOUR then 0x23 else if r = CMOS_DAY then 0x05 else if r = CMOS_MONTH then 0x03
     else if r = CMOS_YEAR then 0x23 else if r = CMOS_WEEKDAY then 1 else 0x20)"

lemma sample_time_read:
  "time_read sample_cmos 0 = Some (\<lparr>tm_sec = 50, tm_min = 59, tm_hour = 23, tm_mday = 5, tm_mon = 3, tm_year = 23,
     tm_wday = 1, tm_yday = 64, century = 20, tm_isdst = - 1\<rparr>, 9)"
proof -
  have "time_read_bcd sample_cmos 0 = Some (read_pass sample_cmos 0, 9)"
    using time_read_bcd_stable [of sample_cmos 0] by (simp add: sample_cmos_def)
  then show ?thesis
    by (simp add: time_read_def read_pass_def sample_cmos_def cmos_regs bcd_field_def bcd_to_bin_def get_yday_def
        month_at_def month_def is_leap_def ad_year_def smod32_def)
qed

theorem set_alarm_adds_seconds_witness:
  "\<exists>s m h. set_alarm sample_cmos 0 20 = Some ([(CMOS_RTC_SECOND, s), (CMOS_RTC_MINUTE, m),
       (CMOS_RTC_HOUR, h), (CMOS_RTC_B, 0x22)], 10) \<and>
     (unat (bcd_to_bin h) * 60 + unat (bcd_to_bin m)) * 60 + unat (bcd_to_bin s) = 10"
  using set_alarm_adds_seconds [OF sample_time_read, of 20] by (simp add: day_seconds_def)

end
