(* ===== verification/Kstate.thy ===== *)
theory Kstate
  imports Klist Bitmap
begin

text \<open>
  The state of the machine and of the kernel that the memory manager, the scheduler and the
  interrupt code share.

  Memory is split by the type of what it holds, as the code never reads an object at another
  type: \<open>kmem\<close> are the bytes of the kernel's own memory (the frame counters at
  \<^verbatim>\<open>mm.memory_map\<close>, bitmap buffers, heap blocks), \<open>pmem\<close> the 32-bit words of physical memory
  that are page directories, page tables and user pages, and \<open>nodes\<close>, \<open>tcbs\<close>, \<open>bitmaps\<close>,
  \<open>arenas\<close>, \<open>frames\<close> and \<open>iframes\<close> the structures of that type at an address. The kernel's
  first 16 MiB are mapped one to one, so a kernel pointer is a physical address; user
  addresses and the recursive page-table window go through the page walk of the memory
  theory. The global variables of the C files are the remaining fields. Console output
  (\<^verbatim>\<open>LOGK\<close>) is not part of the state.
\<close>

unbundle bit_operations_syntax

section \<open>Task control blocks\<close>

datatype task_state = TASK_INIT | TASK_RUNNING | TASK_READY | TASK_BLOCKED | TASK_SLEEPING
  | TASK_WAITING | TASK_DIED

text \<open>\<^verbatim>\<open>task_t\<close> without its list node, which is in the heap of nodes at offset 4.\<close>

record tcb =
  t_stack :: addr
  t_state :: task_state
  t_name :: string
  t_priority :: u32
  t_ticks :: u32
  t_jiffies :: u32
  t_uid :: u32
  t_gid :: u32
  t_pid :: i32
  t_ppid :: i32
  t_page_dir :: u32
  t_vmap :: addr
  t_brk :: u32
  t_status :: i32
  t_waitpid :: i32
  t_ipwd :: addr
  t_iroot :: addr
  t_umask :: u16
  t_magic :: u32

definition node_of :: "addr \<Rightarrow> addr" where
  "node_of task = task + 4"

definition task_of_node :: "addr \<Rightarrow> addr" where
  "task_of_node node = node - 4"

lemma task_of_node_of [simp]: "task_of_node (node_of t) = t" "node_of (task_of_node n) = n"
  by (simp_all add: task_of_node_def node_of_def)

lemma node_of_inj [simp]: "node_of t = node_of t' \<longleftrightarrow> t = t'"
  by (simp add: node_of_def)

text \<open>The context \<^verbatim>\<open>task_switch\<close> pops and the frame an interrupt pushes (\<^verbatim>\<open>intr_frame_t\<close>).\<close>

record task_frame =
  tf_edi :: u32
  tf_esi :: u32
  tf_ebx :: u32
  tf_ebp :: u32
  tf_eip :: addr

record intr_frame =
  if_vector :: u32
  if_edi :: u32
  if_esi :: u32
  if_ebp :: u32
  if_esp :: u32
  if_ebx :: u32
  if_edx :: u32
  if_ecx :: u32
  if_eax :: u32
  if_gs :: u32
  if_fs :: u32
  if_es :: u32
  if_ds :: u32
  if_vector0 :: u32
  if_error :: u32
  if_eip :: u32
  if_cs :: u32
  if_eflags :: u32
  if_esp3 :: u32
  if_ss3 :: u32

section \<open>The memory managers\<close>

record memory_manager =
  alloc_base :: u32
  alloc_size :: u32
  free_pages :: u32
  total_pages :: u32
  start_page_idx :: u32
  memory_map :: addr
  memory_map_pages :: u32
  memory_size :: u32

text \<open>\<open>kernel_vmap\<close> is the address of the bitmap \<^verbatim>\<open>kmm.kernel_vmap\<close>.\<close>

record kmm =
  kernel_page_dir :: u32
  kernel_page_table :: "u32 list"
  kernel_space_size :: u32
  kernel_vmap :: addr

text \<open>A block descriptor of the heap is named by its index in \<^verbatim>\<open>arena_descriptors\<close>; \<open>None\<close> is \<open>NULL\<close>.\<close>

record arena_descriptor =
  total_block :: u32
  block_size :: u32
  free_list :: addr

record arena =
  ar_desc :: "nat option"
  ar_count :: u32
  ar_large :: bool
  ar_magic :: u32

section \<open>The whole state\<close>

record kstate =
  kmem :: mem
  pmem :: "addr \<Rightarrow> u32"
  nodes :: heap
  tcbs :: "addr \<Rightarrow> tcb"
  bitmaps :: "addr \<Rightarrow> bitmap"
  arenas :: "addr \<Rightarrow> arena"
  frames :: "addr \<Rightarrow> task_frame"
  iframes :: "addr \<Rightarrow> intr_frame"
  iflag :: bool
  cr2 :: u32
  cr3 :: u32
  esp0 :: u32
  current :: addr
  irq_off_count :: u32
  first_irq_state :: bool
  mm :: memory_manager
  kmm :: kmm
  descriptors :: "arena_descriptor list"
  task_queue :: "addr list"
  blocked_queue :: addr
  sleeping_queue :: addr
  idle_task :: addr
  jiffies :: u32
  beeping :: u32
  speaker :: u8

text \<open>\<open>current_task\<close> rounds the stack pointer down to the page of the running task's TCB.\<close>

definition current_task :: "kstate \<Rightarrow> addr" where
  "current_task s = current s"

abbreviation cur :: "kstate \<Rightarrow> tcb" where
  "cur s \<equiv> tcbs s (current s)"

definition upd_tcb :: "addr \<Rightarrow> (tcb \<Rightarrow> tcb) \<Rightarrow> kstate \<Rightarrow> kstate" where
  "upd_tcb t f s = s\<lparr>tcbs := (tcbs s)(t := f (tcbs s t))\<rparr>"

definition XOS_MAGIC :: u32 where "XOS_MAGIC = 0x20230614"
definition PAGE_SIZE :: u32 where "PAGE_SIZE = 0x1000"

text \<open>The identity of a user-mode task in \<^verbatim>\<open>uid\<close>.\<close>

definition KERNEL_TASK :: u32 where "KERNEL_TASK = 0"
definition USER_TASK :: u32 where "USER_TASK = 1"

definition PAGE_IDX :: "addr \<Rightarrow> u32" where "PAGE_IDX a = drop_bit 12 a"
definition PAGE_ADDR :: "u32 \<Rightarrow> addr" where "PAGE_ADDR i = push_bit 12 i"
definition PDE_IDX :: "addr \<Rightarrow> u32" where "PDE_IDX a = drop_bit 22 a AND 0x3ff"
definition PTE_IDX :: "addr \<Rightarrow> u32" where "PTE_IDX a = drop_bit 12 a AND 0x3ff"

definition KERNEL_VMAP_BITS :: addr where "KERNEL_VMAP_BITS = 0x6000"
definition MEMORY_ALLOC_BASE :: u32 where "MEMORY_ALLOC_BASE = 0x100000"
definition KERNEL_MEMORY_SIZE :: u32 where "KERNEL_MEMORY_SIZE = 0x1000000"
definition USER_MEMORY_TOP :: u32 where "USER_MEMORY_TOP = 0x8800000"
definition USER_STACK_TOP :: u32 where "USER_STACK_TOP = USER_MEMORY_TOP"
definition USER_STACK_SIZE :: u32 where "USER_STACK_SIZE = 0xa00000"
definition USER_STACK_BOOTOM :: u32 where "USER_STACK_BOOTOM = USER_MEMORY_TOP - USER_STACK_SIZE"

lemmas user_layout = KERNEL_MEMORY_SIZE_def USER_MEMORY_TOP_def USER_STACK_TOP_def USER_STACK_SIZE_def
  USER_STACK_BOOTOM_def

lemma upd_tcb_simps [simp]:
  "tcbs (upd_tcb t f s) u = (if u = t then f (tcbs s t) else tcbs s u)"
  "nodes (upd_tcb t f s) = nodes s" "current (upd_tcb t f s) = current s" "iflag (upd_tcb t f s) = iflag s"
  "task_queue (upd_tcb t f s) = task_queue s" "idle_task (upd_tcb t f s) = idle_task s"
  "jiffies (upd_tcb t f s) = jiffies s" "cr3 (upd_tcb t f s) = cr3 s" "esp0 (upd_tcb t f s) = esp0 s"
  "sleeping_queue (upd_tcb t f s) = sleeping_queue s" "blocked_queue (upd_tcb t f s) = blocked_queue s"
  "kmem (upd_tcb t f s) = kmem s" "pmem (upd_tcb t f s) = pmem s" "bitmaps (upd_tcb t f s) = bitmaps s"
  "mm (upd_tcb t f s) = mm s" "kmm (upd_tcb t f s) = kmm s" "beeping (upd_tcb t f s) = beeping s"
  "arenas (upd_tcb t f s) = arenas s" "descriptors (upd_tcb t f s) = descriptors s"
  by (simp_all add: upd_tcb_def)

text \<open>Zeroed memory, as the loader leaves the kernel's data section.\<close>

definition zero_tcb :: tcb where
  "zero_tcb = \<lparr>t_stack = 0, t_state = TASK_INIT, t_name = [], t_priority = 0, t_ticks = 0, t_jiffies = 0,
     t_uid = 0, t_gid = 0, t_pid = 0, t_ppid = 0, t_page_dir = 0, t_vmap = 0, t_brk = 0, t_status = 0,
     t_waitpid = 0, t_ipwd = 0, t_iroot = 0, t_umask = 0, t_magic = 0\<rparr>"

definition zero_frame :: task_frame where
  "zero_frame = \<lparr>tf_edi = 0, tf_esi = 0, tf_ebx = 0, tf_ebp = 0, tf_eip = 0\<rparr>"

definition zero_iframe :: intr_frame where
  "zero_iframe = \<lparr>if_vector = 0, if_edi = 0, if_esi = 0, if_ebp = 0, if_esp = 0, if_ebx = 0, if_edx = 0,
     if_ecx = 0, if_eax = 0, if_gs = 0, if_fs = 0, if_es = 0, if_ds = 0, if_vector0 = 0, if_error = 0,
     if_eip = 0, if_cs = 0, if_eflags = 0, if_esp3 = 0, if_ss3 = 0\<rparr>"

definition boot_state :: kstate where
  "boot_state = \<lparr>kmem = (\<lambda>_. 0), pmem = (\<lambda>_. 0), nodes = (\<lambda>_. \<lparr>nprev = 0, nnext = 0\<rparr>),
     tcbs = (\<lambda>_. zero_tcb), bitmaps = (\<lambda>_. \<lparr>bm_bits = 0, bm_size = 0, bm_offset = 0, bm_length = 0\<rparr>),
     arenas = (\<lambda>_. \<lparr>ar_desc = None, ar_count = 0, ar_large = False, ar_magic = 0\<rparr>),
     frames = (\<lambda>_. zero_frame), iframes = (\<lambda>_. zero_iframe), iflag = False, cr2 = 0, cr3 = 0, esp0 = 0,
     current = 0x10000, irq_off_count = 0, first_irq_state = False,
     mm = \<lparr>alloc_base = 0, alloc_size = 0, free_pages = 0, total_pages = 0, start_page_idx = 0,
       memory_map = 0, memory_map_pages = 0, memory_size = 0\<rparr>,
     kmm = \<lparr>kernel_page_dir = 0x1000, kernel_page_table = [0x2000, 0x3000, 0x4000, 0x5000],
       kernel_space_size = 4 * 1024 * PAGE_SIZE, kernel_vmap = 0x20000\<rparr>,
     descriptors = [], task_queue = replicate 64 0, blocked_queue = 0x21000, sleeping_queue = 0x21010,
     idle_task = 0, jiffies = 0, beeping = 0, speaker = 0\<rparr>"

end
