(* ===== verification/Memory.thy ===== *)
theory Memory
  imports Kstate
begin

text \<open>
  The physical page allocator and the kernel's page allocator of \<^verbatim>\<open>kernel/memory.c\<close>, with the
  start-up code that sizes memory. A frame is free when its counter in \<^verbatim>\<open>mm.memory_map\<close> is 0;
  the counters are bytes of kernel memory at \<^verbatim>\<open>mm.memory_map\<close>. \<open>mm_ok\<close> is the allocator's
  invariant: \<^verbatim>\<open>free_pages\<close> is the number of allocatable frames whose counter is 0.
\<close>

unbundle bit_operations_syntax

section \<open>memory_init\<close>

definition rd32 :: "mem \<Rightarrow> addr \<Rightarrow> u32" where
  "rd32 m a = ucast (m a) OR push_bit 8 (ucast (m (a + 1))) OR push_bit 16 (ucast (m (a + 2)))
     OR push_bit 24 (ucast (m (a + 3)))"

definition rd64 :: "mem \<Rightarrow> addr \<Rightarrow> u64" where
  "rd64 m a = ucast (rd32 m a) OR push_bit 32 (ucast (rd32 m (a + 4)))"

definition ROUND_UP :: "u32 \<Rightarrow> u32 \<Rightarrow> u32" where
  "ROUND_UP x k = (x + k - 1) AND (- k)"

definition MULTIBOOT2_MAGIC :: u32 where "MULTIBOOT2_MAGIC = 0x36d76289"

text \<open>An \<^verbatim>\<open>ards_t\<close> is 20 bytes: base, size and type; a zone is taken when it is larger than the last.\<close>

definition pick_zone :: "u64 \<Rightarrow> u64 \<Rightarrow> u32 \<Rightarrow> memory_manager \<Rightarrow> memory_manager" where
  "pick_zone base sz ty g =
     (if ty = 1 \<and> ucast MEMORY_ALLOC_BASE \<le> base \<and> ucast (alloc_size g) < sz
      then g\<lparr>alloc_base := ucast base, alloc_size := ucast sz\<rparr> else g)"

definition ards_zones :: "mem \<Rightarrow> addr \<Rightarrow> memory_manager \<Rightarrow> memory_manager" where
  "ards_zones m addr g =
     (let n = rd32 m addr; ptr = addr + 4
      in fold (\<lambda>i. let p = ptr + 20 * of_nat i in pick_zone (rd64 m p) (rd64 m (p + 8)) (rd32 m (p + 16)))
           [0 ..< unat n] g)"

partial_function (option) find_mmap_tag :: "mem \<Rightarrow> addr \<Rightarrow> addr option" where
  "find_mmap_tag m tag =
     (if rd32 m tag = 0 then Some tag
      else if rd32 m tag = 6 then Some tag
      else find_mmap_tag m (ROUND_UP (tag + rd32 m (tag + 4)) 8))"

partial_function (option) mmap_entries ::
    "mem \<Rightarrow> addr \<Rightarrow> addr \<Rightarrow> addr \<Rightarrow> memory_manager \<Rightarrow> memory_manager option" where
  "mmap_entries m tag fin entry g =
     (if entry < fin
      then mmap_entries m tag fin (entry + rd32 m (tag + 8))
             (pick_zone (rd64 m entry) (rd64 m (entry + 8)) (rd32 m (entry + 16)) g)
      else Some g)"

definition multiboot_zones :: "mem \<Rightarrow> addr \<Rightarrow> memory_manager \<Rightarrow> memory_manager option" where
  "multiboot_zones m addr g = do {
     tag \<leftarrow> find_mmap_tag m (addr + 8);
     mmap_entries m tag (tag + rd32 m (tag + 4)) (tag + 16) g }"

section \<open>Frame counters\<close>

definition mmap_at :: "kstate \<Rightarrow> u32 \<Rightarrow> u8" where
  "mmap_at s i = kmem s (memory_map (mm s) + i)"

definition set_mmap :: "kstate \<Rightarrow> u32 \<Rightarrow> u8 \<Rightarrow> kstate" where
  "set_mmap s i v = s\<lparr>kmem := (kmem s)(memory_map (mm s) + i := v)\<rparr>"

definition set_free_pages :: "kstate \<Rightarrow> u32 \<Rightarrow> kstate" where
  "set_free_pages s n = s\<lparr>mm := (mm s)\<lparr>free_pages := n\<rparr>\<rparr>"

text \<open>Division by the constant \<^verbatim>\<open>PAGE_SIZE\<close>, as \<^verbatim>\<open>div_round_up\<close> computes it.\<close>

definition memory_map_init :: "kstate \<Rightarrow> kstate option" where
  "memory_map_init s = do {
     let s = s\<lparr>mm := (mm s)\<lparr>memory_map := alloc_base (mm s)\<rparr>\<rparr>;
     let s = s\<lparr>mm := (mm s)\<lparr>memory_map_pages := (total_pages (mm s) + PAGE_SIZE - 1) div PAGE_SIZE\<rparr>\<rparr>;
     let s = set_free_pages s (free_pages (mm s) - memory_map_pages (mm s));
     let s = s\<lparr>kmem := memset (kmem s) (memory_map (mm s)) 0 (memory_map_pages (mm s) * PAGE_SIZE)\<rparr>;
     let s = s\<lparr>mm := (mm s)\<lparr>start_page_idx := PAGE_IDX (alloc_base (mm s)) + memory_map_pages (mm s)\<rparr>\<rparr>;
     forM [0 ..< unat (start_page_idx (mm s))] (\<lambda>i s. Some (set_mmap s (of_nat i) 1)) s }"

definition memory_init :: "u32 \<Rightarrow> addr \<Rightarrow> kstate \<Rightarrow> kstate option" where
  "memory_init magic addr s = do {
     mgr \<leftarrow> (if magic = XOS_MAGIC then Some (ards_zones (kmem s) addr (mm s))
             else if magic = MULTIBOOT2_MAGIC then multiboot_zones (kmem s) addr (mm s)
             else panic ''Memory init magic unknown'');
     let mgr = mgr\<lparr>free_pages := PAGE_IDX (alloc_size mgr)\<rparr>;
     let mgr = mgr\<lparr>total_pages := free_pages mgr + PAGE_IDX (alloc_base mgr)\<rparr>;
     let mgr = mgr\<lparr>memory_size := total_pages mgr * PAGE_SIZE\<rparr>;
     assert_c (alloc_base mgr = MEMORY_ALLOC_BASE);
     (if memory_size mgr < kernel_space_size (kmm s) then panic ''Physical memory too small'' else Some ());
     memory_map_init (s\<lparr>mm := mgr\<rparr>) }"

section \<open>alloc_page and free_page\<close>

primrec alloc_loop :: "kstate \<Rightarrow> nat \<Rightarrow> u32 \<Rightarrow> (u32 \<times> kstate) option" where
  "alloc_loop s 0 i = panic ''Out of Memory!!!''"
| "alloc_loop s (Suc k) i =
     (if mmap_at s i = 0 then do {
        let s = set_mmap s i 1;
        assert_c (free_pages (mm s) > 0);
        let s = set_free_pages s (free_pages (mm s) - 1);
        Some (PAGE_ADDR i, s) }
      else alloc_loop s k (i + 1))"

definition alloc_page :: "kstate \<Rightarrow> (u32 \<times> kstate) option" where
  "alloc_page s = alloc_loop s (unat (total_pages (mm s)) - unat (start_page_idx (mm s)))
     (start_page_idx (mm s))"

text \<open>\<^verbatim>\<open>ASSERT_PAGE_ADDR\<close> is an expression without effect, so nothing is checked here.\<close>

definition free_page :: "kstate \<Rightarrow> u32 \<Rightarrow> kstate option" where
  "free_page s addr = do {
     let idx = PAGE_IDX addr;
     assert_c (idx \<ge> start_page_idx (mm s) \<and> idx < total_pages (mm s));
     assert_c (mmap_at s idx \<ge> 1);
     let s = set_mmap s idx (mmap_at s idx - 1);
     if mmap_at s idx = 0 then do {
       let s = set_free_pages s (free_pages (mm s) + 1);
       assert_c (free_pages (mm s) > 0 \<and> free_pages (mm s) < total_pages (mm s));
       Some s }
     else Some s }"

section \<open>Kernel pages\<close>

text \<open>A bitmap operation of the kernel runs on the byte memory.\<close>

definition scan_pages :: "kstate \<Rightarrow> addr \<Rightarrow> u32 \<Rightarrow> (u32 \<times> kstate) option" where
  "scan_pages s vm cnt = do {
     assert_c (cnt > 0);
     (idx, m) \<leftarrow> bitmap_insert_nbits (kmem s) (bitmaps s vm) cnt;
     if idx = EOF then panic ''Scan page fail!!!'' else Some (PAGE_ADDR idx, s\<lparr>kmem := m\<rparr>) }"

definition reset_pages :: "kstate \<Rightarrow> addr \<Rightarrow> u32 \<Rightarrow> u32 \<Rightarrow> kstate option" where
  "reset_pages s vm addr cnt = do {
     assert_c (cnt > 0);
     let idx = PAGE_IDX addr;
     forM [0 ..< unat cnt] (\<lambda>i s. do {
       c \<leftarrow> bitmap_contains (kmem s) (bitmaps s vm) (idx + of_nat i);
       assert_c c;
       m \<leftarrow> bitmap_remove (kmem s) (bitmaps s vm) (idx + of_nat i);
       Some (s\<lparr>kmem := m\<rparr>) }) s }"

definition kalloc_page :: "kstate \<Rightarrow> u32 \<Rightarrow> (u32 \<times> kstate) option" where
  "kalloc_page s cnt = do { assert_c (cnt > 0); scan_pages s (kernel_vmap (kmm s)) cnt }"

definition kfree_page :: "kstate \<Rightarrow> u32 \<Rightarrow> u32 \<Rightarrow> kstate option" where
  "kfree_page s vaddr cnt = do {
     assert_c (cnt > 0);
     reset_pages s (kernel_vmap (kmm s)) vaddr cnt }"

definition kernel_vmap_init :: "kstate \<Rightarrow> kstate" where
  "kernel_vmap_init s =
     (let sz = (PAGE_IDX (kernel_space_size (kmm s)) - start_page_idx (mm s) + 8 - 1) div 8;
          (b, m) = bitmap_init (kmem s) KERNEL_VMAP_BITS sz (start_page_idx (mm s))
      in s\<lparr>kmem := m, bitmaps := (bitmaps s)(kernel_vmap (kmm s) := b)\<rparr>)"


section \<open>Frame numbers and addresses\<close>

lemma mmap_at_set [simp]: "mmap_at (set_mmap s i v) j = (if j = i then v else mmap_at s j)"
  by (simp add: mmap_at_def set_mmap_def)

lemma mmap_at_set_free [simp]: "mmap_at (set_free_pages s n) = mmap_at s"
  by (simp add: mmap_at_def set_free_pages_def fun_eq_iff)

lemma set_mmap_simps [simp]:
  "mm (set_mmap s i v) = mm s" "pmem (set_mmap s i v) = pmem s" "tcbs (set_mmap s i v) = tcbs s"
  "current (set_mmap s i v) = current s" "cr3 (set_mmap s i v) = cr3 s" "bitmaps (set_mmap s i v) = bitmaps s"
  "mm (set_free_pages s n) = (mm s)\<lparr>free_pages := n\<rparr>" "pmem (set_free_pages s n) = pmem s"
  "tcbs (set_free_pages s n) = tcbs s" "current (set_free_pages s n) = current s"
  "cr3 (set_free_pages s n) = cr3 s" "bitmaps (set_free_pages s n) = bitmaps s"
  "kmem (set_free_pages s n) = kmem s"
  by (simp_all add: set_mmap_def set_free_pages_def)

lemma PAGE_IDX_ADDR: "unat i < 2 ^ 20 \<Longrightarrow> PAGE_IDX (PAGE_ADDR i) = i"
proof -
  assume i: "unat i < 2 ^ 20"
  have "unat (PAGE_ADDR i) = unat i * 2 ^ 12"
  proof -
    have "unat i * 2 ^ 12 < 2 ^ 32" using i by simp
    then show ?thesis by (simp add: PAGE_ADDR_def push_bit_eq_mult unat_word_ariths mult.commute)
  qed
  then show ?thesis by (simp add: PAGE_IDX_def word_unat_eq_iff drop_bit_eq_div unat_div)
qed

section \<open>The invariant of the frame allocator\<close>

definition managed :: "kstate \<Rightarrow> nat set" where
  "managed s = {unat (start_page_idx (mm s)) ..< unat (total_pages (mm s))}"

definition frefs :: "kstate \<Rightarrow> nat \<Rightarrow> nat" where
  "frefs s i = unat (mmap_at s (of_nat i))"

definition free_frames :: "kstate \<Rightarrow> nat set" where
  "free_frames s = {i \<in> managed s. frefs s i = 0}"

definition mm_ok :: "kstate \<Rightarrow> bool" where
  "mm_ok s \<longleftrightarrow> unat (free_pages (mm s)) = card (free_frames s) \<and> 0 < start_page_idx (mm s) \<and>
     start_page_idx (mm s) \<le> total_pages (mm s) \<and> unat (total_pages (mm s)) \<le> 2 ^ 20"

lemma managed_small: "mm_ok s \<Longrightarrow> i \<in> managed s \<Longrightarrow> i < 2 ^ 20"
  by (auto simp: mm_ok_def managed_def)

lemma finite_free_frames [simp]: "finite (free_frames s)"
  by (simp add: free_frames_def managed_def)

lemma free_frames_bound: "mm_ok s \<Longrightarrow> card (free_frames s) < unat (total_pages (mm s))"
proof -
  assume ok: "mm_ok s"
  have "card (free_frames s) \<le> card (managed s)"
    by (rule card_mono) (auto simp: free_frames_def managed_def)
  with ok show ?thesis
    by (auto simp: mm_ok_def managed_def word_less_nat_alt word_le_nat_alt)
qed

lemma managed_set [simp]:
  "managed (set_mmap s i v) = managed s" "managed (set_free_pages s n) = managed s"
  by (simp_all add: managed_def)

lemma frefs_set:
  "j < 2 ^ 32 \<Longrightarrow> frefs (set_mmap s i v) j = (if j = unat i then unat v else frefs s j)"
  "frefs (set_free_pages s n) = frefs s"
  by (auto simp: frefs_def word_unat_eq_iff unat_of_nat fun_eq_iff)

lemma alloc_loop_first:
  assumes "unat i + k = unat (total_pages (mm s))" "start_page_idx (mm s) \<le> i"
    and "mm_ok s" and "\<forall>j \<in> free_frames s. unat i \<le> j"
  shows "alloc_loop s k i =
    (if free_frames s = {} then None
     else let f = of_nat (Min (free_frames s))
          in Some (PAGE_ADDR f, set_free_pages (set_mmap s f 1) (free_pages (mm s) - 1)))"
  using assms(1,2,4)
proof (induction k arbitrary: i)
  case 0
  then have "free_frames s = {}" by (auto simp: free_frames_def managed_def)
  then show ?case by (simp add: panic_def)
next
  case (Suc k)
  have i: "unat i \<in> managed s" using Suc.prems by (simp add: managed_def word_le_nat_alt)
  show ?case
  proof (cases "mmap_at s i = 0")
    case True
    then have f: "unat i \<in> free_frames s" using i by (simp add: free_frames_def frefs_def)
    then have "Min (free_frames s) = unat i" using Suc.prems(3) by (intro Min_eqI) auto
    moreover have "free_pages (mm s) \<noteq> 0" using assms(3) f by (auto simp: mm_ok_def)
    ultimately show ?thesis using True f by (auto simp: Let_def word_gt_0)
  next
    case False
    then have "unat i \<notin> free_frames s" by (simp add: free_frames_def frefs_def unat_eq_zero)
    then have "\<forall>j \<in> free_frames s. Suc (unat i) \<le> j" using Suc.prems(3) by (metis le_neq_implies_less Suc_leI)
    moreover have "unat (i + 1) = Suc (unat i)"
      using assms(3) Suc.prems(1) by (intro trans [OF unat_plus_noof]) (auto simp: mm_ok_def)
    ultimately show ?thesis using False Suc.prems Suc.IH [of "i + 1"]
      by (simp add: word_le_nat_alt)
  qed
qed

lemma alloc_page_first:
  assumes "mm_ok s"
  shows "alloc_page s =
    (if free_frames s = {} then None
     else let f = of_nat (Min (free_frames s))
          in Some (PAGE_ADDR f, set_free_pages (set_mmap s f 1) (free_pages (mm s) - 1)))"
  unfolding alloc_page_def using assms
  by (intro alloc_loop_first) (auto simp: mm_ok_def free_frames_def managed_def word_le_nat_alt)


lemma free_frames_set_mmap:
  "mm_ok s \<Longrightarrow> unat i \<in> managed s \<Longrightarrow>
     free_frames (set_mmap s i v) = (if v = 0 then insert (unat i) (free_frames s) else free_frames s - {unat i})"
proof -
  assume ok: "mm_ok s" and i: "unat i \<in> managed s"
  have "frefs (set_mmap s i v) j = (if j = unat i then unat v else frefs s j)" if "j \<in> managed s" for j
    using managed_small [OF ok that] by (intro frefs_set) simp
  moreover have "unat v = 0 \<longleftrightarrow> v = 0" by (rule unat_eq_zero)
  ultimately show ?thesis using i by (auto simp: free_frames_def split: if_splits)
qed

lemma free_frames_set_free [simp]: "free_frames (set_free_pages s n) = free_frames s"
  by (simp add: free_frames_def frefs_set)

lemma mm_ok_change:
  assumes "mm_ok s" and "unat i \<in> managed s" and "unat n = card (free_frames (set_mmap s i v))"
  shows "mm_ok (set_free_pages (set_mmap s i v) n)"
  using assms by (auto simp: mm_ok_def)

lemma alloc_page_law:
  assumes "mm_ok s" and "0 < free_pages (mm s)"
  shows "\<exists>f s'. alloc_page s = Some (PAGE_ADDR f, s') \<and> unat f \<in> free_frames s \<and>
     (\<forall>j \<in> free_frames s. unat f \<le> j) \<and> mm_ok s' \<and> managed s' = managed s \<and>
     free_frames s' = free_frames s - {unat f} \<and> free_pages (mm s') = free_pages (mm s) - 1 \<and>
     s' = set_free_pages (set_mmap s f 1) (free_pages (mm s) - 1)"
proof -
  have "free_frames s \<noteq> {}" using assms by (auto simp: mm_ok_def word_gt_0 unat_eq_zero)
  moreover define f where "f = (of_nat (Min (free_frames s)) :: u32)"
  ultimately have m: "Min (free_frames s) \<in> free_frames s" "\<forall>j \<in> free_frames s. Min (free_frames s) \<le> j" by auto
  then have "Min (free_frames s) < 2 ^ 20" using managed_small [OF assms(1)] by (auto simp: free_frames_def)
  then have uf: "unat f = Min (free_frames s)" by (simp add: f_def unat_of_nat)
  let ?s = "set_free_pages (set_mmap s f 1) (free_pages (mm s) - 1)"
  have fm: "unat f \<in> managed s" using m(1) by (simp add: uf free_frames_def)
  have ff: "free_frames ?s = free_frames s - {unat f}"
    using free_frames_set_mmap [OF assms(1) fm] by simp
  have "1 \<le> free_pages (mm s)" using assms(2) by (simp add: word_le_nat_alt word_less_nat_alt)
  then have "unat (free_pages (mm s) - 1) = card (free_frames (set_mmap s f 1))"
    using assms(1) m(1) ff by (simp add: unat_minus_le mm_ok_def uf)
  then have "mm_ok ?s" by (rule mm_ok_change [OF assms(1) fm])
  then show ?thesis
    using alloc_page_first [OF assms(1)] \<open>free_frames s \<noteq> {}\<close> m ff
    by (intro exI [of _ f] exI [of _ ?s]) (simp add: uf f_def [symmetric] Let_def)
qed

lemma alloc_page_exhausted: "mm_ok s \<Longrightarrow> free_pages (mm s) = 0 \<Longrightarrow> alloc_page s = None"
  using alloc_page_first [of s] by (auto simp: mm_ok_def)

lemma free_page_law:
  assumes ok: "mm_ok s" and f: "unat f \<in> managed s" and r: "0 < frefs s (unat f)"
  shows "\<exists>s'. free_page s (PAGE_ADDR f) = Some s' \<and> mm_ok s' \<and> managed s' = managed s \<and>
     (\<forall>j < 2 ^ 32. frefs s' j = (if j = unat f then frefs s j - 1 else frefs s j)) \<and>
     free_pages (mm s') = free_pages (mm s) + (if frefs s (unat f) = 1 then 1 else 0)"
proof -
  have idx: "PAGE_IDX (PAGE_ADDR f) = f" using managed_small [OF ok f] by (intro PAGE_IDX_ADDR)
  have rng: "start_page_idx (mm s) \<le> f" "f < total_pages (mm s)"
    using f by (auto simp: managed_def word_le_nat_alt word_less_nat_alt)
  have pos: "1 \<le> mmap_at s f" using r by (simp add: frefs_def word_le_nat_alt)
  then have dec: "unat (mmap_at s f - 1) = frefs s (unat f) - 1" by (simp add: frefs_def unat_minus_le)
  have refs: "frefs (set_mmap s f (mmap_at s f - 1)) j = (if j = unat f then frefs s j - 1 else frefs s j)"
    if "j < 2 ^ 32" for j using that dec by (simp add: frefs_set)
  have notin: "unat f \<notin> free_frames s" using r by (simp add: free_frames_def)
  have fr: "frefs s (unat f) = 1 \<longleftrightarrow> mmap_at s f = 1" by (simp add: frefs_def word_unat_eq_iff)
  show ?thesis
  proof (cases "mmap_at s f = 1")
    case True
    let ?s = "set_free_pages (set_mmap s f 0) (free_pages (mm s) + 1)"
    have c: "card (free_frames (set_mmap s f 0)) = Suc (card (free_frames s))"
      using notin by (simp add: free_frames_set_mmap [OF ok f])
    have "free_frames s \<subseteq> managed s" by (auto simp: free_frames_def)
    then have "free_frames s \<subset> managed s" using f notin by blast
    then have "card (free_frames s) < card (managed s)"
      by (intro psubset_card_mono) (simp_all add: managed_def)
    then have bnd: "Suc (card (free_frames s)) < unat (total_pages (mm s))"
      using ok by (auto simp: mm_ok_def managed_def word_less_nat_alt word_le_nat_alt)
    then have n: "unat (free_pages (mm s) + 1) = Suc (card (free_frames s))"
      using ok by (intro trans [OF unat_plus_noof]) (auto simp: mm_ok_def)
    then have "mm_ok ?s" using mm_ok_change [OF ok f, of "free_pages (mm s) + 1" 0] c by simp
    moreover have "free_page s (PAGE_ADDR f) = Some ?s"
      using True rng bnd n by (simp add: free_page_def idx word_less_nat_alt)
    ultimately show ?thesis using refs True fr by (auto simp: frefs_set)
  next
    case False
    then have "mmap_at s f - 1 \<noteq> 0" by simp
    then have "free_page s (PAGE_ADDR f) = Some (set_mmap s f (mmap_at s f - 1))"
      "free_frames (set_mmap s f (mmap_at s f - 1)) = free_frames s"
      using rng pos notin by (simp_all add: free_page_def idx free_frames_set_mmap [OF ok f])
    then show ?thesis using refs False fr ok by (auto simp: mm_ok_def)
  qed
qed

lemma free_page_unused:
  "mm_ok s \<Longrightarrow> unat f \<in> managed s \<Longrightarrow> frefs s (unat f) = 0 \<Longrightarrow> free_page s (PAGE_ADDR f) = None"
  using managed_small [of s "unat f"] by (simp add: free_page_def PAGE_IDX_ADDR frefs_def unat_eq_zero Let_def)

section \<open>The interface of the frame allocator\<close>

text \<open>
  \<open>ok\<close> is the provider's invariant, \<open>pool\<close> the frames it hands out, \<open>refs\<close> the reference
  counters, \<open>avail\<close> the number of frames it says are free.
\<close>

locale frame_alloc =
  fixes ok :: "'s \<Rightarrow> bool"
    and pool :: "'s \<Rightarrow> nat set"
    and refs :: "'s \<Rightarrow> nat \<Rightarrow> nat"
    and avail :: "'s \<Rightarrow> nat"
    and alloc :: "'s \<Rightarrow> (nat \<times> 's) option"
    and release :: "'s \<Rightarrow> nat \<Rightarrow> 's option"
  assumes alloc: "\<lbrakk>ok s; 0 < avail s\<rbrakk> \<Longrightarrow> \<exists>f s'. alloc s = Some (f, s') \<and> f \<in> pool s \<and> refs s f = 0 \<and>
      ok s' \<and> pool s' = pool s \<and> (\<forall>j \<in> pool s. refs s' j = (if j = f then 1 else refs s j)) \<and> avail s' = avail s - 1"
    and alloc_none: "\<lbrakk>ok s; avail s = 0\<rbrakk> \<Longrightarrow> alloc s = None"
    and release: "\<lbrakk>ok s; f \<in> pool s; 0 < refs s f\<rbrakk> \<Longrightarrow> \<exists>s'. release s f = Some s' \<and> ok s' \<and> pool s' = pool s \<and>
      (\<forall>j \<in> pool s. refs s' j = (if j = f then refs s f - 1 else refs s j)) \<and>
      avail s' = avail s + (if refs s f = 1 then 1 else 0)"
begin

primrec allocs :: "nat \<Rightarrow> 's \<Rightarrow> (nat list \<times> 's) option" where
  "allocs 0 s = Some ([], s)"
| "allocs (Suc n) s = do { (f, s) \<leftarrow> alloc s; (fs, s) \<leftarrow> allocs n s; Some (f # fs, s) }"

text \<open>\<open>n\<close> allocations succeed exactly when \<open>n\<close> frames are free, and never hand out a frame twice.\<close>

lemma allocs_distinct:
  assumes "ok s" and "n \<le> avail s"
  shows "\<exists>fs s'. allocs n s = Some (fs, s') \<and> length fs = n \<and> distinct fs \<and> set fs \<subseteq> pool s \<and>
     (\<forall>f \<in> set fs. refs s f = 0) \<and> ok s' \<and> pool s' = pool s \<and> avail s' = avail s - n \<and>
     (\<forall>j \<in> pool s. refs s' j = (if j \<in> set fs then 1 else refs s j))"
  using assms
proof (induction n arbitrary: s)
  case 0
  then show ?case by simp
next
  case (Suc n)
  from Suc.prems alloc [of s] obtain f t where
    t: "alloc s = Some (f, t)" "f \<in> pool s" "refs s f = 0" "ok t" "pool t = pool s"
      "\<forall>j \<in> pool s. refs t j = (if j = f then 1 else refs s j)" "avail t = avail s - 1" by auto
  have "n \<le> avail t" using Suc.prems(2) t(7) by simp
  from Suc.IH [OF t(4) this] t(5,7) obtain fs u where
    u: "allocs n t = Some (fs, u)" "length fs = n" "distinct fs" "set fs \<subseteq> pool s" "\<forall>g \<in> set fs. refs t g = 0"
      "ok u" "pool u = pool s" "avail u = avail s - Suc n"
      "\<forall>j \<in> pool s. refs u j = (if j \<in> set fs then 1 else refs t j)" by auto
  have "f \<notin> set fs" using u(5) t(2,6) by auto
  moreover have "\<forall>g \<in> set fs. refs s g = 0" using u(4,5) t(6) \<open>f \<notin> set fs\<close> by (metis subsetD)
  ultimately show ?case using t u
    by (intro exI [of _ "f # fs"] exI [of _ u]) auto
qed

lemma allocs_too_many: "ok s \<Longrightarrow> avail s < n \<Longrightarrow> allocs n s = None"
proof (induction n arbitrary: s)
  case 0
  then show ?case by simp
next
  case (Suc n)
  show ?case
  proof (cases "avail s = 0")
    case True
    then show ?thesis using Suc.prems alloc_none by simp
  next
    case False
    with alloc [OF Suc.prems(1)] Suc.prems Suc.IH show ?thesis by fastforce
  qed
qed

text \<open>Releasing a fresh frame restores every counter.\<close>

lemma alloc_release:
  assumes "ok s" and "alloc s = Some (f, s1)"
  shows "\<exists>s2. release s1 f = Some s2 \<and> ok s2 \<and> avail s2 = avail s \<and> (\<forall>j \<in> pool s. refs s2 j = refs s j)"
proof -
  have pos: "0 < avail s" using assms alloc_none [of s] by (cases "avail s = 0") auto
  from alloc [OF assms(1) pos] assms(2) have
    a: "f \<in> pool s" "refs s f = 0" "ok s1" "pool s1 = pool s" "avail s1 = avail s - 1"
      "\<forall>j \<in> pool s. refs s1 j = (if j = f then 1 else refs s j)" by auto
  from release [OF a(3), of f] a obtain s2 where
    "release s1 f = Some s2" "ok s2" "avail s2 = avail s1 + 1"
    "\<forall>j \<in> pool s. refs s2 j = (if j = f then 0 else refs s1 j)" by auto
  with a pos show ?thesis by auto
qed

end

definition alloc_frame :: "kstate \<Rightarrow> (nat \<times> kstate) option" where
  "alloc_frame s = map_option (\<lambda>(p, s'). (unat (PAGE_IDX p), s')) (alloc_page s)"

definition free_frame :: "kstate \<Rightarrow> nat \<Rightarrow> kstate option" where
  "free_frame s f = free_page s (PAGE_ADDR (of_nat f))"

interpretation frame: frame_alloc mm_ok managed frefs "\<lambda>s. unat (free_pages (mm s))" alloc_frame free_frame
proof unfold_locales
  fix s assume ok: "mm_ok s"
  show "\<exists>f s'. alloc_frame s = Some (f, s') \<and> f \<in> managed s \<and> frefs s f = 0 \<and> mm_ok s' \<and> managed s' = managed s \<and>
      (\<forall>j \<in> managed s. frefs s' j = (if j = f then 1 else frefs s j)) \<and>
      unat (free_pages (mm s')) = unat (free_pages (mm s)) - 1" if "0 < unat (free_pages (mm s))"
  proof -
    have "0 < free_pages (mm s)" using that by (simp add: word_less_nat_alt)
    from alloc_page_law [OF ok this] obtain f s' where
      f: "alloc_page s = Some (PAGE_ADDR f, s')" "unat f \<in> free_frames s" "mm_ok s'" "managed s' = managed s"
        "free_frames s' = free_frames s - {unat f}"
        "s' = set_free_pages (set_mmap s f 1) (free_pages (mm s) - 1)" by blast
    have fm: "unat f \<in> managed s" "frefs s (unat f) = 0" using f(2) by (auto simp: free_frames_def)
    have "PAGE_IDX (PAGE_ADDR f) = f" using managed_small [OF ok fm(1)] by (rule PAGE_IDX_ADDR)
    moreover have "frefs s' j = (if j = unat f then 1 else frefs s j)" if "j \<in> managed s" for j
      using managed_small [OF ok that] by (simp add: f(6) frefs_set)
    moreover have "unat (free_pages (mm s')) = unat (free_pages (mm s)) - 1"
      using f(2,3,5) ok by (simp add: mm_ok_def)
    ultimately show ?thesis using f fm by (auto simp: alloc_frame_def)
  qed
  show "alloc_frame s = None" if "unat (free_pages (mm s)) = 0"
    using that alloc_page_exhausted [OF ok] by (simp add: alloc_frame_def unat_eq_zero)
  show "\<exists>s'. free_frame s f = Some s' \<and> mm_ok s' \<and> managed s' = managed s \<and>
      (\<forall>j \<in> managed s. frefs s' j = (if j = f then frefs s f - 1 else frefs s j)) \<and>
      unat (free_pages (mm s')) = unat (free_pages (mm s)) + (if frefs s f = 1 then 1 else 0)"
    if f: "f \<in> managed s" and r: "0 < frefs s f" for f
  proof -
    have u: "unat (of_nat f :: u32) = f" using managed_small [OF ok f] by (simp add: unat_of_nat)
    from free_page_law [OF ok, of "of_nat f"] f r obtain s' where
      s': "free_page s (PAGE_ADDR (of_nat f)) = Some s'" "mm_ok s'" "managed s' = managed s"
        "\<forall>j < 2 ^ 32. frefs s' j = (if j = f then frefs s j - 1 else frefs s j)" unfolding u by blast
    have *: "frefs s' j = (if j = f then frefs s f - 1 else frefs s j)" if "j \<in> managed s" for j
      using s'(4) managed_small [OF ok that] by simp
    have "free_frames s' = free_frames s \<union> (if frefs s f = 1 then {f} else {})"
      using * s'(3) f r by (auto simp: free_frames_def split: if_splits)
    moreover have "f \<notin> free_frames s" using r by (simp add: free_frames_def)
    ultimately have "unat (free_pages (mm s')) = unat (free_pages (mm s)) + (if frefs s f = 1 then 1 else 0)"
      using s'(2) ok by (simp add: mm_ok_def)
    with s' * show ?thesis by (auto simp: free_frame_def)
  qed
qed


section \<open>Sizing memory\<close>

lemma mark_loop:
  "k \<le> 2 ^ 32 \<Longrightarrow> \<exists>s'. forM [0 ..< k] (\<lambda>i s. Some (set_mmap s (of_nat i) 1)) s = Some s' \<and> mm s' = mm s \<and>
     (\<forall>j. mmap_at s' j = (if unat j < k then 1 else mmap_at s j))"
proof (induction k)
  case 0
  then show ?case by simp
next
  case (Suc k)
  then obtain s' where s': "forM [0 ..< k] (\<lambda>i s. Some (set_mmap s (of_nat i) 1)) s = Some s'" "mm s' = mm s"
    "\<forall>j. mmap_at s' j = (if unat j < k then 1 else mmap_at s j)" by auto
  have "j = of_nat k \<longleftrightarrow> unat j = k" for j :: u32
    using Suc.prems by (auto simp: word_unat_eq_iff unat_of_nat)
  with s' show ?case
    by (intro exI [of _ "set_mmap s' (of_nat k) 1"]) (auto simp: forM_append less_Suc_eq)
qed

lemma PAGE_IDX_div: "unat (PAGE_IDX a) = unat a div 4096"
  by (simp add: PAGE_IDX_def drop_bit_eq_div unat_div)

text \<open>
  \<open>n\<close> frames above 1 MiB: the counters take \<open>(n + 256 + 4095) div 4096\<close> frames of them, the rest
  are free and the frames below are in use.
\<close>

lemma memory_map_init_ok:
  assumes base: "alloc_base (mm s) = MEMORY_ALLOC_BASE" and n: "unat (free_pages (mm s)) = n"
    and total: "unat (total_pages (mm s)) = n + 256" and bnd: "n + 256 < 2 ^ 20" and big: "4096 \<le> n + 256"
  shows "\<exists>s'. memory_map_init s = Some s' \<and> mm_ok s' \<and> free_frames s' = managed s' \<and>
     managed s' = {256 + (n + 256 + 4095) div 4096 ..< n + 256} \<and> memory_map (mm s') = MEMORY_ALLOC_BASE \<and>
     (\<forall>i < 256 + (n + 256 + 4095) div 4096. frefs s' i = 1)"
proof -
  define p where "p = (n + 256 + 4095) div 4096"
  have p: "p \<le> 256" "4096 * p \<ge> n + 256" "4096 * p \<le> n + 256 + 4095" using bnd by (auto simp: p_def)
  define pw where "pw = (total_pages (mm s) + PAGE_SIZE - 1) div PAGE_SIZE"
  have "unat (total_pages (mm s) + PAGE_SIZE - 1) = n + 256 + 4095"
    using total bnd by (simp add: PAGE_SIZE_def unat_word_ariths)
  then have pw: "unat pw = p" by (simp add: pw_def p_def unat_div PAGE_SIZE_def)
  have pn: "p \<le> n" using p big by linarith
  have start: "unat (PAGE_IDX MEMORY_ALLOC_BASE + pw) = 256 + p"
    using p(1) by (intro trans [OF unat_plus_noof]) (simp_all add: PAGE_IDX_div MEMORY_ALLOC_BASE_def pw)
  have bytes: "unat (pw * PAGE_SIZE) = p * 4096"
    using p(1) by (simp add: unat_word_ariths pw PAGE_SIZE_def)
  define t where "t = s\<lparr>kmem := memset (kmem s) MEMORY_ALLOC_BASE 0 (pw * PAGE_SIZE),
      mm := (mm s)\<lparr>memory_map := MEMORY_ALLOC_BASE, memory_map_pages := pw,
        free_pages := free_pages (mm s) - pw, start_page_idx := PAGE_IDX MEMORY_ALLOC_BASE + pw\<rparr>\<rparr>"
  have zero: "mmap_at t j = 0" if "unat j < n + 256" for j
  proof -
    have "in_range MEMORY_ALLOC_BASE (p * 4096) (MEMORY_ALLOC_BASE + j)"
      using that p(2) by (simp add: in_range_def)
    then show ?thesis by (simp add: mmap_at_def t_def memset_eq bytes)
  qed
  obtain s' where loop: "forM [0 ..< 256 + p] (\<lambda>i s. Some (set_mmap s (of_nat i) 1)) t = Some s'" "mm s' = mm t"
    "\<forall>j. mmap_at s' j = (if unat j < 256 + p then 1 else mmap_at t j)"
    using mark_loop [of "256 + p" t] p(1) by auto
  have run: "memory_map_init s = Some s'"
    using loop(1) start by (simp add: memory_map_init_def base t_def set_free_pages_def pw_def [symmetric] Let_def)
  have m: "managed s' = {256 + p ..< n + 256}" using loop(2) start total by (simp add: managed_def t_def)
  have refs: "frefs s' i = (if i < 256 + p then 1 else 0)" if "i < n + 256" for i
  proof -
    have "unat (of_nat i :: u32) = i" using that bnd by (simp add: unat_of_nat)
    with that show ?thesis using loop(3) zero by (simp add: frefs_def)
  qed
  have ff: "free_frames s' = managed s'" using refs m by (auto simp: free_frames_def)
  have "unat (free_pages (mm s')) = n - p"
    using loop(2) n pn pw by (simp add: t_def unat_minus_le word_le_nat_alt)
  then have "mm_ok s'"
    using ff m loop(2) start total bnd p big pn
    by (simp add: mm_ok_def t_def word_less_nat_alt word_le_nat_alt)
  with run ff m refs loop(2) pn show ?thesis unfolding p_def [symmetric]
    by (intro exI [of _ s']) (auto simp: t_def)
qed


section \<open>Kernel pages\<close>

lemma reset_pages_release:
  "cnt > 0 \<Longrightarrow> reset_pages s vm addr cnt =
     map_option (\<lambda>m. s\<lparr>kmem := m\<rparr>)
       (release_run bitmap_contains bitmap_remove (bitmaps s vm) (PAGE_IDX addr) (unat cnt) (kmem s))"
proof -
  have "forM xs (\<lambda>i s. do {
       c \<leftarrow> bitmap_contains (kmem s) (bitmaps s vm) (k + of_nat i);
       assert_c c;
       m \<leftarrow> bitmap_remove (kmem s) (bitmaps s vm) (k + of_nat i);
       Some (s\<lparr>kmem := m\<rparr>) }) s =
    map_option (\<lambda>m. s\<lparr>kmem := m\<rparr>) (forM xs (\<lambda>i m. do {
       c \<leftarrow> bitmap_contains m (bitmaps s vm) (k + of_nat i);
       assert_c c;
       bitmap_remove m (bitmaps s vm) (k + of_nat i) }) (kmem s))" for xs k and s :: kstate
  proof (induction xs arbitrary: s)
    case (Cons x xs)
    have "bitmaps (s\<lparr>kmem := m\<rparr>) vm = bitmaps s vm" for m by simp
    then show ?case using Cons.IH [of "s\<lparr>kmem := _\<rparr>"]
      by (auto split: Option.bind_split option.splits)
  qed simp
  moreover assume "cnt > 0"
  ultimately show ?thesis by (simp add: reset_pages_def release_run_def Let_def)
qed


definition kernel_map :: "kstate \<Rightarrow> bitmap" where
  "kernel_map s = bitmaps s (kernel_vmap (kmm s))"

definition kpages :: "kstate \<Rightarrow> nat set" where
  "kpages s = used (kmem s) (kernel_map s)"

definition page_run :: "addr \<Rightarrow> u32 \<Rightarrow> nat set" where
  "page_run a n = {unat (PAGE_IDX a) ..< unat (PAGE_IDX a) + unat n}"

definition kmap_ok :: "kstate \<Rightarrow> bool" where
  "kmap_ok s \<longleftrightarrow> bitmap_ok (kernel_map s) \<and> bits_of (kernel_map s) \<subseteq> {..< 2 ^ 20}"

lemma kalloc_page_law:
  assumes ok: "kmap_ok s" and n: "n \<noteq> 0"
  shows "if \<exists>k. {k ..< k + unat n} \<subseteq> bits_of (kernel_map s) - kpages s
    then \<exists>a m. kalloc_page s n = Some (a, s\<lparr>kmem := m\<rparr>) \<and> page_run a n \<subseteq> bits_of (kernel_map s) - kpages s \<and>
      a = PAGE_ADDR (PAGE_IDX a) \<and> used m (kernel_map s) = kpages s \<union> page_run a n \<and> same_outside (kernel_map s) (kmem s) m
    else kalloc_page s n = None"
proof -
  from ok have b: "bitmap_ok (kernel_map s)" by (simp add: kmap_ok_def)
  from bm.alloc [OF b n, of "kmem s"] obtain r m where
    r: "bitmap_insert_nbits (kmem s) (kernel_map s) n = Some (r, m)" "same_outside (kernel_map s) (kmem s) m"
      "if \<exists>k. {k ..< k + unat n} \<subseteq> bits_of (kernel_map s) - kpages s
       then r \<noteq> EOF \<and> {unat r ..< unat r + unat n} \<subseteq> bits_of (kernel_map s) - kpages s \<and>
         used m (kernel_map s) = kpages s \<union> {unat r ..< unat r + unat n}
       else r = EOF \<and> m = kmem s" unfolding kpages_def by blast
  have run: "kalloc_page s n = (if r = EOF then None else Some (PAGE_ADDR r, s\<lparr>kmem := m\<rparr>))"
    using n r(1) by (simp add: kalloc_page_def scan_pages_def kernel_map_def panic_def word_gt_0)
  show ?thesis
  proof (cases "\<exists>k. {k ..< k + unat n} \<subseteq> bits_of (kernel_map s) - kpages s")
    case True
    with r(3) have r': "r \<noteq> EOF" "{unat r ..< unat r + unat n} \<subseteq> bits_of (kernel_map s) - kpages s"
      "used m (kernel_map s) = kpages s \<union> {unat r ..< unat r + unat n}" by auto
    have "unat r \<in> {unat r ..< unat r + unat n}" using n by (simp add: unat_gt_0)
    with r'(2) ok have "unat r < 2 ^ 20" unfolding kmap_ok_def by blast
    then have "page_run (PAGE_ADDR r) n = {unat r ..< unat r + unat n}" "PAGE_IDX (PAGE_ADDR r) = r"
      by (simp_all add: page_run_def PAGE_IDX_ADDR)
    with True run r' r(2) show ?thesis by auto
  next
    case False
    with run r(3) show ?thesis by auto
  qed
qed

lemma kfree_page_law:
  assumes ok: "kmap_ok s" and n: "n \<noteq> 0" and run: "page_run a n \<subseteq> kpages s"
  shows "\<exists>m. kfree_page s a n = Some (s\<lparr>kmem := m\<rparr>) \<and> used m (kernel_map s) = kpages s - page_run a n \<and>
    same_outside (kernel_map s) (kmem s) m"
proof -
  from ok have b: "bitmap_ok (kernel_map s)" by (simp add: kmap_ok_def)
  from bm.release_loop [OF b run [unfolded page_run_def kpages_def]] n show ?thesis
    by (auto simp: kfree_page_def reset_pages_release kernel_map_def kpages_def page_run_def word_gt_0)
qed

section \<open>Properties\<close>

text \<open>
  Property C14. From a consistent frame allocator, allocating \<open>n\<close> physical pages succeeds
  exactly when at least \<open>n\<close> are counted free; the frames are distinct, were unreferenced and
  have one reference afterwards, no other counter moves, the free count drops by \<open>n\<close>, and the
  invariant (\<^verbatim>\<open>free_pages\<close> is the number of allocatable frames with counter 0) still holds.
\<close>

theorem alloc_pages_distinct:
  assumes "mm_ok s"
  shows "if n \<le> unat (free_pages (mm s))
    then \<exists>fs s'. frame.allocs n s = Some (fs, s') \<and> length fs = n \<and> distinct fs \<and> set fs \<subseteq> free_frames s \<and>
      mm_ok s' \<and> unat (free_pages (mm s')) = unat (free_pages (mm s)) - n \<and>
      (\<forall>j \<in> managed s. frefs s' j = (if j \<in> set fs then 1 else frefs s j))
    else frame.allocs n s = None"
proof (cases "n \<le> unat (free_pages (mm s))")
  case True
  from frame.allocs_distinct [OF assms True] obtain fs s' where
    "frame.allocs n s = Some (fs, s')" "length fs = n" "distinct fs" "set fs \<subseteq> managed s"
    "\<forall>f \<in> set fs. frefs s f = 0" "mm_ok s'" "unat (free_pages (mm s')) = unat (free_pages (mm s)) - n"
    "\<forall>j \<in> managed s. frefs s' j = (if j \<in> set fs then 1 else frefs s j)" by blast
  with True show ?thesis by (auto simp: free_frames_def)
next
  case False
  then show ?thesis using frame.allocs_too_many [OF assms, of n] by simp
qed

text \<open>Three frames from frame 10 on, counters at address 256, frame 10 in use.\<close>

definition sample_mm :: kstate where
  "sample_mm = boot_state\<lparr>kmem := (\<lambda>a. if a = 266 then 1 else 0),
     mm := (mm boot_state)\<lparr>free_pages := 2, total_pages := 13, start_page_idx := 10, memory_map := 256\<rparr>\<rparr>"

lemma sample_mm_ok: "mm_ok sample_mm" "free_frames sample_mm = {11, 12}"
proof -
  have "managed sample_mm = {10, 11, 12}" by (auto simp: managed_def sample_mm_def boot_state_def)
  moreover have "frefs sample_mm 10 = 1" "frefs sample_mm 11 = 0" "frefs sample_mm 12 = 0"
    by (simp_all add: frefs_def mmap_at_def sample_mm_def)
  ultimately show f: "free_frames sample_mm = {11, 12}" by (auto simp: free_frames_def)
  show "mm_ok sample_mm" unfolding mm_ok_def f by (simp add: sample_mm_def)
qed

theorem alloc_pages_distinct_witness:
  "(\<exists>fs s'. frame.allocs 2 sample_mm = Some (fs, s') \<and> length fs = 2 \<and> distinct fs \<and> set fs \<subseteq> {11, 12}) \<and>
     frame.allocs 3 sample_mm = None"
proof -
  have "unat (free_pages (mm sample_mm)) = 2" by (simp add: sample_mm_def)
  then show ?thesis
    using alloc_pages_distinct [OF sample_mm_ok(1), of 2] alloc_pages_distinct [OF sample_mm_ok(1), of 3]
    by (auto simp: sample_mm_ok(2))
qed

text \<open>
  Property C15. \<^verbatim>\<open>kalloc_page\<close> hands out \<open>n\<close> consecutive kernel pages that were free, or panics when
  there is no such run; a following \<^verbatim>\<open>kfree_page\<close> of the returned address succeeds and restores
  the set of used pages. Both write only the bitmap's buffer.
\<close>

theorem kalloc_kfree_restores:
  assumes "kmap_ok s" and "n \<noteq> 0"
  shows "if \<exists>k. {k ..< k + unat n} \<subseteq> bits_of (kernel_map s) - kpages s
    then \<exists>a s1 s2. kalloc_page s n = Some (a, s1) \<and> page_run a n \<subseteq> bits_of (kernel_map s) - kpages s \<and>
      kpages s1 = kpages s \<union> page_run a n \<and> kfree_page s1 a n = Some s2 \<and> kpages s2 = kpages s \<and>
      same_outside (kernel_map s) (kmem s) (kmem s2)
    else kalloc_page s n = None"
proof (cases "\<exists>k. {k ..< k + unat n} \<subseteq> bits_of (kernel_map s) - kpages s")
  case True
  with kalloc_page_law [OF assms] obtain a m where
    a: "kalloc_page s n = Some (a, s\<lparr>kmem := m\<rparr>)" "page_run a n \<subseteq> bits_of (kernel_map s) - kpages s"
      "used m (kernel_map s) = kpages s \<union> page_run a n" "same_outside (kernel_map s) (kmem s) m" by auto
  have k: "kernel_map (s\<lparr>kmem := x\<rparr>) = kernel_map s" for x by (simp add: kernel_map_def)
  then have kp: "kpages (s\<lparr>kmem := x\<rparr>) = used x (kernel_map s)" for x by (simp add: kpages_def)
  have "kmap_ok (s\<lparr>kmem := m\<rparr>)" using assms(1) by (simp add: kmap_ok_def k)
  from kfree_page_law [OF this assms(2), of a] a(3) obtain m' where
    "kfree_page (s\<lparr>kmem := m\<rparr>) a n = Some (s\<lparr>kmem := m'\<rparr>)"
    "used m' (kernel_map s) = kpages s \<union> page_run a n - page_run a n" "same_outside (kernel_map s) m m'"
    by (auto simp: k kp)
  moreover have "kpages s \<union> page_run a n - page_run a n = kpages s" using a(2) by blast
  ultimately show ?thesis using True a bm.same_trans [of "kernel_map s" "kmem s" m]
    by (intro if_P [THEN iffD2]) (auto simp: kp intro!: exI [of _ a])
next
  case False
  with kalloc_page_law [OF assms] show ?thesis by auto
qed

definition sample_kmap :: kstate where
  "sample_kmap = boot_state\<lparr>bitmaps := (\<lambda>_. sample_bitmap)\<rparr>"

theorem kalloc_kfree_restores_witness:
  "\<exists>a s1 s2. kalloc_page sample_kmap 2 = Some (a, s1) \<and> page_run a 2 \<subseteq> {16 ..< 24} \<and>
     kpages s1 = page_run a 2 \<and> kfree_page s1 a 2 = Some s2 \<and> kpages s2 = {}"
proof -
  have k: "kernel_map sample_kmap = sample_bitmap" by (simp add: kernel_map_def sample_kmap_def)
  have u: "kpages sample_kmap = {}" unfolding kpages_def k by (simp add: sample_kmap_def boot_state_def sample_used)
  have ok: "kmap_ok sample_kmap" using sample_bitmap_ok by (auto simp: kmap_ok_def k)
  have "{16 ..< 16 + unat (2 :: u32)} \<subseteq> bits_of (kernel_map sample_kmap) - kpages sample_kmap"
    by (simp add: k u sample_bitmap_ok)
  then have "\<exists>j. {j ..< j + unat (2 :: u32)} \<subseteq> bits_of (kernel_map sample_kmap) - kpages sample_kmap" by blast
  with kalloc_kfree_restores [OF ok, of 2] show ?thesis by (simp add: k u sample_bitmap_ok) blast
qed

text \<open>
  Property C33. With \<open>n\<close> frames in the largest zone the boot loader reports (its base address
  at least 1 MiB), \<^verbatim>\<open>memory_init\<close> returns exactly when that zone starts at 1 MiB and memory
  reaches 16 MiB; then the frame allocator is consistent and all its frames are free except the
  first \<open>(n + 256 + 4095) div 4096\<close>, which hold the counters; the frames below 1 MiB and those
  of the counters have counter 1.
\<close>

theorem memory_init_from_boot:
  fixes s addr
  defines "g \<equiv> ards_zones (kmem s) addr (mm s)"
  defines "n \<equiv> unat (alloc_size g) div 4096"
  assumes "kernel_space_size (kmm s) = KERNEL_MEMORY_SIZE" and "n + 256 < 2 ^ 20"
  shows "if alloc_base g = MEMORY_ALLOC_BASE \<and> 4096 \<le> n + 256
    then \<exists>s'. memory_init XOS_MAGIC addr s = Some s' \<and> mm_ok s' \<and> free_frames s' = managed s' \<and>
      managed s' = {256 + (n + 256 + 4095) div 4096 ..< n + 256} \<and>
      (\<forall>i < 256 + (n + 256 + 4095) div 4096. frefs s' i = 1)
    else memory_init XOS_MAGIC addr s = None"
proof -
  define f where "f = PAGE_IDX (alloc_size g)"
  have f: "unat f = n" by (simp add: f_def n_def PAGE_IDX_div)
  show ?thesis
  proof (cases "alloc_base g = MEMORY_ALLOC_BASE")
    case False
    then show ?thesis by (simp add: memory_init_def g_def [symmetric] Let_def)
  next
    case True
    have i: "PAGE_IDX MEMORY_ALLOC_BASE = 256"
      by (simp add: word_unat_eq_iff PAGE_IDX_div MEMORY_ALLOC_BASE_def)
    have t: "unat (f + 256) = n + 256"
      using assms(4) f by (intro trans [OF unat_plus_noof]) simp_all
    have sz: "unat ((f + 256) * PAGE_SIZE) = (n + 256) * 4096"
      using assms(4) f t by (simp add: unat_word_ariths PAGE_SIZE_def)
    have small: "(f + 256) * PAGE_SIZE < KERNEL_MEMORY_SIZE \<longleftrightarrow> \<not> 4096 \<le> n + 256"
      using sz by (auto simp: word_less_nat_alt KERNEL_MEMORY_SIZE_def)
    define t0 where "t0 = s\<lparr>mm := g\<lparr>free_pages := f, total_pages := f + 256, memory_size := (f + 256) * PAGE_SIZE\<rparr>\<rparr>"
    have run: "memory_init XOS_MAGIC addr s = (if 4096 \<le> n + 256 then memory_map_init t0 else None)"
      using True small assms(3)
      by (simp add: memory_init_def g_def [symmetric] Let_def f_def [symmetric] i t0_def panic_def)
    show ?thesis
    proof (cases "4096 \<le> n + 256")
      case big: True
      have "alloc_base (mm t0) = MEMORY_ALLOC_BASE" "unat (free_pages (mm t0)) = n"
        "unat (total_pages (mm t0)) = n + 256" using True f t by (simp_all add: t0_def)
      from memory_map_init_ok [OF this assms(4) big] show ?thesis using True big run by auto
    qed (simp add: run)
  qed
qed

text \<open>A memory with one valid zone from 1 MiB to 32 MiB, described at address 0x9000.\<close>

definition sample_boot :: kstate where
  "sample_boot = boot_state\<lparr>kmem := (\<lambda>a. if a = 0x9000 then 1 else if a = 0x9006 then 0x10
     else if a = 0x900f then 0x1 else if a = 0x900e then 0xf0 else if a = 0x9014 then 1 else 0)\<rparr>"

lemma sample_zones:
  "alloc_base (ards_zones (kmem sample_boot) 0x9000 (mm sample_boot)) = MEMORY_ALLOC_BASE"
  "alloc_size (ards_zones (kmem sample_boot) 0x9000 (mm sample_boot)) = 0x1f00000"
  by (simp_all add: sample_boot_def ards_zones_def rd32_def rd64_def pick_zone_def boot_state_def MEMORY_ALLOC_BASE_def)

theorem memory_init_from_boot_witness:
  "\<exists>s'. memory_init XOS_MAGIC 0x9000 sample_boot = Some s' \<and> mm_ok s' \<and> free_frames s' = {258 ..< 8192}"
  using memory_init_from_boot [where s = sample_boot and addr = "0x9000"]
  by (simp add: sample_zones) (auto simp: sample_boot_def boot_state_def KERNEL_MEMORY_SIZE_def PAGE_SIZE_def)

end
