(* ===== verification/Paging.thy ===== *)
theory Paging
  imports Memory
begin

text \<open>
  Page tables: the rest of \<^verbatim>\<open>kernel/memory.c\<close> and the page fault handler of
  \<^verbatim>\<open>kernel/interrupt.c\<close>. \<open>walk\<close> is the processor's two-level translation through \<^verbatim>\<open>cr3\<close>; the
  kernel reads and writes page tables through it, at the addresses of the recursive window that
  the last directory entry opens. There is no TLB in the model: every access walks the tables as
  they are. Writes of the kernel are not stopped by a read-only entry (\<^verbatim>\<open>CR0.WP\<close> is clear).
  A kernel access to an unmapped address ends in the failed assertion of the page fault
  handler and is \<open>None\<close>.
\<close>

unbundle bit_operations_syntax

section \<open>Entries and the page walk\<close>

definition e_present :: "u32 \<Rightarrow> bool" where "e_present e = bit e 0"
definition e_write :: "u32 \<Rightarrow> bool" where "e_write e = bit e 1"
definition e_user :: "u32 \<Rightarrow> bool" where "e_user e = bit e 2"
definition e_index :: "u32 \<Rightarrow> u32" where "e_index e = drop_bit 12 e"

definition set_write :: "u32 \<Rightarrow> bool \<Rightarrow> u32" where
  "set_write e w = (if w then e OR 2 else e AND NOT 2)"

definition clear_present :: "u32 \<Rightarrow> u32" where "clear_present e = e AND NOT 1"

definition set_index :: "u32 \<Rightarrow> u32 \<Rightarrow> u32" where
  "set_index e i = (e AND 0xfff) OR push_bit 12 i"

definition page_entry_init :: "u32 \<Rightarrow> u32" where
  "page_entry_init index = 7 OR push_bit 12 index"

text \<open>The address of word \<open>i\<close> of frame \<open>f\<close>.\<close>

definition word_of_frame :: "u32 \<Rightarrow> u32 \<Rightarrow> addr" where
  "word_of_frame f i = PAGE_ADDR f + 4 * i"

definition walk :: "(addr \<Rightarrow> u32) \<Rightarrow> u32 \<Rightarrow> addr \<Rightarrow> addr option" where
  "walk pm dir v =
     (let pde = pm (word_of_frame (PAGE_IDX dir) (PDE_IDX v))
      in if \<not> e_present pde then None
         else let pte = pm (word_of_frame (e_index pde) (PTE_IDX v))
              in if \<not> e_present pte then None else Some (PAGE_ADDR (e_index pte) + (v AND 0xfff)))"

definition vload :: "kstate \<Rightarrow> addr \<Rightarrow> u32 option" where
  "vload s v = map_option (pmem s) (walk (pmem s) (cr3 s) v)"

definition vstore :: "kstate \<Rightarrow> addr \<Rightarrow> u32 \<Rightarrow> kstate option" where
  "vstore s v w = map_option (\<lambda>a. s\<lparr>pmem := (pmem s)(a := w)\<rparr>) (walk (pmem s) (cr3 s) v)"

section \<open>The functions of memory.c\<close>

definition PDE_RECUR_MASK :: u32 where "PDE_RECUR_MASK = 0xffc00000"

definition set_cr3 :: "kstate \<Rightarrow> u32 \<Rightarrow> kstate" where
  "set_cr3 s d = s\<lparr>cr3 := d\<rparr>"

definition get_pde :: addr where
  "get_pde = 0xfffff000"

definition get_pte :: "kstate \<Rightarrow> addr \<Rightarrow> bool \<Rightarrow> (addr \<times> kstate) option" where
  "get_pte s vaddr create = do {
     let ea = get_pde + 4 * PDE_IDX vaddr;
     entry \<leftarrow> vload s ea;
     assert_c (create \<or> (\<not> create \<and> e_present entry));
     s \<leftarrow> (if \<not> e_present entry \<and> create then do {
             (paddr, s) \<leftarrow> alloc_page s;
             vstore s ea (page_entry_init (PAGE_IDX paddr)) }
           else Some s);
     Some (PDE_RECUR_MASK OR push_bit 12 (PDE_IDX vaddr), s) }"

definition user_map :: "kstate \<Rightarrow> bitmap option" where
  "user_map s = (if t_vmap (cur s) = 0 then None else Some (bitmaps s (t_vmap (cur s))))"

definition link_page :: "kstate \<Rightarrow> addr \<Rightarrow> kstate option" where
  "link_page s vaddr = do {
     (pte, s) \<leftarrow> get_pte s vaddr True;
     let ea = pte + 4 * PTE_IDX vaddr;
     vm \<leftarrow> user_map s;
     let idx = PAGE_IDX vaddr;
     entry \<leftarrow> vload s ea;
     c \<leftarrow> bitmap_contains (kmem s) vm idx;
     if e_present entry then do { assert_c c; Some s }
     else do {
       assert_c (\<not> c);
       m \<leftarrow> bitmap_insert (kmem s) vm idx;
       let s = s\<lparr>kmem := m\<rparr>;
       (paddr, s) \<leftarrow> alloc_page s;
       vstore s ea (page_entry_init (PAGE_IDX paddr)) } }"

definition unlink_page :: "kstate \<Rightarrow> addr \<Rightarrow> kstate option" where
  "unlink_page s vaddr = do {
     (pte, s) \<leftarrow> get_pte s vaddr True;
     let ea = pte + 4 * PTE_IDX vaddr;
     vm \<leftarrow> user_map s;
     let idx = PAGE_IDX vaddr;
     entry \<leftarrow> vload s ea;
     c \<leftarrow> bitmap_contains (kmem s) vm idx;
     if \<not> e_present entry then do { assert_c (\<not> c); Some s }
     else do {
       assert_c c;
       m \<leftarrow> bitmap_remove (kmem s) vm idx;
       let s = s\<lparr>kmem := m\<rparr>;
       s \<leftarrow> vstore s ea (clear_present entry);
       free_page s (PAGE_ADDR (e_index (clear_present entry))) } }"

definition copy_words :: "addr \<Rightarrow> addr \<Rightarrow> kstate \<Rightarrow> kstate option" where
  "copy_words dest src = forM [0 ..< 1024] (\<lambda>i s. do {
     w \<leftarrow> vload s (src + 4 * of_nat i);
     vstore s (dest + 4 * of_nat i) w })"

definition copy_page :: "kstate \<Rightarrow> addr \<Rightarrow> (u32 \<times> kstate) option" where
  "copy_page s vaddr = do {
     (paddr, s) \<leftarrow> alloc_page s;
     let entry = PDE_RECUR_MASK OR push_bit 12 0;
     s \<leftarrow> vstore s entry (page_entry_init (PAGE_IDX paddr));
     s \<leftarrow> copy_words 0 vaddr s;
     e \<leftarrow> vload s entry;
     s \<leftarrow> vstore s entry (clear_present e);
     Some (paddr, s) }"

text \<open>The inner loop of \<^verbatim>\<open>copy_pgdir\<close>: share every mapped frame of one table and make it read-only.\<close>

definition share_table :: "addr \<Rightarrow> kstate \<Rightarrow> kstate option" where
  "share_table page_tbl = forM [0 ..< 1024] (\<lambda>pte_idx s. do {
     let ea = page_tbl + 4 * of_nat pte_idx;
     pte \<leftarrow> vload s ea;
     if \<not> e_present pte then Some s
     else do {
       assert_c (mmap_at s (e_index pte) > 0);
       let s = set_mmap s (e_index pte) (mmap_at s (e_index pte) + 1);
       s \<leftarrow> vstore s ea (set_write pte False);
       assert_c (mmap_at s (e_index pte) < 255);
       Some s } })"

definition copy_pgdir :: "kstate \<Rightarrow> (addr \<times> kstate) option" where
  "copy_pgdir s = do {
     (page_dir, s) \<leftarrow> kalloc_page s 1;
     let old = t_page_dir (cur s);
     let s = s\<lparr>pmem := (\<lambda>a. if in_range page_dir 4096 a then pmem s (a - page_dir + old) else pmem s a)\<rparr>;
     let s = s\<lparr>pmem := (pmem s)(page_dir + 4 * 1023 := page_entry_init (PAGE_IDX page_dir))\<rparr>;
     s \<leftarrow> forM [4 ..< 1023] (\<lambda>pde_idx s. do {
       let da = page_dir + 4 * of_nat pde_idx;
       if \<not> e_present (pmem s da) then Some s
       else do {
         let page_tbl = PDE_RECUR_MASK OR push_bit 12 (of_nat pde_idx);
         s \<leftarrow> share_table page_tbl s;
         (paddr, s) \<leftarrow> copy_page s page_tbl;
         Some (s\<lparr>pmem := (pmem s)(da := set_index (pmem s da) (PAGE_IDX paddr))\<rparr>) } }) s;
     Some (page_dir, set_cr3 s (t_page_dir (cur s))) }"

definition free_pgdir :: "kstate \<Rightarrow> kstate option" where
  "free_pgdir s = do {
     let page_dir = t_page_dir (cur s);
     s \<leftarrow> forM [4 ..< 1023] (\<lambda>pde_idx s. do {
       let da = page_dir + 4 * of_nat pde_idx;
       if \<not> e_present (pmem s da) then Some s
       else do {
         let page_tbl = PDE_RECUR_MASK OR push_bit 12 (of_nat pde_idx);
         s \<leftarrow> forM [0 ..< 1024] (\<lambda>pte_idx s. do {
           pte \<leftarrow> vload s (page_tbl + 4 * of_nat pte_idx);
           if \<not> e_present pte then Some s else free_page s (PAGE_ADDR (e_index pte)) }) s;
         free_page s (PAGE_ADDR (e_index (pmem s da))) } }) s;
     kfree_page s page_dir 1 }"

text \<open>
  \<^verbatim>\<open>kernel_map_init\<close> runs before paging is on, so its writes are physical. Page 0 stays
  unmapped.
\<close>

definition kernel_map_init :: "kstate \<Rightarrow> kstate option" where
  "kernel_map_init s = do {
     let kpgdir = kernel_page_dir (kmm s);
     let s = s\<lparr>pmem := (\<lambda>a. if in_range kpgdir 4096 a then 0 else pmem s a)\<rparr>;
     s \<leftarrow> forM [0 ..< length (kernel_page_table (kmm s))] (\<lambda>pde_idx s. do {
       let tbl = kernel_page_table (kmm s) ! pde_idx;
       let s = s\<lparr>pmem := (pmem s)(kpgdir + 4 * of_nat pde_idx := page_entry_init (PAGE_IDX tbl))\<rparr>;
       let s = s\<lparr>pmem := (\<lambda>a. if in_range tbl 4096 a then 0 else pmem s a)\<rparr>;
       forM [0 ..< 1024] (\<lambda>pte_idx s. do {
         let index = pde_idx * 1024 + pte_idx;
         if index = 0 then Some s
         else do {
           let s = s\<lparr>pmem := (pmem s)(tbl + 4 * of_nat pte_idx := page_entry_init (of_nat index))\<rparr>;
           let s = (if mmap_at s (of_nat index) = 0 then set_free_pages s (free_pages (mm s) - 1) else s);
           Some (set_mmap s (of_nat index) 1) } }) s }) s;
     let s = s\<lparr>pmem := (pmem s)(kpgdir + 4 * 1023 := page_entry_init (PAGE_IDX (kernel_page_dir (kmm s))))\<rparr>;
     let s = set_cr3 s kpgdir;
     Some (kernel_vmap_init s) }"

text \<open>The address check \<^verbatim>\<open>ASSERT_PAGE_ADDR (brk)\<close> has no effect.\<close>

definition sys_brk :: "kstate \<Rightarrow> addr \<Rightarrow> (i32 \<times> kstate) option" where
  "sys_brk s brk = do {
     assert_c (t_uid (cur s) \<noteq> KERNEL_TASK);
     assert_c (KERNEL_MEMORY_SIZE \<le> brk \<and> brk < USER_STACK_BOOTOM);
     let old_brk = t_brk (cur s);
     if old_brk > brk then do {
       s \<leftarrow> forM [0 ..< (unat old_brk - unat brk + 4095) div 4096]
             (\<lambda>i s. unlink_page s (brk + 4096 * of_nat i)) s;
       Some (0, upd_tcb (current s) (\<lambda>t. t\<lparr>t_brk := brk\<rparr>) s) }
     else if PAGE_IDX (brk - old_brk) > free_pages (mm s) then Some (- 1, s)
     else Some (0, upd_tcb (current s) (\<lambda>t. t\<lparr>t_brk := brk\<rparr>) s) }"

section \<open>The page fault handler\<close>

text \<open>Bits 0, 1 and 2 of the error code: the page was present, the access a write, the mode user.\<close>

definition page_fault_handler :: "kstate \<Rightarrow> u32 \<Rightarrow> u32 \<Rightarrow> kstate option" where
  "page_fault_handler s vector error = do {
     assert_c (vector = 0xe);
     let vaddr = cr2 s;
     assert_c (KERNEL_MEMORY_SIZE \<le> vaddr \<and> vaddr < USER_STACK_TOP);
     if bit error 0 then do {
       assert_c (bit error 1);
       (pgtbl, s) \<leftarrow> get_pte s vaddr False;
       let ea = pgtbl + 4 * PTE_IDX vaddr;
       pte \<leftarrow> vload s ea;
       let pidx = e_index pte;
       assert_c (mmap_at s pidx > 0);
       s \<leftarrow> (if mmap_at s pidx = 1 then vstore s ea (set_write pte True)
             else do {
               (paddr, s) \<leftarrow> copy_page s (PAGE_ADDR (PAGE_IDX vaddr));
               s \<leftarrow> vstore s ea (page_entry_init (PAGE_IDX paddr));
               Some (set_mmap s pidx (mmap_at s pidx - 1)) });
       assert_c (mmap_at s pidx > 0);
       Some s }
     else if bit error 2 \<and> (vaddr < t_brk (cur s) \<or> vaddr > USER_STACK_BOOTOM)
     then link_page s (PAGE_ADDR (PAGE_IDX vaddr))
     else panic ''Page Fault!!!'' }"

section \<open>Indices of the addresses the kernel uses\<close>

lemma and_mask_mod:
  "unat (x AND 0x3ff :: u32) = unat x mod 1024" "unat (x AND 0xfff :: u32) = unat x mod 4096"
proof -
  have "x AND 0x3ff = take_bit 10 x" "x AND 0xfff = take_bit 12 x"
    by (simp_all add: take_bit_eq_mask mask_eq_exp_minus_1)
  then show "unat (x AND 0x3ff :: u32) = unat x mod 1024" "unat (x AND 0xfff :: u32) = unat x mod 4096"
    by (simp_all add: take_bit_eq_mod unat_mod)
qed

lemma unat_idx:
  "unat (PDE_IDX v) = unat v div 4194304" "unat (PTE_IDX v) = unat v div 4096 mod 1024"
proof -
  have "unat v div 4194304 < 1024" using unat_u32(1) [of v] by (simp add: less_mult_imp_div_less)
  then show "unat (PDE_IDX v) = unat v div 4194304"
    unfolding PDE_IDX_def and_mask_mod by (simp add: drop_bit_eq_div unat_div)
  show "unat (PTE_IDX v) = unat v div 4096 mod 1024"
    unfolding PTE_IDX_def and_mask_mod by (simp add: drop_bit_eq_div unat_div)
qed

lemma idx_less [simp]: "PDE_IDX v < 1024" "PTE_IDX v < 1024"
proof -
  have "unat v div 4194304 < 1024" using unat_u32(1) [of v] by (simp add: less_mult_imp_div_less)
  then show "PDE_IDX v < 1024" "PTE_IDX v < 1024" by (simp_all add: word_less_nat_alt unat_idx)
qed

definition window :: "u32 \<Rightarrow> u32 \<Rightarrow> addr" where
  "window d t = (PDE_RECUR_MASK OR push_bit 12 d) + 4 * t"

lemma unat_window_base:
  assumes "d < 1024"
  shows "unat (PDE_RECUR_MASK OR push_bit 12 d) = 4290772992 + unat d * 4096"
proof -
  have d: "unat d < 1024" using assms by (simp add: word_less_nat_alt)
  have pd: "push_bit 12 d = d * 4096" by (simp add: push_bit_eq_mult)
  have m: "PDE_RECUR_MASK = push_bit 22 (mask 10)"
    by (simp add: PDE_RECUR_MASK_def mask_eq_exp_minus_1 push_bit_eq_mult)
  have hi: "\<not> bit d n" if "10 \<le> n" for n
  proof -
    have "d = take_bit 10 d"
      using d by (simp add: word_unat_eq_iff take_bit_eq_mod unat_mod)
    then show ?thesis using that by (metis bit_take_bit_iff not_less)
  qed
  have "\<not> bit (push_bit 22 (mask 10) :: u32) n \<or> \<not> bit (push_bit 12 d) n" for n
    by (cases "n < 22") (auto simp: bit_push_bit_iff hi)
  then have "PDE_RECUR_MASK OR push_bit 12 d = PDE_RECUR_MASK + push_bit 12 d"
    unfolding m by (rule disjunctive_add [symmetric])
  then have "PDE_RECUR_MASK OR push_bit 12 d = 4290772992 + d * 4096" by (simp add: PDE_RECUR_MASK_def pd)
  then show ?thesis using d by (simp add: unat_word_ariths)
qed

lemma unat_window:
  assumes "d < 1024" and "t < 1024"
  shows "unat (window d t) = 4290772992 + unat d * 4096 + 4 * unat t"
proof -
  have "unat d < 1024" "unat t < 1024" using assms by (simp_all add: word_less_nat_alt)
  then show ?thesis
    unfolding window_def using unat_window_base [OF assms(1)] by (simp add: unat_word_ariths)
qed

lemma window_idx [simp]:
  assumes "d < 1024" and "t < 1024"
  shows "PDE_IDX (window d t) = 1023" "PTE_IDX (window d t) = d" "window d t AND 0xfff = 4 * t"
proof -
  have dt: "unat d < 1024" "unat t < 1024" using assms by (simp_all add: word_less_nat_alt)
  have w: "unat (window d t) = 4096 * (1047552 + unat d) + 4 * unat t" using unat_window [OF assms] by simp
  have "(4096 * (1047552 + unat d) + 4 * unat t) div 4194304 = 1023"
    "(4096 * (1047552 + unat d) + 4 * unat t) div 4096 = 1047552 + unat d" using dt by auto
  moreover have "(4096 * (1047552 + unat d) + 4 * unat t) mod 4096 = 4 * unat t"
    using dt by (subst mod_mult_self4) simp
  ultimately have "unat (window d t) div 4194304 = 1023" "unat (window d t) div 4096 = 1047552 + unat d"
    "unat (window d t) mod 4096 = 4 * unat t" unfolding w by auto
  moreover have "(1047552 + unat d) mod 1024 = unat d"
    using dt mod_mult_self1 [of "unat d" 1023 1024] by (simp add: add.commute)
  ultimately show "PDE_IDX (window d t) = 1023" "PTE_IDX (window d t) = d" "window d t AND 0xfff = 4 * t"
    using dt by (simp_all add: word_unat_eq_iff unat_idx and_mask_mod unat_word_ariths)
qed

lemma get_pde_window: "get_pde = window 1023 0"
  by (simp add: get_pde_def window_def PDE_RECUR_MASK_def push_bit_eq_mult)

lemma get_pde_entry: "get_pde + 4 * d = window 1023 d"
  by (simp add: get_pde_def window_def PDE_RECUR_MASK_def push_bit_eq_mult)

lemma window_entry: "(PDE_RECUR_MASK OR push_bit 12 d) + 4 * t = window d t"
  by (simp add: window_def)

lemma page_offset [simp]:
  assumes "v AND 0xfff = 0" and "i < 1024"
  shows "PDE_IDX (v + 4 * i) = PDE_IDX v" "PTE_IDX (v + 4 * i) = PTE_IDX v" "(v + 4 * i) AND 0xfff = 4 * i"
proof -
  have i: "unat i < 1024" using assms(2) by (simp add: word_less_nat_alt)
  have v: "unat v mod 4096 = 0" using assms(1) and_mask_mod(2) [of v] by simp
  then obtain k where k: "unat v = 4096 * k" by (metis dvd_def mod_eq_0_iff_dvd)
  then have "k < 1048576" using unat_u32(1) [of v] by simp
  with k i have w: "unat (v + 4 * i) = 4096 * k + 4 * unat i" by (simp add: unat_word_ariths)
  have "(4096 * k + 4 * unat i) div 4096 = k" "(4096 * k + 4 * unat i) mod 4096 = 4 * unat i" using i by auto
  moreover have "x div 4194304 = x div 4096 div 1024" for x :: nat by (simp add: div_mult2_eq [symmetric])
  ultimately show "PDE_IDX (v + 4 * i) = PDE_IDX v" "PTE_IDX (v + 4 * i) = PTE_IDX v"
    "(v + 4 * i) AND 0xfff = 4 * i"
    using i k w by (simp_all add: word_unat_eq_iff unat_idx and_mask_mod unat_word_ariths)
qed

lemma word_of_frame_eq:
  assumes "unat f < 2 ^ 20" "unat g < 2 ^ 20" "i < 1024" "j < 1024"
  shows "word_of_frame f i = word_of_frame g j \<longleftrightarrow> f = g \<and> i = j"
proof -
  have u: "unat (word_of_frame f i) = unat f * 4096 + 4 * unat i" if "unat f < 2 ^ 20" "i < 1024" for f i
    using that by (simp add: word_of_frame_def PAGE_ADDR_def push_bit_eq_mult word_less_nat_alt unat_word_ariths)
  have ij: "unat i < 1024" "unat j < 1024" using assms by (simp_all add: word_less_nat_alt)
  have "(unat f * 4096 + 4 * unat i) div 4096 = unat f" "(unat g * 4096 + 4 * unat j) div 4096 = unat g"
    "(unat f * 4096 + 4 * unat i) mod 4096 = 4 * unat i" "(unat g * 4096 + 4 * unat j) mod 4096 = 4 * unat j"
    using ij by auto
  then show ?thesis using u [OF assms(1,3)] u [OF assms(2,4)]
    by (metis word_unat_eq_iff mult_cancel1 zero_neq_numeral)
qed

lemma e_index_small [simp]: "unat (e_index e) < 2 ^ 20" "unat (e_index e) < 1048576"
proof -
  have "unat e div 4096 < 1048576" using unat_u32(1) [of e] by (simp add: less_mult_imp_div_less)
  then show "unat (e_index e) < 2 ^ 20" "unat (e_index e) < 1048576"
    by (simp_all add: e_index_def drop_bit_eq_div unat_div)
qed

lemma PAGE_IDX_small [simp]: "unat (PAGE_IDX a) < 2 ^ 20" "unat (PAGE_IDX a) < 1048576"
proof -
  have "unat a div 4096 < 1048576" using unat_u32(1) [of a] by (simp add: less_mult_imp_div_less)
  then show "unat (PAGE_IDX a) < 2 ^ 20" "unat (PAGE_IDX a) < 1048576" by (simp_all add: PAGE_IDX_div)
qed

section \<open>Address spaces\<close>

text \<open>The directory and table entries of the current address space.\<close>

definition pde :: "kstate \<Rightarrow> u32 \<Rightarrow> u32" where
  "pde s d = pmem s (word_of_frame (PAGE_IDX (cr3 s)) d)"

definition pte :: "kstate \<Rightarrow> u32 \<Rightarrow> u32 \<Rightarrow> u32" where
  "pte s d t = pmem s (word_of_frame (e_index (pde s d)) t)"

definition mapped :: "kstate \<Rightarrow> u32 \<Rightarrow> u32 \<Rightarrow> u32 option" where
  "mapped s d t = (if e_present (pde s d) \<and> e_present (pte s d t) then Some (e_index (pte s d t)) else None)"

text \<open>The last directory entry points to the directory, and no two entries share a table.\<close>

definition as_ok :: "kstate \<Rightarrow> bool" where
  "as_ok s \<longleftrightarrow> e_present (pde s 1023) \<and> e_index (pde s 1023) = PAGE_IDX (cr3 s) \<and>
     (\<forall>d < 1024. \<forall>d' < 1024. e_present (pde s d) \<longrightarrow> e_present (pde s d') \<longrightarrow>
        e_index (pde s d) = e_index (pde s d') \<longrightarrow> d = d')"

lemma walk_mapped:
  "walk (pmem s) (cr3 s) v = map_option (\<lambda>f. PAGE_ADDR f + (v AND 0xfff)) (mapped s (PDE_IDX v) (PTE_IDX v))"
  by (simp add: walk_def mapped_def pde_def pte_def Let_def)

lemma vload_mapped:
  "vload s v = map_option (\<lambda>f. pmem s (PAGE_ADDR f + (v AND 0xfff))) (mapped s (PDE_IDX v) (PTE_IDX v))"
  by (simp add: vload_def walk_mapped option.map_comp comp_def)

lemma vstore_mapped:
  "vstore s v w = map_option (\<lambda>f. s\<lparr>pmem := (pmem s)(PAGE_ADDR f + (v AND 0xfff) := w)\<rparr>)
     (mapped s (PDE_IDX v) (PTE_IDX v))"
  by (simp add: vstore_def walk_mapped option.map_comp comp_def)

lemma pte_last: "as_ok s \<Longrightarrow> pte s 1023 d = pde s d"
  by (simp add: as_ok_def pte_def) (simp add: pde_def)

lemma mapped_window:
  "as_ok s \<Longrightarrow> mapped s 1023 d = (if e_present (pde s d) then Some (e_index (pde s d)) else None)"
  using pte_last [of s d] by (simp add: mapped_def as_ok_def)

lemma vload_window:
  "as_ok s \<Longrightarrow> d < 1024 \<Longrightarrow> t < 1024 \<Longrightarrow>
     vload s (window d t) = (if e_present (pde s d) then Some (pte s d t) else None)"
  by (simp add: vload_def walk_mapped mapped_window pte_def word_of_frame_def)

lemma vstore_window:
  "as_ok s \<Longrightarrow> d < 1024 \<Longrightarrow> t < 1024 \<Longrightarrow>
     vstore s (window d t) w = (if e_present (pde s d)
       then Some (s\<lparr>pmem := (pmem s)(word_of_frame (e_index (pde s d)) t := w)\<rparr>) else None)"
  by (simp add: vstore_def walk_mapped mapped_window word_of_frame_def)

definition set_pte :: "kstate \<Rightarrow> u32 \<Rightarrow> u32 \<Rightarrow> u32 \<Rightarrow> kstate" where
  "set_pte s d t w = s\<lparr>pmem := (pmem s)(word_of_frame (e_index (pde s d)) t := w)\<rparr>"

lemma set_pte_simps [simp]:
  "cr3 (set_pte s d t w) = cr3 s" "mm (set_pte s d t w) = mm s" "kmem (set_pte s d t w) = kmem s"
  "tcbs (set_pte s d t w) = tcbs s" "current (set_pte s d t w) = current s" "bitmaps (set_pte s d t w) = bitmaps s"
  by (simp_all add: set_pte_def)

lemma frame_state_set_pte [simp]:
  "mmap_at (set_pte s d t w) = mmap_at s" "managed (set_pte s d t w) = managed s"
  "frefs (set_pte s d t w) = frefs s" "free_frames (set_pte s d t w) = free_frames s"
  "mm_ok (set_pte s d t w) = mm_ok s"
  by (simp_all add: mmap_at_def managed_def frefs_def free_frames_def mm_ok_def fun_eq_iff)

lemma as_ok_inj:
  "\<lbrakk>as_ok s; d < 1024; d' < 1024; e_present (pde s d); e_present (pde s d');
    e_index (pde s d) = e_index (pde s d')\<rbrakk> \<Longrightarrow> d = d'"
  unfolding as_ok_def by blast

lemma as_ok_dir: "as_ok s \<Longrightarrow> d < 1023 \<Longrightarrow> e_present (pde s d) \<Longrightarrow> e_index (pde s d) \<noteq> PAGE_IDX (cr3 s)"
proof
  assume a: "as_ok s" "d < 1023" "e_present (pde s d)" "e_index (pde s d) = PAGE_IDX (cr3 s)"
  have "d < 1024" using a(2) by (rule order_less_trans) simp
  then have "d = 1023" using a as_ok_inj [OF a(1), of d 1023] by (simp add: as_ok_def)
  with a(2) show False by simp
qed

lemma pde_set_pte:
  assumes ok: "as_ok s" and d: "d < 1023" "e_present (pde s d)" and t: "t < 1024" and d': "d' < 1024"
  shows "pde (set_pte s d t w) d' = pde s d'"
proof -
  have "e_index (pde s d) \<noteq> PAGE_IDX (cr3 s)" using ok d by (rule as_ok_dir)
  then have "word_of_frame (PAGE_IDX (cr3 s)) d' \<noteq> word_of_frame (e_index (pde s d)) t"
    using t d' by (simp add: word_of_frame_eq)
  then show ?thesis by (simp add: pde_def set_pte_def)
qed

lemma pte_set_pte:
  assumes ok: "as_ok s" and d: "d < 1023" "e_present (pde s d)" and t: "t < 1024"
    and d': "d' < 1024" "e_present (pde s d')" and t': "t' < 1024"
  shows "pte (set_pte s d t w) d' t' = (if d' = d \<and> t' = t then w else pte s d' t')"
proof -
  have "d < 1024" using d(1) by (rule order_less_trans) simp
  then have "e_index (pde s d') = e_index (pde s d) \<longleftrightarrow> d' = d"
    using ok d(2) d' by (metis as_ok_inj)
  then show ?thesis
    using t t' by (simp add: pte_def pde_set_pte [OF ok d t d'(1)]) (simp add: set_pte_def word_of_frame_eq)
qed

lemma as_ok_set_pte:
  assumes ok: "as_ok s" and d: "d < 1023" "e_present (pde s d)" and t: "t < 1024"
  shows "as_ok (set_pte s d t w)"
  using ok unfolding as_ok_def by (simp add: pde_set_pte [OF ok d t])

lemma mapped_set_pte:
  assumes ok: "as_ok s" and d: "d < 1023" "e_present (pde s d)" and t: "t < 1024"
    and d': "d' < 1024" and t': "t' < 1024"
  shows "mapped (set_pte s d t w) d' t' =
    (if d' = d \<and> t' = t then (if e_present w then Some (e_index w) else None) else mapped s d' t')"
proof (cases "e_present (pde s d')")
  case True
  then show ?thesis
    using pde_set_pte [OF ok d t d', of w] pte_set_pte [OF ok d t d' True t', of w] d(2)
    unfolding mapped_def by (cases "d' = d \<and> t' = t") auto
next
  case False
  then show ?thesis using pde_set_pte [OF ok d t d'] d(2) by (auto simp: mapped_def)
qed

text \<open>The recursive window reads and writes the tables of the current address space.\<close>

lemma entry_init [simp]:
  "e_present (page_entry_init i)" "e_write (page_entry_init i)" "e_user (page_entry_init i)"
  "unat i < 2 ^ 20 \<Longrightarrow> e_index (page_entry_init i) = i"
proof -
  have b: "bit (7 :: u32) n \<longleftrightarrow> n < 3" for n
  proof -
    have "(7 :: u32) = mask 3" by (simp add: mask_eq_exp_minus_1)
    then show ?thesis by (simp only: bit_mask_iff) auto
  qed
  show "e_present (page_entry_init i)" "e_write (page_entry_init i)" "e_user (page_entry_init i)"
    by (simp_all add: e_present_def e_write_def e_user_def page_entry_init_def bit_or_iff b)
  assume "unat i < 2 ^ 20"
  then have "i = take_bit 20 i" by (simp add: word_unat_eq_iff take_bit_eq_mod unat_mod)
  then have hi: "n < 20" if "bit i n" for n using that by (metis bit_take_bit_iff)
  show "e_index (page_entry_init i) = i"
    by (rule bit_word_eqI)
      (auto simp: e_index_def page_entry_init_def bit_drop_bit_eq bit_or_iff bit_push_bit_iff b dest: hi)
qed

section \<open>Changes elsewhere in the state\<close>

text \<open>Two states with the same physical words and \<^verbatim>\<open>cr3\<close> have the same address space.\<close>

lemma same_space:
  assumes "pmem s' = pmem s" and "cr3 s' = cr3 s"
  shows "pde s' = pde s" "pte s' = pte s" "mapped s' = mapped s" "as_ok s' = as_ok s"
  using assms by (simp_all add: pde_def pte_def mapped_def as_ok_def fun_eq_iff)

lemma space_simps [simp]:
  "pde (set_mmap s i v) = pde s" "pte (set_mmap s i v) = pte s" "as_ok (set_mmap s i v) = as_ok s"
  "mapped (set_mmap s i v) = mapped s"
  "pde (set_free_pages s n) = pde s" "pte (set_free_pages s n) = pte s" "as_ok (set_free_pages s n) = as_ok s"
  "mapped (set_free_pages s n) = mapped s"
  "pde (s\<lparr>kmem := m\<rparr>) = pde s" "pte (s\<lparr>kmem := m\<rparr>) = pte s" "as_ok (s\<lparr>kmem := m\<rparr>) = as_ok s"
  "mapped (s\<lparr>kmem := m\<rparr>) = mapped s"
  by (intro same_space; simp)+

text \<open>The user page map of the running task, and its separation from the frame counters.\<close>

definition umap :: "kstate \<Rightarrow> bitmap" where
  "umap s = bitmaps s (t_vmap (cur s))"

definition upages :: "kstate \<Rightarrow> nat set" where
  "upages s = used (kmem s) (umap s)"

definition vmap_ok :: "kstate \<Rightarrow> bool" where
  "vmap_ok s \<longleftrightarrow> t_vmap (cur s) \<noteq> 0 \<and> bitmap_ok (umap s) \<and>
     (\<forall>i. unat i < 2 ^ 20 \<longrightarrow> \<not> in_buffer (umap s) (memory_map (mm s) + i))"

lemma counters_same:
  assumes "vmap_ok s" and "same_outside (umap s) (kmem s) m"
  shows "unat (total_pages (mm s)) \<le> 2 ^ 20 \<Longrightarrow> mm_ok (s\<lparr>kmem := m\<rparr>) = mm_ok s"
    and "unat (total_pages (mm s)) \<le> 2 ^ 20 \<Longrightarrow> free_frames (s\<lparr>kmem := m\<rparr>) = free_frames s"
    and "unat i < 2 ^ 20 \<Longrightarrow> mmap_at (s\<lparr>kmem := m\<rparr>) i = mmap_at s i"
proof -
  show *: "unat i < 2 ^ 20 \<Longrightarrow> mmap_at (s\<lparr>kmem := m\<rparr>) i = mmap_at s i" for i
    using assms by (simp add: mmap_at_def vmap_ok_def same_outside_def)
  have ff: "free_frames (s\<lparr>kmem := m\<rparr>) = free_frames s" if t: "unat (total_pages (mm s)) \<le> 2 ^ 20"
  proof -
    have "frefs (s\<lparr>kmem := m\<rparr>) j = frefs s j" if "j \<in> managed s" for j
    proof -
      have "unat (of_nat j :: u32) < 2 ^ 20" using that t by (simp add: managed_def unat_of_nat)
      then show ?thesis by (simp add: frefs_def * [of "of_nat j"])
    qed
    moreover have "managed (s\<lparr>kmem := m\<rparr>) = managed s" by (simp add: managed_def)
    ultimately show ?thesis by (auto simp: free_frames_def)
  qed
  then show "unat (total_pages (mm s)) \<le> 2 ^ 20 \<Longrightarrow> free_frames (s\<lparr>kmem := m\<rparr>) = free_frames s" .
  show "unat (total_pages (mm s)) \<le> 2 ^ 20 \<Longrightarrow> mm_ok (s\<lparr>kmem := m\<rparr>) = mm_ok s"
    using ff by (simp add: mm_ok_def)
qed

section \<open>get_pte\<close>

lemma get_pte_present:
  "as_ok s \<Longrightarrow> e_present (pde s (PDE_IDX v)) \<Longrightarrow>
     get_pte s v c = Some (PDE_RECUR_MASK OR push_bit 12 (PDE_IDX v), s)"
  by (simp add: get_pte_def get_pde_entry vload_window pte_last as_ok_def Let_def)

text \<open>No directory entry points to a free frame.\<close>

definition tables_live :: "kstate \<Rightarrow> bool" where
  "tables_live s \<longleftrightarrow> (\<forall>d < 1024. e_present (pde s d) \<longrightarrow> unat (e_index (pde s d)) \<notin> free_frames s)"

lemma dir_live: "as_ok s \<Longrightarrow> tables_live s \<Longrightarrow> unat (PAGE_IDX (cr3 s)) \<notin> free_frames s"
  unfolding tables_live_def as_ok_def by (auto dest!: spec [of _ 1023])

lemma get_pte_create:
  assumes ok: "as_ok s" "mm_ok s" "tables_live s" and free: "0 < free_pages (mm s)"
    and absent: "\<not> e_present (pde s (PDE_IDX v))"
  shows "\<exists>f s'. get_pte s v True = Some (PDE_RECUR_MASK OR push_bit 12 (PDE_IDX v), s') \<and>
    unat f \<in> free_frames s \<and> (\<forall>j \<in> free_frames s. unat f \<le> j) \<and> as_ok s' \<and> mm_ok s' \<and>
    free_frames s' = free_frames s - {unat f} \<and> cr3 s' = cr3 s \<and> tcbs s' = tcbs s \<and> current s' = current s \<and>
    bitmaps s' = bitmaps s \<and> free_pages (mm s') = free_pages (mm s) - 1 \<and>
    memory_map (mm s') = memory_map (mm s) \<and> kmem s' = (kmem s)(memory_map (mm s) + f := 1) \<and>
    (\<forall>d < 1024. pde s' d = (if d = PDE_IDX v then page_entry_init f else pde s d)) \<and>
    (\<forall>t < 1024. pte s' (PDE_IDX v) t = pmem s (word_of_frame f t))"
proof -
  from alloc_page_law [OF ok(2) free] obtain f s1 where
    s1: "s1 = set_free_pages (set_mmap s f 1) (free_pages (mm s) - 1)" and
    f: "alloc_page s = Some (PAGE_ADDR f, s1)" "unat f \<in> free_frames s" "\<forall>j \<in> free_frames s. unat f \<le> j"
      "mm_ok s1" "free_frames s1 = free_frames s - {unat f}" by blast
  have small: "unat f < 2 ^ 20" using f(2) managed_small [OF ok(2)] by (auto simp: free_frames_def)
  have fne: "e_index (pde s d) \<noteq> f" if "d < 1024" "e_present (pde s d)" for d
    using ok(3) f(2) that by (auto simp: tables_live_def)
  have dirne: "PAGE_IDX (cr3 s) \<noteq> f" using dir_live [OF ok(1,3)] f(2) by auto
  let ?d = "PDE_IDX v"
  have sp: "pmem s1 = pmem s" "cr3 s1 = cr3 s" "tcbs s1 = tcbs s" "current s1 = current s" "bitmaps s1 = bitmaps s"
    and "as_ok s1" "pde s1 = pde s" using ok(1) by (simp_all add: s1)
  define s' where "s' = s1\<lparr>pmem := (pmem s)(word_of_frame (PAGE_IDX (cr3 s)) ?d := page_entry_init f)\<rparr>"
  have e0: "vload s (get_pde + 4 * ?d) = Some (pde s ?d)"
    using ok(1) by (simp add: get_pde_entry vload_window pte_last as_ok_def)
  have "vstore s1 (get_pde + 4 * ?d) (page_entry_init f) = Some s'"
    using \<open>as_ok s1\<close> by (simp add: get_pde_entry vstore_window as_ok_def s'_def sp)
  then have run: "get_pte s v True = Some (PDE_RECUR_MASK OR push_bit 12 ?d, s')"
    using e0 absent f(1) by (simp add: get_pte_def Let_def PAGE_IDX_ADDR [OF small])
  have pde': "pde s' d = (if d = ?d then page_entry_init f else pde s d)" if "d < 1024" for d
    using that by (simp add: pde_def s'_def sp word_of_frame_eq)
  have d1023: "?d \<noteq> 1023" using absent ok(1) by (auto simp: as_ok_def)
  have pte': "pte s' ?d t = pmem s (word_of_frame f t)" if "t < 1024" for t
    using that dirne small by (simp add: pte_def pde' word_of_frame_eq) (simp add: s'_def sp word_of_frame_eq)
  have "as_ok s'"
    unfolding as_ok_def
  proof (intro conjI allI impI)
    have "pde s' 1023 = pde s 1023" "cr3 s' = cr3 s" using d1023 by (simp_all add: pde') (simp add: s'_def sp)
    then show "e_present (pde s' 1023)" "e_index (pde s' 1023) = PAGE_IDX (cr3 s')"
      using ok(1) by (simp_all add: as_ok_def)
    fix d d' assume "d < 1024" "d' < 1024" "e_present (pde s' d)" "e_present (pde s' d')"
      "e_index (pde s' d) = e_index (pde s' d')"
    then show "d = d'"
      using small fne [of d] fne [of d'] as_ok_inj [OF ok(1), of d d'] by (auto simp: pde' split: if_splits)
  qed
  moreover have "mm_ok s'" "free_frames s' = free_frames s1"
    using f(4) by (simp_all add: s'_def mm_ok_def free_frames_def managed_def frefs_def mmap_at_def)
  moreover have "free_pages (mm s') = free_pages (mm s) - 1" "memory_map (mm s') = memory_map (mm s)"
    "kmem s' = (kmem s)(memory_map (mm s) + f := 1)" by (simp_all add: s'_def s1) (simp_all add: set_mmap_def)
  moreover have "cr3 s' = cr3 s" "tcbs s' = tcbs s" "current s' = current s" "bitmaps s' = bitmaps s"
    by (simp_all add: s'_def sp)
  ultimately show ?thesis
    using run f(2,3,5) pde' pte' by (intro exI [of _ f] exI [of _ s']) simp
qed

section \<open>Mapping a page\<close>

lemma link_page_present:
  assumes ok: "as_ok s" "mm_ok s" "vmap_ok s" and free: "0 < free_pages (mm s)"
    and d: "PDE_IDX v < 1023" "e_present (pde s (PDE_IDX v))"
    and t: "\<not> e_present (pte s (PDE_IDX v) (PTE_IDX v))"
    and idx: "unat (PAGE_IDX v) \<in> bits_of (umap s) - upages s"
  shows "\<exists>f s'. link_page s v = Some s' \<and> unat f \<in> free_frames s \<and> (\<forall>j \<in> free_frames s. unat f \<le> j) \<and>
    as_ok s' \<and> mm_ok s' \<and> free_frames s' = free_frames s - {unat f} \<and> upages s' = insert (unat (PAGE_IDX v)) (upages s) \<and>
    cr3 s' = cr3 s \<and>
    (\<forall>d < 1024. \<forall>t < 1024. mapped s' d t = (if d = PDE_IDX v \<and> t = PTE_IDX v then Some f else mapped s d t))"
proof -
  have total: "unat (total_pages (mm s)) \<le> 2 ^ 20" using ok(2) by (simp add: mm_ok_def)
  have bok: "bitmap_ok (umap s)" using ok(3) by (simp add: vmap_ok_def)
  have um: "user_map s = Some (umap s)" using ok(3) by (simp add: user_map_def vmap_ok_def umap_def)
  obtain m where m: "bitmap_insert (kmem s) (umap s) (PAGE_IDX v) = Some m"
    "used m (umap s) = insert (unat (PAGE_IDX v)) (upages s)" "same_outside (umap s) (kmem s) m"
    using bm.insert_idx [OF bok, of "PAGE_IDX v" "kmem s"] idx by (auto simp: upages_def)
  let ?s1 = "s\<lparr>kmem := m\<rparr>"
  have ok1: "mm_ok ?s1" "free_frames ?s1 = free_frames s"
    using counters_same [OF ok(3) m(3)] total ok(2) by simp_all
  from alloc_page_law [OF ok1(1)] free obtain f s2 where
    s2: "s2 = set_free_pages (set_mmap ?s1 f 1) (free_pages (mm s) - 1)" and
    f: "alloc_page ?s1 = Some (PAGE_ADDR f, s2)" "unat f \<in> free_frames s" "\<forall>j \<in> free_frames s. unat f \<le> j"
      "mm_ok s2" "free_frames s2 = free_frames s - {unat f}" by (auto simp: ok1)
  have small: "unat f < 2 ^ 20" using f(2) managed_small [OF ok(2)] by (auto simp: free_frames_def)
  have sp: "as_ok s2" "pde s2 = pde s" "pte s2 = pte s" "mapped s2 = mapped s" "cr3 s2 = cr3 s"
    using ok(1) by (simp_all add: s2)
  have d': "PDE_IDX v < 1024" "PTE_IDX v < 1024" by simp_all
  define s' where "s' = set_pte s2 (PDE_IDX v) (PTE_IDX v) (page_entry_init f)"
  have st: "vstore s2 (window (PDE_IDX v) (PTE_IDX v)) (page_entry_init f) = Some s'"
    using vstore_window [OF sp(1) d'] d(2) by (simp add: s'_def set_pte_def sp(2))
  have ld: "vload s (window (PDE_IDX v) (PTE_IDX v)) = Some (pte s (PDE_IDX v) (PTE_IDX v))"
    using vload_window [OF ok(1) d'] d(2) by simp
  have c: "bitmap_contains (kmem s) (umap s) (PAGE_IDX v) = Some False"
    using bm.contains [OF bok, of "PAGE_IDX v" "kmem s"] idx by (simp add: upages_def)
  have run: "link_page s v = Some s'"
    using ld t c m(1) f(1) st
    by (simp add: link_page_def get_pte_present [OF ok(1) d(2)] window_entry um Let_def PAGE_IDX_ADDR [OF small])
  have "d < 1024 \<Longrightarrow> t < 1024 \<Longrightarrow>
      mapped s' d t = (if d = PDE_IDX v \<and> t = PTE_IDX v then Some f else mapped s d t)" for d t
    using mapped_set_pte [of s2 "PDE_IDX v" "PTE_IDX v" d t "page_entry_init f"] sp d small by (simp add: s'_def)
  moreover have "as_ok s'" "mm_ok s'"
    using as_ok_set_pte [of s2 "PDE_IDX v" "PTE_IDX v"] sp d f(4) by (simp_all add: s'_def)
  moreover have "upages s' = insert (unat (PAGE_IDX v)) (upages s)"
  proof -
    have "\<not> in_buffer (umap s) (memory_map (mm s) + f)" using ok(3) small by (simp add: vmap_ok_def)
    then have same: "kmem s2 a = m a" if "in_buffer (umap s) a" for a
      using that by (auto simp: s2 set_mmap_def)
    have "umap s' = umap s" by (simp add: umap_def s'_def s2)
    moreover have "used (kmem s2) (umap s) = used m (umap s)"
      by (rule used_cong [OF bok same])
    ultimately show ?thesis using m(2) by (simp add: upages_def s'_def)
  qed
  ultimately show ?thesis
    using run f by (intro exI [of _ f] exI [of _ s']) (simp add: s'_def sp)
qed

lemma vmap_same:
  assumes "vmap_ok s" and "tcbs s' = tcbs s" "current s' = current s" "bitmaps s' = bitmaps s"
    "memory_map (mm s') = memory_map (mm s)" "kmem s' = (kmem s)(memory_map (mm s) + f := 1)" "unat f < 2 ^ 20"
  shows "vmap_ok s'" "umap s' = umap s" "upages s' = upages s"
proof -
  show u: "umap s' = umap s" using assms by (simp add: umap_def)
  then show "vmap_ok s'" using assms(1-5) by (simp add: vmap_ok_def)
  have "\<not> in_buffer (umap s) (memory_map (mm s) + f)" using assms(1,7) by (simp add: vmap_ok_def)
  then have "kmem s' a = kmem s a" if "in_buffer (umap s) a" for a using that assms(6) by auto
  then have "used (kmem s') (umap s) = used (kmem s) (umap s)"
    using assms(1) by (intro used_cong) (simp_all add: vmap_ok_def)
  then show "upages s' = upages s" by (simp add: upages_def u)
qed

lemma link_page_after_create:
  assumes "get_pte s v True = Some (PDE_RECUR_MASK OR push_bit 12 (PDE_IDX v), s')"
    and "as_ok s'" "e_present (pde s' (PDE_IDX v))"
  shows "link_page s v = link_page s' v"
  by (simp add: link_page_def assms(1) get_pte_present [OF assms(2,3)])

text \<open>A stale present entry in a new table: the assertion on the page map fails.\<close>

lemma link_page_stale:
  assumes ok: "as_ok s" "vmap_ok s" and d: "e_present (pde s (PDE_IDX v))"
    and t: "e_present (pte s (PDE_IDX v) (PTE_IDX v))"
    and idx: "unat (PAGE_IDX v) \<in> bits_of (umap s) - upages s"
  shows "link_page s v = None"
proof -
  have bok: "bitmap_ok (umap s)" using ok(2) by (simp add: vmap_ok_def)
  have um: "user_map s = Some (umap s)" using ok(2) by (simp add: user_map_def vmap_ok_def umap_def)
  have c: "bitmap_contains (kmem s) (umap s) (PAGE_IDX v) = Some False"
    using bm.contains [OF bok, of "PAGE_IDX v" "kmem s"] idx by (simp add: upages_def)
  have ld: "vload s (window (PDE_IDX v) (PTE_IDX v)) = Some (pte s (PDE_IDX v) (PTE_IDX v))"
    using vload_window [OF ok(1)] d by simp
  show ?thesis
    using c ld t by (simp add: link_page_def get_pte_present [OF ok(1) d] window_entry um Let_def)
qed

section \<open>Copying a page\<close>

text \<open>\<open>f\<close> is no page directory and no page table of the address space.\<close>

definition data_frame :: "kstate \<Rightarrow> u32 \<Rightarrow> bool" where
  "data_frame s f \<longleftrightarrow> unat f < 2 ^ 20 \<and> (\<forall>d < 1024. e_present (pde s d) \<longrightarrow> e_index (pde s d) \<noteq> f)"

definition differ_in :: "u32 \<Rightarrow> kstate \<Rightarrow> kstate \<Rightarrow> bool" where
  "differ_in f s s' \<longleftrightarrow> s' = s\<lparr>pmem := pmem s'\<rparr> \<and>
     (\<forall>h. \<forall>i < 1024. unat h < 2 ^ 20 \<longrightarrow> h \<noteq> f \<longrightarrow> pmem s' (word_of_frame h i) = pmem s (word_of_frame h i))"

lemma differ_upd:
  assumes "differ_in f s s1" and "i < 1024" "unat f < 2 ^ 20"
  shows "differ_in f s (s1\<lparr>pmem := (pmem s1)(word_of_frame f i := w)\<rparr>)"
proof -
  have "s1 = s\<lparr>pmem := pmem s1\<rparr>" using assms(1) unfolding differ_in_def by blast
  then have "s1\<lparr>pmem := p\<rparr> = s\<lparr>pmem := p\<rparr>" for p by (metis kstate.update_convs(2) kstate.surjective)
  with assms show ?thesis unfolding differ_in_def by (simp add: word_of_frame_eq)
qed

lemma data_frame_table: "data_frame s f \<Longrightarrow> e_present (pde s d) \<Longrightarrow> d < 1024 \<Longrightarrow> e_index (pde s d) \<noteq> f"
  by (simp add: data_frame_def)

lemma data_frame_dir: "as_ok s \<Longrightarrow> data_frame s f \<Longrightarrow> PAGE_IDX (cr3 s) \<noteq> f"
  unfolding data_frame_def as_ok_def by (auto dest!: spec [of _ 1023])

lemma differ_space:
  assumes ok: "as_ok s" and f: "data_frame s f" and diff: "differ_in f s s'"
  shows "cr3 s' = cr3 s" "d < 1024 \<Longrightarrow> pde s' d = pde s d"
    "d < 1024 \<Longrightarrow> t < 1024 \<Longrightarrow> e_present (pde s d) \<Longrightarrow> pte s' d t = pte s d t"
    "d < 1024 \<Longrightarrow> t < 1024 \<Longrightarrow> mapped s' d t = mapped s d t" "as_ok s'" "data_frame s' g = data_frame s g"
proof -
  have fs: "unat f < 2 ^ 20" using f by (simp add: data_frame_def)
  have other: "pmem s' (word_of_frame g i) = pmem s (word_of_frame g i)" if "unat g < 2 ^ 20" "i < 1024" "g \<noteq> f" for g i
    using diff that fs by (auto simp: differ_in_def word_of_frame_eq)
  have "s' = s\<lparr>pmem := pmem s'\<rparr>" using diff unfolding differ_in_def by blast
  then show cr: "cr3 s' = cr3 s" by (metis kstate.select_convs kstate.surjective kstate.update_convs(2))
  show pde': "pde s' d = pde s d" if "d < 1024" for d
    using data_frame_dir [OF ok f] that by (simp add: pde_def cr other)
  show pte': "d < 1024 \<Longrightarrow> t < 1024 \<Longrightarrow> e_present (pde s d) \<Longrightarrow> pte s' d t = pte s d t" for d t
    using f by (simp add: pte_def pde' other data_frame_def)
  show "d < 1024 \<Longrightarrow> t < 1024 \<Longrightarrow> mapped s' d t = mapped s d t" for d t
    using pte' by (cases "e_present (pde s d)") (simp_all add: mapped_def pde')
  show "as_ok s'" using ok by (simp add: as_ok_def pde' cr)
  show "data_frame s' g = data_frame s g" by (simp add: data_frame_def pde')
qed

lemma copy_words_law:
  assumes ok: "as_ok s" and fg: "data_frame s f" "unat g < 2 ^ 20" "f \<noteq> g"
    and m: "mapped s 0 0 = Some f" "mapped s (PDE_IDX v) (PTE_IDX v) = Some g" and v: "v AND 0xfff = 0"
  shows "\<exists>s'. copy_words 0 v s = Some s' \<and> differ_in f s s' \<and>
    (\<forall>i < 1024. pmem s' (word_of_frame f i) = pmem s (word_of_frame g i))"
proof -
  have small: "unat f < 2 ^ 20" "unat g < 2 ^ 20" using fg by (simp_all add: data_frame_def)
  have "\<exists>s'. forM [0 ..< k] (\<lambda>i s. do {
       w \<leftarrow> vload s (v + 4 * of_nat i);
       vstore s (0 + 4 * of_nat i) w }) s = Some s' \<and> differ_in f s s' \<and>
    (\<forall>i < 1024. unat i < k \<longrightarrow> pmem s' (word_of_frame f i) = pmem s (word_of_frame g i))" if "k \<le> 1024" for k
    using that
  proof (induction k)
    case 0
    then show ?case by (simp add: differ_in_def)
  next
    case (Suc k)
    then obtain s1 where s1: "forM [0 ..< k] (\<lambda>i s. do {
       w \<leftarrow> vload s (v + 4 * of_nat i);
       vstore s (0 + 4 * of_nat i) w }) s = Some s1" "differ_in f s s1"
      "\<forall>i < 1024. unat i < k \<longrightarrow> pmem s1 (word_of_frame f i) = pmem s (word_of_frame g i)" by auto
    note d1 = differ_space [OF ok fg(1) s1(2)]
    have k: "(of_nat k :: u32) < 1024" "unat (of_nat k :: u32) = k"
      using Suc.prems by (simp_all add: word_less_nat_alt unat_of_nat)
    have ld: "vload s1 (v + 4 * of_nat k) = Some (pmem s1 (word_of_frame g (of_nat k)))"
      using m(2) v k(1) d1 by (simp add: vload_mapped word_of_frame_def)
    have g1: "pmem s1 (word_of_frame g (of_nat k)) = pmem s (word_of_frame g (of_nat k))"
      using s1(2) k(1) small fg(3) by (auto simp: differ_in_def word_of_frame_eq)
    have z: "PDE_IDX 0 = 0" "PTE_IDX 0 = 0" by (simp_all add: PDE_IDX_def PTE_IDX_def)
    define s2 where "s2 = s1\<lparr>pmem := (pmem s1)(word_of_frame f (of_nat k) := pmem s (word_of_frame g (of_nat k)))\<rparr>"
    have "vstore s1 (0 + 4 * of_nat k) w = Some (s1\<lparr>pmem := (pmem s1)(word_of_frame f (of_nat k) := w)\<rparr>)" for w
      using m(1) k(1) d1 page_offset [of 0 "of_nat k"] by (simp add: vstore_mapped word_of_frame_def z)
    then have st: "vstore s1 (0 + 4 * of_nat k) (pmem s1 (word_of_frame g (of_nat k))) = Some s2"
      unfolding s2_def g1 .
    have "differ_in f s s2"
      unfolding s2_def by (rule differ_upd [OF s1(2) k(1) small(1)])
    moreover have "\<forall>i < 1024. unat i < Suc k \<longrightarrow> pmem s2 (word_of_frame f i) = pmem s (word_of_frame g i)"
    proof (intro allI impI)
      fix i :: u32 assume i: "i < 1024" "unat i < Suc k"
      have e: "word_of_frame f i = word_of_frame f (of_nat k) \<longleftrightarrow> i = of_nat k"
        using word_of_frame_eq [OF small(1) small(1) i(1) k(1)] by simp
      show "pmem s2 (word_of_frame f i) = pmem s (word_of_frame g i)"
      proof (cases "i = of_nat k")
        case True
        then show ?thesis by (simp add: s2_def)
      next
        case False
        then have "unat i < k" using i(2) k(2) by (metis less_SucE word_unat_eq_iff)
        then show ?thesis using False e s1(3) i(1) by (simp add: s2_def)
      qed
    qed
    ultimately show ?case using s1(1) ld st by (simp add: forM_append)
  qed
  from this [of 1024] show ?thesis by (auto simp: copy_words_def word_less_nat_alt)
qed

lemma differ_rest:
  assumes "differ_in f s s'"
  shows "mm s' = mm s" "kmem s' = kmem s" "tcbs s' = tcbs s" "current s' = current s" "bitmaps s' = bitmaps s"
    "mmap_at s' = mmap_at s" "managed s' = managed s" "free_frames s' = free_frames s" "mm_ok s' = mm_ok s" "kmm s' = kmm s"
proof -
  have e: "s' = s\<lparr>pmem := pmem s'\<rparr>" using assms unfolding differ_in_def by blast
  show a: "mm s' = mm s" "kmem s' = kmem s" "tcbs s' = tcbs s" "current s' = current s" "bitmaps s' = bitmaps s" "kmm s' = kmm s"
    by (subst e, simp)+
  then show "mmap_at s' = mmap_at s" by (simp add: mmap_at_def fun_eq_iff)
  then show "managed s' = managed s" "free_frames s' = free_frames s" "mm_ok s' = mm_ok s"
    using a by (simp_all add: managed_def free_frames_def frefs_def mm_ok_def)
qed

lemma clear_present_absent [simp]: "\<not> e_present (clear_present e)"
  by (simp add: e_present_def clear_present_def bit_and_iff bit_not_iff)

lemma set_pte_frame:
  assumes "unat h < 2 ^ 20" "e_index (pde s d) \<noteq> h" "t < 1024" "i < 1024"
  shows "pmem (set_pte s d t w) (word_of_frame h i) = pmem s (word_of_frame h i)"
  using assms by (auto simp: set_pte_def word_of_frame_eq)

lemma set_pte_other_frame:
  assumes "data_frame s h" "e_present (pde s d)" "d < 1024" "t < 1024" "i < 1024"
  shows "pmem (set_pte s d t w) (word_of_frame h i) = pmem s (word_of_frame h i)"
  using assms by (intro set_pte_frame) (auto simp: data_frame_def)

lemma mapped_small: "mapped s d t = Some g \<Longrightarrow> unat g < 2 ^ 20"
  by (auto simp: mapped_def split: if_splits)

lemma copy_page_law:
  assumes ok: "as_ok s" "mm_ok s" "tables_live s" and free: "0 < free_pages (mm s)"
    and z: "e_present (pde s 0)"
    and g: "mapped s (PDE_IDX v) (PTE_IDX v) = Some g" "e_index (pde s 0) \<noteq> g" "unat g \<notin> free_frames s"
    and v: "v AND 0xfff = 0" "PDE_IDX v \<noteq> 0"
  shows "\<exists>f s'. copy_page s v = Some (PAGE_ADDR f, s') \<and> unat f \<in> free_frames s \<and> data_frame s f \<and>
    as_ok s' \<and> mm_ok s' \<and> free_frames s' = free_frames s - {unat f} \<and> cr3 s' = cr3 s \<and>
    (\<forall>j. mmap_at s' j = (if j = f then 1 else mmap_at s j)) \<and>
    (\<forall>d < 1024. pde s' d = pde s d) \<and>
    (\<forall>d < 1024. \<forall>t < 1024. mapped s' d t = (if d = 0 \<and> t = 0 then None else mapped s d t)) \<and>
    (\<forall>i < 1024. pmem s' (word_of_frame f i) = pmem s (word_of_frame g i)) \<and>
    (\<forall>h. \<forall>i < 1024. unat h < 2 ^ 20 \<longrightarrow> h \<noteq> f \<longrightarrow> h \<noteq> e_index (pde s 0) \<longrightarrow>
       pmem s' (word_of_frame h i) = pmem s (word_of_frame h i)) \<and>
    tcbs s' = tcbs s \<and> current s' = current s \<and> bitmaps s' = bitmaps s \<and> free_pages (mm s') = free_pages (mm s) - 1 \<and>
    memory_map (mm s') = memory_map (mm s) \<and> kmm s' = kmm s \<and> kmem s' = (kmem s)(memory_map (mm s) + f := 1) \<and> managed s' = managed s"
proof -
  from alloc_page_law [OF ok(2) free] obtain f s1 where
    s1: "s1 = set_free_pages (set_mmap s f 1) (free_pages (mm s) - 1)" and
    f: "alloc_page s = Some (PAGE_ADDR f, s1)" "unat f \<in> free_frames s"
      "mm_ok s1" "free_frames s1 = free_frames s - {unat f}" by blast
  have small: "unat f < 2 ^ 20" using f(2) managed_small [OF ok(2)] by (auto simp: free_frames_def)
  have df: "data_frame s f" using ok(3) f(2) small by (auto simp: data_frame_def tables_live_def)
  have fg: "f \<noteq> g" using f(2) g(3) by auto
  have f0: "f \<noteq> e_index (pde s 0)" using data_frame_table [OF df z] by simp
  note gs = mapped_small [OF g(1)]
  have sp1: "as_ok s1" "pde s1 = pde s" "mapped s1 = mapped s" "cr3 s1 = cr3 s" "pmem s1 = pmem s"
    using ok(1) by (simp_all add: s1)
  have lt: "(0 :: u32) < 1023" "(0 :: u32) < 1024" by simp_all
  define s2 where "s2 = set_pte s1 0 0 (page_entry_init f)"
  have z1: "e_present (pde s1 0)" using z sp1 by simp
  have sp2: "as_ok s2" "cr3 s2 = cr3 s"
    using as_ok_set_pte [OF sp1(1) lt(1) z1 lt(2)] sp1 by (simp_all add: s2_def)
  have pde2: "d < 1024 \<Longrightarrow> pde s2 d = pde s d" for d
    using pde_set_pte [OF sp1(1) lt(1) z1 lt(2)] sp1 by (simp add: s2_def)
  have map2: "d < 1024 \<Longrightarrow> t < 1024 \<Longrightarrow> mapped s2 d t = (if d = 0 \<and> t = 0 then Some f else mapped s d t)" for d t
    using mapped_set_pte [OF sp1(1) lt(1) z1 lt(2)] sp1 small by (simp add: s2_def)
  have df2: "data_frame s2 h = data_frame s h" "data_frame s1 h = data_frame s h" for h
    by (simp_all add: data_frame_def pde2 sp1)
  have st2: "vstore s1 (window 0 0) (page_entry_init f) = Some s2"
    using vstore_window [OF sp1(1) lt(2) lt(2)] z1 by (simp add: s2_def set_pte_def)
  have keep2: "pmem s2 (word_of_frame h i) = pmem s (word_of_frame h i)" if "unat h < 2 ^ 20" "h \<noteq> e_index (pde s 0)" "i < 1024" for h i
    using set_pte_frame [of h s1 0 0 i] that by (simp add: s2_def sp1)
  from copy_words_law [OF sp2(1), of f g v] fg df g(1) gs v obtain s3 where
    s3: "copy_words 0 v s2 = Some s3" "differ_in f s2 s3"
      "\<forall>i < 1024. pmem s3 (word_of_frame f i) = pmem s2 (word_of_frame g i)"
    by (auto simp: df2 map2)
  have df2f: "data_frame s2 f" using df by (simp add: df2)
  note sp3 = differ_space [OF sp2(1) df2f s3(2)]
  have z3: "e_present (pde s3 0)" using z by (simp add: sp3 pde2)
  define s4 where "s4 = set_pte s3 0 0 (clear_present (pte s3 0 0))"
  have ld4: "vload s3 (window 0 0) = Some (pte s3 0 0)"
    using vload_window [OF sp3(5) lt(2) lt(2)] z3 by simp
  have st4: "vstore s3 (window 0 0) (clear_present (pte s3 0 0)) = Some s4"
    using vstore_window [OF sp3(5) lt(2) lt(2)] z3 by (simp add: s4_def set_pte_def)
  have w00: "PDE_RECUR_MASK = window 0 0" by (simp add: window_def)
  have run: "copy_page s v = Some (PAGE_ADDR f, s4)"
    using f(1) st2 s3(1) ld4 st4 by (simp add: copy_page_def w00 Let_def PAGE_IDX_ADDR [OF small])
  have pde4: "pde s4 d = pde s d" if "d < 1024" for d
    using pde_set_pte [OF sp3(5) lt(1) z3 lt(2) that] that by (simp add: s4_def sp3 pde2)
  have map4: "mapped s4 d t = (if d = 0 \<and> t = 0 then None else mapped s d t)" if "d < 1024" "t < 1024" for d t
    using mapped_set_pte [OF sp3(5) lt(1) z3 lt(2) that] that by (simp add: s4_def sp3 map2)
  have as4: "as_ok s4" using as_ok_set_pte [OF sp3(5) lt(1) z3 lt(2)] by (simp add: s4_def)
  have rest4: "mm_ok s4" "free_frames s4 = free_frames s - {unat f}" "cr3 s4 = cr3 s"
    "mmap_at s4 j = (if j = f then 1 else mmap_at s j)" for j
    using f(3,4) differ_rest [OF s3(2)] by (simp_all add: s4_def s2_def sp3 sp1) (simp add: s1)
  have keep4: "pmem s4 (word_of_frame h i) = pmem s3 (word_of_frame h i)" if "unat h < 2 ^ 20" "h \<noteq> e_index (pde s 0)" "i < 1024" for h i
    using set_pte_frame [of h s3 0 0 i] that by (simp add: s4_def sp3 pde2)
  have w4: "pmem s4 (word_of_frame f i) = pmem s (word_of_frame g i)" if "i < 1024" for i
    using keep4 [OF small f0 that] s3(3) keep2 [OF gs g(2) [symmetric] that] that by simp
  have o4: "pmem s4 (word_of_frame h i) = pmem s (word_of_frame h i)"
    if h: "unat h < 2 ^ 20" "h \<noteq> f" "h \<noteq> e_index (pde s 0)" and i: "i < 1024" for h i
  proof -
    have "pmem s3 (word_of_frame h i) = pmem s2 (word_of_frame h i)"
      using s3(2) i h(1,2) by (simp add: differ_in_def)
    then show ?thesis using keep4 [OF h(1,3) i] keep2 [OF h(1,3) i] by simp
  qed
  have e4: "tcbs s4 = tcbs s" "current s4 = current s" "bitmaps s4 = bitmaps s" "free_pages (mm s4) = free_pages (mm s) - 1"
    "memory_map (mm s4) = memory_map (mm s)" "kmem s4 = (kmem s)(memory_map (mm s) + f := 1)"
    using differ_rest [OF s3(2)] by (simp_all add: s4_def s2_def s1) (simp_all add: set_mmap_def)
  have k4: "kmm s4 = kmm s" using differ_rest(10) [OF s3(2)] by (simp add: s4_def s2_def s1 set_pte_def set_mmap_def set_free_pages_def)
  have m4: "managed s4 = managed s" using differ_rest(7) [OF s3(2)] by (simp add: s4_def s2_def s1)
  show ?thesis
    using run f(2) df as4 rest4 pde4 map4 w4 o4 e4 k4 m4 by (intro exI [of _ f] exI [of _ s4]) simp
qed

section \<open>Copy on write\<close>

lemma page_base [simp]:
  "PAGE_ADDR (PAGE_IDX v) AND 0xfff = 0" "PDE_IDX (PAGE_ADDR (PAGE_IDX v)) = PDE_IDX v"
  "PTE_IDX (PAGE_ADDR (PAGE_IDX v)) = PTE_IDX v"
proof -
  have "unat v div 4096 * 4096 \<le> unat v" by (rule div_times_less_eq_dividend)
  then have "unat v div 4096 * 4096 < 4294967296" using unat_u32(1) [of v] by (rule le_less_trans)
  then have u: "unat (PAGE_ADDR (PAGE_IDX v)) = unat v div 4096 * 4096"
    by (simp add: PAGE_ADDR_def push_bit_eq_mult unat_word_ariths PAGE_IDX_div mult.commute)
  moreover have "unat v div 4096 * 4096 div 4194304 = unat v div 4194304"
  proof -
    have "unat v div 4096 * 4096 div (4096 * 1024) = unat v div 4096 div 1024"
      by (simp only: div_mult2_eq nonzero_mult_div_cancel_right zero_neq_numeral not_False_eq_True)
    then show ?thesis by (simp add: div_mult2_eq [symmetric])
  qed
  ultimately show "PAGE_ADDR (PAGE_IDX v) AND 0xfff = 0" "PDE_IDX (PAGE_ADDR (PAGE_IDX v)) = PDE_IDX v"
    "PTE_IDX (PAGE_ADDR (PAGE_IDX v)) = PTE_IDX v"
    by (simp_all add: word_unat_eq_iff unat_idx and_mask_mod)
qed

lemma user_pde:
  assumes "KERNEL_MEMORY_SIZE \<le> v" "v < USER_STACK_TOP"
  shows "PDE_IDX v < 1023" "PDE_IDX v \<noteq> 0"
proof -
  have "16777216 \<le> unat v" "unat v < 142606336"
    using assms by (simp_all add: user_layout word_le_nat_alt word_less_nat_alt)
  then have "4 \<le> unat v div 4194304" "unat v div 4194304 < 1023" by auto
  then show "PDE_IDX v < 1023" "PDE_IDX v \<noteq> 0"
    by (auto simp: word_less_nat_alt word_unat_eq_iff unat_idx)
qed

lemma set_write_bits [simp]:
  "e_present (set_write e w) = e_present e" "e_index (set_write e w) = e_index e" "e_write (set_write e w) = w"
proof -
  have b: "bit (2 :: u32) n \<longleftrightarrow> n = 1" for n
  proof -
    have "(2 :: u32) = push_bit 1 1" by simp
    then show ?thesis by (simp only: bit_push_bit_iff bit_1_iff) auto
  qed
  have sb: "bit (set_write e w) m \<longleftrightarrow> (if m = 1 then w else bit e m)" if "m < 32" for m
    unfolding set_write_def using that
    by (cases w) (simp_all only: if_True if_False bit_or_iff bit_and_iff bit_not_iff b, auto)
  show "e_present (set_write e w) = e_present e" "e_write (set_write e w) = w"
    by (simp_all add: e_present_def e_write_def sb)
  show "e_index (set_write e w) = e_index e"
  proof (rule bit_word_eqI)
    fix n assume "n < LENGTH(32)"
    show "bit (e_index (set_write e w)) n = bit (e_index e) n"
    proof (cases "12 + n < 32")
      case True
      then show ?thesis by (simp add: e_index_def bit_drop_bit_eq sb)
    next
      case False
      then show ?thesis by (auto simp: e_index_def bit_drop_bit_eq dest: bit_imp_le_length)
    qed
  qed
qed

section \<open>Properties\<close>

text \<open>A change of the counter of a frame that stays in use.\<close>

lemma mm_ok_still_used:
  assumes "mm_ok s" "unat g \<notin> free_frames s" "v \<noteq> 0"
  shows "mm_ok (set_mmap s g v)" "free_frames (set_mmap s g v) = free_frames s"
proof -
  show ff: "free_frames (set_mmap s g v) = free_frames s"
  proof (cases "unat g \<in> managed s")
    case True
    then show ?thesis using free_frames_set_mmap [of s g v] assms by simp
  next
    case False
    have "frefs (set_mmap s g v) j = frefs s j" if "j \<in> managed s" for j
      using that False managed_small [OF assms(1) that] by (auto simp: frefs_set)
    then show ?thesis by (auto simp: free_frames_def)
  qed
  show "mm_ok (set_mmap s g v)" using assms(1) ff by (simp add: mm_ok_def)
qed

text \<open>The page at entry \<open>(d, t)\<close>, in frame \<open>g\<close> before, is alone in frame \<open>f\<close> and can be written; nothing else is mapped elsewhere.\<close>

definition page_private :: "kstate \<Rightarrow> u32 \<Rightarrow> u32 \<Rightarrow> u32 \<Rightarrow> u32 \<Rightarrow> kstate \<Rightarrow> bool" where
  "page_private s d t g f s' \<longleftrightarrow> as_ok s' \<and> mm_ok s' \<and> mapped s' d t = Some f \<and> e_write (pte s' d t) \<and> mmap_at s' f = 1 \<and>
     (\<forall>i < 1024. pmem s' (word_of_frame f i) = pmem s (word_of_frame g i)) \<and>
     (\<forall>d' < 1024. \<forall>t' < 1024. (d', t') \<noteq> (d, t) \<longrightarrow> mapped s' d' t' = mapped s d' t')"

lemma mapped_entry:
  assumes "as_ok s" "mapped s d t = Some g" "d < 1024" "t < 1024"
  shows "e_present (pde s d)" "e_present (pte s d t)" "e_index (pte s d t) = g" "vload s (window d t) = Some (pte s d t)"
  using assms vload_window [OF assms(1)] by (auto simp: mapped_def split: if_splits)

lemma page_fault_unshared:
  assumes ok: "as_ok s" "mm_ok s" and err: "bit error 0" "bit error 1"
    and v: "KERNEL_MEMORY_SIZE \<le> cr2 s" "cr2 s < USER_STACK_TOP"
    and g: "mapped s (PDE_IDX (cr2 s)) (PTE_IDX (cr2 s)) = Some g" "data_frame s g" "mmap_at s g = 1"
  shows "\<exists>s'. page_fault_handler s 0xe error = Some s' \<and> page_private s (PDE_IDX (cr2 s)) (PTE_IDX (cr2 s)) g g s'"
proof -
  let ?d = "PDE_IDX (cr2 s)" and ?t = "PTE_IDX (cr2 s)"
  have lt: "?t < 1024" "?d < 1024" by simp_all
  note d = user_pde [OF v] and pres = mapped_entry [OF ok(1) g(1) lt(2,1)]
  define s' where "s' = set_pte s ?d ?t (set_write (pte s ?d ?t) True)"
  have "vstore s (window ?d ?t) (set_write (pte s ?d ?t) True) = Some s'"
    using vstore_window [OF ok(1) lt(2,1)] pres by (simp add: s'_def set_pte_def)
  then have "page_fault_handler s 0xe error = Some s'"
    using err v pres g(3) by (simp add: page_fault_handler_def get_pte_present [OF ok(1) pres(1)] window_entry Let_def) (simp add: s'_def)
  moreover have "mapped s' d t = mapped s d t" if "d < 1024" "t < 1024" for d t
    using mapped_set_pte [OF ok(1) d(1) pres(1) lt(1) that] pres g(1) by (simp add: s'_def)
  moreover have "pte s' ?d ?t = set_write (pte s ?d ?t) True"
    using pte_set_pte [OF ok(1) d(1) pres(1) lt(1) lt(2) pres(1) lt(1)] by (simp add: s'_def)
  moreover have "pmem s' (word_of_frame g i) = pmem s (word_of_frame g i)" if "i < 1024" for i
    using set_pte_other_frame [OF g(2) pres(1) lt(2,1) that] by (simp add: s'_def)
  ultimately show ?thesis
    using g(1,3) ok as_ok_set_pte [OF ok(1) d(1) pres(1) lt(1)] by (simp add: page_private_def s'_def)
qed

lemma page_fault_shared:
  assumes ok: "as_ok s" "mm_ok s" "tables_live s" and err: "bit error 0" "bit error 1"
    and v: "KERNEL_MEMORY_SIZE \<le> cr2 s" "cr2 s < USER_STACK_TOP"
    and g: "mapped s (PDE_IDX (cr2 s)) (PTE_IDX (cr2 s)) = Some g" "data_frame s g" "0 < mmap_at s g" "mmap_at s g \<noteq> 1"
    and room: "0 < free_pages (mm s)" "e_present (pde s 0)" "mapped s 0 0 = None"
  shows "\<exists>f s'. page_fault_handler s 0xe error = Some s' \<and> page_private s (PDE_IDX (cr2 s)) (PTE_IDX (cr2 s)) g f s' \<and>
    unat f \<in> free_frames s \<and> mmap_at s' g = mmap_at s g - 1 \<and>
    (\<forall>h. \<forall>i < 1024. unat h < 2 ^ 20 \<longrightarrow> h \<noteq> f \<longrightarrow> h \<noteq> e_index (pde s 0) \<longrightarrow> h \<noteq> e_index (pde s (PDE_IDX (cr2 s))) \<longrightarrow>
       pmem s' (word_of_frame h i) = pmem s (word_of_frame h i))"
proof -
  let ?v = "cr2 s" and ?d = "PDE_IDX (cr2 s)" and ?t = "PTE_IDX (cr2 s)"
  have lt: "?t < 1024" "?d < 1024" by simp_all
  note d = user_pde [OF v] and pres = mapped_entry [OF ok(1) g(1) lt(2,1)]
  have gf: "unat g \<notin> free_frames s" using g(3) by (auto simp: free_frames_def frefs_def unat_gt_0 word_gt_0)
  have dd: "PDE_IDX (PAGE_ADDR (PAGE_IDX ?v)) \<noteq> 0" using d(2) by simp
  have gz: "e_index (pde s 0) \<noteq> g" using g(2) room(2) by (auto simp: data_frame_def)
  from copy_page_law [OF ok room(1,2) _ gz gf page_base(1) dd] g(1) obtain f s1 where
    c: "copy_page s (PAGE_ADDR (PAGE_IDX ?v)) = Some (PAGE_ADDR f, s1)" "unat f \<in> free_frames s" "data_frame s f"
      "as_ok s1" "mm_ok s1" "free_frames s1 = free_frames s - {unat f}"
      "\<forall>j. mmap_at s1 j = (if j = f then 1 else mmap_at s j)" "\<forall>d < 1024. pde s1 d = pde s d"
      "\<forall>d < 1024. \<forall>t < 1024. mapped s1 d t = (if d = 0 \<and> t = 0 then None else mapped s d t)"
      "\<forall>i < 1024. pmem s1 (word_of_frame f i) = pmem s (word_of_frame g i)"
      "\<forall>h. \<forall>i < 1024. unat h < 2 ^ 20 \<longrightarrow> h \<noteq> f \<longrightarrow> h \<noteq> e_index (pde s 0) \<longrightarrow>
         pmem s1 (word_of_frame h i) = pmem s (word_of_frame h i)"
    by auto
  have small: "unat f < 2 ^ 20" using c(3) by (simp add: data_frame_def)
  have fg: "f \<noteq> g" using c(2) gf by auto
  have pres1: "e_present (pde s1 ?d)" using pres(1) c(8) lt by simp
  have dfs: "data_frame s1 h = data_frame s h" for h by (simp add: data_frame_def c(8))
  define s2 where "s2 = set_pte s1 ?d ?t (page_entry_init f)"
  have st: "vstore s1 (window ?d ?t) (page_entry_init f) = Some s2"
    using vstore_window [OF c(4) lt(2,1)] pres1 by (simp add: s2_def set_pte_def)
  define s' where "s' = set_mmap s2 g (mmap_at s2 g - 1)"
  have m2: "mmap_at s2 g = mmap_at s g" using c(7) fg by (simp add: s2_def)
  have run: "page_fault_handler s 0xe error = Some s'"
    using err v pres g(3,4) c(1) st
    by (simp add: page_fault_handler_def get_pte_present [OF ok(1) pres(1)] window_entry Let_def PAGE_IDX_ADDR [OF small] s'_def m2 word_gt_0)
  moreover have "mm_ok s'"
    unfolding s'_def by (rule mm_ok_still_used) (use c(5,6) gf g(4) m2 in \<open>simp_all add: s2_def\<close>)
  moreover have "as_ok s'" using as_ok_set_pte [OF c(4) d(1) pres1 lt(1)] by (simp add: s'_def s2_def)
  moreover have "mapped s' d t = (if d = ?d \<and> t = ?t then Some f else mapped s d t)" if "d < 1024" "t < 1024" for d t
    using mapped_set_pte [OF c(4) d(1) pres1 lt(1) that] that c(9) small room(3) by (auto simp: s'_def s2_def)
  moreover have "pte s' ?d ?t = page_entry_init f"
    using pte_set_pte [OF c(4) d(1) pres1 lt(1) lt(2) pres1 lt(1)] by (simp add: s'_def s2_def)
  moreover have "pmem s' (word_of_frame h i) = pmem s1 (word_of_frame h i)" if "unat h < 2 ^ 20" "h \<noteq> e_index (pde s ?d)" "i < 1024" for h i
    using set_pte_frame [of h s1 ?d ?t i] that c(8) by (simp add: s'_def s2_def)
  moreover have "mmap_at s' f = 1" "mmap_at s' g = mmap_at s g - 1"
    using fg c(7) m2 by (simp_all add: s'_def) (simp add: s2_def)
  ultimately show ?thesis
    using c(2,10,11) small data_frame_table [OF c(3) pres(1) lt(2)]
    by (intro exI [of _ f] exI [of _ s']) (auto simp: page_private_def)
qed


text \<open>
  An address space for the examples: directory in frame 1, the kernel's table in frame 2, a user
  table in frame 3 whose first page is frame 10, read-only and referenced twice; frames 11 and
  12 are free, and frame 11 still holds a word that looks like a present entry.
\<close>

definition sample_as :: kstate where
  "sample_as = boot_state\<lparr>cr3 := 0x1000, cr2 := 0x1000000,
     pmem := (\<lambda>a. if a = word_of_frame 1 1023 then page_entry_init 1
       else if a = word_of_frame 1 0 then page_entry_init 2
       else if a = word_of_frame 1 4 then page_entry_init 3
       else if a = word_of_frame 3 0 then set_write (page_entry_init 10) False
       else if a = word_of_frame 11 0 then 1 else 0),
     kmem := (\<lambda>a. if a = 0x10000a then 2 else 0),
     tcbs := (\<lambda>_. zero_tcb\<lparr>t_vmap := 0x30000, t_uid := USER_TASK\<rparr>),
     bitmaps := (\<lambda>_. bitmap_new 0x40000 0x1000 4096),
     mm := (mm boot_state)\<lparr>free_pages := 2, total_pages := 13, start_page_idx := 10, memory_map := 0x100000\<rparr>\<rparr>"

lemma sample_as_pde:
  assumes "d < 1024"
  shows "pde sample_as d = (if d = 1023 then page_entry_init 1 else if d = 0 then page_entry_init 2
     else if d = 4 then page_entry_init 3 else 0)"
proof -
  have "PAGE_IDX (0x1000 :: u32) = 1" by (simp add: PAGE_IDX_def)
  then show ?thesis using assms by (simp add: pde_def sample_as_def word_of_frame_eq)
qed

lemma sample_as_pte:
  assumes "t < 1024"
  shows "pte sample_as 4 t = (if t = 0 then set_write (page_entry_init 10) False else 0)"
    "pte sample_as 0 t = 0"
  using assms by (simp_all add: pte_def sample_as_pde) (simp_all add: sample_as_def word_of_frame_eq)

lemma zero_absent [simp]: "\<not> e_present 0"
  by (simp add: e_present_def)

lemma sample_as_ok: "as_ok sample_as" "mm_ok sample_as" "tables_live sample_as" "free_frames sample_as = {11, 12}"
proof -
  have p: "PAGE_IDX (cr3 sample_as) = 1" by (simp add: sample_as_def PAGE_IDX_def)
  show "as_ok sample_as" by (auto simp: as_ok_def sample_as_pde p split: if_splits)
  have m: "managed sample_as = {10, 11, 12}" by (auto simp: managed_def sample_as_def)
  have "frefs sample_as 10 = 2" "frefs sample_as 11 = 0" "frefs sample_as 12 = 0"
    by (simp_all add: frefs_def mmap_at_def sample_as_def)
  with m show f: "free_frames sample_as = {11, 12}" by (auto simp: free_frames_def)
  show "mm_ok sample_as" unfolding mm_ok_def f by (simp add: sample_as_def)
  show "tables_live sample_as" unfolding tables_live_def f by (auto simp: sample_as_pde split: if_splits)
qed


text \<open>
  In an address space whose page table for \<open>v\<close> exists, \<^verbatim>\<open>link_page\<close> of a page that is
  not mapped and not marked in the page map maps it to the lowest free frame: every word of
  the page reads the word of that frame, the page is marked, the frame is no longer free, and
  no other page of the address space is affected.
\<close>

theorem link_page_maps:
  assumes ok: "as_ok s" "mm_ok s" "vmap_ok s" and free: "0 < free_pages (mm s)" and v: "v AND 0xfff = 0"
    and d: "PDE_IDX v < 1023" "e_present (pde s (PDE_IDX v))"
    and t: "\<not> e_present (pte s (PDE_IDX v) (PTE_IDX v))"
    and idx: "unat (PAGE_IDX v) \<in> bits_of (umap s) - upages s"
  shows "\<exists>f s'. link_page s v = Some s' \<and> unat f = Min (free_frames s) \<and>
    (\<forall>i < 1024. vload s' (v + 4 * i) = Some (pmem s' (word_of_frame f i))) \<and>
    (\<forall>d < 1024. \<forall>t < 1024. (d, t) \<noteq> (PDE_IDX v, PTE_IDX v) \<longrightarrow> mapped s' d t = mapped s d t) \<and>
    upages s' = insert (unat (PAGE_IDX v)) (upages s) \<and> free_frames s' = free_frames s - {unat f} \<and>
    as_ok s' \<and> mm_ok s'"
proof -
  from link_page_present [OF ok free d t idx] obtain f s' where
    f: "link_page s v = Some s'" "unat f \<in> free_frames s" "\<forall>j \<in> free_frames s. unat f \<le> j" "as_ok s'" "mm_ok s'"
      "free_frames s' = free_frames s - {unat f}" "upages s' = insert (unat (PAGE_IDX v)) (upages s)"
      "\<forall>d < 1024. \<forall>t < 1024. mapped s' d t = (if d = PDE_IDX v \<and> t = PTE_IDX v then Some f else mapped s d t)"
    by blast
  have "unat f = Min (free_frames s)" using f(2,3) by (intro Min_eqI [symmetric]) auto
  moreover have "vload s' (v + 4 * i) = Some (pmem s' (word_of_frame f i))" if "i < 1024" for i
    using f(8) v that by (simp add: vload_mapped word_of_frame_def)
  ultimately show ?thesis using f by (intro exI [of _ f] exI [of _ s']) auto
qed

lemma sample_as_vmap:
  "vmap_ok sample_as" "bits_of (umap sample_as) = {4096 ..< 36864}" "upages sample_as = {}"
proof -
  have u: "umap sample_as = bitmap_new 0x40000 0x1000 4096" by (simp add: umap_def sample_as_def)
  have ok: "bitmap_ok (bitmap_new 0x40000 0x1000 4096)" by (simp add: bitmap_new_ok)
  have buf: "in_buffer (bitmap_new 0x40000 0x1000 4096) a \<longleftrightarrow> unat (a - 0x40000) < 4096" for a
    by (simp add: in_buffer_def in_range_def bitmap_new_def)
  have "unat (0xc0000 + i :: u32) = 786432 + unat i" if "unat i < 2 ^ 20" for i :: u32
    using that by (simp add: unat_word_ariths)
  then show "vmap_ok sample_as"
    using ok unfolding vmap_ok_def u by (simp add: buf) (simp add: sample_as_def)
  show "bits_of (umap sample_as) = {4096 ..< 36864}" by (simp add: u bits_of_def bitmap_new_def)
  have "used (kmem sample_as) (umap sample_as) = used (\<lambda>_. 0) (umap sample_as)"
    unfolding u by (rule used_cong [OF ok]) (auto simp: buf sample_as_def)
  then show "upages sample_as = {}" by (simp add: upages_def sample_used)
qed

theorem link_page_maps_witness:
  "\<exists>s'. link_page sample_as 0x1001000 = Some s' \<and> vload s' 0x1001000 = Some (pmem s' (word_of_frame 11 0)) \<and>
     upages s' = {4097} \<and> free_frames s' = {12}"
proof -
  have i: "PDE_IDX (0x1001000 :: u32) = 4" "PTE_IDX (0x1001000 :: u32) = 1" "PAGE_IDX (0x1001000 :: u32) = 4097"
    by (simp_all add: PDE_IDX_def PTE_IDX_def PAGE_IDX_def)
  have "0 < free_pages (mm sample_as)" by (simp add: sample_as_def)
  from link_page_maps [OF sample_as_ok(1,2) sample_as_vmap(1) this, of "0x1001000"] obtain f s' where
    f: "link_page sample_as 0x1001000 = Some s'" "unat f = Min {11, 12 :: nat}"
      "\<forall>i < 1024. vload s' (0x1001000 + 4 * i) = Some (pmem s' (word_of_frame f i))"
      "upages s' = {4097}" "free_frames s' = {11, 12} - {unat f}"
    by (auto simp: i sample_as_pde sample_as_pte sample_as_vmap sample_as_ok(4))
  have "f = 11" using f(2) by (simp add: word_unat_eq_iff)
  then show ?thesis using f by (auto dest: spec [of _ 0])
qed

text \<open>
  Property C34. When \<^verbatim>\<open>link_page\<close> has to create the page table, the frame it takes is not cleared:
  the other 1023 pages of the 4 MiB range get the mappings that the frame's old words happen to
  encode, and if the old word at the page's own position looks present, the assertion on the page
  map fails and the kernel halts.
\<close>

theorem link_page_new_table:
  assumes ok: "as_ok s" "mm_ok s" "tables_live s" "vmap_ok s" and free: "1 < free_pages (mm s)"
    and d: "PDE_IDX v < 1023" "\<not> e_present (pde s (PDE_IDX v))"
    and idx: "unat (PAGE_IDX v) \<in> bits_of (umap s) - upages s"
    and f: "unat f = Min (free_frames s)"
  shows "if e_present (pmem s (word_of_frame f (PTE_IDX v))) then link_page s v = None
    else \<exists>s' g. link_page s v = Some s' \<and> mapped s' (PDE_IDX v) (PTE_IDX v) = Some g \<and>
      unat g \<in> free_frames s - {unat f} \<and>
      (\<forall>t < 1024. t \<noteq> PTE_IDX v \<longrightarrow> mapped s' (PDE_IDX v) t =
        (let w = pmem s (word_of_frame f t) in if e_present w then Some (e_index w) else None))"
proof -
  have pos: "0 < free_pages (mm s)" using free by (rule order_less_trans [rotated]) simp
  from get_pte_create [OF ok(1-3) pos d(2)] obtain g s1 where
    g: "get_pte s v True = Some (PDE_RECUR_MASK OR push_bit 12 (PDE_IDX v), s1)"
      "unat g \<in> free_frames s" "\<forall>j \<in> free_frames s. unat g \<le> j" "as_ok s1" "mm_ok s1"
      "free_frames s1 = free_frames s - {unat g}" "tcbs s1 = tcbs s" "current s1 = current s" "bitmaps s1 = bitmaps s"
      "free_pages (mm s1) = free_pages (mm s) - 1" "memory_map (mm s1) = memory_map (mm s)"
      "kmem s1 = (kmem s)(memory_map (mm s) + g := 1)"
      "\<forall>d < 1024. pde s1 d = (if d = PDE_IDX v then page_entry_init g else pde s d)"
      "\<forall>t < 1024. pte s1 (PDE_IDX v) t = pmem s (word_of_frame g t)" by blast
  have "Min (free_frames s) = unat g" using g(2,3) by (intro Min_eqI) auto
  then have gf: "g = f" using f by (simp add: word_unat_eq_iff)
  have small: "unat f < 2 ^ 20"
    using g(2) managed_small [OF ok(2)] by (auto simp: free_frames_def gf)
  note vm = vmap_same [OF ok(4) g(7-9,11,12)]
  have vm1: "vmap_ok s1" "umap s1 = umap s" "upages s1 = upages s" using vm small by (simp_all add: gf)
  have d1: "e_present (pde s1 (PDE_IDX v))" using g(13) by simp
  have link: "link_page s v = link_page s1 v" by (rule link_page_after_create [OF g(1,4) d1])
  have idx1: "unat (PAGE_IDX v) \<in> bits_of (umap s1) - upages s1" using idx vm1 by simp
  have p1: "pte s1 (PDE_IDX v) (PTE_IDX v) = pmem s (word_of_frame f (PTE_IDX v))" using g(14) by (simp add: gf)
  have fp: "0 < free_pages (mm s1)"
  proof -
    have "free_pages (mm s) - 1 \<noteq> 0" using free by auto
    then show ?thesis by (simp add: g(10) word_gt_0)
  qed
  show ?thesis
  proof (cases "e_present (pmem s (word_of_frame f (PTE_IDX v)))")
    case True
    then have "link_page s1 v = None" using link_page_stale [OF g(4) vm1(1) d1 _ idx1] p1 by simp
    with True link show ?thesis by simp
  next
    case False
    with link_page_present [OF g(4,5) vm1(1) fp d(1) d1 _ idx1] p1 obtain h s' where
      h: "link_page s1 v = Some s'" "unat h \<in> free_frames s1"
      "\<forall>d < 1024. \<forall>t < 1024. mapped s' d t = (if d = PDE_IDX v \<and> t = PTE_IDX v then Some h else mapped s1 d t)"
      by auto
    have "mapped s' (PDE_IDX v) t = (let w = pmem s (word_of_frame f t) in if e_present w then Some (e_index w) else None)"
      if "t < 1024" "t \<noteq> PTE_IDX v" for t
      using that h(3) d1 g(14) by (simp add: mapped_def gf Let_def)
    then show ?thesis using False link h g(6) by (auto simp: gf intro!: exI [of _ h])
  qed
qed

theorem link_page_new_table_witness: "link_page sample_as 0x1400000 = None"
proof -
  have i: "PDE_IDX (0x1400000 :: u32) = 5" "PTE_IDX (0x1400000 :: u32) = 0" "PAGE_IDX (0x1400000 :: u32) = 5120"
    by (simp_all add: PDE_IDX_def PTE_IDX_def PAGE_IDX_def)
  have "1 < free_pages (mm sample_as)" by (simp add: sample_as_def)
  moreover have "e_present (pmem sample_as (word_of_frame 11 0))"
    by (simp add: sample_as_def word_of_frame_eq e_present_def)
  moreover have "unat (11 :: u32) = Min (free_frames sample_as)" by (simp add: sample_as_ok(4))
  moreover have "PDE_IDX (0x1400000 :: u32) < 1023" "\<not> e_present (pde sample_as (PDE_IDX 0x1400000))"
    "unat (PAGE_IDX 0x1400000) \<in> bits_of (umap sample_as) - upages sample_as"
    by (simp_all add: i sample_as_pde sample_as_vmap)
  ultimately show ?thesis
    using link_page_new_table [OF sample_as_ok(1-3) sample_as_vmap(1), of "0x1400000" 11] by (simp add: i)
qed

end
