(* ===== verification/Arena.thy ===== *)
theory Arena
  imports Memory
begin

text \<open>
  The kernel heap of \<^verbatim>\<open>kernel/arena.c\<close>: blocks of seven sizes cut from single pages and kept on
  one free list per size, larger requests as runs of pages. An arena header takes the first 16
  bytes of its page. A block on a free list is a list node at the block's address.
\<close>

unbundle bit_operations_syntax

section \<open>The operations of arena.c\<close>

definition ARENA_DESC_COUNT :: nat where "ARENA_DESC_COUNT = 7"
definition MIN_BLOCK_SIZE :: u32 where "MIN_BLOCK_SIZE = 16"

text \<open>\<^verbatim>\<open>sizeof (arena_t)\<close>: two words, a \<^verbatim>\<open>bool\<close> padded to a word, a word.\<close>

definition ARENA_HEADER :: u32 where "ARENA_HEADER = 16"

text \<open>\<open>base\<close> is the address of the array \<^verbatim>\<open>arena_descriptors\<close> (24 bytes each, the list at offset 8).\<close>

definition arena_init :: "addr \<Rightarrow> kstate \<Rightarrow> kstate option" where
  "arena_init base s =
     forM [0 ..< ARENA_DESC_COUNT] (\<lambda>i s. do {
       let bsz = MIN_BLOCK_SIZE * 2 ^ i;
       let d = \<lparr>total_block = (PAGE_SIZE - ARENA_HEADER) div bsz, block_size = bsz, free_list = base + 24 * of_nat i + 8\<rparr>;
       h \<leftarrow> list_init (nodes s) (free_list d);
       Some (s\<lparr>nodes := h, descriptors := descriptors s @ [d]\<rparr>) }) (s\<lparr>descriptors := []\<rparr>)"

definition get_block_from_arena :: "arena_descriptor \<Rightarrow> addr \<Rightarrow> u32 \<Rightarrow> addr option" where
  "get_block_from_arena d ar idx = do {
     assert_c (idx < total_block d);
     let addr = ar + ARENA_HEADER;
     let gap = idx * block_size d;
     Some (addr + gap) }"

definition get_arena_from_block :: "addr \<Rightarrow> addr" where
  "get_arena_from_block block = block AND 0xfffff000"

primrec find_desc :: "arena_descriptor list \<Rightarrow> nat \<Rightarrow> u32 \<Rightarrow> nat" where
  "find_desc [] i sz = i - 1"
| "find_desc (d # ds) i sz = (if block_size d \<ge> sz then i else find_desc ds (i + 1) sz)"

definition put_arena :: "addr \<Rightarrow> arena \<Rightarrow> kstate \<Rightarrow> kstate" where
  "put_arena a r s = s\<lparr>arenas := (arenas s)(a := r)\<rparr>"

text \<open>The refill of an empty free list with the blocks of a new page.\<close>

definition refill :: "nat \<Rightarrow> kstate \<Rightarrow> kstate option" where
  "refill i s = do {
     let d = descriptors s ! i;
     (ar, s) \<leftarrow> kalloc_page s 1;
     let s = s\<lparr>kmem := memset (kmem s) ar 0 PAGE_SIZE\<rparr>;
     let s = put_arena ar \<lparr>ar_desc = Some i, ar_count = total_block d, ar_large = False, ar_magic = XOS_MAGIC\<rparr> s;
     forM [0 ..< unat (total_block d)] (\<lambda>k s. do {
       block \<leftarrow> get_block_from_arena d ar (of_nat k);
       c \<leftarrow> list_contains (nodes s) (free_list d) block;
       assert_c (\<not> c);
       h \<leftarrow> list_push_back (nodes s) (free_list d) block;
       c \<leftarrow> list_contains h (free_list d) block;
       assert_c c;
       Some (s\<lparr>nodes := h\<rparr>) }) s }"

definition kmalloc :: "kstate \<Rightarrow> u32 \<Rightarrow> (addr \<times> kstate) option" where
  "kmalloc s sz =
     (if sz > block_size (descriptors s ! (ARENA_DESC_COUNT - 1)) then do {
        let asize = sz + ARENA_HEADER;
        let cnt = (asize + PAGE_SIZE - 1) div PAGE_SIZE;
        (ar, s) \<leftarrow> kalloc_page s cnt;
        let s = s\<lparr>kmem := memset (kmem s) ar 0 (cnt * PAGE_SIZE)\<rparr>;
        Some (ar + ARENA_HEADER,
          put_arena ar \<lparr>ar_desc = None, ar_count = cnt, ar_large = True, ar_magic = XOS_MAGIC\<rparr> s) }
      else do {
        let i = find_desc (descriptors s) 0 sz;
        let d = descriptors s ! i;
        e \<leftarrow> list_empty (nodes s) (free_list d);
        s \<leftarrow> (if e then refill i s else Some s);
        (block, h) \<leftarrow> list_pop_front (nodes s) (free_list d);
        let s = s\<lparr>nodes := h, kmem := memset (kmem s) block 0 (block_size d)\<rparr>;
        let ar = get_arena_from_block block;
        assert_c (ar_magic (arenas s ar) = XOS_MAGIC \<and> \<not> ar_large (arenas s ar));
        Some (block, put_arena ar ((arenas s ar)\<lparr>ar_count := ar_count (arenas s ar) - 1\<rparr>) s) })"

text \<open>The loop of \<^verbatim>\<open>kfree\<close> that takes all blocks of a page off the free list.\<close>

definition unlist_blocks :: "arena_descriptor \<Rightarrow> addr \<Rightarrow> nat \<Rightarrow> kstate \<Rightarrow> kstate option" where
  "unlist_blocks d ar n = forM [0 ..< n] (\<lambda>k s. do {
     block \<leftarrow> get_block_from_arena d ar (of_nat k);
     c \<leftarrow> list_contains (nodes s) (free_list d) block;
     assert_c c;
     h \<leftarrow> list_remove (nodes s) block;
     c \<leftarrow> list_contains h (free_list d) block;
     assert_c (\<not> c);
     Some (s\<lparr>nodes := h\<rparr>) })"

definition kfree :: "kstate \<Rightarrow> addr \<Rightarrow> kstate option" where
  "kfree s ptr = do {
     assert_c (ptr \<noteq> 0);
     let ar = get_arena_from_block ptr;
     assert_c (ar_magic (arenas s ar) = XOS_MAGIC);
     if ar_large (arenas s ar) then kfree_page s ar (ar_count (arenas s ar))
     else do {
       i \<leftarrow> ar_desc (arenas s ar);
       let d = descriptors s ! i;
       h \<leftarrow> list_push_back (nodes s) (free_list d) ptr;
       let s = s\<lparr>nodes := h\<rparr>;
       let s = put_arena ar ((arenas s ar)\<lparr>ar_count := ar_count (arenas s ar) + 1\<rparr>) s;
       if ar_count (arenas s ar) = total_block d then do {
         s \<leftarrow> unlist_blocks d ar (unat (ar_count (arenas s ar))) s;
         kfree_page s ar 1 }
       else Some s } }"

section \<open>Blocks of a page\<close>

definition desc_ok :: "arena_descriptor \<Rightarrow> bool" where
  "desc_ok d \<longleftrightarrow> 0 < unat (block_size d) \<and> 0 < unat (total_block d) \<and>
     16 + unat (total_block d) * unat (block_size d) \<le> 4096"

definition block_at :: "arena_descriptor \<Rightarrow> addr \<Rightarrow> nat \<Rightarrow> addr" where
  "block_at d ar k = ar + 16 + of_nat k * block_size d"

definition page_blocks :: "arena_descriptor \<Rightarrow> addr \<Rightarrow> addr list" where
  "page_blocks d ar = map (block_at d ar) [0 ..< unat (total_block d)]"

lemma page_addr_unat: "unat (PAGE_ADDR (PAGE_IDX a)) = 4096 * (unat a div 4096)"
proof -
  have "4096 * (unat a div 4096) \<le> unat a" by simp
  then have "4096 * (unat a div 4096) < 4294967296" using unat_u32(1) [of a] by (rule le_less_trans)
  then show ?thesis by (simp add: PAGE_ADDR_def push_bit_eq_mult unat_word_ariths PAGE_IDX_div)
qed

lemma arena_mask: "get_arena_from_block b = PAGE_ADDR (PAGE_IDX b)"
proof -
  have "(0xfffff000 :: u32) = push_bit 12 (mask 20)" by (simp add: mask_eq_exp_minus_1 push_bit_eq_mult)
  then have c: "bit (0xfffff000 :: u32) n \<longleftrightarrow> 12 \<le> n \<and> n < 32" for n
    by (simp only: bit_push_bit_iff bit_mask_iff) auto
  show ?thesis
    unfolding get_arena_from_block_def PAGE_ADDR_def PAGE_IDX_def
  proof (rule bit_word_eqI)
    fix n assume n: "n < LENGTH(32)"
    show "bit (b AND 0xfffff000) n = bit (push_bit 12 (drop_bit 12 b)) n"
      using n c [of n] by (cases "12 \<le> n") (simp_all add: bit_and_iff bit_push_bit_iff bit_drop_bit_eq)
  qed
qed

lemma block_offset:
  assumes "desc_ok d" and "k < unat (total_block d)"
  shows "k * unat (block_size d) + unat (block_size d) + 16 \<le> 4096"
proof -
  have "Suc k * unat (block_size d) \<le> unat (total_block d) * unat (block_size d)"
    using assms(2) by (intro mult_le_mono1) simp
  with assms(1) show ?thesis by (simp add: desc_ok_def)
qed

lemma block_unat:
  assumes "desc_ok d" and "k < unat (total_block d)" and "ar = PAGE_ADDR (PAGE_IDX ar)"
  shows "unat (block_at d ar k) = unat ar + 16 + k * unat (block_size d)"
proof -
  have "unat ar + 4096 \<le> 4294967296"
  proof -
    have "unat ar = 4096 * (unat ar div 4096)" using assms(3) page_addr_unat by metis
    moreover have "unat ar div 4096 < 1048576" using unat_u32(1) [of ar] by (simp add: less_mult_imp_div_less)
    ultimately show ?thesis by linarith
  qed
  moreover have "k * unat (block_size d) + 16 < 4096"
    using block_offset [OF assms(1,2)] assms(1) by (simp add: desc_ok_def)
  moreover from this have "k < 4294967296"
    using assms(2) unat_u32(1) [of "total_block d"] by linarith
  ultimately show ?thesis by (simp add: block_at_def unat_word_ariths unat_of_nat mod_simps)
qed

lemma block_arena:
  assumes "desc_ok d" and "k < unat (total_block d)" and "ar = PAGE_ADDR (PAGE_IDX ar)"
  shows "get_arena_from_block (block_at d ar k) = ar"
proof -
  have o: "16 + k * unat (block_size d) < 4096"
    using block_offset [OF assms(1,2)] assms(1) by (simp add: desc_ok_def)
  obtain q where q: "unat ar = 4096 * q" using assms(3) page_addr_unat by metis
  have "(4096 * q + (16 + k * unat (block_size d))) div 4096 = q" using o by simp
  then have "(unat ar + 16 + k * unat (block_size d)) div 4096 = unat ar div 4096" by (simp add: q add.assoc)
  then have "PAGE_IDX (block_at d ar k) = PAGE_IDX ar"
    by (simp add: word_unat_eq_iff PAGE_IDX_div block_unat [OF assms])
  then show ?thesis using assms(3) by (simp add: arena_mask)
qed

lemma page_blocks_distinct:
  assumes "desc_ok d" and "ar = PAGE_ADDR (PAGE_IDX ar)"
  shows "distinct (page_blocks d ar)" "0 \<notin> set (page_blocks d ar)" "page_blocks d ar \<noteq> []"
proof -
  have "inj_on (block_at d ar) {0 ..< unat (total_block d)}"
  proof (rule inj_onI)
    fix j k assume jk: "j \<in> {0 ..< unat (total_block d)}" "k \<in> {0 ..< unat (total_block d)}"
      "block_at d ar j = block_at d ar k"
    then have "j * unat (block_size d) = k * unat (block_size d)"
      using block_unat [OF assms(1) _ assms(2)] by (metis add_left_cancel atLeastLessThan_iff)
    then show "j = k" using assms(1) by (simp add: desc_ok_def)
  qed
  then show "distinct (page_blocks d ar)" by (simp add: page_blocks_def distinct_map)
  show "0 \<notin> set (page_blocks d ar)"
  proof
    assume "0 \<in> set (page_blocks d ar)"
    then obtain k where "k < unat (total_block d)" "block_at d ar k = 0" by (auto simp: page_blocks_def)
    with block_unat [OF assms(1) _ assms(2), of k] show False by simp
  qed
  show "page_blocks d ar \<noteq> []" using assms(1) by (simp add: page_blocks_def desc_ok_def)
qed

section \<open>Filling and emptying a free list\<close>

lemma in_owned_from_empty:
  "L l = Some [] \<Longrightarrow> a \<in> owned (L(l \<mapsto> xs)) \<longleftrightarrow> a \<in> owned L \<or> a \<in> set xs"
  by (auto simp: in_owned_upd in_owned_cases [of L l "[]"] list_nodes_def)

lemma get_block: "k < unat (total_block d) \<Longrightarrow> get_block_from_arena d ar (of_nat k) = Some (block_at d ar k)"
proof -
  assume k: "k < unat (total_block d)"
  have "k < 4294967296" using k unat_u32(1) by (rule less_trans)
  then have "unat (of_nat k :: u32) = k" by (simp add: unat_of_nat)
  with k show ?thesis
    by (simp add: get_block_from_arena_def word_less_nat_alt block_at_def ARENA_HEADER_def)
qed

definition push_blocks :: "arena_descriptor \<Rightarrow> addr \<Rightarrow> nat \<Rightarrow> kstate \<Rightarrow> kstate option" where
  "push_blocks d ar n = forM [0 ..< n] (\<lambda>k s. do {
     block \<leftarrow> get_block_from_arena d ar (of_nat k);
     c \<leftarrow> list_contains (nodes s) (free_list d) block;
     assert_c (\<not> c);
     h \<leftarrow> list_push_back (nodes s) (free_list d) block;
     c \<leftarrow> list_contains h (free_list d) block;
     assert_c c;
     Some (s\<lparr>nodes := h\<rparr>) })"

lemma push_blocks_law:
  assumes L: "klists (nodes s) L" "L (free_list d) = Some []" and d: "desc_ok d" "ar = PAGE_ADDR (PAGE_IDX ar)"
    and fresh: "set (page_blocks d ar) \<inter> owned L = {}" and n: "n \<le> unat (total_block d)"
  shows "\<exists>h. push_blocks d ar n s = Some (s\<lparr>nodes := h\<rparr>) \<and> klists h (L(free_list d \<mapsto> map (block_at d ar) [0 ..< n]))"
  using n
proof (induction n)
  case 0
  have "L(free_list d \<mapsto> []) = L" using L(2) by (simp add: map_upd_triv)
  with L show ?case by (intro exI [of _ "nodes s"]) (simp add: push_blocks_def)
next
  case (Suc n)
  then have "n \<le> unat (total_block d)" by simp
  from Suc.IH [OF this] obtain h where h: "push_blocks d ar n s = Some (s\<lparr>nodes := h\<rparr>)"
    "klists h (L(free_list d \<mapsto> map (block_at d ar) [0 ..< n]))" by blast
  let ?L = "L(free_list d \<mapsto> map (block_at d ar) [0 ..< n])" and ?b = "block_at d ar n"
  have bs: "set (map (block_at d ar) [0 ..< n]) \<subseteq> set (page_blocks d ar)" "?b \<in> set (page_blocks d ar)"
    using Suc.prems by (auto simp: page_blocks_def)
  have split: "[0 ..< unat (total_block d)] = [0 ..< n] @ n # [Suc n ..< unat (total_block d)]"
    using Suc.prems by (intro upt_split) simp
  have nb: "?b \<notin> set (map (block_at d ar) [0 ..< n])"
    using page_blocks_distinct(1) [OF d] unfolding page_blocks_def split by (auto simp: image_iff)
  then have no: "?b \<notin> owned ?L" using in_owned_from_empty [of L "free_list d"] L(2) fresh bs(2) by blast
  have b0: "?b \<noteq> 0" using page_blocks_distinct(2) [OF d] bs(2) by auto
  from klist.push_back [OF h(2) _ no b0, of "free_list d" "map (block_at d ar) [0 ..< n]"] obtain h' where
    h': "list_push_back h (free_list d) ?b = Some h'"
      "klists h' (L(free_list d \<mapsto> map (block_at d ar) [0 ..< Suc n]))" by auto
  have c: "list_contains h (free_list d) ?b = Some False"
    using list_contains_dlist [OF klistsD [OF h(2)], of "free_list d"] nb by simp
  have c': "list_contains h' (free_list d) ?b = Some True"
    using list_contains_dlist [OF klistsD [OF h'(2)], of "free_list d"] by simp
  have "push_blocks d ar (Suc n) s = Some (s\<lparr>nodes := h'\<rparr>)"
    using h(1) c c' h'(1) get_block [of n d ar] Suc.prems by (simp add: push_blocks_def forM_append)
  with h'(2) show ?case by blast
qed

lemma unlist_blocks_law:
  assumes L: "klists (nodes s) L" "L (free_list d) = Some ys" and d: "desc_ok d" "ar = PAGE_ADDR (PAGE_IDX ar)"
    and ys: "set (page_blocks d ar) \<subseteq> set ys" "distinct ys" and n: "n \<le> unat (total_block d)"
  shows "\<exists>h. unlist_blocks d ar n s = Some (s\<lparr>nodes := h\<rparr>) \<and>
    klists h (L(free_list d \<mapsto> filter (\<lambda>x. x \<notin> set (map (block_at d ar) [0 ..< n])) ys))"
  using n
proof (induction n)
  case 0
  have "L(free_list d \<mapsto> ys) = L" using L(2) by (simp add: map_upd_triv)
  with L show ?case by (intro exI [of _ "nodes s"]) (simp add: unlist_blocks_def)
next
  case (Suc n)
  let ?ys = "\<lambda>n. filter (\<lambda>x. x \<notin> set (map (block_at d ar) [0 ..< n])) ys" and ?b = "block_at d ar n"
  from Suc.prems have "n \<le> unat (total_block d)" by simp
  from Suc.IH [OF this] obtain h where h: "unlist_blocks d ar n s = Some (s\<lparr>nodes := h\<rparr>)"
    "klists h (L(free_list d \<mapsto> ?ys n))" by blast
  have split: "[0 ..< unat (total_block d)] = [0 ..< n] @ n # [Suc n ..< unat (total_block d)]"
    using Suc.prems by (intro upt_split) simp
  have nb: "?b \<notin> set (map (block_at d ar) [0 ..< n])"
    using page_blocks_distinct(1) [OF d] unfolding page_blocks_def split by (auto simp: image_iff)
  have "?b \<in> set ys" using Suc.prems ys(1) by (auto simp: page_blocks_def)
  with nb have b: "?b \<in> set (?ys n)" by simp
  have step: "remove1 ?b (?ys n) = ?ys (Suc n)"
    using ys(2) by (subst distinct_remove1_removeAll) (auto simp: removeAll_filter_not_eq intro!: filter_cong)
  from klist.rm_member [OF h(2) fun_upd_same b] obtain h' where
    h': "list_remove h ?b = Some h'" "klists h' (L(free_list d \<mapsto> ?ys (Suc n)))"
    unfolding step fun_upd_upd by blast
  have c: "list_contains h (free_list d) ?b = Some True"
    using list_contains_dlist [OF klistsD [OF h(2)], of "free_list d"] b by simp
  have c': "list_contains h' (free_list d) ?b = Some False"
    using list_contains_dlist [OF klistsD [OF h'(2)], of "free_list d"] by simp
  have "unlist_blocks d ar (Suc n) s = Some (s\<lparr>nodes := h'\<rparr>)"
    using h(1) c c' h'(1) get_block [of n d ar] Suc.prems by (simp add: unlist_blocks_def forM_append)
  with h'(2) show ?case by blast
qed

section \<open>Pages and the page map\<close>

lemma in_page: "ar = PAGE_ADDR (PAGE_IDX ar) \<Longrightarrow> in_range ar 4096 x \<Longrightarrow> PAGE_IDX x = PAGE_IDX ar"
proof -
  assume ar: "ar = PAGE_ADDR (PAGE_IDX ar)" and x: "in_range ar 4096 x"
  obtain q where q: "unat ar = 4096 * q" using ar page_addr_unat by metis
  then have q': "q < 1048576" using unat_u32(1) [of ar] by simp
  define o' where "o' = unat (x - ar)"
  have o': "o' < 4096" using x by (simp add: in_range_def o'_def)
  have "unat (ar + (x - ar)) = 4096 * q + o'"
    unfolding o'_def q [symmetric] using q q' o' by (intro unat_plus_noof) (simp add: o'_def)
  then have "unat x = 4096 * q + o'" by simp
  then show ?thesis using o' q by (simp add: word_unat_eq_iff PAGE_IDX_div)
qed

text \<open>No list node lies in a free kernel page, and the page map's buffer lies in no kernel page.\<close>

definition heap_apart :: "kstate \<Rightarrow> (addr \<rightharpoonup> addr list) \<Rightarrow> bool" where
  "heap_apart s L \<longleftrightarrow>
     (\<forall>x \<in> owned L. unat (PAGE_IDX x) \<notin> bits_of (kernel_map s) - kpages s) \<and>
     (\<forall>x. in_buffer (kernel_map s) x \<longrightarrow> unat (PAGE_IDX x) \<notin> bits_of (kernel_map s))"

lemma memset_page_map:
  assumes "kmap_ok s" "heap_apart s L" "ar = PAGE_ADDR (PAGE_IDX ar)" "unat (PAGE_IDX ar) \<in> bits_of (kernel_map s)"
    and "\<And>x. m' x \<noteq> m x \<Longrightarrow> in_range ar 4096 x"
  shows "used m' (kernel_map s) = used m (kernel_map s)"
proof (rule used_cong)
  show "bitmap_ok (kernel_map s)" using assms(1) by (simp add: kmap_ok_def)
  fix x assume "in_buffer (kernel_map s) x"
  with assms(2) have "unat (PAGE_IDX x) \<notin> bits_of (kernel_map s)" by (simp add: heap_apart_def)
  with assms(4) in_page [OF assms(3), of x] have "\<not> in_range ar 4096 x" by auto
  with assms(5) show "m' x = m x" by blast
qed

section \<open>Allocation from an empty free list\<close>

lemma refill_law:
  assumes i: "descriptors s ! i = d" "desc_ok d" and L: "klists (nodes s) L" "L (free_list d) = Some []"
    and ok: "kmap_ok s" "heap_apart s L" and room: "bits_of (kernel_map s) - kpages s \<noteq> {}"
  shows "\<exists>ar h m. refill i s = Some (put_arena ar \<lparr>ar_desc = Some i, ar_count = total_block d, ar_large = False,
      ar_magic = XOS_MAGIC\<rparr> (s\<lparr>kmem := m, nodes := h\<rparr>)) \<and> ar = PAGE_ADDR (PAGE_IDX ar) \<and>
    unat (PAGE_IDX ar) \<in> bits_of (kernel_map s) - kpages s \<and>
    used m (kernel_map s) = insert (unat (PAGE_IDX ar)) (kpages s) \<and>
    set (page_blocks d ar) \<inter> owned L = {} \<and> klists h (L(free_list d \<mapsto> page_blocks d ar))"
proof -
  have one: "(1 :: u32) \<noteq> 0" by simp
  from room obtain k where "k \<in> bits_of (kernel_map s) - kpages s" by blast
  then have "{k ..< k + unat (1 :: u32)} \<subseteq> bits_of (kernel_map s) - kpages s" by (auto simp: less_Suc_eq)
  then have "\<exists>k. {k ..< k + unat (1 :: u32)} \<subseteq> bits_of (kernel_map s) - kpages s" by blast
  with kalloc_page_law [OF ok(1) one] obtain ar m0 where
    a: "kalloc_page s 1 = Some (ar, s\<lparr>kmem := m0\<rparr>)" "page_run ar 1 \<subseteq> bits_of (kernel_map s) - kpages s"
      "ar = PAGE_ADDR (PAGE_IDX ar)" "used m0 (kernel_map s) = kpages s \<union> page_run ar 1" by auto
  have run: "page_run ar 1 = {unat (PAGE_IDX ar)}" by (auto simp: page_run_def)
  define m where "m = memset m0 ar 0 PAGE_SIZE"
  have "used m (kernel_map s) = used m0 (kernel_map s)"
    by (rule memset_page_map [OF ok a(3)]) (use a(2) run in \<open>auto simp: m_def memset_eq PAGE_SIZE_def split: if_splits\<close>)
  then have um: "used m (kernel_map s) = insert (unat (PAGE_IDX ar)) (kpages s)" using a(4) run by auto
  have fresh: "set (page_blocks d ar) \<inter> owned L = {}"
  proof -
    have "PAGE_IDX (block_at d ar k) = PAGE_IDX ar" if k: "k < unat (total_block d)" for k
    proof -
      have "16 + k * unat (block_size d) < 4096" using block_offset [OF i(2) k] i(2) by (simp add: desc_ok_def)
      moreover have "ar \<le> block_at d ar k" using block_unat [OF i(2) k a(3)] by (simp add: word_le_nat_alt)
      ultimately have "in_range ar 4096 (block_at d ar k)"
        using block_unat [OF i(2) k a(3)] by (simp add: in_range_def unat_minus_le)
      then show ?thesis by (rule in_page [OF a(3)])
    qed
    then have "unat (PAGE_IDX x) \<in> bits_of (kernel_map s) - kpages s" if "x \<in> set (page_blocks d ar)" for x
      using that a(2) run by (auto simp: page_blocks_def)
    then show ?thesis using ok(2) unfolding heap_apart_def by blast
  qed
  let ?s = "put_arena ar \<lparr>ar_desc = Some i, ar_count = total_block d, ar_large = False, ar_magic = XOS_MAGIC\<rparr>
     (s\<lparr>kmem := m\<rparr>)"
  have "nodes ?s = nodes s" by (simp add: put_arena_def)
  with push_blocks_law [of ?s L d ar "unat (total_block d)"] L i(2) a(3) fresh obtain h where
    h: "push_blocks d ar (unat (total_block d)) ?s = Some (?s\<lparr>nodes := h\<rparr>)"
      "klists h (L(free_list d \<mapsto> page_blocks d ar))" by (auto simp: page_blocks_def)
  have "refill i s = push_blocks d ar (unat (total_block d)) ?s"
    using a(1) by (simp add: refill_def i(1) push_blocks_def m_def)
  also have "\<dots> = Some (put_arena ar \<lparr>ar_desc = Some i, ar_count = total_block d, ar_large = False,
      ar_magic = XOS_MAGIC\<rparr> (s\<lparr>kmem := m, nodes := h\<rparr>))"
    using h(1) by (simp add: put_arena_def)
  finally show ?thesis using a(2,3) run um fresh h(2) by blast
qed

lemma put_arena_simps [simp]:
  "nodes (put_arena a r s) = nodes s" "kmem (put_arena a r s) = kmem s" "bitmaps (put_arena a r s) = bitmaps s"
  "kmm (put_arena a r s) = kmm s" "descriptors (put_arena a r s) = descriptors s"
  "arenas (put_arena a r s) = (arenas s)(a := r)" "kernel_map (put_arena a r s) = kernel_map s"
  by (simp_all add: put_arena_def kernel_map_def)

lemma find_desc_fits:
  "sz \<le> block_size (ds ! (length ds - 1)) \<Longrightarrow> ds \<noteq> [] \<Longrightarrow>
     i \<le> find_desc ds i sz \<and> find_desc ds i sz < i + length ds \<and> sz \<le> block_size (ds ! (find_desc ds i sz - i))"
proof (induction ds arbitrary: i)
  case (Cons d ds)
  show ?case
  proof (cases "sz \<le> block_size d")
    case False
    then have "ds \<noteq> []" using Cons.prems by auto
    moreover from this have "sz \<le> block_size (ds ! (length ds - 1))" using Cons.prems by (simp add: nth_Cons')
    ultimately have "Suc i \<le> find_desc ds (Suc i) sz \<and> find_desc ds (Suc i) sz < Suc i + length ds \<and>
       sz \<le> block_size (ds ! (find_desc ds (Suc i) sz - Suc i))" using Cons.IH [of "Suc i"] by blast
    moreover from this have "find_desc ds (Suc i) sz - i = Suc (find_desc ds (Suc i) sz - Suc i)" by (elim conjE) arith
    ultimately show ?thesis using False by simp
  qed simp
qed simp

section \<open>Properties\<close>

text \<open>The first block of a new page, when the free list of its size is empty.\<close>

lemma kmalloc_refills:
  assumes i: "i = find_desc (descriptors s) 0 sz" "descriptors s ! i = d"
    and sz: "sz \<le> block_size (descriptors s ! (ARENA_DESC_COUNT - 1))" and d: "desc_ok d"
    and L: "klists (nodes s) L" "L (free_list d) = Some []"
    and ok: "kmap_ok s" "heap_apart s L" and room: "bits_of (kernel_map s) - kpages s \<noteq> {}"
  shows "\<exists>ar p ps m h. kmalloc s sz = Some (p, put_arena ar \<lparr>ar_desc = Some i, ar_count = total_block d - 1, ar_large = False,
      ar_magic = XOS_MAGIC\<rparr> (s\<lparr>kmem := m, nodes := h\<rparr>)) \<and>
    ar = PAGE_ADDR (PAGE_IDX ar) \<and> unat (PAGE_IDX ar) \<in> bits_of (kernel_map s) - kpages s \<and> page_blocks d ar = p # ps \<and>
    set (page_blocks d ar) \<inter> owned L = {} \<and> (\<forall>x. in_range p (unat (block_size d)) x \<longrightarrow> m x = 0) \<and>
    used m (kernel_map s) = insert (unat (PAGE_IDX ar)) (kpages s) \<and> klists h (L(free_list d \<mapsto> ps))"
proof -
  from refill_law [OF i(2) d L ok room] obtain ar h m where
    r: "refill i s = Some (put_arena ar \<lparr>ar_desc = Some i, ar_count = total_block d, ar_large = False,
      ar_magic = XOS_MAGIC\<rparr> (s\<lparr>kmem := m, nodes := h\<rparr>))" and
    ar: "ar = PAGE_ADDR (PAGE_IDX ar)" and pg: "unat (PAGE_IDX ar) \<in> bits_of (kernel_map s) - kpages s" and
    um: "used m (kernel_map s) = insert (unat (PAGE_IDX ar)) (kpages s)" and
    fresh: "set (page_blocks d ar) \<inter> owned L = {}" and h: "klists h (L(free_list d \<mapsto> page_blocks d ar))" by auto
  obtain p ps where ps: "page_blocks d ar = p # ps" using page_blocks_distinct(3) [OF d ar] by (cases "page_blocks d ar") auto
  have n0: "0 < unat (total_block d)" using d by (simp add: desc_ok_def)
  have p: "p = block_at d ar 0" using ps n0 by (cases "[0 ..< unat (total_block d)]") (auto simp: page_blocks_def upt_eq_Cons_conv)
  have "klists h (L(free_list d \<mapsto> p # ps))" using h ps by simp
  from klist.pop_front [OF this fun_upd_same] obtain h1 where
    h1: "list_pop_front h (free_list d) = Some (p, h1)" "klists h1 (L(free_list d \<mapsto> ps))"
    unfolding fun_upd_upd by blast
  have mask: "get_arena_from_block p = ar" using block_arena [OF d n0 ar] by (simp add: p)
  have e: "list_empty (nodes s) (free_list d) = Some True" using list_empty_dlist [OF klistsD [OF L]] by simp
  let ?m = "memset m p 0 (block_size d)"
  have "kmalloc s sz = Some (p, put_arena ar \<lparr>ar_desc = Some i, ar_count = total_block d - 1, ar_large = False,
      ar_magic = XOS_MAGIC\<rparr> (s\<lparr>kmem := ?m, nodes := h1\<rparr>))"
    using sz e r h1(1)
    by (simp add: kmalloc_def Let_def i(1) [symmetric] i(2) mask not_less [symmetric]) (simp add: put_arena_def)
  moreover have "in_range ar 4096 x" if "in_range p (unat (block_size d)) x" for x
  proof -
    have "unat (x - p) + 16 < 4096" using that d n0 block_offset [OF d n0] by (simp add: in_range_def)
    then have "unat ((x - p) + 16) < 4096" by (subst unat_plus_noof) simp_all
    moreover have "x - ar = (x - p) + 16" by (simp add: p block_at_def)
    ultimately show ?thesis by (simp only: in_range_def)
  qed
  then have "used ?m (kernel_map s) = used m (kernel_map s)"
    by (intro memset_page_map [OF ok ar]) (use pg in \<open>auto simp: memset_eq split: if_splits\<close>)
  ultimately show ?thesis
    using ar pg ps fresh um h1(2)
    by (intro exI [of _ ar] exI [of _ p] exI [of _ ps] exI [of _ ?m] exI [of _ h1]) (simp add: memset_eq)
qed

text \<open>The last block in use is given back, and with it the page.\<close>

lemma kfree_returns_page:
  assumes a: "arenas s ar = \<lparr>ar_desc = Some i, ar_count = total_block d - 1, ar_large = False, ar_magic = XOS_MAGIC\<rparr>"
    and i: "descriptors s ! i = d" and d: "desc_ok d" and ar: "ar = PAGE_ADDR (PAGE_IDX ar)" and ps: "page_blocks d ar = p # ps"
    and L: "klists (nodes s) (L(free_list d \<mapsto> ps))" "L (free_list d) = Some []" and fresh: "set (page_blocks d ar) \<inter> owned L = {}"
    and ok: "kmap_ok s" "unat (PAGE_IDX ar) \<in> kpages s"
  shows "\<exists>s'. kfree s p = Some s' \<and> klists (nodes s') L \<and> kpages s' = kpages s - {unat (PAGE_IDX ar)}"
proof -
  note pb = page_blocks_distinct [OF d ar]
  have n0: "0 < unat (total_block d)" using d by (simp add: desc_ok_def)
  have p: "p = block_at d ar 0" using ps n0 by (cases "[0 ..< unat (total_block d)]") (auto simp: page_blocks_def upt_eq_Cons_conv)
  have mask: "get_arena_from_block p = ar" using block_arena [OF d n0 ar] by (simp add: p)
  have pno: "p \<notin> owned (L(free_list d \<mapsto> ps))"
    using in_owned_from_empty [of L "free_list d"] L(2) fresh pb(1) by (auto simp: ps)
  have p0: "p \<noteq> 0" using pb(2) by (auto simp: ps)
  from klist.push_back [OF L(1) fun_upd_same pno p0] obtain h2 where
    h2: "list_push_back (nodes s) (free_list d) p = Some h2" "klists h2 (L(free_list d \<mapsto> ps @ [p]))"
    unfolding fun_upd_upd by blast
  define s2 where "s2 = put_arena ar \<lparr>ar_desc = Some i, ar_count = total_block d, ar_large = False,
      ar_magic = XOS_MAGIC\<rparr> (s\<lparr>nodes := h2\<rparr>)"
  have "nodes s2 = h2" by (simp add: s2_def)
  with unlist_blocks_law [of s2 "L(free_list d \<mapsto> ps @ [p])" d "ps @ [p]" ar "unat (total_block d)"] h2(2) d ar pb(1)
  obtain h3 where h3: "unlist_blocks d ar (unat (total_block d)) s2 = Some (s2\<lparr>nodes := h3\<rparr>)"
    "klists h3 (L(free_list d \<mapsto> filter (\<lambda>x. x \<notin> set (page_blocks d ar)) (ps @ [p])))"
    by (auto simp: ps page_blocks_def [symmetric])
  have "filter (\<lambda>x. x \<notin> set (page_blocks d ar)) (ps @ [p]) = []" by (simp add: ps filter_empty_conv)
  then have h3': "klists h3 L" using h3(2) L(2) by (simp add: map_upd_triv)
  let ?s3 = "s2\<lparr>nodes := h3\<rparr>"
  have k3: "kernel_map ?s3 = kernel_map s" by (simp add: s2_def) (simp add: kernel_map_def)
  have "kmem ?s3 = kmem s" by (simp add: s2_def)
  then have kp3: "kpages ?s3 = kpages s" by (simp add: kpages_def k3)
  have "kmap_ok ?s3" using ok(1) by (simp add: kmap_ok_def k3)
  moreover have "page_run ar 1 \<subseteq> kpages ?s3" using ok(2) kp3 by (auto simp: page_run_def)
  ultimately obtain m4 where m4: "kfree_page ?s3 ar 1 = Some (?s3\<lparr>kmem := m4\<rparr>)"
    "used m4 (kernel_map s) = kpages ?s3 - page_run ar 1"
    using kfree_page_law [of ?s3 1 ar] by (auto simp: k3)
  have "kfree s p = Some (?s3\<lparr>kmem := m4\<rparr>)"
    using p0 h2(1) h3(1) m4(1) a i by (simp add: kfree_def Let_def mask s2_def)
  moreover have "kpages (?s3\<lparr>kmem := m4\<rparr>) = kpages s - {unat (PAGE_IDX ar)}"
    using m4(2) kp3 k3 by (simp add: kpages_def kernel_map_def page_run_def)
  ultimately show ?thesis using h3' by simp
qed

text \<open>
  Property C9. A request for \<open>sz\<close> bytes, at most the largest block size, when no block of the
  matching size is free: \<^verbatim>\<open>kmalloc\<close> takes one kernel page, returns a zeroed block of at least
  \<open>sz\<close> bytes and leaves the page's other blocks on the free list; \<^verbatim>\<open>kfree\<close> of that block then
  takes all of them off again and gives the page back, so that the lists and the set of used
  kernel pages are what they were.
\<close>

theorem kmalloc_kfree_restores:
  assumes "length (descriptors s) = ARENA_DESC_COUNT" and "sz \<le> block_size (descriptors s ! (ARENA_DESC_COUNT - 1))"
    and d: "d = descriptors s ! find_desc (descriptors s) 0 sz" "desc_ok d"
    and L: "klists (nodes s) L" "L (free_list d) = Some []"
    and ok: "kmap_ok s" "heap_apart s L" and room: "bits_of (kernel_map s) - kpages s \<noteq> {}"
  shows "\<exists>ar p s1 s2. kmalloc s sz = Some (p, s1) \<and> p = hd (page_blocks d ar) \<and> sz \<le> block_size d \<and>
    (\<forall>x. in_range p (unat (block_size d)) x \<longrightarrow> kmem s1 x = 0) \<and>
    klists (nodes s1) (L(free_list d \<mapsto> tl (page_blocks d ar))) \<and>
    kpages s1 = insert (unat (PAGE_IDX ar)) (kpages s) \<and> unat (PAGE_IDX ar) \<notin> kpages s \<and>
    kfree s1 p = Some s2 \<and> klists (nodes s2) L \<and> kpages s2 = kpages s"
proof -
  define i where "i = find_desc (descriptors s) 0 sz"
  have i: "descriptors s ! i = d" by (simp add: d(1) i_def)
  have "descriptors s \<noteq> []" using assms(1) by (auto simp: ARENA_DESC_COUNT_def)
  then have fits: "sz \<le> block_size d" using find_desc_fits [of sz "descriptors s" 0] assms(1,2) by (simp add: d(1))
  from kmalloc_refills [OF i_def i assms(2) d(2) L ok room] obtain ar p ps m h where
    k: "kmalloc s sz = Some (p, put_arena ar \<lparr>ar_desc = Some i, ar_count = total_block d - 1, ar_large = False,
      ar_magic = XOS_MAGIC\<rparr> (s\<lparr>kmem := m, nodes := h\<rparr>))"
      "ar = PAGE_ADDR (PAGE_IDX ar)" "unat (PAGE_IDX ar) \<in> bits_of (kernel_map s) - kpages s" "page_blocks d ar = p # ps"
      "set (page_blocks d ar) \<inter> owned L = {}" "\<forall>x. in_range p (unat (block_size d)) x \<longrightarrow> m x = 0"
      "used m (kernel_map s) = insert (unat (PAGE_IDX ar)) (kpages s)" "klists h (L(free_list d \<mapsto> ps))" by auto
  define s1 where "s1 = put_arena ar \<lparr>ar_desc = Some i, ar_count = total_block d - 1, ar_large = False,
      ar_magic = XOS_MAGIC\<rparr> (s\<lparr>kmem := m, nodes := h\<rparr>)"
  have s1: "arenas s1 ar = \<lparr>ar_desc = Some i, ar_count = total_block d - 1, ar_large = False, ar_magic = XOS_MAGIC\<rparr>"
    "descriptors s1 ! i = d" "nodes s1 = h" "kmem s1 = m" by (simp_all add: s1_def i)
  have m1: "kernel_map s1 = kernel_map s" by (simp add: s1_def) (simp add: kernel_map_def)
  then have kp1: "kpages s1 = insert (unat (PAGE_IDX ar)) (kpages s)" "kmap_ok s1"
    using k(7) ok(1) by (simp_all add: kpages_def s1(4) kmap_ok_def)
  from kfree_returns_page [OF s1(1,2) d(2) k(2,4) _ L(2) k(5) kp1(2)] kp1(1) k(8) s1(3) obtain s2 where
    "kfree s1 p = Some s2" "klists (nodes s2) L" "kpages s2 = kpages s1 - {unat (PAGE_IDX ar)}" by auto
  then show ?thesis
    using k fits kp1 s1(3,4) by (intro exI [of _ ar] exI [of _ p] exI [of _ s1] exI [of _ s2]) (auto simp: s1_def [symmetric])
qed

text \<open>The heap after \<^verbatim>\<open>arena_init\<close>, with the list of 16-byte blocks empty and 128 kernel pages free.\<close>

definition sample_arena :: kstate where
  "sample_arena = boot_state\<lparr>
     descriptors := map (\<lambda>i. \<lparr>total_block = 4080 div (16 * 2 ^ i), block_size = 16 * 2 ^ i,
       free_list = 0x50008 + 24 * of_nat i\<rparr>) [0 ..< 7],
     nodes := (\<lambda>_. \<lparr>nprev = 0, nnext = 0\<rparr>)
       (0x50008 := \<lparr>nprev = 0, nnext = 0x50010\<rparr>, 0x50010 := \<lparr>nprev = 0x50008, nnext = 0\<rparr>),
     bitmaps := (\<lambda>_. bitmap_new 0x6000 16 258)\<rparr>"

theorem kmalloc_kfree_restores_witness:
  "\<exists>p s1 s2. kmalloc sample_arena 10 = Some (p, s1) \<and> kfree s1 p = Some s2 \<and> kpages s2 = {} \<and>
     klists (nodes s2) [0x50008 \<mapsto> []]"
proof -
  let ?s = sample_arena and ?L = "[0x50008 \<mapsto> []] :: addr \<rightharpoonup> addr list"
  have ds: "descriptors ?s = \<lparr>total_block = 255, block_size = 16, free_list = 0x50008\<rparr> #
      map (\<lambda>i. \<lparr>total_block = 4080 div (16 * 2 ^ i), block_size = 16 * 2 ^ i, free_list = 0x50008 + 24 * of_nat i\<rparr>) [1 ..< 7]"
    by (simp add: sample_arena_def upt_rec)
  have last: "block_size (descriptors ?s ! (ARENA_DESC_COUNT - 1)) = 1024"
    by (simp add: sample_arena_def ARENA_DESC_COUNT_def)
  have len: "length (descriptors ?s) = ARENA_DESC_COUNT" by (simp add: sample_arena_def ARENA_DESC_COUNT_def)
  define d where "d = descriptors ?s ! find_desc (descriptors ?s) 0 10"
  have d: "d = \<lparr>total_block = 255, block_size = 16, free_list = 0x50008\<rparr>" by (simp add: d_def ds)
  have km: "kernel_map ?s = bitmap_new 0x6000 16 258" by (simp add: kernel_map_def sample_arena_def)
  have bits: "bits_of (kernel_map ?s) = {258 ..< 386}" by (simp add: km bits_of_def bitmap_new_def)
  have kp: "kpages ?s = {}" by (simp add: kpages_def sample_arena_def boot_state_def sample_used)
  have L: "klists (nodes ?s) ?L"
    by (simp add: klists_def dlist_def list_nodes_def list_head_def list_tail_def sample_arena_def)
  have own: "owned ?L = {0x50008, 0x50010}" by (auto simp: owned_def list_nodes_def list_head_def list_tail_def)
  have ok: "kmap_ok ?s" by (simp add: kmap_ok_def bits) (auto simp: km bitmap_new_ok)
  have apart: "heap_apart ?s ?L"
    unfolding heap_apart_def
  proof (intro conjI ballI allI impI)
    fix x assume "x \<in> owned ?L"
    then show "unat (PAGE_IDX x) \<notin> bits_of (kernel_map ?s) - kpages ?s"
      by (auto simp: own bits PAGE_IDX_div)
  next
    fix x assume "in_buffer (kernel_map ?s) x"
    then have "unat (x - 0x6000) < 16" by (simp add: in_buffer_def in_range_def km bitmap_new_def)
    then have "unat ((x - 0x6000) + 0x6000) < 32768" by (subst unat_plus_noof) simp_all
    then have "unat x < 32768" by simp
    then have "unat x div 4096 < 8" by (simp add: less_mult_imp_div_less)
    then show "unat (PAGE_IDX x) \<notin> bits_of (kernel_map ?s)" by (simp add: bits PAGE_IDX_div)
  qed
  have dok: "desc_ok d" by (simp add: d desc_ok_def)
  have fl: "?L (free_list d) = Some []" by (simp add: d)
  have "(10 :: u32) \<le> block_size (descriptors ?s ! (ARENA_DESC_COUNT - 1))" unfolding last by simp
  moreover have "bits_of (kernel_map ?s) - kpages ?s \<noteq> {}" by (simp add: bits kp)
  ultimately show ?thesis
    using kmalloc_kfree_restores [OF len _ d_def dok L fl ok apart] kp by auto
qed

end
