(* ===== verification/Fork.thy ===== *)
theory Fork
  imports Paging Arena
begin

text \<open>
  What \<^verbatim>\<open>copy_pgdir\<close> of \<^verbatim>\<open>kernel/memory.c\<close> makes of an address space when a task forks: a second one with the same pages, all of them
  read-only in both. With the page fault handler of \<open>Paging\<close> a write then goes to a private copy.
\<close>

section \<open>One table\<close>

text \<open>Only physical memory and the bytes of the kernel's memory, with the frame counters, have changed.\<close>

definition same_rest :: "kstate \<Rightarrow> kstate \<Rightarrow> bool" where
  "same_rest s s' \<longleftrightarrow> s'\<lparr>pmem := pmem s, kmem := kmem s\<rparr> = s"

lemma same_rest_refl: "same_rest s s" by (simp add: same_rest_def)

lemma same_rest_set: "same_rest s s' \<Longrightarrow> same_rest s (set_mmap s' g v)" "same_rest s s' \<Longrightarrow> same_rest s (set_pte s' d t w)"
  by (auto simp: same_rest_def set_mmap_def set_pte_def)

text \<open>Of the bytes of the kernel only frame counters have changed, and the allocators' tables are where they were.\<close>

definition only_counters :: "kstate \<Rightarrow> kstate \<Rightarrow> bool" where
  "only_counters s s' \<longleftrightarrow> bitmaps s' = bitmaps s \<and> kmm s' = kmm s \<and> memory_map (mm s') = memory_map (mm s) \<and> managed s' = managed s \<and>
     (\<forall>a. (\<forall>i. unat i < 2 ^ 20 \<longrightarrow> a \<noteq> memory_map (mm s) + i) \<longrightarrow> kmem s' a = kmem s a)"

lemma only_counters_refl: "only_counters s s" by (simp add: only_counters_def)

lemma only_counters_trans: "only_counters s s' \<Longrightarrow> only_counters s' s'' \<Longrightarrow> only_counters s s''"
  by (simp add: only_counters_def)

lemma only_counters_set:
  "only_counters s s' \<Longrightarrow> unat g < 2 ^ 20 \<Longrightarrow> only_counters s (set_mmap s' g v)"
  "only_counters s s' \<Longrightarrow> only_counters s (set_pte s' d t w)" "only_counters s s' \<Longrightarrow> only_counters s (s'\<lparr>pmem := p\<rparr>)"
  by (auto simp: only_counters_def set_mmap_def set_pte_def managed_def)

text \<open>\<open>s'\<close> is \<open>s\<close> after the first \<open>k\<close> entries of table \<open>d\<close> have been shared.\<close>

definition shared_upto :: "kstate \<Rightarrow> u32 \<Rightarrow> nat \<Rightarrow> kstate \<Rightarrow> bool" where
  "shared_upto s d k s' \<longleftrightarrow> same_rest s s' \<and> only_counters s s' \<and> as_ok s' \<and> mm_ok s' \<and> free_frames s' = free_frames s \<and>
     (\<forall>d' < 1024. pde s' d' = pde s d') \<and>
     (\<forall>h. \<forall>i < 1024. unat h < 2 ^ 20 \<longrightarrow> h \<noteq> e_index (pde s d) \<longrightarrow> pmem s' (word_of_frame h i) = pmem s (word_of_frame h i)) \<and>
     (\<forall>t < 1024. pte s' d t = (if unat t < k \<and> e_present (pte s d t) then set_write (pte s d t) False else pte s d t)) \<and>
     (\<forall>g. mmap_at s' g = mmap_at s g + (if \<exists>t < 1024. unat t < k \<and> mapped s d t = Some g then 1 else 0))"

text \<open>What the entries of a table must be like: frames in use, each once, with room in their counters.\<close>

definition table_ok :: "kstate \<Rightarrow> u32 \<Rightarrow> bool" where
  "table_ok s d \<longleftrightarrow> (\<forall>t < 1024. \<forall>g. mapped s d t = Some g \<longrightarrow> 0 < mmap_at s g \<and> mmap_at s g < 254 \<and>
     (\<forall>t' < 1024. mapped s d t' = Some g \<longrightarrow> t' = t))"

lemma used_not_free: "0 < mmap_at s g \<Longrightarrow> unat g \<notin> free_frames s"
  by (auto simp: free_frames_def frefs_def unat_eq_zero word_gt_0)

lemma counter_up:
  assumes "c < (254 :: u8)"
  shows "c + 1 < 255" "c + 1 \<noteq> 0"
proof -
  have "unat c < 254" using assms by (simp add: word_less_nat_alt)
  then have "unat (c + 1) = unat c + 1" by (simp add: unat_word_ariths)
  then show "c + 1 < 255" "c + 1 \<noteq> 0" using \<open>unat c < 254\<close> by (auto simp: word_less_nat_alt word_unat_eq_iff)
qed

lemma less_Suc_index:
  assumes "unat (of_nat k :: u32) = k"
  shows "unat t < Suc k \<longleftrightarrow> unat t < k \<or> t = (of_nat k :: u32)"
  using assms by (metis less_Suc_eq word_unat_eq_iff)

lemma share_entry:
  assumes sh: "shared_upto s d k s1" and ok: "table_ok s d" and d: "d < 1023" "e_present (pde s d)" and k: "k < 1024"
  defines "i \<equiv> of_nat k :: u32"
  defines "e \<equiv> pte s d i"
  shows "vload s1 (window d i) = Some e" and "\<not> e_present e \<Longrightarrow> shared_upto s d (Suc k) s1"
    and "e_present e \<Longrightarrow> 0 < mmap_at s1 (e_index e) \<and> mmap_at s1 (e_index e) + 1 < 255 \<and>
      (\<exists>s2. vstore (set_mmap s1 (e_index e) (mmap_at s1 (e_index e) + 1)) (window d i) (set_write e False) = Some s2 \<and>
        mmap_at s2 (e_index e) = mmap_at s1 (e_index e) + 1 \<and> shared_upto s d (Suc k) s2)"
proof -
  have lt: "d < 1024" using d(1) by (rule order_less_trans) simp
  have i: "i < 1024" "unat i = k" using k by (simp_all add: i_def word_less_nat_alt unat_of_nat)
  note su = less_Suc_index [OF i(2) [unfolded i_def], folded i_def]
  have oc: "only_counters s s1" using sh unfolding shared_upto_def by blast
  have s1: "same_rest s s1" "as_ok s1" "mm_ok s1" "free_frames s1 = free_frames s"
    "\<And>d'. d' < 1024 \<Longrightarrow> pde s1 d' = pde s d'"
    "\<And>h j. j < 1024 \<Longrightarrow> unat h < 2 ^ 20 \<Longrightarrow> h \<noteq> e_index (pde s d) \<Longrightarrow> pmem s1 (word_of_frame h j) = pmem s (word_of_frame h j)"
    "\<And>t. t < 1024 \<Longrightarrow> pte s1 d t = (if unat t < k \<and> e_present (pte s d t) then set_write (pte s d t) False else pte s d t)"
    "\<And>g. mmap_at s1 g = mmap_at s g + (if \<exists>t < 1024. unat t < k \<and> mapped s d t = Some g then 1 else 0)"
    using sh unfolding shared_upto_def by blast+
  have pd: "e_present (pde s1 d)" using d(2) lt s1(5) by simp
  have p1: "pte s1 d i = e" using s1(7) [OF i(1)] i(2) by (simp add: e_def)
  then show ld: "vload s1 (window d i) = Some e" using vload_window [OF s1(2) lt i(1)] pd by simp
  show "shared_upto s d (Suc k) s1" if np: "\<not> e_present e"
  proof -
    have "pte s1 d t = (if unat t < Suc k \<and> e_present (pte s d t) then set_write (pte s d t) False else pte s d t)" if "t < 1024" for t
      using s1(7) [OF that] np su [of t] by (auto simp: e_def)
    moreover have "mapped s d i = None" using np by (simp add: mapped_def e_def)
    then have "(\<exists>t < 1024. unat t < Suc k \<and> mapped s d t = Some g) \<longleftrightarrow> (\<exists>t < 1024. unat t < k \<and> mapped s d t = Some g)" for g
      using su by force
    ultimately show ?thesis using s1(1-6,8) oc unfolding shared_upto_def by presburger
  qed
  show "0 < mmap_at s1 (e_index e) \<and> mmap_at s1 (e_index e) + 1 < 255 \<and>
      (\<exists>s2. vstore (set_mmap s1 (e_index e) (mmap_at s1 (e_index e) + 1)) (window d i) (set_write e False) = Some s2 \<and>
        mmap_at s2 (e_index e) = mmap_at s1 (e_index e) + 1 \<and> shared_upto s d (Suc k) s2)" if pe: "e_present e"
  proof -
    let ?g = "e_index e"
    have m: "mapped s d i = Some ?g" using pe d(2) by (simp add: mapped_def e_def)
    have g: "0 < mmap_at s ?g" "mmap_at s ?g < 254" "\<And>t'. t' < 1024 \<Longrightarrow> mapped s d t' = Some ?g \<Longrightarrow> t' = i"
      using ok m i(1) unfolding table_ok_def by blast+
    have "\<not> (\<exists>t < 1024. unat t < k \<and> mapped s d t = Some ?g)" using g(3) i(2) by blast
    then have c1: "mmap_at s1 ?g = mmap_at s ?g" using s1(8) [of ?g] by simp
    have g1: "mmap_at s ?g + 1 < 255" "mmap_at s ?g + 1 \<noteq> 0" using counter_up [OF g(2)] by simp_all
    define s' where "s' = set_mmap s1 ?g (mmap_at s ?g + 1)"
    have nf: "unat ?g \<notin> free_frames s1" using used_not_free [OF g(1)] s1(4) by simp
    have mm': "mm_ok s'" "free_frames s' = free_frames s"
      using mm_ok_still_used [OF s1(3) nf g1(2)] s1(4) by (simp_all add: s'_def)
    have sp': "as_ok s'" "pde s' = pde s1" "pte s' = pte s1" using s1(2) by (simp_all add: s'_def)
    define s2 where "s2 = set_pte s' d i (set_write e False)"
    have st: "vstore s' (window d i) (set_write e False) = Some s2"
      using vstore_window [OF sp'(1) lt i(1)] pd sp' by (simp add: s2_def set_pte_def)
    have pd': "e_present (pde s' d)" using pd sp' by simp
    have "shared_upto s d (Suc k) s2"
      unfolding shared_upto_def
    proof (intro conjI allI impI)
      show "same_rest s s2" unfolding s2_def s'_def by (intro same_rest_set s1(1))
      show "only_counters s s2" unfolding s2_def s'_def by (intro only_counters_set oc mapped_small [OF m])
      show "as_ok s2" "mm_ok s2" "free_frames s2 = free_frames s"
        using as_ok_set_pte [OF sp'(1) d(1) pd' i(1)] mm' by (simp_all add: s2_def)
      fix d' :: u32 assume d': "d' < 1024"
      show "pde s2 d' = pde s d'" using pde_set_pte [OF sp'(1) d(1) pd' i(1) d'] sp' s1(5) [OF d'] by (simp add: s2_def)
    next
      fix h j :: u32 assume h: "j < 1024" "unat h < 2 ^ 20" "h \<noteq> e_index (pde s d)"
      have "pmem s2 (word_of_frame h j) = pmem s' (word_of_frame h j)"
        unfolding s2_def by (rule set_pte_frame) (use h i(1) sp' s1(5) [OF lt] in auto)
      then show "pmem s2 (word_of_frame h j) = pmem s (word_of_frame h j)"
        using s1(6) [OF h] by (simp add: s'_def set_mmap_def)
    next
      fix t :: u32 assume t: "t < 1024"
      show "pte s2 d t = (if unat t < Suc k \<and> e_present (pte s d t) then set_write (pte s d t) False else pte s d t)"
        using pte_set_pte [OF sp'(1) d(1) pd' i(1) lt pd' t] s1(7) [OF t] su [of t] pe by (auto simp: s2_def sp' e_def)
    next
      fix g
      have "(\<exists>t < 1024. unat t < Suc k \<and> mapped s d t = Some g) \<longleftrightarrow> (\<exists>t < 1024. unat t < k \<and> mapped s d t = Some g) \<or> g = ?g"
        using su m i(1) by fastforce
      then show "mmap_at s2 g = mmap_at s g + (if \<exists>t < 1024. unat t < Suc k \<and> mapped s d t = Some g then 1 else 0)"
        using s1(8) [of g] by (simp add: s2_def s'_def)
    qed
    then show ?thesis using g(1) g1 c1 st by (simp add: s'_def) (simp add: s2_def s'_def)
  qed
qed

lemma share_table_law:
  assumes ok: "as_ok s" "mm_ok s" "table_ok s d" and d: "d < 1023" "e_present (pde s d)"
  shows "\<exists>s'. share_table (PDE_RECUR_MASK OR push_bit 12 d) s = Some s' \<and> shared_upto s d 1024 s'"
proof -
  let ?f = "\<lambda>n s. do {
     let ea = (PDE_RECUR_MASK OR push_bit 12 d) + 4 * of_nat n;
     pte \<leftarrow> vload s ea;
     if \<not> e_present pte then Some s
     else do {
       assert_c (mmap_at s (e_index pte) > 0);
       let s = set_mmap s (e_index pte) (mmap_at s (e_index pte) + 1);
       s \<leftarrow> vstore s ea (set_write pte False);
       assert_c (mmap_at s (e_index pte) < 255);
       Some s } }"
  have "\<exists>s'. forM [0 ..< k] ?f s = Some s' \<and> shared_upto s d k s'" if "k \<le> 1024" for k
    using that
  proof (induction k)
    case 0
    then show ?case using ok by (simp add: shared_upto_def same_rest_refl only_counters_refl)
  next
    case (Suc k)
    then obtain s1 where s1: "forM [0 ..< k] ?f s = Some s1" "shared_upto s d k s1" by auto
    have k: "k < 1024" using Suc.prems by simp
    note e = share_entry [OF s1(2) ok(3) d k]
    show ?case
    proof (cases "e_present (pte s d (of_nat k))")
      case True
      with e(3) show ?thesis using s1(1) e(1) by (auto simp: forM_append window_entry Let_def)
    next
      case False
      with e(2) show ?thesis using s1 e(1) by (auto simp: forM_append window_entry Let_def)
    qed
  qed
  from this [of 1024] show ?thesis by (simp add: share_table_def)
qed

section \<open>A table and its copy\<close>

definition read_only :: "u32 \<Rightarrow> u32" where
  "read_only e = (if e_present e then set_write e False else e)"

lemma read_only_bits [simp]: "e_present (read_only e) = e_present e" "e_index (read_only e) = e_index e"
  "e_present e \<Longrightarrow> \<not> e_write (read_only e)"
  by (simp_all add: read_only_def)

lemma set_index_bits [simp]: "e_present (set_index e f) = e_present e" "unat f < 2 ^ 20 \<Longrightarrow> e_index (set_index e f) = f"
proof -
  have m: "(0xfff :: u32) = mask 12" by (simp add: mask_eq_exp_minus_1)
  show "e_present (set_index e f) = e_present e"
    by (simp add: e_present_def set_index_def m bit_or_iff bit_and_iff bit_mask_iff bit_push_bit_iff)
  assume "unat f < 2 ^ 20"
  then have "f = take_bit 20 f" by (simp add: word_unat_eq_iff take_bit_eq_mod unat_mod)
  then have hi: "n < 20" if "bit f n" for n using that by (metis bit_take_bit_iff)
  show "e_index (set_index e f) = f"
    by (rule bit_word_eqI)
      (auto simp: e_index_def set_index_def m bit_drop_bit_eq bit_or_iff bit_and_iff bit_mask_iff bit_push_bit_iff dest: hi)
qed

lemma same_restD:
  assumes "same_rest s s'"
  shows "tcbs s' = tcbs s" "current s' = current s" "cr3 s' = cr3 s" "mm s' = mm s" "bitmaps s' = bitmaps s" "kmm s' = kmm s"
  by (subst assms [unfolded same_rest_def, symmetric], simp)+

text \<open>One round of the loop of \<open>copy_pgdir\<close> for a present table \<open>d\<close>; \<open>D\<close> is the frame of the new directory.\<close>

definition fork_table :: "u32 \<Rightarrow> u32 \<Rightarrow> kstate \<Rightarrow> kstate option" where
  "fork_table D d s = do {
     let page_tbl = PDE_RECUR_MASK OR push_bit 12 d;
     s \<leftarrow> share_table page_tbl s;
     (paddr, s) \<leftarrow> copy_page s page_tbl;
     Some (s\<lparr>pmem := (pmem s)(word_of_frame D d := set_index (pmem s (word_of_frame D d)) (PAGE_IDX paddr))\<rparr>) }"

lemma fork_table_law:
  assumes ok: "as_ok s" "mm_ok s" "tables_live s" "table_ok s d" and d: "d \<noteq> 0" "d < 1023" "e_present (pde s d)"
    and room: "0 < free_pages (mm s)" "e_present (pde s 0)" "mapped s 0 0 = None"
    and D: "data_frame s D" "unat D \<notin> free_frames s"
  shows "\<exists>c s'. fork_table D d s = Some s' \<and> unat c \<in> free_frames s \<and> as_ok s' \<and> mm_ok s' \<and>
    free_frames s' = free_frames s - {unat c} \<and> unat (free_pages (mm s')) + 1 = unat (free_pages (mm s)) \<and>
    cr3 s' = cr3 s \<and> tcbs s' = tcbs s \<and> current s' = current s \<and> (\<forall>d' < 1024. pde s' d' = pde s d') \<and>
    (\<forall>d' < 1024. \<forall>t < 1024. mapped s' d' t = mapped s d' t) \<and> (\<forall>t < 1024. pte s' d t = read_only (pte s d t)) \<and>
    (\<forall>h. \<forall>i < 1024. unat h < 2 ^ 20 \<longrightarrow> h \<noteq> c \<longrightarrow> h \<noteq> e_index (pde s 0) \<longrightarrow> h \<noteq> e_index (pde s d) \<longrightarrow> (h, i) \<noteq> (D, d) \<longrightarrow>
       pmem s' (word_of_frame h i) = pmem s (word_of_frame h i)) \<and>
    pmem s' (word_of_frame D d) = set_index (pmem s (word_of_frame D d)) c \<and>
    (\<forall>t < 1024. pmem s' (word_of_frame c t) = read_only (pte s d t)) \<and>
    (\<forall>g. mmap_at s' g = (if g = c then 1 else mmap_at s g + (if \<exists>t < 1024. mapped s d t = Some g then 1 else 0))) \<and> only_counters s s'"
proof -
  have lt: "d < 1024" using d(2) by (rule order_less_trans) simp
  let ?w = "PDE_RECUR_MASK OR push_bit 12 d"
  have w: "?w = window d 0" by (simp add: window_def)
  from share_table_law [OF ok(1,2,4) d(2,3)] obtain s1 where
    run1: "share_table ?w s = Some s1" and sh: "shared_upto s d 1024 s1" by blast
  have oc1: "only_counters s s1" using sh unfolding shared_upto_def by blast
  have s1: "same_rest s s1" "as_ok s1" "mm_ok s1" "free_frames s1 = free_frames s"
    "\<And>d'. d' < 1024 \<Longrightarrow> pde s1 d' = pde s d'"
    "\<And>h j. j < 1024 \<Longrightarrow> unat h < 2 ^ 20 \<Longrightarrow> h \<noteq> e_index (pde s d) \<Longrightarrow> pmem s1 (word_of_frame h j) = pmem s (word_of_frame h j)"
    "\<And>t. t < 1024 \<Longrightarrow> pte s1 d t = read_only (pte s d t)"
    "\<And>g. mmap_at s1 g = mmap_at s g + (if \<exists>t < 1024. mapped s d t = Some g then 1 else 0)"
    using sh unfolding shared_upto_def read_only_def by (auto simp: word_less_nat_alt)
  note r1 = same_restD [OF s1(1)]
  have inj: "d' < 1024 \<Longrightarrow> d' \<noteq> d \<Longrightarrow> e_present (pde s d') \<Longrightarrow> e_index (pde s d') \<noteq> e_index (pde s d)" for d'
    using as_ok_inj [OF ok(1) _ lt _ d(3)] by blast
  have m1: "mapped s1 d' t = mapped s d' t" if "d' < 1024" "t < 1024" for d' t
  proof (cases "d' = d")
    case True
    then show ?thesis using that s1(5,7) by (simp add: mapped_def)
  next
    case False
    then have "e_present (pde s d') \<Longrightarrow> pte s1 d' t = pte s d' t"
      using that s1(5,6) inj [of d'] by (simp add: pte_def)
    then show ?thesis using that s1(5) by (auto simp: mapped_def)
  qed
  have tl1: "tables_live s1" using ok(3) s1(4,5) by (simp add: tables_live_def)
  have g: "mapped s1 (PDE_IDX ?w) (PTE_IDX ?w) = Some (e_index (pde s d))"
    using d(3) lt s1(5) by (simp add: w mapped_window [OF s1(2)])
  have gz: "e_index (pde s1 0) \<noteq> e_index (pde s d)" using inj [of 0] d(1) room(2) s1(5) by simp
  have gf: "unat (e_index (pde s d)) \<notin> free_frames s1" using ok(3) lt d(3) s1(4) by (simp add: tables_live_def)
  have v: "?w AND 0xfff = 0" "PDE_IDX ?w \<noteq> 0" using lt by (simp_all add: w)
  have room1: "0 < free_pages (mm s1)" "e_present (pde s1 0)" using room(1,2) s1(5) r1(4) by simp_all
  from copy_page_law [OF s1(2,3) tl1 room1 g gz gf v] obtain c s2 where
    run2: "copy_page s1 ?w = Some (PAGE_ADDR c, s2)" and c: "unat c \<in> free_frames s1" "data_frame s1 c" and
    s2': "as_ok s2" "mm_ok s2" "free_frames s2 = free_frames s1 - {unat c}" "cr3 s2 = cr3 s1"
      "\<forall>j. mmap_at s2 j = (if j = c then 1 else mmap_at s1 j)" "\<forall>d < 1024. pde s2 d = pde s1 d"
      "\<forall>d < 1024. \<forall>t < 1024. mapped s2 d t = (if d = 0 \<and> t = 0 then None else mapped s1 d t)"
      "\<forall>i < 1024. pmem s2 (word_of_frame c i) = pmem s1 (word_of_frame (e_index (pde s d)) i)"
      "\<forall>h. \<forall>i < 1024. unat h < 2 ^ 20 \<longrightarrow> h \<noteq> c \<longrightarrow> h \<noteq> e_index (pde s1 0) \<longrightarrow> pmem s2 (word_of_frame h i) = pmem s1 (word_of_frame h i)"
      "tcbs s2 = tcbs s1" "current s2 = current s1" "free_pages (mm s2) = free_pages (mm s1) - 1" and
    k2: "bitmaps s2 = bitmaps s1" "memory_map (mm s2) = memory_map (mm s1)" "kmm s2 = kmm s1"
      "kmem s2 = (kmem s1)(memory_map (mm s1) + c := 1)" "managed s2 = managed s1"
    by (elim exE conjE) (rule that)
  note s2 = s2'(1-4) s2'(5) [rule_format] s2'(6-9) [rule_format] s2'(10-12)
  have csmall: "unat c < 2 ^ 20" and Dsmall: "unat D < 2 ^ 20" using c(2) D(1) by (simp_all add: data_frame_def)
  have cD: "c \<noteq> D" using c(1) D(2) s1(4) by auto
  define s' where "s' = s2\<lparr>pmem := (pmem s2)(word_of_frame D d := set_index (pmem s2 (word_of_frame D d)) c)\<rparr>"
  have run: "fork_table D d s = Some s'"
    using run1 run2 by (simp add: fork_table_def Let_def s'_def PAGE_IDX_ADDR [OF csmall])
  have df: "data_frame s2 D" using D(1) s2(6) s1(5) by (simp add: data_frame_def)
  have diff: "differ_in D s2 s'" using lt Dsmall by (auto simp: differ_in_def s'_def word_of_frame_eq)
  note d3 = differ_space [OF s2(1) df diff] and r3 = differ_rest [OF diff]
  have tab: "e_index (pde s d) \<noteq> c" "e_index (pde s d) \<noteq> D" "e_index (pde s 0) \<noteq> D"
    using data_frame_table [OF c(2), of d] data_frame_table [OF D(1)] d(3) lt s1(5) room(2) by auto
  have W: "pmem s' (word_of_frame h i) = pmem s (word_of_frame h i)"
    if "i < 1024" "unat h < 2 ^ 20" "h \<noteq> c" "h \<noteq> e_index (pde s 0)" "h \<noteq> e_index (pde s d)" "(h, i) \<noteq> (D, d)" for h i
  proof -
    have "word_of_frame h i \<noteq> word_of_frame D d" using that lt Dsmall by (auto simp: word_of_frame_eq)
    then show ?thesis using that s2(9) s1(5,6) by (simp add: s'_def)
  qed
  have P: "pte s' d t = read_only (pte s d t)" if "t < 1024" for t
  proof -
    have "pte s' d t = pte s2 d t" using d3(3) [OF lt that] s2(6) s1(5) lt d(3) by simp
    also have "\<dots> = pte s1 d t" using s2(6,9) s1(5) lt that tab(1) gz by (simp add: pte_def)
    finally show ?thesis using s1(7) that by simp
  qed
  have Dw: "pmem s' (word_of_frame D d) = set_index (pmem s (word_of_frame D d)) c"
    using s2(9) [OF lt Dsmall] s1(6) [OF lt Dsmall] cD tab s1(5) by (simp add: s'_def)
  have C: "pmem s' (word_of_frame c t) = read_only (pte s d t)" if "t < 1024" for t
  proof -
    have "word_of_frame c t \<noteq> word_of_frame D d" using that lt cD csmall Dsmall by (simp add: word_of_frame_eq)
    then have "pmem s' (word_of_frame c t) = pmem s1 (word_of_frame (e_index (pde s1 d)) t)"
      using s2(8) [OF that] s1(5) lt by (simp add: s'_def)
    then show ?thesis using s1(7) [OF that] by (simp add: pte_def)
  qed
  have fp: "unat (free_pages (mm s')) + 1 = unat (free_pages (mm s))"
    using unat_minus_le [of 1 "free_pages (mm s)"] room(1) r3(1) s2(12) r1(4) by (simp add: word_le_nat_alt word_less_nat_alt)
  have M: "mapped s' d' t = mapped s d' t" if "d' < 1024" "t < 1024" for d' t
    using d3(4) [OF that] s2(7) [OF that] m1 [OF that] room(3) by auto
  have K: "mmap_at s' g = (if g = c then 1 else mmap_at s g + (if \<exists>t < 1024. mapped s d t = Some g then 1 else 0))" for g
    using r3(6) s2(5) s1(8) by simp
  have E: "as_ok s'" "mm_ok s'" "free_frames s' = free_frames s - {unat c}" "cr3 s' = cr3 s" "tcbs s' = tcbs s" "current s' = current s"
    using d3(1,5) r3 s2(2-4,10,11) s1(4) r1 by simp_all
  have Q: "pde s' d' = pde s d'" if "d' < 1024" for d' using d3(2) [OF that] s2(6) [OF that] s1(5) [OF that] by simp
  have "only_counters s1 s2" using k2 csmall by (auto simp: only_counters_def)
  then have O: "only_counters s s'"
    unfolding s'_def by (intro only_counters_set(3) only_counters_trans [OF oc1])
  show ?thesis
    using run c(1) s1(4) E fp Q M P W Dw C K O by (intro exI [of _ c] exI [of _ s']) simp
qed

section \<open>The whole address space\<close>

definition user_tables :: "kstate \<Rightarrow> u32 set" where
  "user_tables s = {d. 4 \<le> d \<and> d < 1023 \<and> e_present (pde s d)}"

text \<open>Every frame that a user page is in is in use, with room in its counter, and no other user page is in it.\<close>

definition pages_ok :: "kstate \<Rightarrow> bool" where
  "pages_ok s \<longleftrightarrow> (\<forall>d \<in> user_tables s. \<forall>t < 1024. \<forall>g. mapped s d t = Some g \<longrightarrow> 0 < mmap_at s g \<and> mmap_at s g < 254 \<and>
     (\<forall>d' \<in> user_tables s. \<forall>t' < 1024. mapped s d' t' = Some g \<longrightarrow> d' = d \<and> t' = t))"

lemma pages_ok_cong:
  assumes ok: "pages_ok s" and ut: "user_tables s' = user_tables s"
    and m: "\<And>d t. d \<in> user_tables s \<Longrightarrow> t < 1024 \<Longrightarrow> mapped s' d t = mapped s d t"
    and c: "\<And>g. unat g < 2 ^ 20 \<Longrightarrow> mmap_at s' g = mmap_at s g"
  shows "pages_ok s'"
  unfolding pages_ok_def ut
proof (intro ballI allI impI conjI)
  fix d t g assume h: "d \<in> user_tables s" "t < 1024" "mapped s' d t = Some g"
  have h': "mapped s d t = Some g" using m [OF h(1,2)] h(3) by simp
  have "0 < mmap_at s g" "mmap_at s g < 254" using ok h(1,2) h' unfolding pages_ok_def by blast+
  then show "0 < mmap_at s' g" "mmap_at s' g < 254" unfolding c [OF mapped_small [OF h']] .
  fix d' t' assume k: "d' \<in> user_tables s" "t' < 1024" "mapped s' d' t' = Some g"
  have "mapped s d' t' = Some g" using m [OF k(1,2)] k(3) by simp
  then show "d' = d" "t' = t" using ok h(1,2) h' k(1,2) unfolding pages_ok_def by blast+
qed

text \<open>\<open>D\<close> is the frame of a new directory.\<close>

definition fork_ready :: "u32 \<Rightarrow> kstate \<Rightarrow> bool" where
  "fork_ready D s \<longleftrightarrow> as_ok s \<and> mm_ok s \<and> tables_live s \<and> pages_ok s \<and> e_present (pde s 0) \<and> mapped s 0 0 = None \<and>
     data_frame s D \<and> unat D \<notin> free_frames s"

text \<open>\<open>s\<close> is \<open>z\<close> after the tables below number \<open>k\<close> have been shared and copied.\<close>

definition forked :: "kstate \<Rightarrow> u32 \<Rightarrow> nat \<Rightarrow> kstate \<Rightarrow> bool" where
  "forked z D k s \<longleftrightarrow> as_ok s \<and> mm_ok s \<and> cr3 s = cr3 z \<and> tcbs s = tcbs z \<and> current s = current z \<and>
     (\<forall>d < 1024. pde s d = pde z d) \<and> (\<forall>d < 1024. \<forall>t < 1024. mapped s d t = mapped z d t) \<and>
     (\<forall>d \<in> user_tables z. \<forall>t < 1024. pte s d t = (if unat d < k then read_only (pte z d t) else pte z d t)) \<and>
     free_frames s \<subseteq> free_frames z \<and>
     unat (free_pages (mm s)) + card {d \<in> user_tables z. unat d < k} = unat (free_pages (mm z)) \<and>
     (\<forall>g. unat g \<notin> free_frames z \<longrightarrow> mmap_at s g = mmap_at z g +
        (if \<exists>d \<in> user_tables z. unat d < k \<and> (\<exists>t < 1024. mapped z d t = Some g) then 1 else 0)) \<and>
     (\<forall>d < 1024. d \<notin> user_tables z \<or> k \<le> unat d \<longrightarrow> pmem s (word_of_frame D d) = pmem z (word_of_frame D d)) \<and>
     (\<forall>d \<in> user_tables z. unat d < k \<longrightarrow> (let w = pmem s (word_of_frame D d) in e_present w \<and>
        unat (e_index w) \<in> free_frames z - free_frames s \<and> (\<forall>t < 1024. pmem s (word_of_frame (e_index w) t) = read_only (pte z d t)))) \<and>
     (\<forall>d \<in> user_tables z. \<forall>d' \<in> user_tables z. unat d < k \<longrightarrow> unat d' < k \<longrightarrow>
        e_index (pmem s (word_of_frame D d)) = e_index (pmem s (word_of_frame D d')) \<longrightarrow> d = d') \<and>
     (\<forall>d \<in> user_tables z. unat d < k \<longrightarrow> mmap_at s (e_index (pmem s (word_of_frame D d))) = 1) \<and> only_counters z s \<and>
     (\<forall>h. \<forall>i < 1024. data_frame z h \<longrightarrow> unat h \<notin> free_frames z \<longrightarrow> h \<noteq> D \<longrightarrow>
        pmem s (word_of_frame h i) = pmem z (word_of_frame h i))"

lemma forkedD:
  assumes "forked z D k s"
  shows "as_ok s" "mm_ok s" "cr3 s = cr3 z" "tcbs s = tcbs z" "current s = current z"
    "\<And>d. d < 1024 \<Longrightarrow> pde s d = pde z d" "\<And>d t. d < 1024 \<Longrightarrow> t < 1024 \<Longrightarrow> mapped s d t = mapped z d t"
    "\<And>d t. d \<in> user_tables z \<Longrightarrow> t < 1024 \<Longrightarrow> pte s d t = (if unat d < k then read_only (pte z d t) else pte z d t)"
    "free_frames s \<subseteq> free_frames z" "unat (free_pages (mm s)) + card {d \<in> user_tables z. unat d < k} = unat (free_pages (mm z))"
    "\<And>g. unat g \<notin> free_frames z \<Longrightarrow> mmap_at s g = mmap_at z g +
        (if \<exists>d \<in> user_tables z. unat d < k \<and> (\<exists>t < 1024. mapped z d t = Some g) then 1 else 0)"
    "\<And>d. d < 1024 \<Longrightarrow> d \<notin> user_tables z \<or> k \<le> unat d \<Longrightarrow> pmem s (word_of_frame D d) = pmem z (word_of_frame D d)"
    "\<And>d. d \<in> user_tables z \<Longrightarrow> unat d < k \<Longrightarrow> e_present (pmem s (word_of_frame D d))"
    "\<And>d. d \<in> user_tables z \<Longrightarrow> unat d < k \<Longrightarrow> unat (e_index (pmem s (word_of_frame D d))) \<in> free_frames z - free_frames s"
    "\<And>d t. d \<in> user_tables z \<Longrightarrow> unat d < k \<Longrightarrow> t < 1024 \<Longrightarrow>
       pmem s (word_of_frame (e_index (pmem s (word_of_frame D d))) t) = read_only (pte z d t)"
    "\<And>d d'. d \<in> user_tables z \<Longrightarrow> d' \<in> user_tables z \<Longrightarrow> unat d < k \<Longrightarrow> unat d' < k \<Longrightarrow>
        e_index (pmem s (word_of_frame D d)) = e_index (pmem s (word_of_frame D d')) \<Longrightarrow> d = d'"
    "\<And>h i. i < 1024 \<Longrightarrow> data_frame z h \<Longrightarrow> unat h \<notin> free_frames z \<Longrightarrow> h \<noteq> D \<Longrightarrow>
        pmem s (word_of_frame h i) = pmem z (word_of_frame h i)"
    "\<And>d. d \<in> user_tables z \<Longrightarrow> unat d < k \<Longrightarrow> mmap_at s (e_index (pmem s (word_of_frame D d))) = 1" "only_counters z s"
  using assms unfolding forked_def Let_def by blast+

lemma user_tables_bound: "d \<in> user_tables z \<Longrightarrow> d < 1024" "d \<in> user_tables z \<Longrightarrow> d \<noteq> 0" "d \<in> user_tables z \<Longrightarrow> d < 1023"
    "d \<in> user_tables z \<Longrightarrow> e_present (pde z d)"
  by (auto simp: user_tables_def word_less_nat_alt word_le_nat_alt)

text \<open>An absent table changes nothing.\<close>

lemma forked_skip:
  assumes "forked z D k s" and "unat (of_nat k :: u32) = k" "(of_nat k :: u32) \<notin> user_tables z"
  shows "forked z D (Suc k) s"
proof -
  have e: "unat d < Suc k \<longleftrightarrow> unat d < k" "Suc k \<le> unat d \<longleftrightarrow> k \<le> unat d" if "d \<in> user_tables z" for d
    using that less_Suc_index [OF assms(2), of d] assms(3) by auto
  then have "{d \<in> user_tables z. unat d < Suc k} = {d \<in> user_tables z. unat d < k}" by auto
  then show ?thesis using assms(1) e unfolding forked_def by (auto cong: conj_cong)
qed

text \<open>What the copy of table \<open>d\<close> relies on, after the tables before it.\<close>

lemma forked_ready:
  assumes z: "fork_ready D z" and room: "card (user_tables z) \<le> unat (free_pages (mm z))"
    and f: "forked z D k s" and d: "d \<in> user_tables z" "unat d = k"
  shows "tables_live s" "table_ok s d" "0 < free_pages (mm s)" "e_present (pde s d)" "e_present (pde s 0)" "mapped s 0 0 = None"
    "data_frame s D" "unat D \<notin> free_frames s"
    "\<And>t g. t < 1024 \<Longrightarrow> mapped z d t = Some g \<Longrightarrow> mmap_at s g = mmap_at z g \<and> unat g \<notin> free_frames z \<and>
       \<not> (\<exists>d' \<in> user_tables z. unat d' < k \<and> (\<exists>t' < 1024. mapped z d' t' = Some g))"
proof -
  note F = forkedD [OF f] and b = user_tables_bound [OF d(1)]
  have z': "tables_live z" "pages_ok z" "e_present (pde z 0)" "mapped z 0 0 = None" "data_frame z D" "unat D \<notin> free_frames z"
    using z by (simp_all add: fork_ready_def)
  show "tables_live s" using z'(1) F(6,9) by (auto simp: tables_live_def)
  show "e_present (pde s d)" "e_present (pde s 0)" "mapped s 0 0 = None" "data_frame s D" "unat D \<notin> free_frames s"
    using b z'(3-6) F(6,7,9) by (auto simp: data_frame_def)
  have P: "0 < mmap_at z g" "mmap_at z g < 254" "\<And>d' t'. d' \<in> user_tables z \<Longrightarrow> t' < 1024 \<Longrightarrow> mapped z d' t' = Some g \<Longrightarrow> d' = d \<and> t' = t"
    if "t < 1024" "mapped z d t = Some g" for t g
    using z'(2) d(1) that unfolding pages_ok_def by blast+
  show same: "mmap_at s g = mmap_at z g \<and> unat g \<notin> free_frames z \<and>
      \<not> (\<exists>d' \<in> user_tables z. unat d' < k \<and> (\<exists>t' < 1024. mapped z d' t' = Some g))"
    if "t < 1024" "mapped z d t = Some g" for t g
  proof -
    have n: "\<not> (\<exists>d' \<in> user_tables z. unat d' < k \<and> (\<exists>t' < 1024. mapped z d' t' = Some g))" using P(3) [OF that] d(2) by blast
    have u: "unat g \<notin> free_frames z" using used_not_free [OF P(1) [OF that]] .
    then show ?thesis using F(11) [OF u] n by simp
  qed
  show "table_ok s d"
    unfolding table_ok_def
  proof (intro allI impI)
    fix t g assume t: "t < 1024" "mapped s d t = Some g"
    then have m: "mapped z d t = Some g" using F(7) b(1) by simp
    have "\<forall>t' < 1024. mapped s d t' = Some g \<longrightarrow> t' = t" using P(3) [OF t(1) m d(1)] F(7) b(1) by simp
    then show "0 < mmap_at s g \<and> mmap_at s g < 254 \<and> (\<forall>t' < 1024. mapped s d t' = Some g \<longrightarrow> t' = t)"
      using P(1,2) [OF t(1) m] same [OF t(1) m] by simp
  qed
  have "card {x \<in> user_tables z. unat x < k} < card (user_tables z)"
    by (rule psubset_card_mono) (use d in auto)
  then show "0 < free_pages (mm s)" using F(10) room by (simp add: word_less_nat_alt)
qed

lemma forked_step:
  assumes z: "fork_ready D z" and room: "card (user_tables z) \<le> unat (free_pages (mm z))"
    and copied: "\<forall>d < 1023. pmem z (word_of_frame D d) = pde z d"
    and f: "forked z D k s" and d: "d \<in> user_tables z" "unat d = k"
  shows "\<exists>s'. fork_table D d s = Some s' \<and> forked z D (Suc k) s'"
proof -
  note F = forkedD [OF f] and b = user_tables_bound [OF d(1)] and R = forked_ready [OF z room f d]
  have z': "as_ok z" "tables_live z" "data_frame z D" "unat D \<notin> free_frames z" "e_present (pde z 0)" using z by (simp_all add: fork_ready_def)
  from fork_table_law [OF F(1,2) R(1,2) b(2,3) R(4) R(3) R(5,6,7,8)] obtain c s' where
    run: "fork_table D d s = Some s'" and c: "unat c \<in> free_frames s" and
    T': "as_ok s'" "mm_ok s'" "free_frames s' = free_frames s - {unat c}" "unat (free_pages (mm s')) + 1 = unat (free_pages (mm s))"
      "cr3 s' = cr3 s" "tcbs s' = tcbs s" "current s' = current s" "\<forall>d' < 1024. pde s' d' = pde s d'"
      "\<forall>d' < 1024. \<forall>t < 1024. mapped s' d' t = mapped s d' t" "\<forall>t < 1024. pte s' d t = read_only (pte s d t)"
      "\<forall>h. \<forall>i < 1024. unat h < 2 ^ 20 \<longrightarrow> h \<noteq> c \<longrightarrow> h \<noteq> e_index (pde s 0) \<longrightarrow> h \<noteq> e_index (pde s d) \<longrightarrow> (h, i) \<noteq> (D, d) \<longrightarrow>
         pmem s' (word_of_frame h i) = pmem s (word_of_frame h i)"
      "pmem s' (word_of_frame D d) = set_index (pmem s (word_of_frame D d)) c"
      "\<forall>t < 1024. pmem s' (word_of_frame c t) = read_only (pte s d t)"
      "\<forall>g. mmap_at s' g = (if g = c then 1 else mmap_at s g + (if \<exists>t < 1024. mapped s d t = Some g then 1 else 0))" and
    oc: "only_counters s s'"
    by (elim exE conjE) (rule that)
  note T = T'(1-7) T'(8-11) [rule_format] T'(12) T'(13,14) [rule_format]
  have cz: "unat c \<in> free_frames z" using c F(9) by blast
  have csmall: "unat c < 2 ^ 20" using cz managed_small [of z] z by (auto simp: free_frames_def fork_ready_def)
  have cD: "c \<noteq> D" using c R(8) by auto
  have tab: "e_index (pde z d') \<noteq> h" if "d' < 1024" "e_present (pde z d')" "unat h \<in> free_frames z" for d' h
    using z'(2) that by (auto simp: tables_live_def)
  have D: "e_index (pde z d') \<noteq> D" if "d' < 1024" "e_present (pde z d')" for d'
    using data_frame_table [OF z'(3)] that by blast
  have Dsmall: "unat D < 2 ^ 20" using z'(3) by (simp add: data_frame_def)
  have less: "unat x < Suc k \<longleftrightarrow> unat x < k \<or> x = d" for x using d(2) by (metis less_Suc_eq word_unat_eq_iff)
  have sp: "pde s 0 = pde z 0" "pde s d = pde z d" using F(6) b(1) by simp_all
  have W: "pmem s' (word_of_frame h i) = pmem s (word_of_frame h i)"
    if "i < 1024" "unat h < 2 ^ 20" "h \<noteq> c" "h \<noteq> e_index (pde z 0)" "h \<noteq> e_index (pde z d)" "(h, i) \<noteq> (D, d)" for h i
    using T(11) [OF that(1,2,3)] that(4-6) sp by simp
  have Wd: "pmem s' (word_of_frame D x) = pmem s (word_of_frame D x)" if "x < 1024" "x \<noteq> d" for x
    using W [OF that(1) Dsmall cD [symmetric]] D [of 0] D [OF b(1,4)] z'(5) that(2) by auto
  have inj: "d' < 1024 \<Longrightarrow> d' \<noteq> d \<Longrightarrow> e_present (pde z d') \<Longrightarrow> e_index (pde z d') \<noteq> e_index (pde z d)" for d'
    using as_ok_inj [OF z'(1) _ b(1) _ b(4)] by blast
  have wd: "pmem s (word_of_frame D d) = pde z d" using F(12) [OF b(1)] copied b(3) d(2) by simp
  then have nd: "pmem s' (word_of_frame D d) = set_index (pde z d) c" "e_index (pmem s' (word_of_frame D d)) = c"
    using T(12) csmall by simp_all
  let ?e = "\<lambda>s x. e_index (pmem s (word_of_frame D x))"
  have old: "?e s' x = ?e s x" "?e s x \<noteq> c" "unat (?e s x) \<in> free_frames z" "unat (?e s x) \<notin> free_frames s"
    if "x \<in> user_tables z" "unat x < k" for x
  proof -
    have "x \<noteq> d" using that d(2) by auto
    then show "?e s' x = ?e s x" using Wd user_tables_bound(1) [OF that(1)] by simp
    show "?e s x \<noteq> c" "unat (?e s x) \<in> free_frames z" "unat (?e s x) \<notin> free_frames s" using F(14) [OF that] c by auto
  qed
  have "forked z D (Suc k) s'"
    unfolding forked_def Let_def
  proof (intro conjI ballI allI impI)
    show "as_ok s'" "mm_ok s'" "cr3 s' = cr3 z" "tcbs s' = tcbs z" "current s' = current z" "free_frames s' \<subseteq> free_frames z"
      using T F by auto
  next
    fix x :: u32 assume x: "x < 1024"
    show "pde s' x = pde z x" using T(8) F(6) x by simp
    fix t :: u32 assume "t < 1024"
    then show "mapped s' x t = mapped z x t" using T(9) F(7) x by simp
  next
    fix x t assume x: "x \<in> user_tables z" "t < (1024 :: u32)"
    note bx = user_tables_bound [OF x(1)]
    show "pte s' x t = (if unat x < Suc k then read_only (pte z x t) else pte z x t)"
    proof (cases "x = d")
      case True
      then show ?thesis using T(10) [OF x(2)] F(8) [OF x] d(2) by simp
    next
      case False
      have "pte s' x t = pte s x t"
        using W [of t "e_index (pde z x)"] x(2) tab [OF bx(1,4) cz] inj [OF bx(1) False bx(4)] D [OF bx(1,4)]
          as_ok_inj [OF z'(1) bx(1), of 0] bx z'(5) T(8) F(6) by (auto simp: pte_def)
      then show ?thesis using F(8) [OF x] False less [of x] by simp
    qed
  next
    have "{x \<in> user_tables z. unat x < Suc k} = insert d {x \<in> user_tables z. unat x < k}" using less d(1) by auto
    moreover have "d \<notin> {x \<in> user_tables z. unat x < k}" using d(2) by simp
    ultimately show "unat (free_pages (mm s')) + card {x \<in> user_tables z. unat x < Suc k} = unat (free_pages (mm z))"
      using T(4) F(10) by simp
  next
    fix g :: u32 assume g: "unat g \<notin> free_frames z"
    then have "g \<noteq> c" using cz by auto
    moreover have "(\<exists>t < 1024. mapped s d t = Some g) \<longleftrightarrow> (\<exists>t < 1024. mapped z d t = Some g)" using F(7) [OF b(1)] by metis
    moreover have "(\<exists>x \<in> user_tables z. unat x < Suc k \<and> (\<exists>t < 1024. mapped z x t = Some g)) \<longleftrightarrow>
        (\<exists>x \<in> user_tables z. unat x < k \<and> (\<exists>t < 1024. mapped z x t = Some g)) \<or> (\<exists>t < 1024. mapped z d t = Some g)"
      using less d(1) by blast
    moreover have "\<not> ((\<exists>x \<in> user_tables z. unat x < k \<and> (\<exists>t < 1024. mapped z x t = Some g)) \<and> (\<exists>t < 1024. mapped z d t = Some g))"
      using R(9) by blast
    ultimately show "mmap_at s' g = mmap_at z g + (if \<exists>x \<in> user_tables z. unat x < Suc k \<and> (\<exists>t < 1024. mapped z x t = Some g) then 1 else 0)"
      using T(14) [of g] F(11) [OF g] by auto
  next
    fix x :: u32 assume x: "x < 1024" "x \<notin> user_tables z \<or> Suc k \<le> unat x"
    then have "x \<noteq> d" "x \<notin> user_tables z \<or> k \<le> unat x" using d by auto
    then show "pmem s' (word_of_frame D x) = pmem z (word_of_frame D x)" using Wd F(12) x(1) by simp
  next
    fix x assume x: "x \<in> user_tables z" "unat x < Suc k"
    note bx = user_tables_bound [OF x(1)]
    have "e_present (pmem s' (word_of_frame D x)) \<and> unat (?e s' x) \<in> free_frames z - free_frames s'"
    proof (cases "x = d")
      case True
      then show ?thesis using nd b(4) cz T(3) by simp
    next
      case False
      then have k: "unat x < k" using less x(2) by blast
      show ?thesis using F(13) [OF x(1) k] Wd [OF bx(1) False] old [OF x(1) k] T(3) by simp
    qed
    then show "e_present (pmem s' (word_of_frame D x))" "unat (?e s' x) \<in> free_frames z - free_frames s'" by blast+
    fix t :: u32 assume t: "t < 1024"
    show "pmem s' (word_of_frame (?e s' x) t) = read_only (pte z x t)"
    proof (cases "x = d")
      case True
      then show ?thesis using T(13) [OF t] nd(2) F(8) [OF d(1) t] d(2) by simp
    next
      case False
      then have k: "unat x < k" using less x(2) by blast
      note o = old [OF x(1) k]
      have "?e s x \<noteq> D" using o(3) z'(4) by auto
      then have "pmem s' (word_of_frame (?e s x) t) = pmem s (word_of_frame (?e s x) t)"
        using W [OF t _ o(2)] tab [OF _ _ o(3), of 0] tab [OF b(1,4) o(3)] z'(5) by auto
      then show ?thesis using F(15) [OF x(1) k t] o(1) by simp
    qed
  next
    fix x y assume x: "x \<in> user_tables z" "y \<in> user_tables z" "unat x < Suc k" "unat y < Suc k" "?e s' x = ?e s' y"
    show "x = y"
    proof (cases "x = d \<or> y = d")
      case True
      then show ?thesis using x nd(2) old(1,2) less by metis
    next
      case False
      then have "unat x < k" "unat y < k" using x less by blast+
      then show ?thesis using F(16) [OF x(1,2)] old(1) x(1,2,5) by simp
    qed
  next
    fix x assume x: "x \<in> user_tables z" "unat x < Suc k"
    show "mmap_at s' (?e s' x) = 1"
    proof (cases "x = d")
      case True
      then show ?thesis using nd(2) T(14) [of c] by simp
    next
      case False
      then have k: "unat x < k" using less x(2) by blast
      have "mapped s d t \<noteq> Some (?e s x)" if "t < 1024" for t
        using R(9) [OF that, of "?e s x"] F(7) [OF b(1) that] old(3) [OF x(1) k] by auto
      then show ?thesis using T(14) [of "?e s x"] F(18) [OF x(1) k] old(1,2) [OF x(1) k] by auto
    qed
  next
    show "only_counters z s'" by (rule only_counters_trans [OF F(19) oc])
  next
    fix h i :: u32 assume h: "i < 1024" "data_frame z h" "unat h \<notin> free_frames z" "h \<noteq> D"
    have "h \<noteq> c" "unat h < 2 ^ 20" using h(2,3) cz by (auto simp: data_frame_def)
    moreover have "h \<noteq> e_index (pde z 0)" "h \<noteq> e_index (pde z d)"
      using data_frame_table [OF h(2) z'(5)] data_frame_table [OF h(2) b(4,1)] by auto
    ultimately have "pmem s' (word_of_frame h i) = pmem s (word_of_frame h i)" using W [OF h(1)] h(4) by simp
    then show "pmem s' (word_of_frame h i) = pmem z (word_of_frame h i)" using F(17) [OF h] by simp
  qed
  with run show ?thesis by blast
qed

section \<open>copy_pgdir\<close>

lemma forked_start: "fork_ready D z \<Longrightarrow> forked z D 4 z"
proof -
  have n: "\<not> (d \<in> user_tables z \<and> unat d < 4)" for d by (auto simp: user_tables_def word_le_nat_alt)
  then have "{d \<in> user_tables z. unat d < 4} = {}" by blast
  then show "fork_ready D z \<Longrightarrow> forked z D 4 z" using n only_counters_refl [of z] unfolding forked_def fork_ready_def by auto
qed

text \<open>The loop over the tables of the user part.\<close>

lemma fork_tables:
  assumes z: "fork_ready D z" and room: "card (user_tables z) \<le> unat (free_pages (mm z))"
    and copied: "\<forall>d < 1023. pmem z (word_of_frame D d) = pde z d"
  shows "\<exists>s'. forM [4 ..< 1023] (\<lambda>pde_idx s. do {
       let da = PAGE_ADDR D + 4 * of_nat pde_idx;
       if \<not> e_present (pmem s da) then Some s
       else do {
         let page_tbl = PDE_RECUR_MASK OR push_bit 12 (of_nat pde_idx);
         s \<leftarrow> share_table page_tbl s;
         (paddr, s) \<leftarrow> copy_page s page_tbl;
         Some (s\<lparr>pmem := (pmem s)(da := set_index (pmem s da) (PAGE_IDX paddr))\<rparr>) } }) z = Some s' \<and> forked z D 1023 s'"
proof -
  let ?f = "\<lambda>n s. do {
       let da = PAGE_ADDR D + 4 * of_nat n;
       if \<not> e_present (pmem s da) then Some s
       else do {
         let page_tbl = PDE_RECUR_MASK OR push_bit 12 (of_nat n);
         s \<leftarrow> share_table page_tbl s;
         (paddr, s) \<leftarrow> copy_page s page_tbl;
         Some (s\<lparr>pmem := (pmem s)(da := set_index (pmem s da) (PAGE_IDX paddr))\<rparr>) } }"
  have "\<exists>s'. forM [4 ..< 4 + j] ?f z = Some s' \<and> forked z D (4 + j) s'" if "j \<le> 1019" for j
    using that
  proof (induction j)
    case 0
    then show ?case using forked_start [OF z] by simp
  next
    case (Suc j)
    then obtain s where s: "forM [4 ..< 4 + j] ?f z = Some s" "forked z D (4 + j) s" by auto
    let ?d = "of_nat (4 + j) :: u32"
    have u: "unat ?d = 4 + j" using Suc.prems by (simp only: unat_of_nat) simp
    then have d: "4 \<le> ?d" "?d < 1023" "?d < 1024" using Suc.prems by (simp_all add: word_le_nat_alt word_less_nat_alt)
    have w: "pmem s (PAGE_ADDR D + 4 * ?d) = pde z ?d"
      using forkedD(12) [OF s(2) d(3)] copied [rule_format, OF d(2)] unfolding word_of_frame_def u by simp
    have body: "?f (4 + j) s = (if e_present (pde z ?d) then fork_table D ?d s else Some s)"
      unfolding Let_def w by (simp add: fork_table_def Let_def word_of_frame_def)
    have "\<exists>s'. ?f (4 + j) s = Some s' \<and> forked z D (Suc (4 + j)) s'"
    proof (cases "e_present (pde z ?d)")
      case True
      then have "?d \<in> user_tables z" using d by (simp add: user_tables_def)
      from forked_step [OF z room copied s(2) this u] show ?thesis unfolding body using True by simp
    next
      case False
      then have "?d \<notin> user_tables z" by (simp add: user_tables_def)
      from forked_skip [OF s(2) u this] show ?thesis unfolding body using False by simp
    qed
    moreover have "[4 ..< 4 + Suc j] = [4 ..< 4 + j] @ [4 + j]"
      unfolding add_Suc_right by (rule upt_Suc_append) simp
    ultimately show ?case using s(1) by (simp only: forM_append) auto
  qed
  from this [of 1019] show ?thesis by (simp del: upt_rec_numeral)
qed

text \<open>The map of the kernel's pages does not overlap the frame counters.\<close>

definition counters_apart :: "kstate \<Rightarrow> bool" where
  "counters_apart s \<longleftrightarrow> (\<forall>i. unat i < 2 ^ 20 \<longrightarrow> \<not> in_buffer (kernel_map s) (memory_map (mm s) + i))"

text \<open>The kernel's pages are apart from the frame counters, the free frames, the tables and the user's pages.\<close>

definition kernel_apart :: "kstate \<Rightarrow> bool" where
  "kernel_apart s \<longleftrightarrow> counters_apart s \<and>
     free_frames s \<inter> bits_of (kernel_map s) = {} \<and>
     (\<forall>d < 1024. e_present (pde s d) \<longrightarrow> unat (e_index (pde s d)) \<notin> bits_of (kernel_map s) - kpages s) \<and>
     (\<forall>d \<in> user_tables s. \<forall>t < 1024. \<forall>g. mapped s d t = Some g \<longrightarrow> unat g \<notin> bits_of (kernel_map s) - kpages s)"

lemma counters_kernel:
  assumes "counters_apart s" "mm_ok s" "same_outside (kernel_map s) (kmem s) m"
  shows "unat i < 2 ^ 20 \<Longrightarrow> mmap_at (s\<lparr>kmem := m\<rparr>) i = mmap_at s i" "free_frames (s\<lparr>kmem := m\<rparr>) = free_frames s" "mm_ok (s\<lparr>kmem := m\<rparr>)"
proof -
  show a: "unat i < 2 ^ 20 \<Longrightarrow> mmap_at (s\<lparr>kmem := m\<rparr>) i = mmap_at s i" for i
    using assms(1,3) by (simp add: mmap_at_def counters_apart_def same_outside_def)
  have "frefs (s\<lparr>kmem := m\<rparr>) j = frefs s j" if "j \<in> managed s" for j
  proof -
    have "unat (of_nat j :: u32) < 2 ^ 20" using managed_small [OF assms(2) that] by (simp add: unat_of_nat)
    then show ?thesis by (simp add: frefs_def a)
  qed
  then show "free_frames (s\<lparr>kmem := m\<rparr>) = free_frames s" by (auto simp: free_frames_def managed_def)
  then show "mm_ok (s\<lparr>kmem := m\<rparr>)" using assms(2) by (simp add: mm_ok_def)
qed

lemma in_frame:
  assumes "unat h < 2 ^ 20" "unat D < 2 ^ 20" "i < 1024"
  shows "in_range (PAGE_ADDR D) 4096 (word_of_frame h i) \<longleftrightarrow> h = D"
proof -
  have u: "unat (word_of_frame h i) = unat h * 4096 + 4 * unat i" "unat i < 1024"
    using assms by (simp_all add: word_of_frame_def PAGE_ADDR_def push_bit_eq_mult word_less_nat_alt unat_word_ariths)
  have "(unat h * 4096 + 4 * unat i) div 4096 = unat h" using u(2) by auto
  then have h: "PAGE_IDX (word_of_frame h i) = h" using u(1) by (simp add: word_unat_eq_iff PAGE_IDX_div)
  show ?thesis
  proof
    assume "in_range (PAGE_ADDR D) 4096 (word_of_frame h i)"
    from in_page [OF _ this] show "h = D" using h PAGE_IDX_ADDR [OF assms(2)] by simp
  next
    assume "h = D"
    then have "word_of_frame h i - PAGE_ADDR D = 4 * i" by (simp add: word_of_frame_def)
    moreover have "unat (4 * i) < 4096" using u(2) by (simp add: unat_word_ariths)
    ultimately show "in_range (PAGE_ADDR D) 4096 (word_of_frame h i)" by (simp only: in_range_def)
  qed
qed

text \<open>The new directory: the entries of the old one, but the last points to the directory itself.\<close>

definition new_directory :: "u32 \<Rightarrow> u32 \<Rightarrow> kstate \<Rightarrow> kstate" where
  "new_directory dir old s = (
     let s = s\<lparr>pmem := (\<lambda>a. if in_range dir 4096 a then pmem s (a - dir + old) else pmem s a)\<rparr>
     in s\<lparr>pmem := (pmem s)(dir + 4 * 1023 := page_entry_init (PAGE_IDX dir))\<rparr>)"

lemma new_directory_ready:
  assumes s: "as_ok s" "mm_ok s" "tables_live s" "pages_ok s" "e_present (pde s 0)" "mapped s 0 0 = None"
    and cr: "cr3 s = PAGE_ADDR (PAGE_IDX (cr3 s))" and D: "data_frame s D" "unat D \<notin> free_frames s"
  defines "z \<equiv> new_directory (PAGE_ADDR D) (cr3 s) s"
  shows "fork_ready D z" "\<forall>d < 1023. pmem z (word_of_frame D d) = pde z d" "pmem z (word_of_frame D 1023) = page_entry_init D"
    "differ_in D s z"
proof -
  have small: "unat D < 2 ^ 20" using D(1) by (simp add: data_frame_def)
  have z: "z = s\<lparr>pmem := (\<lambda>a. if in_range (PAGE_ADDR D) 4096 a then pmem s (a - PAGE_ADDR D + cr3 s) else pmem s a)
      (word_of_frame D 1023 := page_entry_init D)\<rparr>"
    by (simp add: z_def new_directory_def Let_def PAGE_IDX_ADDR [OF small] word_of_frame_def)
  have other: "pmem z (word_of_frame h i) = pmem s (word_of_frame h i)" if "unat h < 2 ^ 20" "i < 1024" "h \<noteq> D" for h i
    using in_frame [OF that(1) small that(2)] that small by (simp add: z word_of_frame_eq)
  then show diff: "differ_in D s z" by (simp add: differ_in_def) (simp add: z)
  note d = differ_space [OF s(1) D(1) diff] and r = differ_rest [OF diff]
  have own: "pmem z (word_of_frame D i) = (if i = 1023 then page_entry_init D else pde s i)" if "i < 1024" for i
  proof (cases "i = 1023")
    case False
    have "word_of_frame D i - PAGE_ADDR D + cr3 s = word_of_frame (PAGE_IDX (cr3 s)) i" by (subst cr) (simp add: word_of_frame_def)
    then show ?thesis
      using False that in_frame [OF small small that] small by (simp add: z pde_def word_of_frame_eq)
  qed (simp add: z)
  then show "pmem z (word_of_frame D 1023) = page_entry_init D" by simp
  show "\<forall>i < 1023. pmem z (word_of_frame D i) = pde z i"
  proof (intro allI impI)
    fix i :: u32 assume i: "i < 1023"
    then have "i < 1024" "i \<noteq> 1023" by (simp_all add: word_less_nat_alt) auto
    then show "pmem z (word_of_frame D i) = pde z i" using own d(2) by simp
  qed
  have ut: "user_tables z = user_tables s"
  proof -
    have "pde z x = pde s x" if "x < 1023" for x using d(2) [of x] that by (simp add: word_less_nat_alt)
    then show ?thesis by (auto simp: user_tables_def)
  qed
  have "mapped z x t = mapped s x t" if "x \<in> user_tables s" "t < 1024" for x t
    using d(4) [OF user_tables_bound(1) [OF that(1)] that(2)] .
  then have "pages_ok z" using pages_ok_cong [OF s(4) ut] r(6) by simp
  moreover have "tables_live z" using s(3) r(8) d(2) by (simp add: tables_live_def)
  ultimately show "fork_ready D z"
    using s D d r unfolding fork_ready_def by simp
qed

text \<open>What a task needs in order to fork: its own address space in order, a free page of the kernel and frames for the tables.\<close>

definition can_fork :: "kstate \<Rightarrow> bool" where
  "can_fork s \<longleftrightarrow> as_ok s \<and> mm_ok s \<and> tables_live s \<and> pages_ok s \<and> e_present (pde s 0) \<and> mapped s 0 0 = None \<and>
     kmap_ok s \<and> kernel_apart s \<and> bits_of (kernel_map s) - kpages s \<noteq> {} \<and>
     card (user_tables s) \<le> unat (free_pages (mm s)) \<and> t_page_dir (cur s) = cr3 s \<and> cr3 s = PAGE_ADDR (PAGE_IDX (cr3 s))"

text \<open>The run of \<open>copy_pgdir\<close>, with \<open>z\<close> the state before its loop.\<close>

lemma copy_pgdir_law:
  assumes "can_fork s"
  shows "\<exists>D z s'. copy_pgdir s = Some (PAGE_ADDR D, s') \<and> forked z D 1023 s' \<and> fork_ready D z \<and>
    pmem z (word_of_frame D 1023) = page_entry_init D \<and> (\<forall>d < 1023. pmem z (word_of_frame D d) = pde z d) \<and>
    cr3 z = cr3 s \<and> tcbs z = tcbs s \<and> current z = current s \<and> free_frames z = free_frames s \<and> free_pages (mm z) = free_pages (mm s) \<and>
    (\<forall>d < 1024. pde z d = pde s d) \<and> (\<forall>d \<in> user_tables s. \<forall>t < 1024. pte z d t = pte s d t) \<and>
    (\<forall>d < 1024. \<forall>t < 1024. mapped z d t = mapped s d t) \<and> user_tables z = user_tables s \<and>
    (\<forall>g. unat g < 2 ^ 20 \<longrightarrow> mmap_at z g = mmap_at s g) \<and> unat D \<in> bits_of (kernel_map s) - kpages s \<and>
    (\<forall>h. \<forall>i < 1024. unat h < 2 ^ 20 \<longrightarrow> h \<noteq> D \<longrightarrow> pmem z (word_of_frame h i) = pmem s (word_of_frame h i)) \<and>
    bitmaps z = bitmaps s \<and> kmm z = kmm s \<and> mm z = mm s \<and> kpages z = insert (unat D) (kpages s)"
proof -
  from assms have s: "as_ok s" "mm_ok s" "tables_live s" "pages_ok s" "e_present (pde s 0)" "mapped s 0 0 = None"
    "kmap_ok s" "kernel_apart s" "bits_of (kernel_map s) - kpages s \<noteq> {}" "card (user_tables s) \<le> unat (free_pages (mm s))"
    "t_page_dir (cur s) = cr3 s" "cr3 s = PAGE_ADDR (PAGE_IDX (cr3 s))" by (simp_all add: can_fork_def)
  have "\<exists>k. {k ..< k + unat (1 :: u32)} \<subseteq> bits_of (kernel_map s) - kpages s" using s(9) by auto
  with kalloc_page_law [OF s(7), of 1] obtain a m where
    a: "kalloc_page s 1 = Some (a, s\<lparr>kmem := m\<rparr>)" "page_run a 1 \<subseteq> bits_of (kernel_map s) - kpages s" "a = PAGE_ADDR (PAGE_IDX a)"
      "same_outside (kernel_map s) (kmem s) m" "used m (kernel_map s) = kpages s \<union> page_run a 1" by auto
  define D where "D = PAGE_IDX a"
  have D: "unat D \<in> bits_of (kernel_map s) - kpages s" using a(2) by (simp add: page_run_def D_def)
  let ?s1 = "s\<lparr>kmem := m\<rparr>"
  have "counters_apart s" using s(8) by (simp add: kernel_apart_def)
  note c = counters_kernel [OF this s(2) a(4)]
  have sp: "as_ok ?s1" "pde ?s1 = pde s" "mapped ?s1 = mapped s" "pte ?s1 = pte s" "cr3 ?s1 = cr3 s" using s(1) by simp_all
  have ut1: "user_tables ?s1 = user_tables s" by (simp add: user_tables_def)
  have po: "pages_ok ?s1" using pages_ok_cong [OF s(4) ut1] c(1) by simp
  have tl: "tables_live ?s1" using s(3) c(2) by (simp add: tables_live_def)
  have df: "data_frame ?s1 D" using s(8) D by (auto simp: data_frame_def kernel_apart_def D_def)
  have nf: "unat D \<notin> free_frames ?s1" using s(8) D c(2) by (auto simp: kernel_apart_def)
  define z where "z = new_directory (PAGE_ADDR D) (cr3 ?s1) ?s1"
  have room: "e_present (pde ?s1 0)" "mapped ?s1 0 0 = None" "cr3 ?s1 = PAGE_ADDR (PAGE_IDX (cr3 ?s1))" using s(5,6,12) by simp_all
  note n = new_directory_ready [OF sp(1) c(3) tl po room df nf, folded z_def]
  note d = differ_space [OF sp(1) df n(4)] and r = differ_rest [OF n(4)]
  have utz: "user_tables z = user_tables s"
  proof -
    have "pde z x = pde s x" if "x < 1023" for x using d(2) [of x] that by (simp add: word_less_nat_alt)
    then show ?thesis by (auto simp: user_tables_def)
  qed
  have fz: "free_frames z = free_frames s" "free_pages (mm z) = free_pages (mm s)" using r c(2) by simp_all
  have rm: "card (user_tables z) \<le> unat (free_pages (mm z))" using s(10) by (simp add: utz fz)
  from fork_tables [OF n(1) rm n(2)] obtain s' where
    loop: "forM [4 ..< 1023] (\<lambda>pde_idx s. do {
       let da = PAGE_ADDR D + 4 * of_nat pde_idx;
       if \<not> e_present (pmem s da) then Some s
       else do {
         let page_tbl = PDE_RECUR_MASK OR push_bit 12 (of_nat pde_idx);
         s \<leftarrow> share_table page_tbl s;
         (paddr, s) \<leftarrow> copy_page s page_tbl;
         Some (s\<lparr>pmem := (pmem s)(da := set_index (pmem s da) (PAGE_IDX paddr))\<rparr>) } }) z = Some s'" and
    f: "forked z D 1023 s'" by blast
  note F = forkedD [OF f]
  have "set_cr3 s' (t_page_dir (cur s')) = s'" using F(3-5) r d(1) s(11) by (simp add: set_cr3_def)
  moreover have "kalloc_page s 1 = Some (PAGE_ADDR D, ?s1)" using a(1,3) by (simp add: D_def)
  moreover have old: "cr3 ?s1 = t_page_dir (cur ?s1)" using s(11) by simp
  ultimately have run: "copy_pgdir s = Some (PAGE_ADDR D, s')"
    using loop unfolding z_def old new_directory_def copy_pgdir_def Let_def by (simp del: upt_rec_numeral)
  have "pte z x t = pte s x t" if "x \<in> user_tables s" "t < 1024" for x t
    using d(3) [of x t] that user_tables_bound [OF that(1)] by simp
  moreover have "\<forall>h. \<forall>i < 1024. unat h < 2 ^ 20 \<longrightarrow> h \<noteq> D \<longrightarrow> pmem z (word_of_frame h i) = pmem s (word_of_frame h i)"
    using n(4) by (simp add: differ_in_def)
  moreover have "kpages z = insert (unat D) (kpages s)"
    using r a(5) by (simp add: kpages_def kernel_map_def page_run_def D_def insert_commute)
  ultimately show ?thesis
    using run f n(1-3) d(1,2,4) r fz utz c(1) D
    by (intro exI [of _ D] exI [of _ z] exI [of _ s']) simp
qed

section \<open>The two address spaces\<close>

text \<open>What the new directory holds after the loop.\<close>

lemma child_directory:
  assumes f: "forked z D 1023 s" and z: "fork_ready D z" and own: "pmem z (word_of_frame D 1023) = page_entry_init D"
    and copied: "\<forall>d < 1023. pmem z (word_of_frame D d) = pde z d" and d: "d < 1024"
  defines "k \<equiv> set_cr3 s (PAGE_ADDR D)"
  shows "d = 1023 \<Longrightarrow> pde k d = page_entry_init D"
    "d \<in> user_tables z \<Longrightarrow> e_present (pde k d) \<and> unat (e_index (pde k d)) \<in> free_frames z - free_frames s \<and>
       (\<forall>t < 1024. pte k d t = read_only (pte z d t))"
    "d \<noteq> 1023 \<Longrightarrow> d \<notin> user_tables z \<Longrightarrow> pde k d = pde s d \<and> (\<forall>t. pte k d t = pte s d t)"
proof -
  have small: "unat D < 2 ^ 20" using z by (simp add: fork_ready_def data_frame_def)
  have p: "pde k x = pmem s (word_of_frame D x)" "pte k x t = pmem s (word_of_frame (e_index (pmem s (word_of_frame D x))) t)" for x t
    by (simp_all add: pde_def pte_def k_def set_cr3_def PAGE_IDX_ADDR [OF small])
  note F = forkedD [OF f]
  have n: "d \<in> user_tables z \<Longrightarrow> unat d < 1023" "d \<noteq> 1023 \<Longrightarrow> d < 1023"
    using d by (auto simp: user_tables_def word_less_nat_alt word_unat_eq_iff)
  show "pde k d = page_entry_init D" if "d = 1023"
    using F(12) [OF d] own that by (simp add: p user_tables_def)
  show "e_present (pde k d) \<and> unat (e_index (pde k d)) \<in> free_frames z - free_frames s \<and>
      (\<forall>t < 1024. pte k d t = read_only (pte z d t))" if "d \<in> user_tables z"
    using F(13-15) [OF that n(1) [OF that]] by (simp add: p)
  show "pde k d = pde s d \<and> (\<forall>t. pte k d t = pte s d t)" if "d \<noteq> 1023" "d \<notin> user_tables z"
    using F(6,12) [OF d] that copied n(2) by (simp add: p) (simp add: pte_def)
qed

lemma child_space:
  assumes f: "forked z D 1023 s" and z: "fork_ready D z" and own: "pmem z (word_of_frame D 1023) = page_entry_init D"
    and copied: "\<forall>d < 1023. pmem z (word_of_frame D d) = pde z d"
  defines "k \<equiv> set_cr3 s (PAGE_ADDR D)"
  shows "as_ok k" "\<And>d t. d < 1023 \<Longrightarrow> t < 1024 \<Longrightarrow> mapped k d t = mapped z d t"
proof -
  note C = child_directory [OF f z own copied, folded k_def] and F = forkedD [OF f]
  have z': "as_ok z" "tables_live z" "data_frame z D" "unat D \<notin> free_frames z" using z by (simp_all add: fork_ready_def)
  have small: "unat D < 2 ^ 20" using z'(3) by (simp add: data_frame_def)
  have cr: "PAGE_IDX (cr3 k) = D" by (simp add: k_def set_cr3_def PAGE_IDX_ADDR [OF small])
  have own': "pde k 1023 = page_entry_init D" using C(1) [of 1023] by simp
  have old: "pde k d = pde z d" "e_index (pde z d) \<noteq> D" "unat (e_index (pde z d)) \<notin> free_frames z"
    if "d < 1024" "d \<noteq> 1023" "d \<notin> user_tables z" "e_present (pde k d)" for d
  proof -
    show p: "pde k d = pde z d" using C(3) [OF that(1-3)] F(6) [OF that(1)] by simp
    then show "e_index (pde z d) \<noteq> D" "unat (e_index (pde z d)) \<notin> free_frames z"
      using that z'(2,3) by (auto simp: data_frame_def tables_live_def)
  qed
  show "as_ok k"
    unfolding as_ok_def cr
  proof (intro conjI allI impI)
    show "e_present (pde k 1023)" "e_index (pde k 1023) = D" using small by (simp_all add: own')
    fix d d' :: u32 assume h: "d < 1024" "d' < 1024" "e_present (pde k d)" "e_present (pde k d')" "e_index (pde k d) = e_index (pde k d')"
    have kinds: "x = 1023 \<and> e_index (pde k x) = D \<or> x \<in> user_tables z \<and> unat (e_index (pde k x)) \<in> free_frames z \<or>
        x \<noteq> 1023 \<and> x \<notin> user_tables z \<and> pde k x = pde z x \<and> e_index (pde k x) \<noteq> D \<and> unat (e_index (pde k x)) \<notin> free_frames z"
      if "x < 1024" "e_present (pde k x)" for x
    proof (cases "x = 1023")
      case True
      then show ?thesis using own' small by simp
    next
      case False
      note n = this
      show ?thesis
      proof (cases "x \<in> user_tables z")
        case True
        then show ?thesis using C(2) [OF that(1) True] by blast
      next
        case False
        then show ?thesis using old [OF that(1) n False that(2)] n by simp
      qed
    qed
    have two: "d = d'" if "d \<in> user_tables z" "d' \<in> user_tables z"
    proof -
      have "pde k x = pmem s (word_of_frame D x)" for x by (simp add: pde_def cr) (simp add: k_def set_cr3_def)
      moreover have "unat d < 1023" "unat d' < 1023" using that by (simp_all add: user_tables_def word_less_nat_alt)
      ultimately show ?thesis using F(16) [OF that] h(5) by simp
    qed
    show "d = d'"
      using kinds [OF h(1,3)] kinds [OF h(2,4)] two as_ok_inj [OF z'(1) h(1,2)] h z'(4) by metis
  qed
  show "mapped k d t = mapped z d t" if "d < 1023" "t < 1024" for d t
  proof (cases "d \<in> user_tables z")
    case True
    then show ?thesis using C(2) [OF user_tables_bound(1) [OF True] True] that(2) user_tables_bound(4) [OF True] by (simp add: mapped_def)
  next
    case False
    have d: "d < 1024" "d \<noteq> 1023" using that(1) by (auto simp: word_less_nat_alt)
    have "mapped k d t = mapped s d t" using C(3) [OF d False] by (simp add: mapped_def)
    then show ?thesis using F(7) [OF d(1) that(2)] by simp
  qed
qed

section \<open>Properties\<close>


text \<open>A write fault of the forked task's parent.\<close>

lemma cr2_simps [simp]:
  "pde (s\<lparr>cr2 := v\<rparr>) = pde s" "pte (s\<lparr>cr2 := v\<rparr>) = pte s" "mapped (s\<lparr>cr2 := v\<rparr>) = mapped s" "as_ok (s\<lparr>cr2 := v\<rparr>) = as_ok s"
  "mmap_at (s\<lparr>cr2 := v\<rparr>) = mmap_at s" "free_frames (s\<lparr>cr2 := v\<rparr>) = free_frames s" "mm_ok (s\<lparr>cr2 := v\<rparr>) = mm_ok s"
  "tables_live (s\<lparr>cr2 := v\<rparr>) = tables_live s" "data_frame (s\<lparr>cr2 := v\<rparr>) = data_frame s"
proof -
  show sp: "pde (s\<lparr>cr2 := v\<rparr>) = pde s" "pte (s\<lparr>cr2 := v\<rparr>) = pte s" "mapped (s\<lparr>cr2 := v\<rparr>) = mapped s" "as_ok (s\<lparr>cr2 := v\<rparr>) = as_ok s"
    by (intro same_space; simp)+
  show m: "mmap_at (s\<lparr>cr2 := v\<rparr>) = mmap_at s" by (simp add: mmap_at_def fun_eq_iff)
  then show ff: "free_frames (s\<lparr>cr2 := v\<rparr>) = free_frames s" by (simp add: free_frames_def managed_def frefs_def)
  then show "mm_ok (s\<lparr>cr2 := v\<rparr>) = mm_ok s" "tables_live (s\<lparr>cr2 := v\<rparr>) = tables_live s" "data_frame (s\<lparr>cr2 := v\<rparr>) = data_frame s"
    by (simp_all add: mm_ok_def tables_live_def data_frame_def fun_eq_iff sp)
qed

lemma user_in_tables:
  assumes "KERNEL_MEMORY_SIZE \<le> v" "v < USER_STACK_TOP" "mapped s (PDE_IDX v) t = Some g"
  shows "PDE_IDX v \<in> user_tables s"
proof -
  have "16777216 \<le> unat v" using assms(1) by (simp add: user_layout word_le_nat_alt)
  then have "4 \<le> PDE_IDX v" by (simp add: word_le_nat_alt unat_idx)
  then show ?thesis using user_pde(1) [OF assms(1,2)] assms(3) by (auto simp: user_tables_def mapped_def split: if_splits)
qed

text \<open>A page of the parent after the fork.\<close>

lemma forked_page:
  assumes f: "forked z D 1023 s" and z: "fork_ready D z" and d: "d \<in> user_tables z" and t: "t < 1024"
    and g: "mapped z d t = Some g" "data_frame z g" "g \<noteq> D"
  shows "unat g \<notin> free_frames z" "mmap_at s g = mmap_at z g + 1" "0 < mmap_at s g" "mmap_at s g \<noteq> 1" "data_frame s g"
    "i < 1024 \<Longrightarrow> pmem s (word_of_frame g i) = pmem z (word_of_frame g i)"
proof -
  note F = forkedD [OF f]
  have "pages_ok z" using z by (simp add: fork_ready_def)
  then have g1: "0 < mmap_at z g" "mmap_at z g < 254" using d t g(1) unfolding pages_ok_def by blast+
  show gf: "unat g \<notin> free_frames z" by (rule used_not_free [OF g1(1)])
  have "unat d < 1023" using d by (simp add: user_tables_def word_less_nat_alt)
  then have "\<exists>x \<in> user_tables z. unat x < 1023 \<and> (\<exists>t < 1024. mapped z x t = Some g)" using d t g(1) by blast
  then show c: "mmap_at s g = mmap_at z g + 1" using F(11) [OF gf] by simp
  show "0 < mmap_at s g" "mmap_at s g \<noteq> 1" using g1 counter_up [OF g1(2)] c by (auto simp: word_gt_0)
  show "data_frame s g" using g(2) F(6) by (simp add: data_frame_def)
  show "i < 1024 \<Longrightarrow> pmem s (word_of_frame g i) = pmem z (word_of_frame g i)" using F(17) [OF _ g(2) gf g(3)] .
qed

text \<open>A change that keeps the frames in use outside the parent's tables keeps the child's user pages.\<close>

lemma child_keeps:
  assumes f: "forked z D 1023 s" and z: "fork_ready D z" and own: "pmem z (word_of_frame D 1023) = page_entry_init D"
    and copied: "\<forall>d < 1023. pmem z (word_of_frame D d) = pde z d" and x: "x \<in> user_tables z" "t < 1024"
    and keep: "\<And>h i. i < 1024 \<Longrightarrow> unat h < 2 ^ 20 \<Longrightarrow> data_frame z h \<or> unat h \<in> free_frames z \<Longrightarrow> unat h \<notin> free_frames s \<Longrightarrow>
       pmem s' (word_of_frame h i) = pmem s (word_of_frame h i)"
  shows "mapped (set_cr3 s' (PAGE_ADDR D)) x t = mapped z x t"
proof -
  have D: "data_frame z D" "unat D \<notin> free_frames z" using z by (simp_all add: fork_ready_def)
  then have small: "unat D < 2 ^ 20" by (simp add: data_frame_def)
  note F = forkedD [OF f] and b = user_tables_bound [OF x(1)]
  let ?w = "pmem s (word_of_frame D x)"
  have "unat x < 1023" using x(1) by (simp add: user_tables_def word_less_nat_alt)
  then have "pmem s' (word_of_frame (e_index ?w) t) = pmem s (word_of_frame (e_index ?w) t)"
    using keep [OF x(2)] F(14) [OF x(1)] by simp
  moreover have "pmem s' (word_of_frame D x) = ?w" using keep [OF b(1) small] D F(9) by blast
  ultimately have "mapped (set_cr3 s' (PAGE_ADDR D)) x t = mapped (set_cr3 s (PAGE_ADDR D)) x t"
    by (simp add: mapped_def pde_def pte_def set_cr3_def PAGE_IDX_ADDR [OF small])
  also have "\<dots> = mapped z x t" by (rule child_space(2) [OF f z own copied b(3) x(2)])
  finally show ?thesis .
qed


text \<open>The address space of \<open>sample_as\<close>, of a task whose directory is the current one.\<close>

definition sample_fork :: kstate where
  "sample_fork = sample_as\<lparr>tcbs := (\<lambda>_. zero_tcb\<lparr>t_vmap := 0x30000, t_uid := USER_TASK, t_page_dir := 0x1000\<rparr>)\<rparr>"

lemma sample_fork_ok: "can_fork sample_fork" "user_tables sample_fork = {4}" "mapped sample_fork 4 0 = Some 10"
  "data_frame sample_fork 10" "free_frames sample_fork = {11, 12}" "mmap_at sample_fork 10 = 2" "free_pages (mm sample_fork) = 2"
proof -
  let ?s = sample_fork
  have sp: "pde ?s = pde sample_as" "pte ?s = pte sample_as" "mapped ?s = mapped sample_as" "as_ok ?s = as_ok sample_as"
    by (intro same_space; simp add: sample_fork_def)+
  have c: "mmap_at ?s = mmap_at sample_as" by (simp add: mmap_at_def fun_eq_iff sample_fork_def)
  then have ff: "free_frames ?s = free_frames sample_as" by (simp add: free_frames_def managed_def frefs_def sample_fork_def)
  then show free: "free_frames ?s = {11, 12}" by (simp add: sample_as_ok)
  have mm: "mm_ok ?s" "tables_live ?s"
    using sample_as_ok(2,3) ff by (simp_all add: mm_ok_def tables_live_def sp) (simp_all add: sample_fork_def)
  have u: "x = 4" if "x \<in> user_tables ?s" for x
    using that sample_as_pde [of x] by (auto simp: user_tables_def sp word_less_nat_alt split: if_splits)
  show ut: "user_tables ?s = {4}"
    using u by (auto simp: user_tables_def sp sample_as_pde)
  have m: "mapped ?s 4 t = (if t = 0 then Some 10 else None)" if "t < 1024" for t
    using sample_as_pte(1) [OF that] sample_as_pde [of 4] by (simp add: mapped_def sp split: if_splits)
  then show "mapped ?s 4 0 = Some 10" by simp
  show "data_frame ?s 10" by (auto simp: data_frame_def sp sample_as_pde)
  show n: "mmap_at ?s 10 = 2" by (simp add: c) (simp add: mmap_at_def sample_as_def)
  show fp: "free_pages (mm ?s) = 2" by (simp add: sample_fork_def sample_as_def)
  have po: "pages_ok ?s" by (auto simp: pages_ok_def ut m n split: if_splits)
  have m0: "mapped ?s 0 0 = None" "e_present (pde ?s 0)" by (simp_all add: mapped_def sp sample_as_pte sample_as_pde)
  have k: "kernel_map ?s = bitmap_new 0x40000 0x1000 4096" by (simp add: kernel_map_def sample_fork_def sample_as_def)
  have bits: "bits_of (kernel_map ?s) = {4096 ..< 36864}" by (simp add: k bits_of_def bitmap_new_def)
  have bok: "bitmap_ok (kernel_map ?s)" unfolding k by (rule bitmap_new_ok) simp
  have buf: "in_buffer (kernel_map ?s) a \<longleftrightarrow> unat (a - 0x40000) < 4096" for a
    by (simp add: k in_buffer_def in_range_def bitmap_new_def)
  have "kmem ?s = (\<lambda>a. if a = 0x10000a then 2 else 0)" by (simp add: sample_fork_def sample_as_def)
  then have "kpages ?s = used (\<lambda>_. 0) (kernel_map ?s)"
    unfolding kpages_def by (intro used_cong [OF bok]) (auto simp: buf)
  then have kp: "kpages ?s = {}" by (simp add: sample_used)
  have "\<not> in_buffer (kernel_map ?s) (memory_map (mm ?s) + i)" if "unat i < 2 ^ 20" for i
  proof -
    have "memory_map (mm ?s) + i - 0x40000 = 0xc0000 + i" by (simp add: sample_fork_def sample_as_def)
    moreover have "unat (0xc0000 + i) = 0xc0000 + unat i" using that by (subst unat_plus_noof) simp_all
    ultimately show ?thesis by (simp add: buf)
  qed
  moreover have "unat (e_index (pde ?s x)) \<notin> {4096 ..< 36864}" if "e_present (pde ?s x)" "x < 1024" for x
    using that by (auto simp: sp sample_as_pde split: if_splits)
  moreover have "(10 :: nat) \<notin> {4096 ..< 36864}" "(11 :: nat) \<notin> {4096 ..< 36864}" "(12 :: nat) \<notin> {4096 ..< 36864}" by simp_all
  ultimately have ka: "kernel_apart ?s"
    unfolding kernel_apart_def counters_apart_def bits kp ut free Diff_empty by (auto simp: m simp del: atLeastLessThan_iff split: if_splits)
  have cr: "cr3 ?s = 0x1000" "t_page_dir (cur ?s) = 0x1000" by (simp_all add: sample_fork_def sample_as_def)
  have ko: "kmap_ok ?s" unfolding kmap_ok_def bits using bok by auto
  show "can_fork ?s"
    unfolding can_fork_def cr ut fp using mm po m0 ko ka sample_as_ok(1) bits kp
    by (simp add: sp PAGE_ADDR_def PAGE_IDX_def)
qed



end
