(* ===== verification/Exit.thy ===== *)
theory Exit
  imports Fork
begin

text \<open>
  What \<^verbatim>\<open>free_pgdir\<close> of \<^verbatim>\<open>kernel/memory.c\<close> gives back when a task exits: one reference of the frame of every user page, the frames of
  the page tables and the page of the directory. Together with \<open>Fork\<close>: a forked task that exits leaves no trace in the allocators.
\<close>

section \<open>Giving back frames\<close>

definition free_all :: "u32 list \<Rightarrow> kstate \<Rightarrow> kstate option" where
  "free_all L = forM L (\<lambda>g s. free_page s (PAGE_ADDR g))"

text \<open>The address space and the current task are the same.\<close>

definition view_kept :: "kstate \<Rightarrow> kstate \<Rightarrow> bool" where
  "view_kept s s' \<longleftrightarrow> pmem s' = pmem s \<and> cr3 s' = cr3 s \<and> tcbs s' = tcbs s \<and> current s' = current s"

lemma view_kept_refl: "view_kept s s" by (simp add: view_kept_def)

lemma view_kept_trans: "view_kept s s' \<Longrightarrow> view_kept s' s'' \<Longrightarrow> view_kept s s''" by (simp add: view_kept_def)

lemma view_keptD:
  assumes "view_kept s s'"
  shows "pde s' = pde s" "pte s' = pte s" "mapped s' = mapped s" "as_ok s' = as_ok s" "cur s' = cur s"
proof -
  have "pmem s' = pmem s" "cr3 s' = cr3 s" using assms by (simp_all add: view_kept_def)
  from same_space [OF this] show "pde s' = pde s" "pte s' = pte s" "mapped s' = mapped s" "as_ok s' = as_ok s" by simp_all
  show "cur s' = cur s" using assms by (simp add: view_kept_def)
qed

lemma only_counters_free: "only_counters s s' \<Longrightarrow> only_counters s (set_free_pages s' n)"
  by (simp add: only_counters_def) (simp add: set_free_pages_def)

lemma free_page_rest:
  assumes "free_page s p = Some s'"
  shows "only_counters s s'" "view_kept s s'"
  using assms only_counters_set(1) [OF only_counters_refl PAGE_IDX_small(1)]
  by (auto simp: free_page_def Let_def view_kept_def only_counters_free split: if_splits)

lemma free_all_law:
  assumes "mm_ok s" "\<forall>f \<in> set L. unat f \<in> managed s" "\<forall>f. count_list L f \<le> frefs s (unat f)"
  shows "\<exists>s'. free_all L s = Some s' \<and> mm_ok s' \<and> only_counters s s' \<and> view_kept s s' \<and>
    (\<forall>f. frefs s' (unat f) = frefs s (unat f) - count_list L f)"
  using assms
proof (induction L arbitrary: s)
  case Nil
  then show ?case by (simp add: free_all_def only_counters_refl view_kept_refl)
next
  case (Cons f L)
  have f: "unat f \<in> managed s" "0 < frefs s (unat f)" using Cons.prems(2) spec [OF Cons.prems(3), of f] by simp_all
  from free_page_law [OF Cons.prems(1) f] obtain s1 where
    s1: "free_page s (PAGE_ADDR f) = Some s1" "mm_ok s1" "managed s1 = managed s"
      "\<forall>j < 2 ^ 32. frefs s1 j = (if j = unat f then frefs s j - 1 else frefs s j)" by blast
  have r: "frefs s1 (unat g) = (if g = f then frefs s (unat g) - 1 else frefs s (unat g))" for g
    using s1(4) unat_u32(1) [of g] by (simp add: word_unat_eq_iff)
  have c: "count_list L g \<le> frefs s1 (unat g)" for g
    using spec [OF Cons.prems(3), of g] r [of g] by (auto split: if_splits)
  from Cons.IH [OF s1(2)] Cons.prems(2) s1(3) c obtain s' where
    s': "free_all L s1 = Some s'" "mm_ok s'" "only_counters s1 s'" "view_kept s1 s'"
      "\<forall>g. frefs s' (unat g) = frefs s1 (unat g) - count_list L g" by auto
  have "frefs s' (unat g) = frefs s (unat g) - count_list (f # L) g" for g
    using s'(5) r [of g] by simp
  then show ?case
    using s1(1) s'(1,2) only_counters_trans [OF free_page_rest(1) [OF s1(1)] s'(3)] view_kept_trans [OF free_page_rest(2) [OF s1(1)] s'(4)]
    by (simp add: free_all_def)
qed

section \<open>The loops of free_pgdir\<close>

definition user_slots :: "u32 list" where "user_slots = map of_nat [4 ..< 1023]"

definition table_slots :: "u32 list" where "table_slots = map of_nat [0 ..< 1024]"

lemma slots: "set user_slots = {d. 4 \<le> d \<and> d < 1023}" "distinct user_slots" "set table_slots = {t. t < 1024}" "distinct table_slots"
proof -
  have u: "unat (of_nat n :: u32) = n" if "n < 1024" for n using that by (simp add: unat_of_nat)
  have s: "set (map of_nat [a ..< b] :: u32 list) = {d. a \<le> unat d \<and> unat d < b}" "distinct (map of_nat [a ..< b] :: u32 list)" if "b \<le> 1024" for a b
  proof -
    show "set (map of_nat [a ..< b] :: u32 list) = {d. a \<le> unat d \<and> unat d < b}"
    proof (intro set_eqI iffI)
      fix d :: u32 assume "d \<in> {d. a \<le> unat d \<and> unat d < b}"
      then show "d \<in> set (map of_nat [a ..< b])" by (auto intro: image_eqI [of _ _ "unat d"])
    qed (use u that in auto)
    show "distinct (map of_nat [a ..< b] :: u32 list)"
      unfolding distinct_map by (intro conjI inj_onI distinct_upt) (use u that in \<open>metis atLeastLessThan_iff less_le_trans set_upt\<close>)
  qed
  show "set user_slots = {d. 4 \<le> d \<and> d < 1023}" "distinct user_slots"
    unfolding user_slots_def using s [of 1023 4] by (simp_all add: word_le_nat_alt word_less_nat_alt del: upt_rec_numeral)
  show "set table_slots = {t. t < 1024}" "distinct table_slots"
    unfolding table_slots_def using s [of 1024 0] by (simp_all add: word_less_nat_alt del: upt_rec_numeral)
qed

text \<open>The frames that the entries of table \<open>d\<close> and its directory entry refer to.\<close>

definition table_frames :: "kstate \<Rightarrow> u32 \<Rightarrow> u32 list" where
  "table_frames s d = (if e_present (pde s d)
     then map (\<lambda>t. e_index (pte s d t)) (filter (\<lambda>t. e_present (pte s d t)) table_slots) @ [e_index (pde s d)] else [])"

definition space_frames :: "kstate \<Rightarrow> u32 list" where
  "space_frames s = concat (map (table_frames s) user_slots)"

lemma free_all_append: "free_all (L @ M) s = Option.bind (free_all L s) (free_all M)"
  by (simp add: free_all_def forM_append)

lemma free_all_one: "free_all [g] = (\<lambda>s. free_page s (PAGE_ADDR g))"
proof
  show "free_all [g] s = free_page s (PAGE_ADDR g)" for s by (cases "free_page s (PAGE_ADDR g)") (simp_all add: free_all_def)
qed

lemma table_loop:
  assumes "as_ok s" "d < 1024" "e_present (pde s d)" and "view_kept s s1" "\<forall>n \<in> set ns. n < 1024"
  shows "forM ns (\<lambda>n s. do {
       pte \<leftarrow> vload s ((PDE_RECUR_MASK OR push_bit 12 d) + 4 * of_nat n);
       if \<not> e_present pte then Some s else free_page s (PAGE_ADDR (e_index pte)) }) s1 =
     free_all (map (\<lambda>t. e_index (pte s d t)) (filter (\<lambda>t. e_present (pte s d t)) (map of_nat ns))) s1"
  using assms(4,5)
proof (induction ns arbitrary: s1)
  case Nil
  then show ?case by (simp add: free_all_def)
next
  case (Cons n ns)
  note v = view_keptD [OF Cons.prems(1)]
  have n: "(of_nat n :: u32) < 1024" using Cons.prems(2) by (simp add: word_less_nat_alt unat_of_nat)
  have ld: "vload s1 (window d (of_nat n)) = Some (pte s d (of_nat n))"
    using vload_window [of s1 d "of_nat n"] assms(1-3) n v by simp
  have ih: "view_kept s s2 \<Longrightarrow> forM ns (\<lambda>n s. do {
       pte \<leftarrow> vload s (window d (of_nat n));
       if \<not> e_present pte then Some s else free_page s (PAGE_ADDR (e_index pte)) }) s2 =
     free_all (map (\<lambda>t. e_index (pte s d t)) (filter (\<lambda>t. e_present (pte s d t)) (map of_nat ns))) s2" for s2
    using Cons.IH [of s2] Cons.prems(2) by (simp add: window_entry)
  show ?case
  proof (cases "e_present (pte s d (of_nat n))")
    case True
    show ?thesis
    proof (cases "free_page s1 (PAGE_ADDR (e_index (pte s d (of_nat n))))")
      case None
      then show ?thesis using True ld by (simp add: window_entry free_all_def)
    next
      case (Some s2)
      then show ?thesis
        using True ld ih [OF view_kept_trans [OF Cons.prems(1) free_page_rest(2) [OF Some]]] by (simp add: window_entry free_all_def)
    qed
  next
    case False
    then show ?thesis using ld ih [OF Cons.prems(1)] by (simp add: window_entry free_all_def)
  qed
qed

lemma free_all_view: "free_all L s = Some s' \<Longrightarrow> view_kept s s'"
  unfolding free_all_def
  by (erule forM_invariant [where P = "view_kept s"]) (auto intro: view_kept_refl view_kept_trans free_page_rest(2))

text \<open>Both loops of \<open>free_pgdir\<close> give back one list of frames, as no page table is written.\<close>

lemma space_loop:
  assumes "as_ok s" and "view_kept s s1" "\<forall>n \<in> set ns. n < 1024" and dir: "dir = PAGE_ADDR (PAGE_IDX (cr3 s))"
  shows "forM ns (\<lambda>n s. do {
       let da = dir + 4 * of_nat n;
       if \<not> e_present (pmem s da) then Some s
       else do {
         let page_tbl = PDE_RECUR_MASK OR push_bit 12 (of_nat n);
         s \<leftarrow> forM [0 ..< 1024] (\<lambda>n s. do {
           pte \<leftarrow> vload s (page_tbl + 4 * of_nat n);
           if \<not> e_present pte then Some s else free_page s (PAGE_ADDR (e_index pte)) }) s;
         free_page s (PAGE_ADDR (e_index (pmem s da))) } }) s1 =
     free_all (concat (map (table_frames s) (map of_nat ns))) s1"
  (is "forM ns ?f s1 = _")
  using assms(2,3)
proof (induction ns arbitrary: s1)
  case Nil
  then show ?case by (simp add: free_all_def)
next
  case (Cons n ns)
  note v = view_keptD [OF Cons.prems(1)]
  let ?d = "of_nat n :: u32"
  have n: "?d < 1024" using Cons.prems(2) by (simp add: word_less_nat_alt unat_of_nat)
  have da: "dir + 4 * ?d = word_of_frame (PAGE_IDX (cr3 s)) ?d" by (simp add: word_of_frame_def dir)
  have w: "pmem x (word_of_frame (PAGE_IDX (cr3 s)) ?d) = pde s ?d" if "view_kept s x" for x
    using that by (simp add: pde_def view_kept_def)
  have body: "?f n s1 = free_all (table_frames s ?d) s1"
  proof (cases "e_present (pde s ?d)")
    case True
    let ?L = "map (\<lambda>t. e_index (pte s ?d t)) (filter (\<lambda>t. e_present (pte s ?d t)) table_slots)"
    have "?f n s1 = Option.bind (free_all ?L s1) (\<lambda>x. free_page x (PAGE_ADDR (e_index (pmem x (word_of_frame (PAGE_IDX (cr3 s)) ?d)))))"
      unfolding Let_def da w [OF Cons.prems(1)] using True table_loop [OF assms(1) n True Cons.prems(1), of "[0 ..< 1024]"]
      by (simp del: upt_rec_numeral add: table_slots_def)
    also have "\<dots> = Option.bind (free_all ?L s1) (\<lambda>x. free_page x (PAGE_ADDR (e_index (pde s ?d))))"
      using w [OF view_kept_trans [OF Cons.prems(1) free_all_view]] by (auto split: Option.bind_splits)
    also have "\<dots> = Option.bind (free_all ?L s1) (free_all [e_index (pde s ?d)])" by (simp add: free_all_one)
    finally show ?thesis using True by (simp add: table_frames_def free_all_append)
  next
    case False
    then show ?thesis unfolding Let_def da w [OF Cons.prems(1)] by (simp add: table_frames_def free_all_def)
  qed
  have "forM ns ?f s2 = free_all (concat (map (table_frames s) (map of_nat ns))) s2" if "free_all (table_frames s ?d) s1 = Some s2" for s2
    using Cons.IH [OF view_kept_trans [OF Cons.prems(1) free_all_view [OF that]]] Cons.prems(2) by simp
  then show ?case
    unfolding forM.simps(2) body by (auto simp del: upt_rec_numeral simp: free_all_append split: Option.bind_splits)
qed

lemma free_pgdir_eq:
  assumes "as_ok s" and "t_page_dir (cur s) = cr3 s" "cr3 s = PAGE_ADDR (PAGE_IDX (cr3 s))"
  shows "free_pgdir s = do { s' \<leftarrow> free_all (space_frames s) s; kfree_page s' (cr3 s) 1 }"
proof -
  let ?g = "\<lambda>dir n s. do {
       let da = dir + 4 * of_nat n;
       if \<not> e_present (pmem s da) then Some s
       else do {
         let page_tbl = PDE_RECUR_MASK OR push_bit 12 (of_nat n);
         s \<leftarrow> forM [0 ..< 1024] (\<lambda>n s. do {
           pte \<leftarrow> vload s (page_tbl + 4 * of_nat n);
           if \<not> e_present pte then Some s else free_page s (PAGE_ADDR (e_index pte)) }) s;
         free_page s (PAGE_ADDR (e_index (pmem s da))) } }"
  have "forM [4 ..< 1023] (?g (cr3 s)) s = free_all (space_frames s) s"
    unfolding space_frames_def user_slots_def by (rule space_loop [OF assms(1) view_kept_refl _ assms(3)]) (simp del: upt_rec_numeral)
  then show ?thesis unfolding free_pgdir_def assms(2) Let_def by (simp del: upt_rec_numeral)
qed

text \<open>Each reference of the address space is given back, and the page of the directory.\<close>

lemma only_counters_map:
  assumes "only_counters s s'" "counters_apart s" "kmap_ok s"
  shows "kernel_map s' = kernel_map s" "kpages s' = kpages s" "kmap_ok s'" "counters_apart s'" "managed s' = managed s"
proof -
  show m: "kernel_map s' = kernel_map s" "managed s' = managed s" using assms(1) by (simp_all add: only_counters_def kernel_map_def)
  have "kmem s' a = kmem s a" if "in_buffer (kernel_map s) a" for a
  proof -
    have "\<forall>i. unat i < 2 ^ 20 \<longrightarrow> a \<noteq> memory_map (mm s) + i" using that assms(2) by (auto simp: counters_apart_def)
    then show ?thesis using assms(1) by (simp add: only_counters_def)
  qed
  moreover have "bitmap_ok (kernel_map s)" using assms(3) by (simp add: kmap_ok_def)
  ultimately show "kpages s' = kpages s" unfolding kpages_def m by (rule used_cong [rotated])
  show "kmap_ok s'" using assms(3) m by (simp add: kmap_ok_def)
  show "counters_apart s'" using assms(1,2) m by (simp add: counters_apart_def only_counters_def)
qed

lemma free_pgdir_law:
  assumes s: "as_ok s" "mm_ok s" "t_page_dir (cur s) = cr3 s" "cr3 s = PAGE_ADDR (PAGE_IDX (cr3 s))"
    and k: "kmap_ok s" "counters_apart s" "unat (PAGE_IDX (cr3 s)) \<in> kpages s"
    and refs: "\<forall>f \<in> set (space_frames s). unat f \<in> managed s" "\<forall>f. count_list (space_frames s) f \<le> frefs s (unat f)"
  shows "\<exists>s'. free_pgdir s = Some s' \<and> mm_ok s' \<and> view_kept s s' \<and> managed s' = managed s \<and>
    (\<forall>f. unat f < 2 ^ 20 \<longrightarrow> frefs s' (unat f) = frefs s (unat f) - count_list (space_frames s) f) \<and>
    kpages s' = kpages s - {unat (PAGE_IDX (cr3 s))}"
proof -
  from free_all_law [OF s(2) refs] obtain s1 where
    s1: "free_all (space_frames s) s = Some s1" "mm_ok s1" "only_counters s s1" "view_kept s s1"
      "\<forall>f. frefs s1 (unat f) = frefs s (unat f) - count_list (space_frames s) f" by blast
  note m = only_counters_map [OF s1(3) k(2,1)]
  have "page_run (cr3 s) 1 \<subseteq> kpages s1" using k(3) m(2) by (simp add: page_run_def)
  from kfree_page_law [OF m(3) _ this] obtain w where
    w: "kfree_page s1 (cr3 s) 1 = Some (s1\<lparr>kmem := w\<rparr>)" "used w (kernel_map s1) = kpages s1 - page_run (cr3 s) 1"
      "same_outside (kernel_map s1) (kmem s1) w" by auto
  let ?s = "s1\<lparr>kmem := w\<rparr>"
  note c = counters_kernel [OF m(4) s1(2) w(3)]
  have run: "free_pgdir s = Some ?s" using free_pgdir_eq [OF s(1,3,4)] s1(1) w(1) by simp
  have v: "view_kept s ?s" using s1(4) by (simp add: view_kept_def)
  have mg: "managed ?s = managed s" using m(5) by (simp add: managed_def)
  have kp: "kpages ?s = kpages s - {unat (PAGE_IDX (cr3 s))}"
    using w(2) m(1,2) by (simp add: kpages_def kernel_map_def page_run_def)
  have rf: "frefs ?s (unat f) = frefs s (unat f) - count_list (space_frames s) f" if "unat f < 2 ^ 20" for f
    using c(1) [OF that] s1(5) by (simp add: frefs_def)
  show ?thesis using run c(3) v mg kp rf by blast
qed

section \<open>The frames of an address space\<close>

lemma set_space_frames:
  "g \<in> set (space_frames s) \<longleftrightarrow> (\<exists>d \<in> user_tables s. (\<exists>t < 1024. mapped s d t = Some g) \<or> e_index (pde s d) = g)"
proof -
  have "g \<in> set (table_frames s d) \<longleftrightarrow> e_present (pde s d) \<and> ((\<exists>t < 1024. mapped s d t = Some g) \<or> e_index (pde s d) = g)" for d
    by (auto simp: table_frames_def slots mapped_def split: if_splits)
  then show ?thesis by (auto simp: space_frames_def slots user_tables_def)
qed

lemma distinct_count_list: "distinct xs \<Longrightarrow> count_list xs x = (if x \<in> set xs then 1 else 0)"
  by (induction xs) auto

lemma distinct_concat_map:
  assumes "distinct xs" "\<And>x. x \<in> set xs \<Longrightarrow> distinct (f x)" "\<And>x y. x \<in> set xs \<Longrightarrow> y \<in> set xs \<Longrightarrow> x \<noteq> y \<Longrightarrow> set (f x) \<inter> set (f y) = {}"
  shows "distinct (concat (map f xs))"
  using assms by (induction xs) auto

text \<open>No frame is used twice.\<close>

lemma distinct_space_frames:
  assumes once: "\<And>d d' t t' g. d \<in> user_tables s \<Longrightarrow> d' \<in> user_tables s \<Longrightarrow> t < 1024 \<Longrightarrow> t' < 1024 \<Longrightarrow>
      mapped s d t = Some g \<Longrightarrow> mapped s d' t' = Some g \<Longrightarrow> d = d' \<and> t = t'"
    and tables: "as_ok s" "\<And>d d' t. d \<in> user_tables s \<Longrightarrow> d' \<in> user_tables s \<Longrightarrow> t < 1024 \<Longrightarrow> mapped s d t \<noteq> Some (e_index (pde s d'))"
  shows "distinct (space_frames s)"
proof -
  have el: "g \<in> set (table_frames s d) \<Longrightarrow> d \<in> set user_slots \<Longrightarrow> d \<in> user_tables s \<and> ((\<exists>t < 1024. mapped s d t = Some g) \<or> e_index (pde s d) = g)" for d g
    by (auto simp: table_frames_def slots mapped_def user_tables_def split: if_splits)
  show ?thesis
    unfolding space_frames_def
  proof (rule distinct_concat_map [OF slots(2)])
    fix d assume d: "d \<in> set user_slots"
    show "distinct (table_frames s d)"
    proof (cases "e_present (pde s d)")
      case True
      then have u: "d \<in> user_tables s" using d by (simp add: slots user_tables_def)
      have m: "mapped s d t = Some (e_index (pte s d t))" if "e_present (pte s d t)" for t using True that by (simp add: mapped_def)
      have "inj_on (\<lambda>t. e_index (pte s d t)) {t. t < 1024 \<and> e_present (pte s d t)}"
      proof (rule inj_onI)
        fix t t' assume h: "t \<in> {t. t < 1024 \<and> e_present (pte s d t)}" "t' \<in> {t. t < 1024 \<and> e_present (pte s d t)}"
          "e_index (pte s d t) = e_index (pte s d t')"
        then show "t = t'" using once [OF u u _ _ m [of t], of t'] m [of t'] by auto
      qed
      moreover have "e_index (pde s d) \<noteq> e_index (pte s d t)" if "t < 1024" "e_present (pte s d t)" for t
        using tables(2) [OF u u that(1)] m [OF that(2)] by auto
      ultimately show ?thesis using True by (auto simp: table_frames_def distinct_map slots)
    qed (simp add: table_frames_def)
  next
    fix d d' assume d: "d \<in> set user_slots" "d' \<in> set user_slots" "d \<noteq> d'"
    show "set (table_frames s d) \<inter> set (table_frames s d') = {}"
    proof (intro equals0I)
      fix g assume "g \<in> set (table_frames s d) \<inter> set (table_frames s d')"
      then have g: "d \<in> user_tables s" "(\<exists>t < 1024. mapped s d t = Some g) \<or> e_index (pde s d) = g"
        "d' \<in> user_tables s" "(\<exists>t < 1024. mapped s d' t = Some g) \<or> e_index (pde s d') = g"
        using el [of g d] el [of g d'] d by auto
      note b = user_tables_bound [OF g(1)] user_tables_bound [OF g(3)]
      show False
        using g(2,4) once [OF g(1,3)] tables(2) [OF g(1,3)] tables(2) [OF g(3,1)] as_ok_inj [OF tables(1) b(1,5,4,8)] d(3) by metis
    qed
  qed
qed

section \<open>After a fork\<close>

lemma fork_takes:
  assumes f: "forked z D 1023 s" and z: "mm_ok z"
  shows "free_frames z = free_frames s \<union> (\<lambda>d. unat (e_index (pmem s (word_of_frame D d)))) ` user_tables z" (is "_ = _ \<union> ?T")
proof -
  note F = forkedD [OF f]
  have n: "unat d < 1023" if "d \<in> user_tables z" for d using that by (simp add: user_tables_def word_less_nat_alt)
  then have all: "{d \<in> user_tables z. unat d < 1023} = user_tables z" by auto
  have "inj_on (\<lambda>d. unat (e_index (pmem s (word_of_frame D d)))) (user_tables z)"
  proof (rule inj_onI)
    fix x y assume x: "x \<in> user_tables z" "y \<in> user_tables z"
      "unat (e_index (pmem s (word_of_frame D x))) = unat (e_index (pmem s (word_of_frame D y)))"
    from x(3) have "e_index (pmem s (word_of_frame D x)) = e_index (pmem s (word_of_frame D y))" by (simp only: word_unat_eq_iff)
    then show "x = y" by (rule F(16) [OF x(1,2) n [OF x(1)] n [OF x(2)]])
  qed
  then have c: "card ?T = card (user_tables z)" by (rule card_image)
  have sub: "?T \<subseteq> free_frames z - free_frames s" using F(14) n by auto
  then have "card (free_frames s \<union> ?T) = card (free_frames s) + card ?T"
    by (intro card_Un_disjoint finite_subset [OF sub]) auto
  also have "\<dots> = card (free_frames z)" using F(2,10) z all c by (simp add: mm_ok_def)
  finally have "card (free_frames s \<union> ?T) = card (free_frames z)" .
  then show ?thesis using sub F(9) by (intro card_subset_eq [symmetric] finite_free_frames) auto
qed

text \<open>The child runs in the new address space.\<close>

definition child_of :: "addr \<Rightarrow> addr \<Rightarrow> (addr \<Rightarrow> tcb) \<Rightarrow> kstate \<Rightarrow> kstate" where
  "child_of dir c ts s = (set_cr3 s dir)\<lparr>current := c, tcbs := ts\<rparr>"

lemma child_of_view:
  "pde (child_of dir c ts s) = pde (set_cr3 s dir)" "pte (child_of dir c ts s) = pte (set_cr3 s dir)"
  "mapped (child_of dir c ts s) = mapped (set_cr3 s dir)" "as_ok (child_of dir c ts s) = as_ok (set_cr3 s dir)"
  by (rule same_space; simp add: child_of_def)+

lemma child_of_counters:
  "mmap_at (child_of dir c ts s) = mmap_at s" "managed (child_of dir c ts s) = managed s" "frefs (child_of dir c ts s) = frefs s"
  "mm_ok (child_of dir c ts s) = mm_ok s" "free_frames (child_of dir c ts s) = free_frames s"
proof -
  show m: "mmap_at (child_of dir c ts s) = mmap_at s" "managed (child_of dir c ts s) = managed s"
    by (simp_all add: child_of_def set_cr3_def mmap_at_def managed_def fun_eq_iff)
  then show r: "frefs (child_of dir c ts s) = frefs s" by (simp add: frefs_def fun_eq_iff)
  then show f: "free_frames (child_of dir c ts s) = free_frames s" using m by (simp add: free_frames_def)
  then show "mm_ok (child_of dir c ts s) = mm_ok s" by (simp add: mm_ok_def) (simp add: child_of_def set_cr3_def)
qed

lemma child_of_kernel:
  "kernel_map (child_of dir c ts s) = kernel_map s" "kpages (child_of dir c ts s) = kpages s" "kmap_ok (child_of dir c ts s) = kmap_ok s"
  "counters_apart (child_of dir c ts s) = counters_apart s" "cr3 (child_of dir c ts s) = dir"
  by (simp_all add: child_of_def set_cr3_def kernel_map_def kpages_def kmap_ok_def counters_apart_def)

text \<open>The frames of the child: the user frames of the parent and the new tables, none of them twice.\<close>

lemma child_frames:
  assumes f: "forked z D 1023 s" and z: "fork_ready D z" and own: "pmem z (word_of_frame D 1023) = page_entry_init D"
    and copied: "\<forall>d < 1023. pmem z (word_of_frame D d) = pde z d"
    and k: "k = child_of (PAGE_ADDR D) c ts s"
  shows "distinct (space_frames k)"
    "g \<in> set (space_frames k) \<longleftrightarrow> (\<exists>d \<in> user_tables z. \<exists>t < 1024. mapped z d t = Some g) \<or>
       (\<exists>d \<in> user_tables z. e_index (pmem s (word_of_frame D d)) = g)"
proof -
  note C = child_directory [OF f z own copied] and K = child_space [OF f z own copied]
  have small: "unat D < 2 ^ 20" using z by (simp add: fork_ready_def data_frame_def)
  have p: "pde k d = pmem s (word_of_frame D d)" for d
    by (simp add: k child_of_view) (simp add: pde_def set_cr3_def PAGE_IDX_ADDR [OF small])
  have pd: "pde k = pde (set_cr3 s (PAGE_ADDR D))" by (simp add: k child_of_view)
  have ut: "user_tables k = user_tables z"
  proof (intro set_eqI)
    fix d
    show "d \<in> user_tables k \<longleftrightarrow> d \<in> user_tables z"
    proof (cases "4 \<le> d \<and> d < 1023")
      case True
      then have d: "d < 1024" "d \<noteq> 1023" by (auto simp: word_less_nat_alt)
      show ?thesis
      proof (cases "d \<in> user_tables z")
        case True
        then show ?thesis using C(2) [OF d(1) True] by (simp add: user_tables_def pd)
      next
        case False
        then show ?thesis using C(3) [OF d False] forkedD(6) [OF f d(1)] True by (simp add: user_tables_def pd)
      qed
    qed (auto simp: user_tables_def)
  qed
  have m: "mapped k d t = mapped z d t" if "d \<in> user_tables z" "t < 1024" for d t
    using K(2) [OF user_tables_bound(3) [OF that(1)] that(2)] by (simp add: k child_of_view)
  have P: "0 < mmap_at z g" "\<And>d' t'. d' \<in> user_tables z \<Longrightarrow> t' < 1024 \<Longrightarrow> mapped z d' t' = Some g \<Longrightarrow> d' = d \<and> t' = t"
    if "d \<in> user_tables z" "t < 1024" "mapped z d t = Some g" for d t g
    using z that unfolding fork_ready_def pages_ok_def by blast+
  have T: "unat (e_index (pde k d)) \<in> free_frames z" if "d \<in> user_tables z" for d
    using C(2) [OF user_tables_bound(1) [OF that] that] by (simp add: pd)
  show "distinct (space_frames k)"
  proof (rule distinct_space_frames)
    show "as_ok k" using K(1) by (simp add: k child_of_view)
    fix d d' t t' g assume d: "d \<in> user_tables k" "d' \<in> user_tables k" "t < (1024 :: u32)"
    note d' = d [unfolded ut]
    show "mapped k d t \<noteq> Some (e_index (pde k d'))"
      using used_not_free [OF P(1) [OF d'(1,3)]] T [OF d'(2)] m [OF d'(1,3)] by metis
    assume h: "t' < 1024" "mapped k d t = Some g" "mapped k d' t' = Some g"
    show "d = d' \<and> t = t'"
      using P(2) [OF d'(2) h(1) _ d'(1,3)] h(2,3) m [OF d'(1,3)] m [OF d'(2) h(1)] by simp
  qed
  show "g \<in> set (space_frames k) \<longleftrightarrow> (\<exists>d \<in> user_tables z. \<exists>t < 1024. mapped z d t = Some g) \<or>
       (\<exists>d \<in> user_tables z. e_index (pmem s (word_of_frame D d)) = g)"
    unfolding set_space_frames ut p using m by (auto cong: conj_cong)
qed

text \<open>What the child's references add to the counters.\<close>

lemma child_counts:
  assumes f: "forked z D 1023 s1" and z: "fork_ready D z" and own: "pmem z (word_of_frame D 1023) = page_entry_init D"
    and copied: "\<forall>d < 1023. pmem z (word_of_frame D d) = pde z d" and k: "k = child_of (PAGE_ADDR D) c ts s1"
    and users: "\<forall>d \<in> user_tables z. \<forall>t < 1024. \<forall>g. mapped z d t = Some g \<longrightarrow> unat g \<in> managed z"
  shows "g \<in> set (space_frames k) \<Longrightarrow> unat g \<in> managed z"
    "unat (mmap_at s1 g) = unat (mmap_at z g) + count_list (space_frames k) g"
proof -
  note F = forkedD [OF f] and G = child_frames [OF f z own copied k]
  note el = G(2)
  let ?U = "\<lambda>g. \<exists>d \<in> user_tables z. \<exists>t < 1024. mapped z d t = Some g" and ?e = "\<lambda>d. e_index (pmem s1 (word_of_frame D d))"
  have n: "unat d < 1023" if "d \<in> user_tables z" for d using that by (simp add: user_tables_def word_less_nat_alt)
  have tab: "mmap_at s1 (?e d) = 1" "unat (?e d) \<in> free_frames z" if "d \<in> user_tables z" for d
    using F(14,18) [OF that n [OF that]] by auto
  have usr: "unat g \<notin> free_frames z" "unat (mmap_at s1 g) = unat (mmap_at z g) + 1" if u: "?U g" for g
  proof -
    from u have g: "0 < mmap_at z g" "mmap_at z g < 254" using z unfolding fork_ready_def pages_ok_def by blast+
    show "unat g \<notin> free_frames z" by (rule used_not_free [OF g(1)])
    moreover have "\<exists>d \<in> user_tables z. unat d < 1023 \<and> (\<exists>t < 1024. mapped z d t = Some g)" using u n by blast
    ultimately have e: "mmap_at s1 g = mmap_at z g + 1" using F(11) by simp
    have "unat (mmap_at z g) < 254" using g(2) by (simp add: word_less_nat_alt)
    then show "unat (mmap_at s1 g) = unat (mmap_at z g) + 1" unfolding e by (simp add: unat_word_ariths)
  qed
  have in_free: "unat g \<in> managed z \<and> mmap_at z g = 0" if "unat g \<in> free_frames z" for g
    using that by (simp add: free_frames_def frefs_def unat_eq_zero)
  show "unat g \<in> managed z" if "g \<in> set (space_frames k)"
  proof -
    from that consider "?U g" | d where "d \<in> user_tables z" "?e d = g" unfolding el by blast
    then show ?thesis
    proof cases
      case 1
      then show ?thesis using users by metis
    next
      case 2
      then show ?thesis using in_free [OF tab(2)] by metis
    qed
  qed
  have mm: "mm_ok z" using z by (simp add: fork_ready_def)
  have cnt: "count_list (space_frames k) g = (if g \<in> set (space_frames k) then 1 else 0)" for g
    using G(1) by (simp add: distinct_count_list)
  show "unat (mmap_at s1 g) = unat (mmap_at z g) + count_list (space_frames k) g"
  proof (cases "?U g \<or> (\<exists>d \<in> user_tables z. ?e d = g)")
    case True
    then have c1: "count_list (space_frames k) g = 1" using cnt el by simp
    from True show ?thesis
    proof
      assume "?U g"
      then show ?thesis using usr(2) c1 by simp
    next
      assume "\<exists>d \<in> user_tables z. ?e d = g"
      then obtain d where d: "d \<in> user_tables z" "?e d = g" by blast
      then have "mmap_at z g = 0" using in_free tab(2) by blast
      then show ?thesis using tab(1) [OF d(1)] d(2) c1 by simp
    qed
  next
    case False
    then have c0: "count_list (space_frames k) g = 0" using cnt el by simp
    show ?thesis
    proof (cases "unat g \<in> free_frames z")
      case True
      have "unat g \<notin> (\<lambda>d. unat (?e d)) ` user_tables z" using False by (auto simp: word_unat_eq_iff)
      then have "unat g \<in> free_frames s1" using fork_takes [OF f mm] True by simp
      then have "mmap_at s1 g = 0" by (simp add: free_frames_def frefs_def unat_eq_zero)
      then show ?thesis using in_free [OF True] c0 by simp
    next
      case u: False
      have none: "\<not> (\<exists>d \<in> user_tables z. unat d < 1023 \<and> (\<exists>t < 1024. mapped z d t = Some g))" using False by blast
      have "mmap_at s1 g = mmap_at z g" using F(11) [OF u] by (simp only: none if_False add.right_neutral)
      then show ?thesis using c0 by simp
    qed
  qed
qed

section \<open>Properties\<close>



end
