(* ===== verification/Irq.thy ===== *)
theory Irq
  imports Kstate
begin

text \<open>
  The interrupt flag: \<^verbatim>\<open>get_irq_state\<close>, \<^verbatim>\<open>irq_disable\<close>, \<^verbatim>\<open>irq_enable\<close> and the nested
  \<^verbatim>\<open>irq_save\<close> / \<^verbatim>\<open>irq_restore\<close> of \<^verbatim>\<open>kernel/interrupt.c\<close>, the masks of the two 8259A controllers,
  the interrupt descriptor table, and the acknowledgement of interrupts. A write to an I/O port
  is an event (port, byte).
\<close>

unbundle bit_operations_syntax

section \<open>The interrupt flag\<close>

definition get_irq_state :: "kstate \<Rightarrow> bool" where
  "get_irq_state s = iflag s"

definition set_irq_state :: "bool \<Rightarrow> kstate \<Rightarrow> kstate" where
  "set_irq_state b s = s\<lparr>iflag := b\<rparr>"

definition irq_disable :: "kstate \<Rightarrow> bool \<times> kstate" where
  "irq_disable s = (let pre_irq_state = get_irq_state s in (pre_irq_state, set_irq_state False s))"

definition irq_enable :: "kstate \<Rightarrow> kstate" where
  "irq_enable s = set_irq_state True s"

definition ASSERT_IRQ_DISABLE :: "kstate \<Rightarrow> unit option" where
  "ASSERT_IRQ_DISABLE s = assert_c (\<not> get_irq_state s)"

definition irq_save :: "kstate \<Rightarrow> kstate" where
  "irq_save s =
     (let pre_irq_state = get_irq_state s;
          s = snd (irq_disable s);
          s = (if irq_off_count s = 0 then s\<lparr>first_irq_state := pre_irq_state\<rparr> else s)
      in s\<lparr>irq_off_count := irq_off_count s + 1\<rparr>)"

definition irq_restore :: "kstate \<Rightarrow> kstate option" where
  "irq_restore s = do {
     ASSERT_IRQ_DISABLE s;
     assert_c (irq_off_count s > 0);
     let s = s\<lparr>irq_off_count := irq_off_count s - 1\<rparr>;
     Some (if irq_off_count s = 0 then set_irq_state (first_irq_state s) s else s) }"

section \<open>The interrupt controllers\<close>

text \<open>\<open>PIC_M_CTRL\<close>, \<open>PIC_M_DATA\<close>, \<open>PIC_S_CTRL\<close>, \<open>PIC_S_DATA\<close> are the ports 0x20, 0x21, 0xa0, 0xa1.\<close>

definition send_eoi :: "u32 \<Rightarrow> (u16 \<times> u8) list" where
  "send_eoi vector =
     (if sint vector \<ge> 0x20 \<and> sint vector < 0x28 then [(0x20, 0x20)] else []) @
     (if sint vector \<ge> 0x28 \<and> sint vector < 0x30 then [(0x20, 0x20), (0xa0, 0x20)] else [])"

text \<open>The mask registers of master and slave; a set bit disables the line.\<close>

record pic =
  pic_m :: u8
  pic_s :: u8

definition set_interrupt_mask :: "u32 \<Rightarrow> bool \<Rightarrow> pic \<Rightarrow> pic option" where
  "set_interrupt_mask irq enable p = do {
     assert_c (irq < 16);
     let old = (if irq < 8 then pic_m p else pic_s p);
     let i = (if irq < 8 then irq else irq - 8);
     let new = (if enable then old AND NOT (push_bit (unat i) 1) else old OR push_bit (unat i) 1);
     Some (if irq < 8 then p\<lparr>pic_m := new\<rparr> else p\<lparr>pic_s := new\<rparr>) }"

definition pic_init :: "(u16 \<times> u8) list" where
  "pic_init = [(0x20, 0x11), (0x21, 0x20), (0x21, 0x04), (0x21, 0x01),
     (0xa0, 0x11), (0xa1, 0x28), (0xa1, 0x02), (0xa1, 0x01), (0x21, 0xff), (0xa1, 0xff)]"

section \<open>The interrupt descriptor table\<close>

record gate =
  offset_low :: u16
  selector :: u16
  g_type :: nat
  segment :: nat
  DPL :: nat
  g_present :: nat
  offset_high :: u16

definition interrupt_gate :: "addr \<Rightarrow> nat \<Rightarrow> gate" where
  "interrupt_gate handler dpl = \<lparr>offset_low = ucast (handler AND 0xffff), selector = push_bit 3 1, g_type = 14,
     segment = 0, DPL = dpl, g_present = 1, offset_high = ucast (drop_bit 16 handler AND 0xffff)\<rparr>"

datatype handler = Exception_handler | Page_fault | Default_handler

text \<open>\<open>entries\<close> are the addresses in \<^verbatim>\<open>handler_entry_table\<close>, \<open>sys\<close> that of \<^verbatim>\<open>syscall_entry\<close>.\<close>

definition idt_init :: "(nat \<Rightarrow> addr) \<Rightarrow> addr \<Rightarrow> (nat \<rightharpoonup> gate) \<times> (nat \<rightharpoonup> handler)" where
  "idt_init entries sys =
     ((\<lambda>i. if i = 0x80 then Some (interrupt_gate sys 3)
           else if i < 0x30 then Some (interrupt_gate (entries i) 0) else None),
      (\<lambda>i. if i = 0xe then Some Page_fault
           else if i < 0x20 then Some Exception_handler
           else if i < 0x30 then Some Default_handler else None))"

definition set_interrupt_handler :: "u32 \<Rightarrow> 'h \<Rightarrow> (nat \<rightharpoonup> 'h) \<Rightarrow> (nat \<rightharpoonup> 'h) option" where
  "set_interrupt_handler irq h table = do {
     assert_c (irq < 16);
     Some (table(0x20 + unat irq \<mapsto> h)) }"

section \<open>Nested critical sections\<close>

text \<open>\<open>critical n body\<close> runs \<open>body\<close> inside \<open>n\<close> nested pairs of \<^verbatim>\<open>irq_save\<close> and \<^verbatim>\<open>irq_restore\<close>.\<close>

primrec critical :: "nat \<Rightarrow> (kstate \<Rightarrow> kstate option) \<Rightarrow> kstate \<Rightarrow> kstate option" where
  "critical 0 body s = body s"
| "critical (Suc n) body s = do { s \<leftarrow> critical n body (irq_save s); irq_restore s }"

definition irq_state :: "kstate \<Rightarrow> bool \<times> u32 \<times> bool" where
  "irq_state s = (iflag s, irq_off_count s, first_irq_state s)"

lemma critical_nested:
  assumes body: "\<And>s. \<not> iflag s \<Longrightarrow> \<exists>s'. body s = Some s' \<and> irq_state s' = irq_state s"
    and "\<not> iflag s" "0 < irq_off_count s" "unat (irq_off_count s) + n < 2 ^ 32"
  shows "\<exists>s'. critical n body s = Some s' \<and> irq_state s' = irq_state s"
  using assms(2-4)
proof (induction n arbitrary: s)
  case 0
  then show ?case using body by simp
next
  case (Suc n)
  have c: "unat (irq_off_count s + 1) = unat (irq_off_count s) + 1"
    using Suc.prems(3) by (intro trans [OF unat_plus_noof]) simp_all
  have sv: "iflag (irq_save s) = False" "irq_off_count (irq_save s) = irq_off_count s + 1"
    "first_irq_state (irq_save s) = first_irq_state s"
    using Suc.prems(2) by (auto simp: irq_save_def irq_disable_def set_irq_state_def Let_def)
  have pos: "0 < irq_off_count (irq_save s)" using c by (simp add: sv word_less_nat_alt)
  have "unat (irq_off_count (irq_save s)) + n < 2 ^ 32" using c Suc.prems(3) by (simp add: sv)
  from Suc.IH [OF _ pos this] obtain t where
    t: "critical n body (irq_save s) = Some t" "irq_state t = irq_state (irq_save s)" by (auto simp: sv)
  then have "\<not> iflag t" "irq_off_count t = irq_off_count s + 1" "first_irq_state t = first_irq_state s"
    by (auto simp: irq_state_def sv)
  then show ?case
    using t(1) pos Suc.prems(1,2)
    by (simp add: word_gt_0 irq_restore_def ASSERT_IRQ_DISABLE_def get_irq_state_def irq_state_def sv Let_def)
qed

section \<open>Properties\<close>



definition line_open :: "pic \<Rightarrow> nat \<Rightarrow> bool" where
  "line_open p k = (\<not> bit (if k < 8 then pic_m p else pic_s p) (if k < 8 then k else k - 8))"

text \<open>
  \<^verbatim>\<open>set_interrupt_mask\<close> opens or closes exactly the line it is given (0 to 15, the
  slave's lines from 8 on), leaves the other 15 lines as they were, and halts for any other
  number; a handler installed with \<^verbatim>\<open>set_interrupt_handler\<close> is at vector 0x20 plus the line.
\<close>

theorem set_interrupt_mask_line:
  "if irq < 16
   then (\<exists>p'. set_interrupt_mask irq enable p = Some p' \<and>
       (\<forall>k < 16. line_open p' k = (if k = unat irq then enable else line_open p k))) \<and>
     set_interrupt_handler irq h table = Some (table(0x20 + unat irq \<mapsto> h))
   else set_interrupt_mask irq enable p = None \<and> set_interrupt_handler irq h table = None"
proof (cases "irq < 16")
  case False
  then show ?thesis by (simp add: set_interrupt_mask_def set_interrupt_handler_def)
next
  case True
  define i where "i = unat irq"
  have i: "i < 16" using True by (simp add: i_def word_less_nat_alt)
  have lo: "irq < 8 \<longleftrightarrow> i < 8" by (simp add: i_def word_less_nat_alt)
  have sub: "unat (irq - 8) = i - 8" if "\<not> i < 8" using that by (simp add: i_def unat_minus_le word_le_nat_alt)
  have clr: "bit (x AND NOT (push_bit k 1)) j \<longleftrightarrow> bit x j \<and> j \<noteq> k" if "k < 8" for x :: u8 and k j
    using that by (auto simp: bit_and_iff bit_not_iff bit_push_bit_iff bit_1_iff simp del: push_bit_of_1
      dest: bit_imp_le_length)
  have set: "bit (x OR push_bit k 1) j \<longleftrightarrow> bit x j \<or> j = k" if "k < 8" for x :: u8 and k j
    using that by (auto simp: bit_or_iff bit_push_bit_iff bit_1_iff simp del: push_bit_of_1)
  show ?thesis
  proof (cases "i < 8")
    case low: True
    then show ?thesis using True lo clr [OF low] set [OF low]
      by (auto simp: set_interrupt_mask_def set_interrupt_handler_def Let_def line_open_def i_def [symmetric]
        simp del: push_bit_of_1)
  next
    case False
    then have "i - 8 < 8" using i by simp
    then show ?thesis using True False lo sub clr [of "i - 8"] set [of "i - 8"]
      by (auto simp: set_interrupt_mask_def set_interrupt_handler_def Let_def line_open_def i_def [symmetric]
        simp del: push_bit_of_1)
  qed
qed

theorem set_interrupt_mask_line_witness:
  "\<exists>p'. set_interrupt_mask 9 True \<lparr>pic_m = 0xff, pic_s = 0xff\<rparr> = Some p' \<and> line_open p' 9 \<and> \<not> line_open p' 8"
proof -
  let ?p = "\<lparr>pic_m = 0xff, pic_s = 0xff\<rparr>"
  from set_interrupt_mask_line [of 9 True ?p "()" "\<lambda>_. None"] obtain p' where
    p': "set_interrupt_mask 9 True ?p = Some p'"
      "\<And>k. k < 16 \<Longrightarrow> line_open p' k = (if k = unat (9 :: u32) then True else line_open ?p k)" by auto
  from p'(2) [of 9] p'(2) [of 8] have "line_open p' 9" "\<not> line_open p' 8" by (simp_all add: line_open_def [of ?p])
  with p'(1) show ?thesis by blast
qed

end
