(* ===== verification/Task.thy ===== *)
theory Task
  imports Irq Arena Paging Ktime
begin

text \<open>
  Tasks: \<^verbatim>\<open>kernel/task.c\<close>. A task is named by the address of its TCB page; its node in a list
  of blocked tasks is at offset 4. \<^verbatim>\<open>task_switch\<close> saves the running task on its kernel stack
  and resumes the next one, which in the model is the change of \<open>current\<close>: what an operation does
  before it calls \<^verbatim>\<open>schedule\<close> is one state function, what the caller does once the task is resumed
  belongs to a later step.
\<close>

unbundle bit_operations_syntax

section \<open>Looking for tasks\<close>

definition NUM_TASKS :: nat where "NUM_TASKS = 64"

primrec first_free :: "addr list \<Rightarrow> nat \<Rightarrow> nat option" where
  "first_free [] i = None"
| "first_free (t # ts) i = (if t = 0 then Some i else first_free ts (i + 1))"

text \<open>\<^verbatim>\<open>memset (task, 0, PAGE_SIZE)\<close>: the TCB, its node and the frames on the kernel stack.\<close>

definition clear_task_page :: "addr \<Rightarrow> kstate \<Rightarrow> kstate" where
  "clear_task_page a s = s\<lparr>kmem := memset (kmem s) a 0 PAGE_SIZE, tcbs := (tcbs s)(a := zero_tcb),
     nodes := (nodes s)(node_of a := \<lparr>nprev = 0, nnext = 0\<rparr>),
     frames := (\<lambda>x. if in_range a 4096 x then zero_frame else frames s x),
     iframes := (\<lambda>x. if in_range a 4096 x then zero_iframe else iframes s x)\<rparr>"

definition get_free_task :: "kstate \<Rightarrow> (addr \<times> kstate) option" where
  "get_free_task s =
     (case first_free (task_queue s) 0 of
        None \<Rightarrow> Some (0, s)
      | Some i \<Rightarrow> do {
          (task, s) \<leftarrow> kalloc_page s 1;
          let s = clear_task_page task s;
          let s = upd_tcb task (\<lambda>t. t\<lparr>t_pid := of_nat i\<rparr>) s;
          let s = s\<lparr>task_queue := (task_queue s)[i := task]\<rparr>;
          Some (task, s) })"

definition search_step :: "kstate \<Rightarrow> task_state \<Rightarrow> addr \<Rightarrow> addr \<Rightarrow> addr" where
  "search_step s st result task =
     (if task = 0 \<or> task = current_task s \<or> t_state (tcbs s task) \<noteq> st then result
      else if result = 0 \<or> t_ticks (tcbs s task) > t_ticks (tcbs s result)
        \<or> t_jiffies (tcbs s task) < t_jiffies (tcbs s result) then task
      else result)"

definition task_search :: "kstate \<Rightarrow> task_state \<Rightarrow> addr option" where
  "task_search s st = do {
     ASSERT_IRQ_DISABLE s;
     let result = foldl (search_step s st) 0 (task_queue s);
     Some (if result = 0 \<and> st = TASK_READY then idle_task s else result) }"

section \<open>Scheduling\<close>

definition task_activate :: "addr \<Rightarrow> kstate \<Rightarrow> kstate option" where
  "task_activate task s = do {
     assert_c (t_magic (tcbs s task) = XOS_MAGIC);
     let s = (if t_page_dir (tcbs s task) \<noteq> cr3 s then set_cr3 s (t_page_dir (tcbs s task)) else s);
     Some (if t_uid (tcbs s task) \<noteq> KERNEL_TASK then s\<lparr>esp0 := task + PAGE_SIZE\<rparr> else s) }"

definition task_switch :: "addr \<Rightarrow> kstate \<Rightarrow> kstate" where
  "task_switch next s = s\<lparr>current := next\<rparr>"

definition schedule :: "kstate \<Rightarrow> kstate option" where
  "schedule s = do {
     ASSERT_IRQ_DISABLE s;
     let cu = current_task s;
     next \<leftarrow> task_search s TASK_READY;
     assert_c (next \<noteq> 0);
     assert_c (t_magic (tcbs s next) = XOS_MAGIC);
     let s = (if t_state (tcbs s cu) = TASK_RUNNING
              then upd_tcb cu (\<lambda>t. t\<lparr>t_state := TASK_READY\<rparr>) s else s);
     let s = (if t_ticks (tcbs s cu) = 0
              then upd_tcb cu (\<lambda>t. t\<lparr>t_ticks := t_priority t\<rparr>) s else s);
     let s = upd_tcb next (\<lambda>t. t\<lparr>t_state := TASK_RUNNING\<rparr>) s;
     if next = cu then Some s
     else do { s \<leftarrow> task_activate next s; Some (task_switch next s) } }"

definition task_yield :: "kstate \<Rightarrow> kstate option" where
  "task_yield s = schedule s"

section \<open>Blocking\<close>

text \<open>\<^verbatim>\<open>ASSERT_BLOCKED_STATE\<close> is an expression without effect: nothing is checked.\<close>

definition task_block :: "addr \<Rightarrow> addr \<Rightarrow> task_state \<Rightarrow> kstate \<Rightarrow> kstate option" where
  "task_block task blocked_list st s = do {
     ASSERT_IRQ_DISABLE s;
     assert_c (node_free (nodes s) (node_of task));
     let blocked_list = (if blocked_list = 0 then blocked_queue s else blocked_list);
     h \<leftarrow> list_push_back (nodes s) blocked_list (node_of task);
     let s = s\<lparr>nodes := h\<rparr>;
     let s = upd_tcb task (\<lambda>t. t\<lparr>t_state := st\<rparr>) s;
     if current_task s = task then schedule s else Some s }"

definition task_unblock :: "addr \<Rightarrow> kstate \<Rightarrow> kstate option" where
  "task_unblock task s = do {
     ASSERT_IRQ_DISABLE s;
     h \<leftarrow> list_remove (nodes s) (node_of task);
     let s = s\<lparr>nodes := h\<rparr>;
     assert_c (node_free (nodes s) (node_of task));
     Some (upd_tcb task (\<lambda>t. t\<lparr>t_state := TASK_READY\<rparr>) s) }"

definition jiffy :: u32 where "jiffy = 10"

text \<open>The key of the sleeping queue is \<^verbatim>\<open>ticks\<close>, read as an \<^verbatim>\<open>int\<close> by \<^verbatim>\<open>list_node_key\<close>.\<close>

definition sleep_key :: "kstate \<Rightarrow> addr \<Rightarrow> int" where
  "sleep_key s node = sint (t_ticks (tcbs s (task_of_node node)))"

definition task_sleep :: "u32 \<Rightarrow> kstate \<Rightarrow> kstate option" where
  "task_sleep ms s = do {
     ASSERT_IRQ_DISABLE s;
     assert_c (ms > 0);
     sleep_ticks \<leftarrow> div_round_up ms jiffy;
     let cu = current_task s;
     let s = upd_tcb cu (\<lambda>t. t\<lparr>t_ticks := jiffies s + sleep_ticks\<rparr>) s;
     h \<leftarrow> list_insert_sort (nodes s) (sleep_key s) (sleeping_queue s) (node_of cu);
     let s = s\<lparr>nodes := h\<rparr>;
     let s = upd_tcb cu (\<lambda>t. t\<lparr>t_state := TASK_SLEEPING\<rparr>) s;
     schedule s }"

partial_function (option) wakeup_loop :: "addr \<Rightarrow> kstate \<Rightarrow> kstate option" where
  "wakeup_loop ptr s =
     (if ptr = list_tail (sleeping_queue s) then Some s
      else do {
        let task = task_of_node ptr;
        if t_ticks (tcbs s task) > jiffies s then Some s
        else do {
          n \<leftarrow> load (nodes s) ptr;
          s \<leftarrow> task_unblock task s;
          wakeup_loop (nnext n) s } })"

definition task_wakeup :: "kstate \<Rightarrow> kstate option" where
  "task_wakeup s = do {
     ASSERT_IRQ_DISABLE s;
     n \<leftarrow> load (nodes s) (list_head (sleeping_queue s));
     wakeup_loop (nnext n) s }"

section \<open>Creating tasks\<close>

definition task_frame_size :: u32 where "task_frame_size = 20"
definition intr_frame_size :: u32 where "intr_frame_size = 80"

text \<open>\<open>root\<close> is what \<^verbatim>\<open>get_root_inode\<close> returns.\<close>

definition task_create :: "addr \<Rightarrow> addr \<Rightarrow> string \<Rightarrow> u32 \<Rightarrow> u32 \<Rightarrow> kstate \<Rightarrow> (addr \<times> kstate) option" where
  "task_create root target name priority uid s = do {
     (task, s) \<leftarrow> get_free_task s;
     assert_c (task \<noteq> 0);
     let stack = task + PAGE_SIZE - task_frame_size;
     let s = s\<lparr>frames := (frames s)(stack := \<lparr>tf_edi = 0x33333333, tf_esi = 0x22222222, tf_ebx = 0x11111111,
        tf_ebp = 0x44444444, tf_eip = target\<rparr>)\<rparr>;
     let s = upd_tcb task (\<lambda>t. t\<lparr>t_name := name, t_stack := stack, t_state := TASK_READY, t_priority := priority,
        t_ticks := priority, t_jiffies := 0, t_uid := uid, t_gid := 0, t_page_dir := kernel_page_dir (kmm s),
        t_vmap := kernel_vmap (kmm s), t_brk := KERNEL_MEMORY_SIZE, t_ipwd := root, t_iroot := root,
        t_umask := 0x12, t_magic := XOS_MAGIC\<rparr>) s;
     Some (task, s) }"

definition task_setup :: "kstate \<Rightarrow> kstate" where
  "task_setup s =
     (let s = upd_tcb (current_task s) (\<lambda>t. t\<lparr>t_magic := XOS_MAGIC, t_ticks := 1\<rparr>) s
      in s\<lparr>task_queue := replicate NUM_TASKS 0\<rparr>)"

text \<open>\<open>entry\<close> gives the addresses of \<^verbatim>\<open>idle_thread\<close>, \<^verbatim>\<open>init_thread\<close> and \<^verbatim>\<open>test_thread\<close>.\<close>

definition task_init :: "addr \<Rightarrow> addr \<times> addr \<times> addr \<Rightarrow> kstate \<Rightarrow> kstate option" where
  "task_init root entry s = do {
     h \<leftarrow> list_init (nodes s) (blocked_queue s);
     h \<leftarrow> list_init h (sleeping_queue s);
     let s = task_setup (s\<lparr>nodes := h\<rparr>);
     (idle, s) \<leftarrow> task_create root (fst entry) ''idle'' 1 KERNEL_TASK s;
     let s = s\<lparr>idle_task := idle\<rparr>;
     (_, s) \<leftarrow> task_create root (fst (snd entry)) ''init'' 5 USER_TASK s;
     (_, s) \<leftarrow> task_create root (snd (snd entry)) ''test'' 5 KERNEL_TASK s;
     Some s }"

definition USER_CODE_SELECTOR :: u32 where "USER_CODE_SELECTOR = push_bit 3 4 OR 3"
definition USER_DATA_SELECTOR :: u32 where "USER_DATA_SELECTOR = push_bit 3 5 OR 3"

text \<open>Everything up to the jump to \<^verbatim>\<open>interrupt_exit\<close>; the result is the frame it pops.\<close>

definition real_task_to_user_mode :: "addr \<Rightarrow> kstate \<Rightarrow> (addr \<times> kstate) option" where
  "real_task_to_user_mode target s = do {
     let cu = current_task s;
     (vm, s) \<leftarrow> kmalloc s 16;
     let s = upd_tcb cu (\<lambda>t. t\<lparr>t_vmap := vm\<rparr>) s;
     (buf, s) \<leftarrow> kalloc_page s 1;
     let (b, m) = bitmap_init (kmem s) buf PAGE_SIZE (KERNEL_MEMORY_SIZE div PAGE_SIZE);
     let s = s\<lparr>kmem := m, bitmaps := (bitmaps s)(vm := b)\<rparr>;
     (dir, s) \<leftarrow> copy_pgdir s;
     let s = upd_tcb cu (\<lambda>t. t\<lparr>t_page_dir := dir\<rparr>) s;
     let s = set_cr3 s dir;
     let addr = cu + PAGE_SIZE - intr_frame_size;
     let s = s\<lparr>iframes := (iframes s)(addr := \<lparr>if_vector = 0x20, if_edi = 1, if_esi = 2, if_ebp = 3, if_esp = 4,
        if_ebx = 5, if_edx = 6, if_ecx = 7, if_eax = 8, if_gs = 0, if_fs = USER_DATA_SELECTOR,
        if_es = USER_DATA_SELECTOR, if_ds = USER_DATA_SELECTOR, if_vector0 = 0x20, if_error = 0x20231024,
        if_eip = target, if_cs = USER_CODE_SELECTOR, if_eflags = 0x202, if_esp3 = USER_STACK_TOP,
        if_ss3 = USER_DATA_SELECTOR\<rparr>)\<rparr>;
     Some (addr, s) }"

text \<open>\<open>interrupt_exit\<close> is the address of the assembly routine of that name.\<close>

definition task_build_stack :: "addr \<Rightarrow> addr \<Rightarrow> kstate \<Rightarrow> kstate" where
  "task_build_stack interrupt_exit task s =
     (let addr = task + PAGE_SIZE - intr_frame_size;
          s = s\<lparr>iframes := (iframes s)(addr := (iframes s addr)\<lparr>if_eax := 0\<rparr>)\<rparr>;
          addr = addr - task_frame_size;
          s = s\<lparr>frames := (frames s)(addr := \<lparr>tf_edi = 0xaa55aa55, tf_esi = 0xaa55aa55, tf_ebx = 0xaa55aa55,
            tf_ebp = 0xaa55aa55, tf_eip = interrupt_exit\<rparr>)\<rparr>
      in upd_tcb task (\<lambda>t. t\<lparr>t_stack := addr\<rparr>) s)"

section \<open>System calls on tasks\<close>

definition sys_yield :: "kstate \<Rightarrow> kstate option" where
  "sys_yield s = task_yield s"

definition sys_sleep :: "u32 \<Rightarrow> kstate \<Rightarrow> kstate option" where
  "sys_sleep ms s = task_sleep ms s"

definition sys_getpid :: "kstate \<Rightarrow> i32" where
  "sys_getpid s = t_pid (tcbs s (current_task s))"

definition sys_getppid :: "kstate \<Rightarrow> i32" where
  "sys_getppid s = t_ppid (tcbs s (current_task s))"

definition sys_umask :: "u16 \<Rightarrow> kstate \<Rightarrow> u16 \<times> kstate" where
  "sys_umask msk s =
     (let cu = current_task s; old_mask = t_umask (tcbs s cu)
      in (old_mask, upd_tcb cu (\<lambda>t. t\<lparr>t_umask := msk AND 0x1ff\<rparr>) s))"

text \<open>The page of the parent's TCB and kernel stack, copied to the child's.\<close>

definition copy_task_page :: "addr \<Rightarrow> addr \<Rightarrow> kstate \<Rightarrow> kstate" where
  "copy_task_page child cu s = s\<lparr>kmem := memcpy (kmem s) child cu PAGE_SIZE, tcbs := (tcbs s)(child := tcbs s cu),
     nodes := (nodes s)(node_of child := nodes s (node_of cu)),
     frames := (\<lambda>x. if in_range child 4096 x then frames s (x - child + cu) else frames s x),
     iframes := (\<lambda>x. if in_range child 4096 x then iframes s (x - child + cu) else iframes s x)\<rparr>"

definition sys_fork :: "addr \<Rightarrow> kstate \<Rightarrow> (i32 \<times> kstate) option" where
  "sys_fork interrupt_exit s = do {
     let cu = current_task s;
     assert_c (t_uid (tcbs s cu) \<noteq> KERNEL_TASK);
     assert_c (t_state (tcbs s cu) = TASK_RUNNING);
     assert_c (node_free (nodes s) (node_of cu));
     (child, s) \<leftarrow> get_free_task s;
     assert_c (child \<noteq> 0);
     let pid = t_pid (tcbs s child);
     let s = copy_task_page child cu s;
     let s = upd_tcb child (\<lambda>t. t\<lparr>t_pid := pid, t_ppid := t_pid (tcbs s cu), t_jiffies := t_priority t,
        t_state := TASK_READY\<rparr>) s;
     (vm, s) \<leftarrow> kmalloc s 16;
     let s = upd_tcb child (\<lambda>t. t\<lparr>t_vmap := vm\<rparr>) s;
     let s = s\<lparr>bitmaps := (bitmaps s)(vm := bitmaps s (t_vmap (tcbs s cu)))\<rparr>;
     (buf, s) \<leftarrow> kalloc_page s 1;
     let s = s\<lparr>kmem := memcpy (kmem s) buf (bm_bits (bitmaps s (t_vmap (tcbs s cu)))) PAGE_SIZE\<rparr>;
     let s = s\<lparr>bitmaps := (bitmaps s)(vm := (bitmaps s vm)\<lparr>bm_bits := buf\<rparr>)\<rparr>;
     (dir, s) \<leftarrow> copy_pgdir s;
     let s = upd_tcb child (\<lambda>t. t\<lparr>t_page_dir := dir\<rparr>) s;
     let s = task_build_stack interrupt_exit child s;
     Some (t_pid (tcbs s child), s) }"

text \<open>The loop of \<^verbatim>\<open>sys_exit\<close> that hands the children to the parent.\<close>

definition reparent :: "kstate \<Rightarrow> kstate" where
  "reparent s = fold (\<lambda>i s.
     let t = task_queue s ! i
     in if t = 0 \<or> t = current s \<or> t_ppid (tcbs s t) \<noteq> t_pid (cur s) then s
        else upd_tcb t (\<lambda>c. c\<lparr>t_ppid := t_ppid (cur s)\<rparr>) s) [2 ..< NUM_TASKS] s"

definition wake_parent :: "kstate \<Rightarrow> kstate option" where
  "wake_parent s = do {
     assert_c (unat (t_ppid (cur s)) < NUM_TASKS);
     let parent = task_queue s ! unat (t_ppid (cur s));
     assert_c (parent \<noteq> 0);
     if t_state (tcbs s parent) = TASK_WAITING \<and>
        (t_waitpid (tcbs s parent) = t_pid (cur s) \<or> t_waitpid (tcbs s parent) = - 1)
     then task_unblock parent s else Some s }"

text \<open>The end of \<^verbatim>\<open>sys_exit\<close>, after the memory of the task has been given back.\<close>

definition exit_tail :: "kstate \<Rightarrow> kstate option" where
  "exit_tail s = do {
     let s = reparent s;
     s \<leftarrow> wake_parent s;
     schedule s }"

definition sys_exit :: "i32 \<Rightarrow> kstate \<Rightarrow> kstate option" where
  "sys_exit status s = do {
     let cu = current_task s;
     assert_c (t_uid (tcbs s cu) \<noteq> KERNEL_TASK);
     assert_c (t_state (tcbs s cu) = TASK_RUNNING);
     assert_c (node_free (nodes s) (node_of cu));
     let s = upd_tcb cu (\<lambda>t. t\<lparr>t_state := TASK_DIED, t_status := status\<rparr>) s;
     let vm = t_vmap (tcbs s cu);
     assert_c (vm \<noteq> 0);
     s \<leftarrow> kfree_page s (bm_bits (bitmaps s vm)) 1;
     let s = s\<lparr>bitmaps := (bitmaps s)(vm := (bitmaps s vm)\<lparr>bm_bits := 0\<rparr>)\<rparr>;
     s \<leftarrow> kfree s vm;
     let s = upd_tcb cu (\<lambda>t. t\<lparr>t_vmap := 0\<rparr>) s;
     s \<leftarrow> free_pgdir s;
     exit_tail s }"

text \<open>
  \<open>waitpid_pass\<close> is one pass of the loop of \<^verbatim>\<open>sys_waitpid\<close>. \<open>Blocked\<close> is the state after \<^verbatim>\<open>task_block\<close>, when
  another task runs; the caller makes a new pass when it is resumed.
\<close>

datatype wait_result = Reaped i32 i32 | No_child | Blocked

primrec find_child :: "kstate \<Rightarrow> i32 \<Rightarrow> nat list \<Rightarrow> nat option" where
  "find_child s pid [] = None"
| "find_child s pid (i # is) =
     (let t = task_queue s ! i
      in if t = 0 \<or> t = current s \<or> t_ppid (tcbs s t) \<noteq> t_pid (cur s) \<or> (t_pid (tcbs s t) \<noteq> pid \<and> pid \<noteq> - 1)
         then find_child s pid is else Some i)"

definition waitpid_pass :: "i32 \<Rightarrow> kstate \<Rightarrow> (wait_result \<times> kstate) option" where
  "waitpid_pass pid s =
     (case find_child s pid [2 ..< NUM_TASKS] of
       None \<Rightarrow> Some (No_child, s)
     | Some i \<Rightarrow> do {
         let child = task_queue s ! i;
         if t_state (tcbs s child) = TASK_DIED then do {
           let s = s\<lparr>task_queue := (task_queue s)[i := 0]\<rparr>;
           let ret = t_pid (tcbs s child);
           let status = t_status (tcbs s child);
           s \<leftarrow> kfree_page s child 1;
           Some (Reaped ret status, s) }
         else do {
           let s = upd_tcb (current_task s) (\<lambda>t. t\<lparr>t_waitpid := t_pid (tcbs s child)\<rparr>) s;
           s \<leftarrow> task_block (current_task s) 0 TASK_WAITING s;
           Some (Blocked, s) } })"

definition sys_waitpid :: "i32 \<Rightarrow> kstate \<Rightarrow> (wait_result \<times> kstate) option" where
  "sys_waitpid pid s = do {
     let cu = current_task s;
     assert_c (t_uid (tcbs s cu) \<noteq> KERNEL_TASK);
     assert_c (t_state (tcbs s cu) = TASK_RUNNING);
     assert_c (node_free (nodes s) (node_of cu));
     waitpid_pass pid s }"

end
