(* ===== verification/Sched.thy ===== *)
theory Sched
  imports Task
begin

text \<open>
  Correctness of the scheduler. \<open>sched_inv s L\<close> is its invariant: \<open>L\<close> describes the kernel's
  lists, the running task is the only one in state \<open>TASK_RUNNING\<close>, the idle task can always run,
  and a task is a node of some list exactly when it is blocked, sleeping or waiting.
  \<open>sched_pre\<close> is the same for the moment before \<^verbatim>\<open>schedule\<close>, when the current task may already have
  given up its state. Every operation on tasks keeps the invariant and comes back.
\<close>

section \<open>The invariant\<close>

definition tasks :: "kstate \<Rightarrow> addr set" where
  "tasks s = set (task_queue s) - {0}"

definition queued_states :: "task_state set" where
  "queued_states = {TASK_BLOCKED, TASK_SLEEPING, TASK_WAITING}"

definition in_list :: "(addr \<rightharpoonup> addr list) \<Rightarrow> addr \<Rightarrow> bool" where
  "in_list L n \<longleftrightarrow> (\<exists>l xs. L l = Some xs \<and> n \<in> set xs)"

definition task_ok :: "kstate \<Rightarrow> (addr \<rightharpoonup> addr list) \<Rightarrow> addr \<Rightarrow> bool" where
  "task_ok s L t \<longleftrightarrow> t_magic (tcbs s t) = XOS_MAGIC \<and> node_of t \<noteq> 0 \<and>
     (t \<noteq> current s \<longrightarrow> t_state (tcbs s t) \<noteq> TASK_RUNNING) \<and>
     (if t_state (tcbs s t) \<in> queued_states then in_list L (node_of t)
      else node_of t \<notin> owned L \<and> node_free (nodes s) (node_of t))"

definition sched_pre :: "kstate \<Rightarrow> (addr \<rightharpoonup> addr list) \<Rightarrow> bool" where
  "sched_pre s L \<longleftrightarrow> klists (nodes s) L \<and> L (blocked_queue s) \<noteq> None \<and> L (sleeping_queue s) \<noteq> None \<and>
     current s \<in> tasks s \<and> idle_task s \<in> tasks s \<and>
     t_state (tcbs s (idle_task s)) \<in> {TASK_READY, TASK_RUNNING} \<and> (\<forall>t \<in> tasks s. task_ok s L t) \<and>
     (\<forall>x \<in> set (the (L (sleeping_queue s))). task_of_node x \<in> tasks s)"

definition sched_inv :: "kstate \<Rightarrow> (addr \<rightharpoonup> addr list) \<Rightarrow> bool" where
  "sched_inv s L \<longleftrightarrow> sched_pre s L \<and> t_state (cur s) = TASK_RUNNING"

definition sched_frame :: "kstate \<Rightarrow> kstate \<Rightarrow> bool" where
  "sched_frame s s' \<longleftrightarrow> task_queue s' = task_queue s \<and> idle_task s' = idle_task s \<and>
     blocked_queue s' = blocked_queue s \<and> sleeping_queue s' = sleeping_queue s \<and> iflag s' = iflag s"

lemma sched_frame_refl [simp]: "sched_frame s s"
  by (simp add: sched_frame_def)

lemma sched_frame_trans: "sched_frame s s' \<Longrightarrow> sched_frame s' s'' \<Longrightarrow> sched_frame s s''"
  by (simp add: sched_frame_def)

lemma sched_frame_tasks: "sched_frame s s' \<Longrightarrow> tasks s' = tasks s"
  by (simp add: sched_frame_def tasks_def)

lemma sched_frame_upd [simp]: "sched_frame s (upd_tcb t f s')  = sched_frame s s'" "tasks (upd_tcb t f s) = tasks s"
  by (simp_all add: sched_frame_def tasks_def)

lemma sched_frame_nodes [simp]: "sched_frame s (s'\<lparr>nodes := h\<rparr>) = sched_frame s s'" "tasks (s\<lparr>nodes := h\<rparr>) = tasks s"
  by (simp_all add: sched_frame_def tasks_def)

lemma sched_preD:
  assumes "sched_pre s L" and "t \<in> tasks s"
  shows "t_magic (tcbs s t) = XOS_MAGIC" "node_of t \<noteq> 0" "t \<noteq> 0"
    "t \<noteq> current s \<Longrightarrow> t_state (tcbs s t) \<noteq> TASK_RUNNING"
    "t_state (tcbs s t) \<in> queued_states \<Longrightarrow> in_list L (node_of t)"
    "t_state (tcbs s t) \<notin> queued_states \<Longrightarrow> node_of t \<notin> owned L \<and> node_free (nodes s) (node_of t)"
  using assms by (auto simp: sched_pre_def task_ok_def tasks_def)

lemma running_unique:
  "sched_inv s L \<Longrightarrow> t \<in> tasks s \<Longrightarrow> t_state (tcbs s t) = TASK_RUNNING \<longleftrightarrow> t = current s"
  using sched_preD(4) by (auto simp: sched_inv_def)

lemma current_task_in [simp]: "sched_pre s L \<Longrightarrow> current s \<in> tasks s"
  by (simp add: sched_pre_def)

text \<open>A change of fields other than the state and the magic number.\<close>

lemma sched_pre_fields:
  assumes "\<And>c. t_magic (f c) = t_magic c" "\<And>c. t_state (f c) = t_state c"
  shows "sched_pre (upd_tcb t f s) L = sched_pre s L" "sched_inv (upd_tcb t f s) L = sched_inv s L"
proof -
  have "task_ok (upd_tcb t f s) L u = task_ok s L u" for u
    by (cases "u = t") (simp_all add: task_ok_def assms)
  then show p: "sched_pre (upd_tcb t f s) L = sched_pre s L" by (simp add: sched_pre_def assms)
  show "sched_inv (upd_tcb t f s) L = sched_inv s L" by (simp add: sched_inv_def p assms)
qed

section \<open>task_search\<close>

definition candidate :: "kstate \<Rightarrow> task_state \<Rightarrow> addr \<Rightarrow> bool" where
  "candidate s st t \<longleftrightarrow> t \<in> tasks s \<and> t \<noteq> current s \<and> t_state (tcbs s t) = st"

lemma search_fold:
  assumes "r = 0 \<or> candidate s st r" and "set ts - {0} \<subseteq> tasks s"
  shows "(foldl (search_step s st) r ts = 0 \<or> candidate s st (foldl (search_step s st) r ts)) \<and>
    (foldl (search_step s st) r ts = 0 \<longleftrightarrow> r = 0 \<and> (\<forall>t \<in> set ts. \<not> candidate s st t))"
  using assms
proof (induction ts arbitrary: r)
  case (Cons t ts)
  have "search_step s st r t = 0 \<or> candidate s st (search_step s st r t)"
    "search_step s st r t = 0 \<longleftrightarrow> r = 0 \<and> \<not> candidate s st t"
    using Cons.prems by (auto simp: search_step_def candidate_def current_task_def tasks_def)
  with Cons.IH [of "search_step s st r t"] Cons.prems(2) show ?case by auto
qed simp

definition pick :: "kstate \<Rightarrow> addr" where
  "pick s = (let r = foldl (search_step s TASK_READY) 0 (task_queue s) in if r = 0 then idle_task s else r)"

lemma pick_candidate:
  "(\<exists>t. candidate s TASK_READY t) \<Longrightarrow> candidate s TASK_READY (pick s)"
  "\<not> (\<exists>t. candidate s TASK_READY t) \<Longrightarrow> pick s = idle_task s"
proof -
  have "set (task_queue s) - {0} \<subseteq> tasks s" by (simp add: tasks_def)
  note f = search_fold [of 0 s TASK_READY, OF _ this]
  show "(\<exists>t. candidate s TASK_READY t) \<Longrightarrow> candidate s TASK_READY (pick s)"
  proof -
    assume "\<exists>t. candidate s TASK_READY t"
    then have "\<not> (\<forall>t \<in> set (task_queue s). \<not> candidate s TASK_READY t)" by (auto simp: candidate_def tasks_def)
    with f show ?thesis by (auto simp: pick_def Let_def)
  qed
  show "\<not> (\<exists>t. candidate s TASK_READY t) \<Longrightarrow> pick s = idle_task s"
    using f by (auto simp: pick_def Let_def)
qed

lemma task_search_pick: "\<not> iflag s \<Longrightarrow> task_search s TASK_READY = Some (pick s)"
  by (simp add: task_search_def ASSERT_IRQ_DISABLE_def get_irq_state_def pick_def Let_def)

text \<open>The picked task is another ready task, or the idle task when there is none.\<close>

lemma pick_props:
  assumes "sched_pre s L"
  shows "pick s \<in> tasks s" "t_state (tcbs s (pick s)) \<notin> queued_states"
    "pick s \<noteq> current s \<Longrightarrow> t_state (tcbs s (pick s)) = TASK_READY"
proof -
  have i: "idle_task s \<in> tasks s" "t_state (tcbs s (idle_task s)) \<in> {TASK_READY, TASK_RUNNING}"
    using assms by (auto simp: sched_pre_def)
  show "pick s \<in> tasks s" "t_state (tcbs s (pick s)) \<notin> queued_states"
    using pick_candidate [of s] i by (cases "\<exists>t. candidate s TASK_READY t"; auto simp: candidate_def queued_states_def)+
  show "pick s \<noteq> current s \<Longrightarrow> t_state (tcbs s (pick s)) = TASK_READY"
    using pick_candidate [of s] i sched_preD(4) [OF assms i(1)]
    by (cases "\<exists>t. candidate s TASK_READY t") (auto simp: candidate_def)
qed

section \<open>schedule\<close>

text \<open>The TCBs after \<^verbatim>\<open>schedule\<close>, and the address space and kernel stack it activates.\<close>

definition sched_tcb :: "kstate \<Rightarrow> addr \<Rightarrow> tcb" where
  "sched_tcb s t =
     (let c = tcbs s t;
          c = (if t = current s \<and> t_state c = TASK_RUNNING then c\<lparr>t_state := TASK_READY\<rparr> else c);
          c = (if t = current s \<and> t_ticks c = 0 then c\<lparr>t_ticks := t_priority c\<rparr> else c)
      in if t = pick s then c\<lparr>t_state := TASK_RUNNING\<rparr> else c)"

lemma sched_tcb_fields [simp]:
  "t_magic (sched_tcb s t) = t_magic (tcbs s t)" "t_page_dir (sched_tcb s t) = t_page_dir (tcbs s t)"
  "t_waitpid (sched_tcb s t) = t_waitpid (tcbs s t)" "t_uid (sched_tcb s t) = t_uid (tcbs s t)" "t_priority (sched_tcb s t) = t_priority (tcbs s t)"
  "t_state (sched_tcb s t) = (if t = pick s then TASK_RUNNING
     else if t = current s \<and> t_state (tcbs s t) = TASK_RUNNING then TASK_READY else t_state (tcbs s t))"
  "t_ticks (sched_tcb s t) = (if t = current s \<and> t_ticks (tcbs s t) = 0 then t_priority (tcbs s t) else t_ticks (tcbs s t))"
  by (cases "t = pick s"; cases "t = current s"; cases "t_state (tcbs s t) = TASK_RUNNING";
      cases "t_ticks (tcbs s t) = 0"; simp add: sched_tcb_def Let_def)+

lemma schedule_exact:
  assumes "sched_pre s L" and "\<not> iflag s"
  shows "schedule s = Some (if pick s = current s then s\<lparr>tcbs := sched_tcb s\<rparr>
    else s\<lparr>tcbs := sched_tcb s, cr3 := t_page_dir (tcbs s (pick s)),
      esp0 := (if t_uid (tcbs s (pick s)) \<noteq> KERNEL_TASK then pick s + PAGE_SIZE else esp0 s), current := pick s\<rparr>)"
proof -
  note p = pick_props [OF assms(1)] sched_preD [OF assms(1) pick_props(1) [OF assms(1)]]
  define s1 where "s1 = (if t_state (tcbs s (current s)) = TASK_RUNNING
      then upd_tcb (current s) (\<lambda>t. t\<lparr>t_state := TASK_READY\<rparr>) s else s)"
  define s2 where "s2 = (if t_ticks (tcbs s1 (current s)) = 0
      then upd_tcb (current s) (\<lambda>t. t\<lparr>t_ticks := t_priority t\<rparr>) s1 else s1)"
  define s3 where "s3 = upd_tcb (pick s) (\<lambda>t. t\<lparr>t_state := TASK_RUNNING\<rparr>) s2"
  have s3: "s3 = s\<lparr>tcbs := sched_tcb s\<rparr>"
  proof (rule kstate.equality)
    show "tcbs s3 = tcbs (s\<lparr>tcbs := sched_tcb s\<rparr>)"
    proof
      fix t show "tcbs s3 t = tcbs (s\<lparr>tcbs := sched_tcb s\<rparr>) t"
        unfolding s3_def s2_def s1_def
        by (cases "t = pick s"; cases "t = current s") (simp_all add: upd_tcb_def sched_tcb_def Let_def)
    qed
  qed (simp_all add: s3_def s2_def s1_def upd_tcb_def)
  have "schedule s = (if pick s = current s then Some s3
      else do { s' \<leftarrow> task_activate (pick s) s3; Some (task_switch (pick s) s') })"
    unfolding s3_def s2_def s1_def
    using assms(2) p(3,4,6)
    by (simp add: schedule_def ASSERT_IRQ_DISABLE_def get_irq_state_def current_task_def
        task_search_pick Let_def)
  also have "\<dots> = Some (if pick s = current s then s\<lparr>tcbs := sched_tcb s\<rparr>
    else s\<lparr>tcbs := sched_tcb s, cr3 := t_page_dir (tcbs s (pick s)),
      esp0 := (if t_uid (tcbs s (pick s)) \<noteq> KERNEL_TASK then pick s + PAGE_SIZE else esp0 s), current := pick s\<rparr>)"
    using p(4) by (auto simp: s3 task_activate_def task_switch_def set_cr3_def Let_def)
  finally show ?thesis .
qed

lemma schedule_law:
  assumes "sched_pre s L" and "\<not> iflag s"
  shows "\<exists>s'. schedule s = Some s' \<and> sched_inv s' L \<and> sched_frame s s' \<and> current s' = pick s \<and>
    tcbs s' = sched_tcb s \<and> nodes s' = nodes s \<and> jiffies s' = jiffies s \<and> beeping s' = beeping s"
proof -
  define s' where "s' = (if pick s = current s then s\<lparr>tcbs := sched_tcb s\<rparr>
    else s\<lparr>tcbs := sched_tcb s, cr3 := t_page_dir (tcbs s (pick s)),
      esp0 := (if t_uid (tcbs s (pick s)) \<noteq> KERNEL_TASK then pick s + PAGE_SIZE else esp0 s), current := pick s\<rparr>)"
  have run: "schedule s = Some s'" using schedule_exact [OF assms] by (simp add: s'_def)
  have f: "tcbs s' = sched_tcb s" "current s' = pick s" "nodes s' = nodes s" "sched_frame s s'" "jiffies s' = jiffies s"
    "beeping s' = beeping s"
    by (simp_all add: s'_def sched_frame_def)
  then have ts: "tasks s' = tasks s" by (simp add: sched_frame_tasks)
  have "task_ok s' L t" if t: "t \<in> tasks s" for t
    using sched_preD [OF assms(1) t] pick_props [OF assms(1)]
    by (auto simp: task_ok_def f queued_states_def)
  moreover have "t_state (tcbs s' (idle_task s')) \<in> {TASK_READY, TASK_RUNNING}"
    using assms(1) f by (auto simp: sched_pre_def sched_frame_def)
  ultimately have "sched_pre s' L"
    using assms(1) f ts pick_props(1) [OF assms(1)] by (auto simp: sched_pre_def sched_frame_def)
  moreover have "t_state (cur s') = TASK_RUNNING" by (simp add: f)
  ultimately show ?thesis using run f by (auto simp: sched_inv_def)
qed

section \<open>Entering and leaving a list\<close>

lemma in_list_upd:
  assumes "L l = Some (as @ bs)"
  shows "in_list (L(l \<mapsto> as @ x # bs)) n \<longleftrightarrow> n = x \<or> in_list L n"
  using assms by (auto simp: in_list_def) (metis Un_iff option.inject set_append)+

text \<open>A task gives up the processor for a list.\<close>

lemma sched_pre_enqueue:
  assumes inv: "sched_pre s L" and t: "t \<in> tasks s" "t \<noteq> idle_task s" "t_state (tcbs s t) \<notin> queued_states"
    and l: "L l = Some (as @ bs)" and h: "klists h (L(l \<mapsto> as @ node_of t # bs))"
    and f: "moved (nodes s) h (insert (node_of t) (owned L))"
    and st: "st \<in> queued_states"
  shows "sched_pre (upd_tcb t (\<lambda>c. c\<lparr>t_state := st\<rparr>) (s\<lparr>nodes := h\<rparr>)) (L(l \<mapsto> as @ node_of t # bs))"
proof -
  let ?s = "upd_tcb t (\<lambda>c. c\<lparr>t_state := st\<rparr>) (s\<lparr>nodes := h\<rparr>)" and ?L = "L(l \<mapsto> as @ node_of t # bs)"
  have o: "owned ?L = insert (node_of t) (owned L)" by (rule owned_upd_split [of L l, OF l])
  note il = in_list_upd [of L l as bs "node_of t", OF l]
  have "task_ok ?s ?L u" if u: "u \<in> tasks s" for u
  proof (cases "u = t")
    case True
    then show ?thesis using sched_preD(1,2) [OF inv t(1)] st by (auto simp: task_ok_def il queued_states_def)
  next
    case False
    have "node_free h (node_of u) = node_free (nodes s) (node_of u)" if "node_of u \<notin> owned L"
      by (rule klist.frame_free [OF f]) (use that False in simp)
    with sched_preD [OF inv u] False show ?thesis by (auto simp: task_ok_def il o)
  qed
  moreover have "\<forall>x \<in> set (the (?L (sleeping_queue s))). task_of_node x \<in> tasks s"
    using inv l t(1) by (auto simp: sched_pre_def)
  ultimately show ?thesis using inv h t(2) by (auto simp: sched_pre_def)
qed

text \<open>A task leaves a list and becomes ready.\<close>

lemma sched_pre_dequeue:
  assumes pre: "sched_pre s L" and run: "t_state (cur s) \<notin> queued_states" and t: "t \<in> tasks s"
    and l: "L l = Some (as @ node_of t # bs)" and h: "klists h (L(l \<mapsto> as @ bs))"
    and f: "moved (nodes s) h (owned L)" and free: "node_free h (node_of t)"
  shows "sched_pre (upd_tcb t (\<lambda>c. c\<lparr>t_state := TASK_READY\<rparr>) (s\<lparr>nodes := h\<rparr>)) (L(l \<mapsto> as @ bs))"
    "t \<noteq> current s"
proof -
  let ?s = "upd_tcb t (\<lambda>c. c\<lparr>t_state := TASK_READY\<rparr>) (s\<lparr>nodes := h\<rparr>)" and ?L = "L(l \<mapsto> as @ bs)"
  have kl: "klists (nodes s) L" using pre by (simp add: sched_pre_def)
  note r = klist.removed_not_owned [OF kl l]
  have il: "in_list ?L n" if "in_list L n" "n \<noteq> node_of t" for n
    using that l by (auto simp: in_list_def) (metis Un_iff list.set_intros option.inject set_ConsD set_append)
  have "node_of t \<in> owned L" by (rule in_list_owned [of L l, OF l]) simp
  with sched_preD(6) [OF pre t] have q: "t_state (tcbs s t) \<in> queued_states" by blast
  then show c: "t \<noteq> current s" using run by blast
  have "task_ok ?s ?L u" if u: "u \<in> tasks s" for u
  proof (cases "u = t")
    case True
    then show ?thesis using sched_preD(1,2) [OF pre t] r(1) free by (simp add: task_ok_def queued_states_def)
  next
    case False
    have "node_free h (node_of u) = node_free (nodes s) (node_of u)" if "node_of u \<notin> owned L"
      by (rule klist.frame_free [OF f that])
    with sched_preD [OF pre u] False r(2) il show ?thesis by (auto simp: task_ok_def)
  qed
  moreover have "\<forall>x \<in> set (the (?L (sleeping_queue s))). task_of_node x \<in> tasks s"
    using pre l by (auto simp: sched_pre_def)
  ultimately show "sched_pre ?s ?L" using pre h by (auto simp: sched_pre_def)
qed

section \<open>task_block and task_unblock\<close>

lemma task_block_law:
  assumes "sched_inv s L" and "\<not> iflag s" and "current s \<noteq> idle_task s" and "L l = Some xs" and "l \<noteq> 0"
    and "st \<in> queued_states"
  shows "\<exists>s'. task_block (current s) l st s = Some s' \<and> sched_inv s' (L(l \<mapsto> xs @ [node_of (current s)])) \<and>
     sched_frame s s' \<and> jiffies s' = jiffies s \<and> beeping s' = beeping s \<and>
     current s' \<noteq> current s \<and> t_state (tcbs s' (current s)) = st \<and>
     t_waitpid (tcbs s' (current s)) = t_waitpid (cur s) \<and>
     (\<forall>t. t \<noteq> current s \<longrightarrow> t_ticks (tcbs s' t) = t_ticks (tcbs s t) \<and>
       t_state (tcbs s' t) = (if t = current s' then TASK_RUNNING else t_state (tcbs s t)))"
proof -
  let ?n = "node_of (current s)"
  let ?L = "L(l \<mapsto> xs @ [?n])"
  have pre: "sched_pre s L" and run: "t_state (cur s) = TASK_RUNNING" using assms(1) by (simp_all add: sched_inv_def)
  have c: "current s \<in> tasks s" using pre by simp
  have q: "t_state (cur s) \<notin> queued_states" using run by (simp add: queued_states_def)
  from sched_preD(2,6) [OF pre c] q have n: "?n \<notin> owned L" "?n \<noteq> 0" "node_free (nodes s) ?n" by blast+
  have kl: "klists (nodes s) L" using pre by (simp add: sched_pre_def)
  from klist.push_back [OF kl assms(4) n(1,2)] obtain h where
    h: "list_push_back (nodes s) l ?n = Some h" "klists h ?L" "moved (nodes s) h (insert ?n (owned L))" by blast
  define s1 where "s1 = upd_tcb (current s) (\<lambda>t. t\<lparr>t_state := st\<rparr>) (s\<lparr>nodes := h\<rparr>)"
  have pre1: "sched_pre s1 ?L"
    unfolding s1_def
    using sched_pre_enqueue [of s L "current s" l xs "[]" h st] pre c assms(3,4,6) q h(2,3) by simp
  have i1: "\<not> iflag s1" using assms(2) by (simp add: s1_def)
  from schedule_law [OF pre1 i1] obtain s' where
    s': "schedule s1 = Some s'" "sched_inv s' ?L" "sched_frame s1 s'" "current s' = pick s1" "tcbs s' = sched_tcb s1"
      "jiffies s' = jiffies s1" "beeping s' = beeping s1" by blast
  have st1: "t_state (tcbs s1 (current s)) = st" "current s1 = current s" by (simp_all add: s1_def)
  have p: "pick s1 \<noteq> current s"
    using pick_props(2) [OF pre1] st1 assms(6) by metis
  have "task_block (current s) l st s = Some s'"
    using assms(2,5) n(3) h(1) s'(1)
    by (simp add: task_block_def ASSERT_IRQ_DISABLE_def get_irq_state_def current_task_def s1_def)
  moreover have "t_state (tcbs s' (current s)) = st"
    using p st1 assms(6) s'(5) by (auto simp: queued_states_def)
  moreover have "t_ticks (tcbs s' t) = t_ticks (tcbs s t) \<and>
       t_state (tcbs s' t) = (if t = current s' then TASK_RUNNING else t_state (tcbs s t))" if "t \<noteq> current s" for t
    using that st1(2) s'(4,5) by (simp add: s1_def)
  moreover have "t_waitpid (tcbs s' (current s)) = t_waitpid (cur s)"
    using s'(5) by (simp add: s1_def)
  moreover have "sched_frame s s1" "jiffies s1 = jiffies s" "beeping s1 = beeping s"
    by (simp_all add: s1_def sched_frame_def)
  ultimately show ?thesis using s'(2-4,6,7) p sched_frame_trans [of s s1 s'] by auto
qed

text \<open>Also when the current task has died but not been switched from.\<close>

lemma task_unblock_pre:
  assumes "sched_pre s L" and "t_state (cur s) \<notin> queued_states" and "\<not> iflag s" and "t \<in> tasks s" and "L l = Some (as @ node_of t # bs)"
  shows "\<exists>h. task_unblock t s = Some (upd_tcb t (\<lambda>c. c\<lparr>t_state := TASK_READY\<rparr>) (s\<lparr>nodes := h\<rparr>)) \<and>
     sched_pre (upd_tcb t (\<lambda>c. c\<lparr>t_state := TASK_READY\<rparr>) (s\<lparr>nodes := h\<rparr>)) (L(l \<mapsto> as @ bs)) \<and> t \<noteq> current s"
proof -
  have kl: "klists (nodes s) L" using assms(1) by (simp add: sched_pre_def)
  from klist.rm [OF kl assms(5)] obtain h where
    h: "list_remove (nodes s) (node_of t) = Some h" "klists h (L(l \<mapsto> as @ bs))" "moved (nodes s) h (owned L)"
      "node_free h (node_of t)" by blast
  have "task_unblock t s = Some (upd_tcb t (\<lambda>c. c\<lparr>t_state := TASK_READY\<rparr>) (s\<lparr>nodes := h\<rparr>))"
    using assms(3) h(1,4) by (simp add: task_unblock_def ASSERT_IRQ_DISABLE_def get_irq_state_def)
  with sched_pre_dequeue [OF assms(1,2,4,5) h(2-4)] show ?thesis by blast
qed

lemma task_unblock_law:
  assumes "sched_inv s L" and "\<not> iflag s" and "t \<in> tasks s" and "L l = Some (as @ node_of t # bs)"
  shows "\<exists>h. task_unblock t s = Some (upd_tcb t (\<lambda>c. c\<lparr>t_state := TASK_READY\<rparr>) (s\<lparr>nodes := h\<rparr>)) \<and>
     sched_inv (upd_tcb t (\<lambda>c. c\<lparr>t_state := TASK_READY\<rparr>) (s\<lparr>nodes := h\<rparr>)) (L(l \<mapsto> as @ bs)) \<and> t \<noteq> current s"
  using task_unblock_pre [of s L t l as bs] assms by (fastforce simp: sched_inv_def queued_states_def)

section \<open>task_sleep and task_wakeup\<close>

definition sleep_until :: "kstate \<Rightarrow> u32 \<Rightarrow> u32" where
  "sleep_until s ms = jiffies s + (ms + 9) div 10"

lemma task_sleep_law:
  assumes "sched_inv s L" and "\<not> iflag s" and "current s \<noteq> idle_task s" and "L (sleeping_queue s) = Some xs"
    and "0 < ms"
  defines "s0 \<equiv> upd_tcb (current s) (\<lambda>t. t\<lparr>t_ticks := sleep_until s ms\<rparr>) s"
  shows "\<exists>s'. task_sleep ms s = Some s' \<and>
     sched_inv s' (L(sleeping_queue s \<mapsto> insert_by (sleep_key s0) (node_of (current s)) xs)) \<and>
     sched_frame s s' \<and> jiffies s' = jiffies s \<and> beeping s' = beeping s \<and> current s' \<noteq> current s \<and>
     t_state (tcbs s' (current s)) = TASK_SLEEPING \<and>
     (sleep_until s ms \<noteq> 0 \<longrightarrow> t_ticks (tcbs s' (current s)) = sleep_until s ms) \<and>
     (\<forall>t. t \<noteq> current s \<longrightarrow> t_ticks (tcbs s' t) = t_ticks (tcbs s t) \<and>
       t_state (tcbs s' t) = (if t = current s' then TASK_RUNNING else t_state (tcbs s t)))"
proof -
  let ?n = "node_of (current s)" and ?l = "sleeping_queue s"
  have inv0: "sched_inv s0 L" using assms(1) by (simp add: s0_def sched_pre_fields)
  have s0: "current s0 = current s" "iflag s0 = iflag s" "nodes s0 = nodes s" "idle_task s0 = idle_task s" "tasks s0 = tasks s"
    by (simp_all add: s0_def)
  have pre: "sched_pre s0 L" and run: "t_state (tcbs s0 (current s)) = TASK_RUNNING"
    using inv0 s0 by (simp_all add: sched_inv_def)
  have c: "current s \<in> tasks s0" using pre s0 current_task_in by metis
  have q: "t_state (tcbs s0 (current s)) \<notin> queued_states" using run by (simp add: queued_states_def)
  from sched_preD(2,6) [OF pre c] q have n: "?n \<notin> owned L" "?n \<noteq> 0" "node_free (nodes s) ?n" by (auto simp: s0)
  have kl: "klists (nodes s) L" using pre s0 by (simp add: sched_pre_def)
  from klist.insert_sort [OF kl assms(4) n, of "sleep_key s0"] obtain h where
    h: "list_insert_sort (nodes s) (sleep_key s0) ?l ?n = Some h" "klists h (L(?l \<mapsto> insert_by (sleep_key s0) ?n xs))"
      "moved (nodes s) h (insert ?n (owned L))" by blast
  define as where "as = takeWhile (\<lambda>y. sleep_key s0 y < sleep_key s0 ?n) xs"
  define bs where "bs = dropWhile (\<lambda>y. sleep_key s0 y < sleep_key s0 ?n) xs"
  have ib: "insert_by (sleep_key s0) ?n xs = as @ ?n # bs" "xs = as @ bs" by (simp_all add: as_def bs_def insert_by_def)
  let ?L = "L(?l \<mapsto> as @ ?n # bs)"
  define s1 where "s1 = upd_tcb (current s) (\<lambda>t. t\<lparr>t_state := TASK_SLEEPING\<rparr>) (s0\<lparr>nodes := h\<rparr>)"
  have pre1: "sched_pre s1 ?L"
    unfolding s1_def
    using sched_pre_enqueue [of s0 L "current s" ?l as bs h TASK_SLEEPING] pre c assms(3,4) q h(3)
      h(2) [unfolded ib(1)]
    by (simp add: s0 ib(2) queued_states_def)
  have i1: "\<not> iflag s1" using assms(2) by (simp add: s1_def s0)
  from schedule_law [OF pre1 i1] obtain s' where
    s': "schedule s1 = Some s'" "sched_inv s' ?L" "sched_frame s1 s'" "current s' = pick s1" "tcbs s' = sched_tcb s1"
      "jiffies s' = jiffies s1" "beeping s' = beeping s1" by blast
  have st1: "t_state (tcbs s1 (current s)) = TASK_SLEEPING" "current s1 = current s" by (simp_all add: s1_def s0)
  have p: "pick s1 \<noteq> current s"
    using pick_props(2) [OF pre1] st1 by (auto simp: queued_states_def)
  have d: "div_round_up ms jiffy = Some ((ms + 9) div 10)" by (simp add: div_round_up_def jiffy_def) (simp add: add.commute)
  have "task_sleep ms s = Some s'"
    using assms(2,5) h(1) s'(1) d
    by (simp add: task_sleep_def ASSERT_IRQ_DISABLE_def get_irq_state_def current_task_def s1_def s0_def sleep_until_def Let_def)
  moreover have "t_state (tcbs s' (current s)) = TASK_SLEEPING"
    using p st1 s'(5) by (auto simp: queued_states_def)
  moreover have "sleep_until s ms \<noteq> 0 \<longrightarrow> t_ticks (tcbs s' (current s)) = sleep_until s ms"
    using s'(5) st1(2) by (simp add: s1_def s0_def)
  moreover have "t_ticks (tcbs s' t) = t_ticks (tcbs s t) \<and>
       t_state (tcbs s' t) = (if t = current s' then TASK_RUNNING else t_state (tcbs s t))" if "t \<noteq> current s" for t
    using that st1(2) s'(4,5) by (simp add: s1_def s0_def)
  moreover have "sched_frame s s1" "jiffies s1 = jiffies s" "beeping s1 = beeping s"
    by (simp_all add: s1_def s0_def sched_frame_def)
  ultimately show ?thesis unfolding ib(1) using s'(2-4,6,7) p sched_frame_trans [of s s1 s'] by auto
qed

definition due :: "kstate \<Rightarrow> addr \<Rightarrow> bool" where
  "due s x \<longleftrightarrow> t_ticks (tcbs s (task_of_node x)) \<le> jiffies s"

text \<open>What \<^verbatim>\<open>task_wakeup\<close> does to the TCBs: the tasks of the nodes \<open>xs\<close> become ready.\<close>

definition readied :: "kstate \<Rightarrow> addr list \<Rightarrow> addr \<Rightarrow> tcb" where
  "readied s xs t = (if node_of t \<in> set xs then (tcbs s t)\<lparr>t_state := TASK_READY\<rparr> else tcbs s t)"

lemma readied_Nil [simp]: "readied s [] = tcbs s"
  by (simp add: readied_def fun_eq_iff)

lemma wakeup_loop_law:
  assumes "sched_inv s L" and "\<not> iflag s" and "L (sleeping_queue s) = Some xs"
  shows "\<exists>h. wakeup_loop (after (sleeping_queue s) xs) s =
      Some (s\<lparr>nodes := h, tcbs := readied s (takeWhile (due s) xs)\<rparr>) \<and>
     sched_inv (s\<lparr>nodes := h, tcbs := readied s (takeWhile (due s) xs)\<rparr>)
       (L(sleeping_queue s \<mapsto> dropWhile (due s) xs))"
  using assms
proof (induction xs arbitrary: s L)
  case Nil
  have "s\<lparr>nodes := nodes s, tcbs := readied s []\<rparr> = s" by simp
  with Nil show ?case by (auto simp: wakeup_loop.simps map_upd_triv intro!: exI [of _ "nodes s"])
next
  case (Cons x xs)
  let ?l = "sleeping_queue s" and ?t = "task_of_node x"
  have kl: "klists (nodes s) L" using Cons.prems(1) by (simp add: sched_inv_def sched_pre_def)
  have d: "x \<noteq> list_tail ?l" "load (nodes s) x = Some (nodes s x)" "nnext (nodes s x) = after ?l xs"
    using dlist_suffix_facts [of "nodes s" ?l "[]" x xs] klistsD [OF kl Cons.prems(3)] by simp_all
  have t: "?t \<in> tasks s" using Cons.prems(1,3) by (simp add: sched_inv_def sched_pre_def)
  show ?case
  proof (cases "due s x")
    case False
    have "s\<lparr>nodes := nodes s, tcbs := readied s []\<rparr> = s" by simp
    with False Cons.prems d show ?thesis
      by (auto simp: wakeup_loop.simps [of x] due_def map_upd_triv not_le Let_def intro!: exI [of _ "nodes s"])
  next
    case True
    define s1 where "s1 h = upd_tcb ?t (\<lambda>c. c\<lparr>t_state := TASK_READY\<rparr>) (s\<lparr>nodes := h\<rparr>)" for h
    from task_unblock_law [OF Cons.prems(1,2) t, of ?l "[]" xs] Cons.prems(3) obtain h where
      h: "task_unblock ?t s = Some (s1 h)" "sched_inv (s1 h) (L(?l \<mapsto> xs))" by (auto simp: s1_def)
    have s1: "sleeping_queue (s1 h) = ?l" "\<not> iflag (s1 h)" "due (s1 h) = due s"
      using Cons.prems(2) by (auto simp: s1_def due_def fun_eq_iff)
    have lk: "(L(?l \<mapsto> xs)) (sleeping_queue (s1 h)) = Some xs" by (simp add: s1)
    from Cons.IH [OF h(2) s1(2) lk, unfolded s1(1,3) fun_upd_upd] obtain h2 where
      h2: "wakeup_loop (after ?l xs) (s1 h) = Some (s1 h\<lparr>nodes := h2, tcbs := readied (s1 h) (takeWhile (due s) xs)\<rparr>)"
        "sched_inv (s1 h\<lparr>nodes := h2, tcbs := readied (s1 h) (takeWhile (due s) xs)\<rparr>) (L(?l \<mapsto> dropWhile (due s) xs))"
      by blast
    have e: "readied (s1 h) ys = readied s (x # ys)" for ys
      by (auto simp: readied_def s1_def fun_eq_iff)
    have r: "s1 h\<lparr>nodes := h2, tcbs := f\<rparr> = s\<lparr>nodes := h2, tcbs := f\<rparr>" for f by (simp add: s1_def upd_tcb_def)
    have "wakeup_loop x s = Some (s\<lparr>nodes := h2, tcbs := readied s (x # takeWhile (due s) xs)\<rparr>)"
      using h2(1) True d h(1) by (simp add: wakeup_loop.simps [of x] due_def not_less e r Let_def)
    with h2(2) True show ?thesis by (auto simp del: fun_upd_apply simp: e r)
  qed
qed

lemma task_wakeup_law:
  assumes "sched_inv s L" and "\<not> iflag s" and "L (sleeping_queue s) = Some xs"
  shows "\<exists>h. task_wakeup s = Some (s\<lparr>nodes := h, tcbs := readied s (takeWhile (due s) xs)\<rparr>) \<and>
     sched_inv (s\<lparr>nodes := h, tcbs := readied s (takeWhile (due s) xs)\<rparr>)
       (L(sleeping_queue s \<mapsto> dropWhile (due s) xs))"
proof -
  have "klists (nodes s) L" using assms(1) by (simp add: sched_inv_def sched_pre_def)
  note d = dlist_first [OF klistsD [OF this assms(3)]]
  with wakeup_loop_law [OF assms] assms(2) show ?thesis
    by (simp add: task_wakeup_def ASSERT_IRQ_DISABLE_def get_irq_state_def)
qed

text \<open>
  The keys are compared as signed numbers when a task goes to sleep and as unsigned numbers
  when it is woken; the two orders agree while the clock is below \<open>2 ^ 31\<close>.
\<close>

lemma due_downward:
  assumes "unat (jiffies s) < 2 ^ 31" and "0 \<le> sleep_key s x" and "due s y" and "sleep_key s x \<le> sleep_key s y"
  shows "due s x"
proof -
  have "unat (t_ticks (tcbs s (task_of_node y))) < 2 ^ 31"
    using assms(1,3) unfolding due_def word_le_nat_alt by (rule le_less_trans [rotated])
  then have "sleep_key s y = uint (t_ticks (tcbs s (task_of_node y)))"
    unfolding sleep_key_def by (simp only: sint_small uint_nat)
  moreover have "sleep_key s x = uint (t_ticks (tcbs s (task_of_node x)))"
    using assms(2) unfolding sleep_key_def by (rule sint_nonneg)
  ultimately show ?thesis using assms(3,4) by (simp add: due_def word_le_def)
qed

lemma due_prefix:
  assumes "sorted (map (sleep_key s) xs)" and "\<forall>x \<in> set xs. 0 \<le> sleep_key s x" and "unat (jiffies s) < 2 ^ 31"
  shows "dropWhile (due s) xs = filter (\<lambda>x. \<not> due s x) xs" "takeWhile (due s) xs = filter (due s) xs"
proof -
  have "dropWhile (due s) xs = filter (\<lambda>x. \<not> due s x) xs \<and> takeWhile (due s) xs = filter (due s) xs"
    using assms(1,2)
  proof (induction xs)
    case (Cons x xs)
    show ?case
    proof (cases "due s x")
      case False
      have "\<not> due s y" if "y \<in> set xs" for y
        using due_downward [OF assms(3), of x y] False Cons.prems that by auto
      with False show ?thesis by (auto intro: filter_True [symmetric])
    qed (use Cons in auto)
  qed simp
  then show "dropWhile (due s) xs = filter (\<lambda>x. \<not> due s x) xs" "takeWhile (due s) xs = filter (due s) xs" by simp_all
qed

section \<open>Properties\<close>

text \<open>
  A kernel with four tasks: the second is the idle task, the others are the running one and two
  children of it, the later of which has died. Both lists of waiting tasks are empty.
\<close>

definition sample_tcb :: "task_state \<Rightarrow> tcb" where
  "sample_tcb st = zero_tcb\<lparr>t_state := st, t_ticks := 3, t_priority := 3, t_magic := XOS_MAGIC\<rparr>"

definition sample_sched :: kstate where
  "sample_sched = boot_state\<lparr>task_queue := [0x30000, 0x40000, 0x50000, 0x60000, 0], current := 0x30000, idle_task := 0x40000,
     tcbs := (\<lambda>t. sample_tcb (if t = 0x30000 then TASK_RUNNING else if t = 0x60000 then TASK_DIED else TASK_READY)),
     nodes := (\<lambda>_. \<lparr>nprev = 0, nnext = 0\<rparr>)
       (0x21000 := \<lparr>nprev = 0, nnext = 0x21008\<rparr>, 0x21008 := \<lparr>nprev = 0x21000, nnext = 0\<rparr>,
        0x21010 := \<lparr>nprev = 0, nnext = 0x21018\<rparr>, 0x21018 := \<lparr>nprev = 0x21010, nnext = 0\<rparr>)\<rparr>"

definition sample_queues :: "addr \<rightharpoonup> addr list" where
  "sample_queues = [0x21000 \<mapsto> [], 0x21010 \<mapsto> []]"

lemma sample_queues_owned: "owned sample_queues = {0x21000, 0x21008, 0x21010, 0x21018}"
  by (auto simp: owned_def sample_queues_def list_nodes_def list_head_def list_tail_def)

lemma sample_sched_inv: "sched_inv sample_sched sample_queues" "\<not> iflag sample_sched"
proof -
  have "klists (nodes sample_sched) sample_queues"
    by (simp add: klists_def dlist_def list_nodes_def list_head_def list_tail_def sample_sched_def sample_queues_def)
  moreover have "task_ok sample_sched sample_queues t" if "t = 0x30000 \<or> t = 0x40000 \<or> t = 0x50000 \<or> t = 0x60000" for t
    using that by (auto simp: task_ok_def sample_queues_owned queued_states_def)
      (auto simp: sample_sched_def sample_tcb_def node_of_def node_free_def boot_state_def)
  ultimately show "sched_inv sample_sched sample_queues"
    by (simp add: sched_inv_def sched_pre_def)
      (auto simp: sample_sched_def tasks_def sample_tcb_def boot_state_def sample_queues_def zero_tcb_def)
  show "\<not> iflag sample_sched" by (simp add: sample_sched_def boot_state_def)
qed

text \<open>
  Property C10. \<^verbatim>\<open>schedule\<close> never halts in a consistent kernel. It switches to another ready task when
  there is one and to the idle task when there is none; the task it leaves stays ready with a
  refilled time slice when it was used up, the chosen task is the only running one, and no
  third task is touched.
\<close>

theorem schedule_picks_ready:
  assumes "sched_inv s L" and "\<not> iflag s"
  shows "\<exists>s'. schedule s = Some s' \<and> sched_inv s' L \<and>
     (if \<exists>t \<in> tasks s. t \<noteq> current s \<and> t_state (tcbs s t) = TASK_READY
      then current s' \<in> tasks s \<and> current s' \<noteq> current s \<and> t_state (tcbs s (current s')) = TASK_READY
      else current s' = idle_task s) \<and>
     {t \<in> tasks s'. t_state (tcbs s' t) = TASK_RUNNING} = {current s'} \<and>
     t_state (tcbs s' (current s)) = (if current s' = current s then TASK_RUNNING else TASK_READY) \<and>
     t_ticks (tcbs s' (current s)) = (if t_ticks (cur s) = 0 then t_priority (cur s) else t_ticks (cur s)) \<and>
     (\<forall>t. t \<notin> {current s, current s'} \<longrightarrow> tcbs s' t = tcbs s t)"
proof -
  have pre: "sched_pre s L" and run: "t_state (cur s) = TASK_RUNNING" using assms(1) by (simp_all add: sched_inv_def)
  from schedule_law [OF pre assms(2)] obtain s' where
    s': "schedule s = Some s'" "sched_inv s' L" "sched_frame s s'" "current s' = pick s" "tcbs s' = sched_tcb s" by blast
  have "current s' \<in> tasks s'" using s'(2) by (auto simp: sched_inv_def intro: current_task_in)
  then have "{t \<in> tasks s'. t_state (tcbs s' t) = TASK_RUNNING} = {current s'}"
    using running_unique [OF s'(2)] by auto
  moreover have "if \<exists>t \<in> tasks s. t \<noteq> current s \<and> t_state (tcbs s t) = TASK_READY
      then current s' \<in> tasks s \<and> current s' \<noteq> current s \<and> t_state (tcbs s (current s')) = TASK_READY
      else current s' = idle_task s"
    using pick_candidate [of s] by (auto simp: s'(4) candidate_def)
  moreover have "\<forall>t. t \<notin> {current s, current s'} \<longrightarrow> tcbs s' t = tcbs s t"
    by (simp add: s'(4,5) sched_tcb_def)
  moreover have "t_state (tcbs s' (current s)) = (if current s' = current s then TASK_RUNNING else TASK_READY)"
    "t_ticks (tcbs s' (current s)) = (if t_ticks (cur s) = 0 then t_priority (cur s) else t_ticks (cur s))"
    using run by (simp_all add: s'(4,5))
  ultimately show ?thesis using s'(1,2) by blast
qed

theorem schedule_picks_ready_witness:
  "\<exists>s'. schedule sample_sched = Some s' \<and> current s' \<in> {0x40000, 0x50000}"
proof -
  from schedule_picks_ready [OF sample_sched_inv] obtain s' where
    s': "schedule sample_sched = Some s'"
      "if \<exists>t \<in> tasks sample_sched. t \<noteq> current sample_sched \<and> t_state (tcbs sample_sched t) = TASK_READY
       then current s' \<in> tasks sample_sched \<and> current s' \<noteq> current sample_sched \<and>
         t_state (tcbs sample_sched (current s')) = TASK_READY
       else current s' = idle_task sample_sched" by blast
  have "current s' \<in> {0x40000, 0x50000}"
    using s'(2) by (auto simp: sample_sched_def tasks_def sample_tcb_def split: if_splits)
  with s'(1) show ?thesis by blast
qed

text \<open>
  Property C22. \<^verbatim>\<open>task_wakeup\<close> on a sleeping queue sorted by wake-up time makes exactly the tasks ready
  whose time has come, takes exactly their nodes off the queue and keeps the order of the rest.
  It changes no other field of a TCB: \<^verbatim>\<open>ticks\<close> of a woken task is still its wake-up time.
\<close>

theorem task_wakeup_exact:
  assumes "sched_inv s L" and "\<not> iflag s" and "L (sleeping_queue s) = Some xs"
    and "sorted (map (sleep_key s) xs)" and "\<forall>x \<in> set xs. 0 \<le> sleep_key s x" and "unat (jiffies s) < 2 ^ 31"
  shows "\<exists>s'. task_wakeup s = Some s' \<and> sched_inv s' (L(sleeping_queue s \<mapsto> filter (\<lambda>x. \<not> due s x) xs)) \<and>
     (\<forall>t. tcbs s' t = (if node_of t \<in> set xs \<and> due s (node_of t) then (tcbs s t)\<lparr>t_state := TASK_READY\<rparr> else tcbs s t))"
proof -
  from task_wakeup_law [OF assms(1-3)] obtain h where
    h: "task_wakeup s = Some (s\<lparr>nodes := h, tcbs := readied s (filter (due s) xs)\<rparr>)"
      "sched_inv (s\<lparr>nodes := h, tcbs := readied s (filter (due s) xs)\<rparr>)
        (L(sleeping_queue s \<mapsto> filter (\<lambda>x. \<not> due s x) xs))"
    using due_prefix [OF assms(4-6)] by auto
  moreover have "readied s (filter (due s) xs) t =
    (if node_of t \<in> set xs \<and> due s (node_of t) then (tcbs s t)\<lparr>t_state := TASK_READY\<rparr> else tcbs s t)" for t
    by (simp add: readied_def)
  ultimately show ?thesis by (auto simp del: fun_upd_apply)
qed

lemma sched_inv_jiffies [simp]: "sched_inv (s\<lparr>jiffies := n\<rparr>) L = sched_inv s L"
  by (simp add: sched_inv_def sched_pre_def task_ok_def tasks_def)

theorem task_wakeup_exact_witness:
  "\<exists>s s'. task_sleep 10 sample_sched = Some s \<and> t_state (tcbs s 0x30000) = TASK_SLEEPING \<and>
     task_wakeup (s\<lparr>jiffies := 1\<rparr>) = Some s' \<and> t_state (tcbs s' 0x30000) = TASK_READY"
proof -
  let ?q = "sleeping_queue sample_sched"
  have c: "current sample_sched = 0x30000" "idle_task sample_sched = 0x40000" "?q = 0x21010"
    by (simp_all add: sample_sched_def boot_state_def)
  have u: "sleep_until sample_sched 10 = 1" by (simp add: sleep_until_def sample_sched_def boot_state_def)
  have q: "sample_queues ?q = Some []" by (simp add: c sample_queues_def)
  from task_sleep_law [OF sample_sched_inv _ q, of 10] obtain s where
    s: "task_sleep 10 sample_sched = Some s" "sched_inv s (sample_queues(?q \<mapsto> [node_of 0x30000]))"
      "sched_frame sample_sched s" "t_state (tcbs s 0x30000) = TASK_SLEEPING" "t_ticks (tcbs s 0x30000) = 1"
    by (auto simp: c u insert_by_def)
  have i: "\<not> iflag (s\<lparr>jiffies := 1\<rparr>)" and q: "sleeping_queue (s\<lparr>jiffies := 1\<rparr>) = ?q"
    using s(3) sample_sched_inv(2) by (simp_all add: sched_frame_def)
  have inv: "sched_inv (s\<lparr>jiffies := 1\<rparr>) (sample_queues(?q \<mapsto> [node_of 0x30000]))" using s(2) by simp
  from task_wakeup_exact [OF inv i, of "[node_of 0x30000]"] s(5) obtain s' where
    "task_wakeup (s\<lparr>jiffies := 1\<rparr>) = Some s'" "t_state (tcbs s' 0x30000) = TASK_READY"
    by (auto simp: q sleep_key_def due_def)
  with s(1,4) show ?thesis by blast
qed



end
