(* ===== verification/Family.thy ===== *)
theory Family
  imports Sched
begin

text \<open>
  Parents and children: the end of \<^verbatim>\<open>sys_exit\<close>, in which a dying task gives its children to its own parent and wakes that one, and
  \<^verbatim>\<open>sys_waitpid\<close>, in which the parent takes the dead task out of the task table and gives its page back.
\<close>

section \<open>Handing the children over\<close>

definition adopted :: "kstate \<Rightarrow> addr set \<Rightarrow> addr \<Rightarrow> tcb" where
  "adopted s T t = (if t \<in> T \<and> t \<noteq> 0 \<and> t \<noteq> current s \<and> t_ppid (tcbs s t) = t_pid (cur s)
     then (tcbs s t)\<lparr>t_ppid := t_ppid (cur s)\<rparr> else tcbs s t)"

lemma adopted_fields [simp]:
  "t_state (adopted s T t) = t_state (tcbs s t)" "t_magic (adopted s T t) = t_magic (tcbs s t)"
  "t_pid (adopted s T t) = t_pid (tcbs s t)" "t_status (adopted s T t) = t_status (tcbs s t)"
  "t_waitpid (adopted s T t) = t_waitpid (tcbs s t)" "adopted s T (current s) = cur s"
  by (simp_all add: adopted_def)

lemma adopt_loop:
  "fold (\<lambda>i s.
     let t = task_queue s ! i
     in if t = 0 \<or> t = current s \<or> t_ppid (tcbs s t) \<noteq> t_pid (cur s) then s
        else upd_tcb t (\<lambda>c. c\<lparr>t_ppid := t_ppid (cur s)\<rparr>) s) is s = s\<lparr>tcbs := adopted s ((\<lambda>i. task_queue s ! i) ` set is)\<rparr>"
proof (induction "is" arbitrary: s)
  case Nil
  then show ?case by (simp add: adopted_def)
next
  case (Cons i "is")
  let ?t = "task_queue s ! i"
  define s1 where "s1 = s\<lparr>tcbs := adopted s {?t}\<rparr>"
  have one: "(let t = task_queue s ! i
     in if t = 0 \<or> t = current s \<or> t_ppid (tcbs s t) \<noteq> t_pid (cur s) then s
        else upd_tcb t (\<lambda>c. c\<lparr>t_ppid := t_ppid (cur s)\<rparr>) s) = s1"
  proof (cases "?t = 0 \<or> ?t = current s \<or> t_ppid (tcbs s ?t) \<noteq> t_pid (cur s)")
    case True
    then have "adopted s {?t} = tcbs s" by (auto simp: adopted_def fun_eq_iff)
    then show ?thesis using True by (simp add: s1_def)
  next
    case False
    then have "adopted s {?t} = (tcbs s)(?t := (tcbs s ?t)\<lparr>t_ppid := t_ppid (cur s)\<rparr>)" by (auto simp: adopted_def fun_eq_iff)
    then show ?thesis using False by (simp add: s1_def upd_tcb_def Let_def)
  qed
  have "adopted s1 T t = adopted s (insert ?t T) t" for T t
    by (auto simp: adopted_def s1_def)
  then show ?case using Cons.IH [of s1] by (simp only: fold.simps o_apply one) (simp add: s1_def fun_eq_iff)
qed

text \<open>The tasks in the table from its third entry on; the first two are not searched.\<close>

definition user_tasks :: "kstate \<Rightarrow> addr set" where
  "user_tasks s = (\<lambda>i. task_queue s ! i) ` {2 ..< NUM_TASKS}"

lemma reparent_law: "reparent s = s\<lparr>tcbs := adopted s (user_tasks s)\<rparr>"
  unfolding reparent_def adopt_loop user_tasks_def by simp

lemma sched_pre_tcbs:
  assumes "\<And>t. t_state (g t) = t_state (tcbs s t)" "\<And>t. t_magic (g t) = t_magic (tcbs s t)"
  shows "sched_pre (s\<lparr>tcbs := g\<rparr>) L = sched_pre s L"
  using assms by (simp add: sched_pre_def task_ok_def tasks_def)

text \<open>A task that has died is not picked.\<close>

lemma pick_runs:
  assumes "sched_pre s L"
  shows "t_state (tcbs s (pick s)) \<in> {TASK_READY, TASK_RUNNING}"
proof (cases "pick s = current s")
  case True
  have "t_state (tcbs s (idle_task s)) \<in> {TASK_READY, TASK_RUNNING}" using assms by (simp add: sched_pre_def)
  then show ?thesis using True pick_candidate [of s] by (cases "\<exists>t. candidate s TASK_READY t") (auto simp: candidate_def)
qed (use pick_props(3) [OF assms] in simp)

lemma in_list_split: "in_list L n \<Longrightarrow> \<exists>l as bs. L l = Some (as @ n # bs)"
  by (auto simp: in_list_def) (metis split_list)

text \<open>The parent is woken when it waits for this child, or for any.\<close>

definition waits_for :: "kstate \<Rightarrow> addr \<Rightarrow> bool" where
  "waits_for s p \<longleftrightarrow> t_state (tcbs s p) = TASK_WAITING \<and> (t_waitpid (tcbs s p) = t_pid (cur s) \<or> t_waitpid (tcbs s p) = - 1)"

lemma wake_parent_law:
  assumes pre: "sched_pre s L" "\<not> iflag s" and died: "t_state (cur s) \<notin> queued_states"
    and par: "unat (t_ppid (cur s)) < length (task_queue s)" "length (task_queue s) = NUM_TASKS" "p = task_queue s ! unat (t_ppid (cur s))" "p \<noteq> 0"
  shows "\<exists>s' L'. wake_parent s = Some s' \<and> sched_pre s' L' \<and> sched_frame s s' \<and> current s' = current s \<and>
    (\<not> waits_for s p \<longrightarrow> L' = L) \<and>
    tcbs s' = (if waits_for s p then (tcbs s)(p := (tcbs s p)\<lparr>t_state := TASK_READY\<rparr>) else tcbs s) \<and> (waits_for s p \<longrightarrow> p \<noteq> current s)"
proof (cases "waits_for s p")
  case True
  have t: "p \<in> tasks s" using par by (simp add: tasks_def)
  have "t_state (tcbs s p) \<in> queued_states" using True by (simp add: waits_for_def queued_states_def)
  from in_list_split [OF sched_preD(5) [OF pre(1) t this]] obtain l as bs where l: "L l = Some (as @ node_of p # bs)" by blast
  from task_unblock_pre [OF pre(1) died pre(2) t l] obtain h where
    h: "task_unblock p s = Some (upd_tcb p (\<lambda>c. c\<lparr>t_state := TASK_READY\<rparr>) (s\<lparr>nodes := h\<rparr>))"
      "sched_pre (upd_tcb p (\<lambda>c. c\<lparr>t_state := TASK_READY\<rparr>) (s\<lparr>nodes := h\<rparr>)) (L(l \<mapsto> as @ bs))" "p \<noteq> current s" by blast
  have "wake_parent s = task_unblock p s"
    using True par by (simp add: wake_parent_def waits_for_def Let_def)
  then show ?thesis using h True by (simp add: sched_frame_def) (auto simp: upd_tcb_def)
next
  case False
  then have "wake_parent s = Some s" using par by (auto simp: wake_parent_def waits_for_def Let_def)
  then show ?thesis using False pre(1) by auto
qed

section \<open>Taking a dead child out of the table\<close>

lemma find_child_Some:
  assumes "find_child s pid is = Some i"
  shows "i \<in> set is" "task_queue s ! i \<noteq> 0" "task_queue s ! i \<noteq> current s" "t_ppid (tcbs s (task_queue s ! i)) = t_pid (cur s)"
    "t_pid (tcbs s (task_queue s ! i)) = pid \<or> pid = - 1"
proof -
  have "i \<in> set is \<and> task_queue s ! i \<noteq> 0 \<and> task_queue s ! i \<noteq> current s \<and> t_ppid (tcbs s (task_queue s ! i)) = t_pid (cur s) \<and>
    (t_pid (tcbs s (task_queue s ! i)) = pid \<or> pid = - 1)"
    using assms
  proof (induction "is")
    case (Cons j "is")
    let ?t = "task_queue s ! j"
    show ?case
    proof (cases "?t = 0 \<or> ?t = current s \<or> t_ppid (tcbs s ?t) \<noteq> t_pid (cur s) \<or> (t_pid (tcbs s ?t) \<noteq> pid \<and> pid \<noteq> - 1)")
      case True
      then have "find_child s pid is = Some i" using Cons.prems by (simp only: find_child.simps Let_def if_True)
      from Cons.IH [OF this] show ?thesis by simp
    next
      case False
      then have "j = i" using Cons.prems by (simp only: find_child.simps Let_def if_False option.inject)
      then show ?thesis using False by simp
    qed
  qed simp
  then show "i \<in> set is" "task_queue s ! i \<noteq> 0" "task_queue s ! i \<noteq> current s" "t_ppid (tcbs s (task_queue s ! i)) = t_pid (cur s)"
    "t_pid (tcbs s (task_queue s ! i)) = pid \<or> pid = - 1" by blast+
qed

text \<open>The table without entry \<open>i\<close>.\<close>

lemma sched_inv_remove:
  assumes inv: "sched_inv s L" and i: "i < length (task_queue s)" "t = task_queue s ! i" "t \<noteq> 0" "t \<noteq> current s" "t \<noteq> idle_task s"
    and once: "\<forall>j < length (task_queue s). task_queue s ! j = t \<longrightarrow> j = i" and q: "t_state (tcbs s t) \<notin> queued_states"
  shows "tasks (s\<lparr>task_queue := (task_queue s)[i := 0]\<rparr>) = tasks s - {t}"
    "sched_inv (s\<lparr>task_queue := (task_queue s)[i := 0]\<rparr>) L"
proof -
  let ?s = "s\<lparr>task_queue := (task_queue s)[i := 0]\<rparr>"
  have pre: "sched_pre s L" using inv by (simp add: sched_inv_def)
  have "x \<in> set ((task_queue s)[i := 0]) - {0} \<longleftrightarrow> x \<in> set (task_queue s) - {0} - {t}" for x
  proof
    assume "x \<in> set ((task_queue s)[i := 0]) - {0}"
    then obtain j where j: "j < length (task_queue s)" "x = (task_queue s)[i := 0] ! j" "x \<noteq> 0" by (auto simp: in_set_conv_nth)
    then have "j \<noteq> i" using i(1) by auto
    then have "x = task_queue s ! j" using j(2) by simp
    moreover have "task_queue s ! j \<noteq> t" using once j(1) \<open>j \<noteq> i\<close> by blast
    ultimately show "x \<in> set (task_queue s) - {0} - {t}" using j by simp
  next
    assume x: "x \<in> set (task_queue s) - {0} - {t}"
    then obtain j where j: "j < length (task_queue s)" "x = task_queue s ! j" by (auto simp: in_set_conv_nth)
    then have "j \<noteq> i" using x i(2) by auto
    then have e: "(task_queue s)[i := 0] ! j = x" using j(2) by simp
    have "(task_queue s)[i := 0] ! j \<in> set ((task_queue s)[i := 0])" by (rule nth_mem) (simp add: j(1))
    then show "x \<in> set ((task_queue s)[i := 0]) - {0}" unfolding e using x by blast
  qed
  then have "set ((task_queue s)[i := 0]) - {0} = set (task_queue s) - {0} - {t}" by blast
  then show ts: "tasks ?s = tasks s - {t}" by (simp add: tasks_def)
  have t: "t \<in> tasks s" using nth_mem [OF i(1)] i(3) unfolding i(2) [symmetric] tasks_def by blast
  have same: "task_ok ?s L = task_ok s L" by (simp add: task_ok_def fun_eq_iff)
  have ok: "\<forall>x \<in> tasks s. task_ok s L x" using pre unfolding sched_pre_def by blast
  have "task_of_node x \<noteq> t" if "x \<in> set (the (L (sleeping_queue s)))" for x
  proof
    assume "task_of_node x = t"
    then have "x = node_of t" by (auto simp: task_of_node_def node_of_def)
    moreover obtain xs where "L (sleeping_queue s) = Some xs" using pre by (auto simp: sched_pre_def)
    ultimately have "node_of t \<in> owned L" using that in_list_owned [of L "sleeping_queue s" xs] by simp
    then show False using sched_preD(6) [OF pre t q] by blast
  qed
  moreover have "current s \<in> tasks s - {t}" "idle_task s \<in> tasks s - {t}" using pre i(4,5) by (auto simp: sched_pre_def)
  ultimately show "sched_inv ?s L" using inv ok unfolding sched_inv_def sched_pre_def ts same by simp
qed

lemma sched_inv_kmem [simp]: "sched_inv (s\<lparr>kmem := m\<rparr>) L = sched_inv s L" "tasks (s\<lparr>kmem := m\<rparr>) = tasks s"
  by (simp_all add: sched_inv_def sched_pre_def task_ok_def tasks_def)

section \<open>Properties\<close>

text \<open>
  Property C11. A task that exits hands over to its family: the end of \<^verbatim>\<open>sys_exit\<close> returns, every child of the task (beyond the first
  two entries of the table) becomes a child of its parent and no other task changes its parent, the parent can run again if it was
  waiting for this child or for any, the kernel is consistent and another task is running, and the dead task keeps its status.
\<close>

theorem exit_hands_over:
  assumes pre: "sched_pre s L" "\<not> iflag s" and died: "t_state (cur s) = TASK_DIED"
    and table: "length (task_queue s) = NUM_TASKS" "unat (t_ppid (cur s)) < NUM_TASKS"
    and p: "p = task_queue s ! unat (t_ppid (cur s))" "p \<noteq> 0"
  shows "\<exists>s' L'. exit_tail s = Some s' \<and> sched_inv s' L' \<and> current s' \<noteq> current s \<and> task_queue s' = task_queue s \<and>
    t_state (tcbs s' (current s)) = TASK_DIED \<and> t_status (tcbs s' (current s)) = t_status (cur s) \<and>
    (\<forall>t \<in> user_tasks s - {0, current s}. t_ppid (tcbs s' t) = (if t_ppid (tcbs s t) = t_pid (cur s) then t_ppid (cur s) else t_ppid (tcbs s t))) \<and>
    (if waits_for s p then t_state (tcbs s' p) \<in> {TASK_READY, TASK_RUNNING} else L' = L)"
proof -
  let ?s1 = "reparent s"
  have f1: "current ?s1 = current s" "task_queue ?s1 = task_queue s" "iflag ?s1 = iflag s" "cur ?s1 = cur s"
    "tcbs ?s1 = adopted s (user_tasks s)" by (simp_all add: reparent_law)
  have w1: "waits_for ?s1 p = waits_for s p" by (simp add: waits_for_def f1)
  have pre1: "sched_pre ?s1 L" unfolding reparent_law using sched_pre_tcbs [of "adopted s (user_tasks s)" s L] pre(1) by simp
  have d1: "t_state (cur ?s1) \<notin> queued_states" using died by (simp add: f1 queued_states_def)
  from wake_parent_law [OF pre1 _ d1, of p] f1 pre(2) table p w1 obtain s2 L' where
    s2: "wake_parent ?s1 = Some s2" "sched_pre s2 L'" "sched_frame ?s1 s2" "current s2 = current s" "\<not> waits_for s p \<longrightarrow> L' = L"
      "tcbs s2 = (if waits_for s p then (tcbs ?s1)(p := (tcbs ?s1 p)\<lparr>t_state := TASK_READY\<rparr>) else tcbs ?s1)"
      "waits_for s p \<longrightarrow> p \<noteq> current s" by auto
  have i2: "\<not> iflag s2" using s2(3) pre(2) f1(3) by (simp add: sched_frame_def)
  from schedule_law [OF s2(2) i2] obtain s' where
    s': "schedule s2 = Some s'" "sched_inv s' L'" "sched_frame s2 s'" "current s' = pick s2" "tcbs s' = sched_tcb s2" by blast
  have c2: "tcbs s2 (current s) = cur s" using s2(6,7) f1(4,5) by auto
  have np: "pick s2 \<noteq> current s" using pick_runs [OF s2(2)] c2 died by auto
  have fields: "t_ppid (sched_tcb s2 t) = t_ppid (tcbs s2 t)" "t_status (sched_tcb s2 t) = t_status (tcbs s2 t)" for t
    by (simp_all add: sched_tcb_def Let_def)
  have "t_ppid (tcbs s' t) = (if t_ppid (tcbs s t) = t_pid (cur s) then t_ppid (cur s) else t_ppid (tcbs s t))"
    if "t \<in> user_tasks s - {0, current s}" for t
    using that s2(6) f1(5) by (auto simp: s'(5) fields adopted_def)
  moreover have "t_state (tcbs s' (current s)) = TASK_DIED" "t_status (tcbs s' (current s)) = t_status (cur s)"
    using np c2 died s2(4) by (simp_all add: s'(5) fields)
  moreover have "task_queue s' = task_queue s" using s'(3) s2(3) f1(2) by (simp add: sched_frame_def)
  moreover have "t_state (tcbs s' p) \<in> {TASK_READY, TASK_RUNNING}" if "waits_for s p"
    using that s2(4,6,7) by (auto simp: s'(5))
  moreover have "exit_tail s = Some s'" using s2(1) s'(1) by (simp add: exit_tail_def Let_def)
  ultimately show ?thesis using s'(2,4) np s2(5) by auto
qed


text \<open>
  A task at 0x60000, number 3, that exits: its parent at 0x30000 waits for it, the task at 0x50000 is its child. Then the same
  tasks when the parent runs again.
\<close>

definition sample_family_tcb :: "addr \<Rightarrow> tcb" where
  "sample_family_tcb t =
     (if t = 0x30000 then (sample_tcb TASK_WAITING)\<lparr>t_waitpid := 3, t_uid := USER_TASK\<rparr>
      else if t = 0x60000 then (sample_tcb TASK_DIED)\<lparr>t_pid := 3, t_status := 7, t_uid := USER_TASK\<rparr>
      else if t = 0x50000 then (sample_tcb TASK_READY)\<lparr>t_pid := 2, t_ppid := 3\<rparr> else (sample_tcb TASK_READY)\<lparr>t_pid := 1\<rparr>)"

definition sample_table :: "addr list" where
  "sample_table = [0x30000, 0x40000, 0x50000, 0x60000] @ replicate 60 0"

lemma sample_table_facts: "length sample_table = NUM_TASKS" "set sample_table - {0} = {0x30000, 0x40000, 0x50000, 0x60000}"
  "sample_table ! 0 = 0x30000" "sample_table ! 2 = 0x50000" "sample_table ! 3 = 0x60000" "j < 64 \<Longrightarrow> sample_table ! j = 0x60000 \<Longrightarrow> j = 3"
proof -
  show "length sample_table = NUM_TASKS" "set sample_table - {0} = {0x30000, 0x40000, 0x50000, 0x60000}"
    by (auto simp: sample_table_def NUM_TASKS_def)
  show "sample_table ! 0 = 0x30000" "sample_table ! 2 = 0x50000" "sample_table ! 3 = 0x60000"
    by (simp_all add: sample_table_def nth_append)
  assume j: "j < 64" "sample_table ! j = 0x60000"
  show "j = 3"
  proof (cases "j < 4")
    case True
    then have "j = 0 \<or> j = 1 \<or> j = 2 \<or> j = 3" by auto
    then show ?thesis using j(2) by (auto simp: sample_table_def)
  next
    case False
    then have "sample_table ! j = replicate 60 0 ! (j - length [0x30000, 0x40000, 0x50000, 0x60000 :: addr])"
      unfolding sample_table_def by (subst nth_append) simp
    then show ?thesis using j False by simp
  qed
qed

definition sample_exit :: kstate where
  "sample_exit = boot_state\<lparr>task_queue := sample_table, current := 0x60000, idle_task := 0x40000, tcbs := sample_family_tcb,
     nodes := (\<lambda>_. \<lparr>nprev = 0, nnext = 0\<rparr>)
       (0x21000 := \<lparr>nprev = 0, nnext = 0x30004\<rparr>, 0x30004 := \<lparr>nprev = 0x21000, nnext = 0x21008\<rparr>, 0x21008 := \<lparr>nprev = 0x30004, nnext = 0\<rparr>,
        0x21010 := \<lparr>nprev = 0, nnext = 0x21018\<rparr>, 0x21018 := \<lparr>nprev = 0x21010, nnext = 0\<rparr>)\<rparr>"

definition sample_exit_queues :: "addr \<rightharpoonup> addr list" where
  "sample_exit_queues = [0x21000 \<mapsto> [0x30004], 0x21010 \<mapsto> []]"

lemma sample_exit_ok: "sched_pre sample_exit sample_exit_queues" "\<not> iflag sample_exit"
proof -
  have kl: "klists (nodes sample_exit) sample_exit_queues"
    by (simp add: klists_def dlist_def list_nodes_def list_head_def list_tail_def sample_exit_def sample_exit_queues_def)
  have o: "owned sample_exit_queues = {0x21000, 0x30004, 0x21008, 0x21010, 0x21018}"
    by (auto simp: owned_def sample_exit_queues_def list_nodes_def list_head_def list_tail_def split: if_splits)
  have il: "in_list sample_exit_queues 0x30004" by (auto simp: in_list_def sample_exit_queues_def)
  have ts: "tasks sample_exit = {0x30000, 0x40000, 0x50000, 0x60000}" by (simp add: tasks_def sample_exit_def sample_table_facts)
  have "task_ok sample_exit sample_exit_queues t" if "t \<in> tasks sample_exit" for t
  proof -
    have "t = 0x30000 \<or> t = 0x40000 \<or> t = 0x50000 \<or> t = 0x60000" using that by (simp add: ts)
    then show ?thesis
      by (auto simp: task_ok_def o il queued_states_def sample_exit_def sample_family_tcb_def sample_tcb_def node_of_def node_free_def)
  qed
  then show "sched_pre sample_exit sample_exit_queues"
    using kl by (simp add: sched_pre_def ts) (simp add: sample_exit_def sample_family_tcb_def sample_tcb_def boot_state_def sample_exit_queues_def)
  show "\<not> iflag sample_exit" by (simp add: sample_exit_def boot_state_def)
qed

theorem exit_hands_over_witness:
  "\<exists>s'. exit_tail sample_exit = Some s' \<and> current s' \<noteq> 0x60000 \<and> t_state (tcbs s' 0x30000) \<in> {TASK_READY, TASK_RUNNING} \<and>
     t_ppid (tcbs s' 0x50000) = 0 \<and> t_status (tcbs s' 0x60000) = 7"
proof -
  have c: "current sample_exit = 0x60000" "tcbs sample_exit = sample_family_tcb" "task_queue sample_exit = sample_table"
    by (simp_all add: sample_exit_def)
  have f: "t_state (sample_family_tcb 0x60000) = TASK_DIED" "t_ppid (sample_family_tcb 0x60000) = 0" "t_pid (sample_family_tcb 0x60000) = 3"
    "t_status (sample_family_tcb 0x60000) = 7" "t_ppid (sample_family_tcb 0x50000) = 3" "waits_for sample_exit 0x30000"
    by (simp_all add: sample_family_tcb_def sample_tcb_def zero_tcb_def waits_for_def c)
  have u: "0x50000 \<in> user_tasks sample_exit"
    by (auto simp: user_tasks_def c sample_table_facts NUM_TASKS_def intro!: image_eqI [of _ _ 2])
  have n: "(0x30000 :: addr) \<noteq> 0" "0x50000 \<in> user_tasks sample_exit - {0, 0x60000}" using u by simp_all
  have "0x30000 = task_queue sample_exit ! unat (t_ppid (cur sample_exit))" by (simp add: c f sample_table_facts)
  from exit_hands_over [OF sample_exit_ok _ _ _ this n(1)] n(2) show ?thesis
    by (auto simp: c f sample_table_facts NUM_TASKS_def)
qed

definition sample_wait :: kstate where
  "sample_wait = sample_sched\<lparr>task_queue := sample_table,
     tcbs := sample_family_tcb(0x30000 := (sample_tcb TASK_RUNNING)\<lparr>t_uid := USER_TASK\<rparr>),
     kmem := (\<lambda>_. 0xff), bitmaps := (\<lambda>_. bitmap_new 0x20000 16 0)\<rparr>"

lemma sample_wait_ok: "sched_inv sample_wait sample_queues" "kmap_ok sample_wait" "kpages sample_wait = {0 ..< 128}"
  "tasks sample_wait = {0x30000, 0x40000, 0x50000, 0x60000}"
proof -
  show ts: "tasks sample_wait = {0x30000, 0x40000, 0x50000, 0x60000}" by (simp add: tasks_def sample_wait_def sample_table_facts)
  have kl: "klists (nodes sample_wait) sample_queues"
    using sample_sched_inv(1) by (simp add: sched_inv_def sched_pre_def sample_wait_def)
  have "task_ok sample_wait sample_queues t" if "t \<in> tasks sample_wait" for t
  proof -
    have "t = 0x30000 \<or> t = 0x40000 \<or> t = 0x50000 \<or> t = 0x60000" using that by (simp add: ts)
    then show ?thesis
      by (auto simp: task_ok_def sample_queues_owned queued_states_def sample_wait_def sample_sched_def sample_family_tcb_def
          sample_tcb_def node_of_def node_free_def)
  qed
  then show "sched_inv sample_wait sample_queues"
    using kl by (simp add: sched_inv_def sched_pre_def ts)
      (simp add: sample_wait_def sample_sched_def sample_family_tcb_def sample_tcb_def boot_state_def sample_queues_def)
  have k: "kernel_map sample_wait = bitmap_new 0x20000 16 0" "kmem sample_wait = (\<lambda>_. 0xff)" by (simp_all add: kernel_map_def sample_wait_def)
  show "kmap_ok sample_wait" by (auto simp: kmap_ok_def k bits_of_def) (simp_all add: bitmap_ok_def bitmap_new_def)
  have "bit (0xff :: u8) (i mod 8)" for i
  proof -
    have "(0xff :: u8) = - 1" by simp
    moreover have "i mod 8 < 8" by simp
    ultimately show ?thesis by (simp only: bit_minus_1_iff len_bit0 len_num1) simp
  qed
  then show "kpages sample_wait = {0 ..< 128}"
    by (auto simp: kpages_def k used_def bits_of_def bit_at_def bitmap_new_def)
qed


end
