(* ===== verification/Clock.thy ===== *)
theory Clock
  imports Sched
begin

text \<open>
  The clock: \<^verbatim>\<open>kernel/clock.c\<close>. The handler of the clock interrupt runs with interrupts off;
  \<open>speaker\<close> is the control byte of the PC speaker at port 0x61. \<open>kernel_step\<close> is the relation of all
  ways the scheduler's state changes, and the invariant of the scheduler holds in every
  state they reach.
\<close>

unbundle bit_operations_syntax

section \<open>The operations of clock.c\<close>

definition start_beep :: "kstate \<Rightarrow> kstate" where
  "start_beep s = (if beeping s = 0 then s\<lparr>beeping := jiffies s + 5, speaker := speaker s OR 3\<rparr> else s)"

definition stop_beep :: "kstate \<Rightarrow> kstate" where
  "stop_beep s = (if jiffies s > beeping s then s\<lparr>beeping := 0, speaker := speaker s AND NOT 3\<rparr> else s)"

text \<open>\<^verbatim>\<open>send_eoi\<close> is the write of 0x20 to port 0x20 for this vector.\<close>

definition clock_handler :: "u32 \<Rightarrow> kstate \<Rightarrow> kstate option" where
  "clock_handler vector s = do {
     assert_c (vector = 0x20);
     let s = stop_beep s;
     s \<leftarrow> task_wakeup s;
     let s = s\<lparr>jiffies := jiffies s + 1\<rparr>;
     let cu = current_task s;
     assert_c (t_magic (tcbs s cu) = XOS_MAGIC);
     let s = upd_tcb cu (\<lambda>t. t\<lparr>t_ticks := t_ticks t - 1, t_jiffies := jiffies s\<rparr>) s;
     if t_ticks (tcbs s cu) = 0 then schedule s else Some s }"

definition CLOCK_COUNTER :: u32 where "CLOCK_COUNTER = 1193182 div 100"
definition BEEP_COUNTER :: u32 where "BEEP_COUNTER = 1193182 div 440"

definition pit_init :: "(u16 \<times> u8) list" where
  "pit_init = [(0x43, 0x34), (0x40, ucast (CLOCK_COUNTER AND 0xff)), (0x40, ucast (drop_bit 8 CLOCK_COUNTER AND 0xff)),
     (0x43, 0xb6), (0x42, ucast (BEEP_COUNTER AND 0xff)), (0x42, ucast (drop_bit 8 BEEP_COUNTER AND 0xff))]"

definition sys_time :: "u32 \<Rightarrow> kstate \<Rightarrow> u32" where
  "sys_time startup_time s = startup_time + (jiffies s * jiffy) div 1000"

definition rtc_handler :: "u32 \<Rightarrow> kstate \<Rightarrow> kstate option" where
  "rtc_handler vector s = do { assert_c (vector = 0x28); Some (start_beep s) }"

section \<open>The clock tick keeps the scheduler's invariant\<close>

definition sleepers_ok :: "kstate \<Rightarrow> (addr \<rightharpoonup> addr list) \<Rightarrow> bool" where
  "sleepers_ok s L \<longleftrightarrow> (\<exists>xs. L (sleeping_queue s) = Some xs \<and> sorted (map (sleep_key s) xs) \<and>
     (\<forall>x \<in> set xs. 0 \<le> sleep_key s x \<and> t_state (tcbs s (task_of_node x)) = TASK_SLEEPING))"

definition clock_inv :: "kstate \<Rightarrow> (addr \<rightharpoonup> addr list) \<Rightarrow> bool" where
  "clock_inv s L \<longleftrightarrow> sched_inv s L \<and> sleepers_ok s L \<and> \<not> iflag s"

lemma sched_inv_queue:
  assumes "sched_inv s L" and "L l = Some xs" and "node_of t \<in> set xs" and "t \<in> tasks s"
  shows "t \<noteq> current s" "t_state (tcbs s t) \<in> queued_states"
proof -
  have pre: "sched_pre s L" and run: "t_state (cur s) = TASK_RUNNING" using assms(1) by (simp_all add: sched_inv_def)
  have "node_of t \<in> owned L" using in_list_owned [of L l, OF assms(2,3)] .
  with sched_preD(6) [OF pre assms(4)] show q: "t_state (tcbs s t) \<in> queued_states" by blast
  with run show "t \<noteq> current s" by (auto simp: queued_states_def)
qed

lemma sched_inv_sleepers:
  "sched_inv s L \<Longrightarrow> L (sleeping_queue s) = Some xs \<Longrightarrow> x \<in> set xs \<Longrightarrow> task_of_node x \<in> tasks s \<and> task_of_node x \<noteq> current s"
  using sched_inv_queue [of s L "sleeping_queue s" xs "task_of_node x"]
  by (auto simp: sched_inv_def sched_pre_def)

text \<open>An operation that leaves the waiting sleepers alone keeps the queue sorted.\<close>

lemma sleepers_ok_cong:
  assumes "sleepers_ok s L" and "sleeping_queue s' = sleeping_queue s" and "L' (sleeping_queue s) = L (sleeping_queue s)"
    and "\<And>xs x. L (sleeping_queue s) = Some xs \<Longrightarrow> x \<in> set xs \<Longrightarrow>
      t_ticks (tcbs s' (task_of_node x)) = t_ticks (tcbs s (task_of_node x)) \<and>
      t_state (tcbs s' (task_of_node x)) = t_state (tcbs s (task_of_node x))"
  shows "sleepers_ok s' L'"
proof -
  from assms(1) obtain xs where xs: "L (sleeping_queue s) = Some xs" "sorted (map (sleep_key s) xs)"
    "\<forall>x \<in> set xs. 0 \<le> sleep_key s x \<and> t_state (tcbs s (task_of_node x)) = TASK_SLEEPING"
    by (auto simp: sleepers_ok_def)
  have k: "sleep_key s' x = sleep_key s x \<and> t_state (tcbs s' (task_of_node x)) = t_state (tcbs s (task_of_node x))"
    if "x \<in> set xs" for x
    using assms(4) [OF xs(1) that] by (simp add: sleep_key_def)
  then have "map (sleep_key s') xs = map (sleep_key s) xs" by simp
  then have "sorted (map (sleep_key s') xs)" using xs(2) by metis
  with xs k assms(2,3) show ?thesis by (auto simp: sleepers_ok_def)
qed

lemma schedule_clock:
  assumes "clock_inv s L"
  shows "\<exists>s'. schedule s = Some s' \<and> clock_inv s' L \<and> sched_frame s s' \<and> jiffies s' = jiffies s \<and>
     current s' = pick s \<and> tcbs s' = sched_tcb s"
proof -
  have pre: "sched_pre s L" and run: "t_state (cur s) = TASK_RUNNING" and i: "\<not> iflag s" and sl: "sleepers_ok s L"
    and inv: "sched_inv s L"
    using assms by (auto simp: clock_inv_def sched_inv_def)
  from schedule_law [OF pre i] obtain s' where
    s': "schedule s = Some s'" "sched_inv s' L" "sched_frame s s'" "current s' = pick s" "tcbs s' = sched_tcb s"
      "jiffies s' = jiffies s" by blast
  have q: "sleeping_queue s' = sleeping_queue s" using s'(3) by (simp add: sched_frame_def)
  have "sleepers_ok s' L"
  proof (rule sleepers_ok_cong [where L = L and L' = L, OF sl q refl])
    fix xs x assume x: "L (sleeping_queue s) = Some xs" "x \<in> set xs"
    have "task_of_node x \<noteq> current s" "task_of_node x \<noteq> pick s"
      using sched_inv_sleepers [OF inv x] sched_inv_sleepers [OF s'(2), of xs x] x by (auto simp: q s'(4))
    then show "t_ticks (tcbs s' (task_of_node x)) = t_ticks (tcbs s (task_of_node x)) \<and>
      t_state (tcbs s' (task_of_node x)) = t_state (tcbs s (task_of_node x))" by (simp add: s'(5))
  qed
  with s' i show ?thesis by (auto simp: clock_inv_def sched_frame_def)
qed

lemma task_wakeup_clock:
  assumes "clock_inv s L" and "L (sleeping_queue s) = Some xs" and "unat (jiffies s) < 2 ^ 31"
  shows "\<exists>h. let s' = s\<lparr>nodes := h, tcbs := readied s (filter (due s) xs)\<rparr>;
     L' = L(sleeping_queue s \<mapsto> filter (\<lambda>x. \<not> due s x) xs)
     in task_wakeup s = Some s' \<and> clock_inv s' L'"
proof -
  have inv: "sched_inv s L" "\<not> iflag s" and sl: "sorted (map (sleep_key s) xs)"
    "\<forall>x \<in> set xs. 0 \<le> sleep_key s x \<and> t_state (tcbs s (task_of_node x)) = TASK_SLEEPING"
    using assms(1,2) by (auto simp: clock_inv_def sleepers_ok_def)
  have k: "\<forall>x \<in> set xs. 0 \<le> sleep_key s x" using sl(2) by blast
  from task_wakeup_law [OF inv assms(2), unfolded due_prefix [OF sl(1) k assms(3)]] obtain h where
    h: "task_wakeup s = Some (s\<lparr>nodes := h, tcbs := readied s (filter (due s) xs)\<rparr>)"
      "sched_inv (s\<lparr>nodes := h, tcbs := readied s (filter (due s) xs)\<rparr>)
        (L(sleeping_queue s \<mapsto> filter (\<lambda>x. \<not> due s x) xs))" by blast
  let ?s = "s\<lparr>nodes := h, tcbs := readied s (filter (due s) xs)\<rparr>"
  have "sleep_key ?s = sleep_key s" by (simp add: fun_eq_iff sleep_key_def readied_def)
  then have "sleepers_ok ?s (L(sleeping_queue s \<mapsto> filter (\<lambda>x. \<not> due s x) xs))"
    using sl by (auto simp: sleepers_ok_def sorted_filter readied_def)
  with h inv(2) show ?thesis by (auto simp: clock_inv_def Let_def)
qed

lemma clock_inv_fields:
  assumes "clock_inv s L" and "\<And>c. t_magic (f c) = t_magic c" and "\<And>c. t_state (f c) = t_state c"
  shows "clock_inv (upd_tcb (current s) f s) L"
proof -
  have inv: "sched_inv s L" and sl: "sleepers_ok s L" using assms(1) by (simp_all add: clock_inv_def)
  have "sleepers_ok (upd_tcb (current s) f s) L"
    by (rule sleepers_ok_cong [where L = L and L' = L, OF sl]) (use sched_inv_sleepers [OF inv] in auto)
  with assms(1) show ?thesis by (simp add: clock_inv_def sched_pre_fields [of f, OF assms(2,3)])
qed

lemma clock_inv_simps [simp]:
  "clock_inv (s\<lparr>jiffies := n\<rparr>) L = clock_inv s L" "clock_inv (s\<lparr>beeping := b, speaker := p\<rparr>) L = clock_inv s L"
proof -
  have "sleep_key (s\<lparr>jiffies := n\<rparr>) = sleep_key s" "sleep_key (s\<lparr>beeping := b, speaker := p\<rparr>) = sleep_key s"
    by (simp_all add: fun_eq_iff sleep_key_def)
  then show "clock_inv (s\<lparr>jiffies := n\<rparr>) L = clock_inv s L" "clock_inv (s\<lparr>beeping := b, speaker := p\<rparr>) L = clock_inv s L"
    by (simp_all add: clock_inv_def sched_inv_def sched_pre_def task_ok_def tasks_def sleepers_ok_def)
qed

lemma stop_beep_simps [simp]:
  "clock_inv (stop_beep s) L = clock_inv s L" "tcbs (stop_beep s) = tcbs s" "current (stop_beep s) = current s"
  "jiffies (stop_beep s) = jiffies s" "sleeping_queue (stop_beep s) = sleeping_queue s"
  "due (stop_beep s) = due s" "tasks (stop_beep s) = tasks s" "idle_task (stop_beep s) = idle_task s"
  "iflag (stop_beep s) = iflag s" "task_queue (stop_beep s) = task_queue s" "blocked_queue (stop_beep s) = blocked_queue s"
  by (simp_all add: stop_beep_def due_def fun_eq_iff tasks_def)

text \<open>
  One tick, before the switch: \<open>ticked s xs\<close> is the TCB of every task once the due sleepers of the
  queue \<open>xs\<close> are ready and the current task has used one tick.
\<close>

definition ticked :: "kstate \<Rightarrow> addr list \<Rightarrow> addr \<Rightarrow> tcb" where
  "ticked s xs t =
     (if t = current s then (tcbs s t)\<lparr>t_ticks := t_ticks (tcbs s t) - 1, t_jiffies := jiffies s + 1\<rparr>
      else if node_of t \<in> set xs \<and> due s (node_of t) then (tcbs s t)\<lparr>t_state := TASK_READY\<rparr> else tcbs s t)"

lemma clock_handler_law:
  assumes "clock_inv s L" and "L (sleeping_queue s) = Some xs" and "unat (jiffies s) < 2 ^ 31"
  shows "\<exists>s1 s'. clock_handler 0x20 s = Some s' \<and> tcbs s1 = ticked s xs \<and> current s1 = current s \<and>
     tasks s1 = tasks s \<and> idle_task s1 = idle_task s \<and>
     s' = (if t_ticks (cur s) = 1 then the (schedule s1) else s1) \<and> schedule s1 \<noteq> None \<and>
     clock_inv s1 (L(sleeping_queue s \<mapsto> filter (\<lambda>x. \<not> due s x) xs)) \<and>
     clock_inv s' (L(sleeping_queue s \<mapsto> filter (\<lambda>x. \<not> due s x) xs)) \<and>
     jiffies s1 = jiffies s + 1 \<and> jiffies s' = jiffies s + 1 \<and> sched_frame s s'"
proof -
  let ?L = "L(sleeping_queue s \<mapsto> filter (\<lambda>x. \<not> due s x) xs)"
  have inv: "clock_inv (stop_beep s) L" using assms(1) by simp
  from task_wakeup_clock [OF inv, of xs] assms(2,3) obtain h where
    h: "task_wakeup (stop_beep s) = Some ((stop_beep s)\<lparr>nodes := h, tcbs := readied (stop_beep s) (filter (due s) xs)\<rparr>)"
      "clock_inv ((stop_beep s)\<lparr>nodes := h, tcbs := readied (stop_beep s) (filter (due s) xs)\<rparr>) ?L"
    by (auto simp: Let_def)
  define s0 where "s0 = (stop_beep s)\<lparr>nodes := h, tcbs := readied (stop_beep s) (filter (due s) xs), jiffies := jiffies s + 1\<rparr>"
  have s0: "clock_inv s0 ?L" using h(2) by (simp add: s0_def)
  define s1 where "s1 = upd_tcb (current s) (\<lambda>t. t\<lparr>t_ticks := t_ticks t - 1, t_jiffies := jiffies s + 1\<rparr>) s0"
  have f0: "current s0 = current s" "jiffies s0 = jiffies s + 1" "sched_frame s s0"
    by (simp_all add: s0_def sched_frame_def)
  have inv1: "clock_inv s1 ?L"
    unfolding s1_def using clock_inv_fields [OF s0, of "\<lambda>t. t\<lparr>t_ticks := t_ticks t - 1, t_jiffies := jiffies s + 1\<rparr>"]
    by (simp add: f0)
  have si: "sched_inv s L" using assms(1) by (simp add: clock_inv_def)
  have cs: "node_of (current s) \<notin> set xs" using sched_inv_sleepers [OF si assms(2)] by force
  have t1: "tcbs s1 = ticked s xs"
    using cs by (auto simp: s1_def s0_def ticked_def readied_def fun_eq_iff)
  have f1: "current s1 = current s" "tasks s1 = tasks s" "idle_task s1 = idle_task s" "jiffies s1 = jiffies s + 1"
    "sched_frame s s1"
    using f0 by (simp_all add: s1_def sched_frame_def) (simp_all add: s0_def tasks_def)
  have pre: "sched_pre s L" using si by (simp add: sched_inv_def)
  have mg: "t_magic (tcbs s0 (current s)) = XOS_MAGIC"
    using sched_preD(1) [OF pre current_task_in [OF pre]] by (simp add: s0_def readied_def)
  have run: "clock_handler 0x20 s = (if t_ticks (cur s) = 1 then schedule s1 else Some s1)"
    using mg cs h(1)
    by (simp add: clock_handler_def Let_def current_task_def s1_def s0_def readied_def)
  from schedule_clock [OF inv1] obtain s2 where
    s2: "schedule s1 = Some s2" "clock_inv s2 ?L" "sched_frame s1 s2" "jiffies s2 = jiffies s1" by blast
  define s' where "s' = (if t_ticks (cur s) = 1 then the (schedule s1) else s1)"
  have "sched_frame s s'" using sched_frame_trans [OF f1(5) s2(3)] f1(5) s2(1) by (simp add: s'_def)
  with run s2 inv1 t1 f1 show ?thesis
    by (intro exI [of _ s1] exI [of _ s']) (simp add: s'_def)
qed

section \<open>Sleeping and blocking keep the sleepers sorted\<close>

lemma others_keep_sleepers:
  assumes "clock_inv s L" and "sched_inv s' L'" and "sched_frame s s'" and "x \<in> set xs" and "L (sleeping_queue s) = Some xs"
    and "L' (sleeping_queue s) = Some ys" and "x \<in> set ys"
    and o: "\<forall>t. t \<noteq> current s \<longrightarrow> t_ticks (tcbs s' t) = t_ticks (tcbs s t) \<and>
       t_state (tcbs s' t) = (if t = current s' then TASK_RUNNING else t_state (tcbs s t))"
  shows "t_ticks (tcbs s' (task_of_node x)) = t_ticks (tcbs s (task_of_node x)) \<and>
    t_state (tcbs s' (task_of_node x)) = t_state (tcbs s (task_of_node x))"
proof -
  have inv: "sched_inv s L" using assms(1) by (simp add: clock_inv_def)
  have q: "sleeping_queue s' = sleeping_queue s" using assms(3) by (simp add: sched_frame_def)
  have "task_of_node x \<noteq> current s" using sched_inv_sleepers [OF inv assms(5,4)] by blast
  moreover have "task_of_node x \<noteq> current s'" using sched_inv_sleepers [OF assms(2), of ys x] assms(6,7) q by auto
  ultimately show ?thesis using o by auto
qed

lemma task_block_clock:
  assumes inv: "clock_inv s L" and c: "current s \<noteq> idle_task s" and l: "L l = Some ys" "l \<noteq> 0" "l \<noteq> sleeping_queue s"
    and st: "st \<in> queued_states"
  shows "\<exists>s'. task_block (current s) l st s = Some s' \<and> clock_inv s' (L(l \<mapsto> ys @ [node_of (current s)])) \<and>
    sched_frame s s' \<and> jiffies s' = jiffies s \<and> current s' \<noteq> current s \<and> t_state (tcbs s' (current s)) = st \<and>
    (\<forall>t. t \<noteq> current s \<longrightarrow> t_ticks (tcbs s' t) = t_ticks (tcbs s t) \<and>
       t_state (tcbs s' t) = (if t = current s' then TASK_RUNNING else t_state (tcbs s t)))"
proof -
  have si: "sched_inv s L" "\<not> iflag s" "sleepers_ok s L" using inv by (simp_all add: clock_inv_def)
  let ?L = "L(l \<mapsto> ys @ [node_of (current s)])"
  from task_block_law [OF si(1,2) c l(1,2) st] obtain s' where
    s': "task_block (current s) l st s = Some s'" "sched_inv s' ?L" "sched_frame s s'" "jiffies s' = jiffies s"
      "current s' \<noteq> current s" "t_state (tcbs s' (current s)) = st"
      "\<forall>t. t \<noteq> current s \<longrightarrow> t_ticks (tcbs s' t) = t_ticks (tcbs s t) \<and>
         t_state (tcbs s' t) = (if t = current s' then TASK_RUNNING else t_state (tcbs s t))" by blast
  have q: "sleeping_queue s' = sleeping_queue s" "?L (sleeping_queue s) = L (sleeping_queue s)"
    using s'(3) l(3) by (auto simp: sched_frame_def)
  have "sleepers_ok s' ?L"
  proof (rule sleepers_ok_cong [where L = L and L' = ?L, OF si(3) q])
    fix xs x assume x: "L (sleeping_queue s) = Some xs" "x \<in> set xs"
    with others_keep_sleepers [OF inv s'(2,3) x(2,1) _ x(2) s'(7)] q(2)
    show "t_ticks (tcbs s' (task_of_node x)) = t_ticks (tcbs s (task_of_node x)) \<and>
      t_state (tcbs s' (task_of_node x)) = t_state (tcbs s (task_of_node x))" by simp
  qed
  then have "clock_inv s' ?L" using s'(2,3) si(2) by (simp add: clock_inv_def sched_frame_def)
  with s' show ?thesis by blast
qed

lemma task_unblock_clock:
  assumes inv: "clock_inv s L" and t: "t \<in> tasks s" and l: "L l = Some (as @ node_of t # bs)" "l \<noteq> sleeping_queue s"
  shows "\<exists>h. task_unblock t s = Some (upd_tcb t (\<lambda>c. c\<lparr>t_state := TASK_READY\<rparr>) (s\<lparr>nodes := h\<rparr>)) \<and>
     clock_inv (upd_tcb t (\<lambda>c. c\<lparr>t_state := TASK_READY\<rparr>) (s\<lparr>nodes := h\<rparr>)) (L(l \<mapsto> as @ bs)) \<and> t \<noteq> current s"
proof -
  have si: "sched_inv s L" "\<not> iflag s" "sleepers_ok s L" using inv by (simp_all add: clock_inv_def)
  from task_unblock_law [OF si(1,2) t l(1)] obtain h where
    h: "task_unblock t s = Some (upd_tcb t (\<lambda>c. c\<lparr>t_state := TASK_READY\<rparr>) (s\<lparr>nodes := h\<rparr>))"
      "sched_inv (upd_tcb t (\<lambda>c. c\<lparr>t_state := TASK_READY\<rparr>) (s\<lparr>nodes := h\<rparr>)) (L(l \<mapsto> as @ bs))" "t \<noteq> current s"
    by blast
  have kl: "klists (nodes s) L" using si(1) by (simp add: sched_inv_def sched_pre_def)
  have "sleepers_ok (upd_tcb t (\<lambda>c. c\<lparr>t_state := TASK_READY\<rparr>) (s\<lparr>nodes := h\<rparr>)) (L(l \<mapsto> as @ bs))"
  proof (rule sleepers_ok_cong [where L = L and L' = "L(l \<mapsto> as @ bs)", OF si(3)])
    fix xs x assume x: "L (sleeping_queue s) = Some xs" "x \<in> set xs"
    have "x \<noteq> node_of t" using klist.disjoint [OF kl l(1) x(1) l(2)] x(2) by (auto simp: list_nodes_def)
    then have "task_of_node x \<noteq> t" by (metis task_of_node_of(2))
    then show "t_ticks (tcbs (upd_tcb t (\<lambda>c. c\<lparr>t_state := TASK_READY\<rparr>) (s\<lparr>nodes := h\<rparr>)) (task_of_node x)) =
        t_ticks (tcbs s (task_of_node x)) \<and>
      t_state (tcbs (upd_tcb t (\<lambda>c. c\<lparr>t_state := TASK_READY\<rparr>) (s\<lparr>nodes := h\<rparr>)) (task_of_node x)) =
        t_state (tcbs s (task_of_node x))" by simp
  qed (use l(2) in simp_all)
  with h si(2) show ?thesis by (auto simp: clock_inv_def)
qed

lemma task_sleep_clock:
  assumes inv: "clock_inv s L" and c: "current s \<noteq> idle_task s" and ms: "0 < ms"
    and t: "unat (jiffies s) < unat (sleep_until s ms)" "unat (sleep_until s ms) < 2 ^ 31"
  shows "\<exists>s' L'. task_sleep ms s = Some s' \<and> clock_inv s' L' \<and> sched_frame s s' \<and> jiffies s' = jiffies s \<and>
     current s' \<noteq> current s \<and> t_state (tcbs s' (current s)) = TASK_SLEEPING \<and>
     t_ticks (tcbs s' (current s)) = sleep_until s ms \<and>
     (\<exists>xs. L' (sleeping_queue s) = Some xs \<and> node_of (current s) \<in> set xs) \<and>
     (\<forall>l. l \<noteq> sleeping_queue s \<longrightarrow> L' l = L l) \<and>
     (\<forall>t. t \<noteq> current s \<longrightarrow> t_state (tcbs s' t) = (if t = current s' then TASK_RUNNING else t_state (tcbs s t)))"
proof -
  let ?n = "node_of (current s)"
  let ?s0 = "upd_tcb (current s) (\<lambda>t. t\<lparr>t_ticks := sleep_until s ms\<rparr>) s"
  have si: "sched_inv s L" "\<not> iflag s" using inv by (simp_all add: clock_inv_def)
  from inv obtain xs where xs: "L (sleeping_queue s) = Some xs" "sorted (map (sleep_key s) xs)"
    "\<forall>x \<in> set xs. 0 \<le> sleep_key s x \<and> t_state (tcbs s (task_of_node x)) = TASK_SLEEPING"
    by (auto simp: clock_inv_def sleepers_ok_def)
  let ?ys = "insert_by (sleep_key ?s0) ?n xs" and ?q = "sleeping_queue s"
  have u: "sleep_until s ms \<noteq> 0" using t(1) by (auto simp: word_unat_eq_iff)
  from task_sleep_law [OF si c xs(1) ms] u obtain s' where
    s': "task_sleep ms s = Some s'" "sched_inv s' (L(?q \<mapsto> ?ys))" "sched_frame s s'" "jiffies s' = jiffies s"
      "current s' \<noteq> current s" "t_state (tcbs s' (current s)) = TASK_SLEEPING" "t_ticks (tcbs s' (current s)) = sleep_until s ms"
      "\<forall>t. t \<noteq> current s \<longrightarrow> t_ticks (tcbs s' t) = t_ticks (tcbs s t) \<and>
         t_state (tcbs s' t) = (if t = current s' then TASK_RUNNING else t_state (tcbs s t))" by blast
  have n: "?n \<notin> set xs" using sched_inv_sleepers [OF si(1) xs(1)] by force
  have ys: "set ?ys = insert ?n (set xs)" by (rule set_insert_by)
  have old: "sleep_key s' x = sleep_key s x \<and> t_state (tcbs s' (task_of_node x)) = TASK_SLEEPING" if "x \<in> set xs" for x
    using others_keep_sleepers [OF inv s'(2,3) that xs(1) _ _ s'(8), of ?ys] that xs(3) ys by (simp add: sleep_key_def)
  have k0: "sleep_key ?s0 x = sleep_key s' x" if "x \<in> set ?ys" for x
  proof (cases "x = ?n")
    case True
    then show ?thesis by (simp add: sleep_key_def s'(7))
  next
    case False
    then have "x \<in> set xs" using that ys by simp
    moreover have "task_of_node x \<noteq> current s" using False by (metis task_of_node_of(2))
    ultimately show ?thesis using old [of x] by (simp add: sleep_key_def)
  qed
  have "map (sleep_key ?s0) xs = map (sleep_key s) xs" using k0 old ys by simp
  then have "sorted (map (sleep_key ?s0) ?ys)" using sorted_insert_by xs(2) by metis
  moreover have "map (sleep_key ?s0) ?ys = map (sleep_key s') ?ys" using k0 by (intro map_cong refl)
  moreover have "0 \<le> sleep_key s' ?n" using t(2) by (simp only: sleep_key_def task_of_node_of s'(7) sint_small)
  moreover have "sleeping_queue s' = ?q" "\<not> iflag s'" using s'(3) si(2) by (simp_all add: sched_frame_def)
  ultimately have "clock_inv s' (L(?q \<mapsto> ?ys))"
    using s'(2,6) xs(3) old ys by (auto simp: clock_inv_def sleepers_ok_def)
  moreover have "node_of (current s) \<in> set ?ys" using ys by simp
  ultimately show ?thesis using s' by (intro exI [of _ s'] exI [of _ "L(?q \<mapsto> ?ys)"]) auto
qed

section \<open>Ticks and sleepers\<close>

definition asleep :: "kstate \<Rightarrow> (addr \<rightharpoonup> addr list) \<Rightarrow> addr \<Rightarrow> u32 \<Rightarrow> bool" where
  "asleep s L t w \<longleftrightarrow> clock_inv s L \<and> t_ticks (tcbs s t) = w \<and>
     (\<exists>xs. L (sleeping_queue s) = Some xs \<and> node_of t \<in> set xs)"

lemma asleep_state: "asleep s L t w \<Longrightarrow> t_state (tcbs s t) = TASK_SLEEPING"
  unfolding asleep_def clock_inv_def sleepers_ok_def by (metis option.inject task_of_node_of(1))

lemma clock_tick_sleeper:
  assumes "asleep s L t w" and "unat (jiffies s) < 2 ^ 31"
  shows "\<exists>s'. clock_handler 0x20 s = Some s' \<and> jiffies s' = jiffies s + 1 \<and> (\<exists>L'. clock_inv s' L') \<and>
     (if w \<le> jiffies s then t_state (tcbs s' t) \<in> {TASK_READY, TASK_RUNNING} else \<exists>L'. asleep s' L' t w)"
proof -
  from assms(1) obtain xs where xs: "clock_inv s L" "t_ticks (tcbs s t) = w" "L (sleeping_queue s) = Some xs" "node_of t \<in> set xs"
    by (auto simp: asleep_def)
  let ?L = "L(sleeping_queue s \<mapsto> filter (\<lambda>x. \<not> due s x) xs)"
  from clock_handler_law [OF xs(1,3) assms(2)] obtain s1 s' where
    s': "clock_handler 0x20 s = Some s'" "tcbs s1 = ticked s xs" "s' = (if t_ticks (cur s) = 1 then the (schedule s1) else s1)"
      "clock_inv s1 ?L" "clock_inv s' ?L" "jiffies s' = jiffies s + 1" "sched_frame s s'" "current s1 = current s" by blast
  have si: "sched_inv s L" "sched_inv s' ?L" using xs(1) s'(5) by (simp_all add: clock_inv_def)
  have c: "t \<noteq> current s" using sched_inv_sleepers [OF si(1) xs(3,4)] by simp
  have q: "sleeping_queue s' = sleeping_queue s" using s'(7) by (simp add: sched_frame_def)
  from schedule_clock [OF s'(4)] obtain s2 where
    s2: "schedule s1 = Some s2" "current s2 = pick s1" "tcbs s2 = sched_tcb s1" by blast
  have d: "due s (node_of t) \<longleftrightarrow> w \<le> jiffies s" using xs(2) by (simp add: due_def)
  show ?thesis
  proof (cases "w \<le> jiffies s")
    case True
    then have "t_state (tcbs s1 t) = TASK_READY" using xs(4) c d by (simp add: s'(2) ticked_def)
    then have "t_state (tcbs s' t) \<in> {TASK_READY, TASK_RUNNING}" using s2 c by (auto simp: s'(3))
    with True s'(1,5,6) show ?thesis by auto
  next
    case False
    have n: "node_of t \<in> set (filter (\<lambda>x. \<not> due s x) xs)" using xs(4) d False by simp
    have "t \<noteq> current s'" using sched_inv_sleepers [OF si(2), of "filter (\<lambda>x. \<not> due s x) xs" "node_of t"] n by (simp add: q)
    moreover have "tcbs s1 t = tcbs s t" using c d False by (simp add: s'(2) ticked_def)
    ultimately have "t_ticks (tcbs s' t) = w" using xs(2) s2 c s'(8) by (auto simp: s'(3))
    then have "asleep s' ?L t w" using s'(5) n by (simp add: asleep_def q)
    with False s'(1,5,6) show ?thesis by auto
  qed
qed

primrec clock_ticks :: "nat \<Rightarrow> kstate \<Rightarrow> kstate option" where
  "clock_ticks 0 s = Some s"
| "clock_ticks (Suc n) s = do { s \<leftarrow> clock_ticks n s; clock_handler 0x20 s }"

lemma clock_ticks_asleep:
  assumes "asleep s L t w" and "unat (jiffies s) + n \<le> unat w" and "unat w < 2 ^ 31"
  shows "\<exists>s' L'. clock_ticks n s = Some s' \<and> asleep s' L' t w \<and> unat (jiffies s') = unat (jiffies s) + n"
  using assms(2)
proof (induction n)
  case 0
  then show ?case using assms(1) by auto
next
  case (Suc n)
  then obtain s' L' where s': "clock_ticks n s = Some s'" "asleep s' L' t w" "unat (jiffies s') = unat (jiffies s) + n" by auto
  have lt: "unat (jiffies s') < 2 ^ 31" and nd: "\<not> w \<le> jiffies s'"
    using s'(3) Suc.prems assms(3) by (auto simp: word_le_nat_alt)
  have "unat (jiffies s' + 1) = unat (jiffies s') + 1" by (intro trans [OF unat_plus_noof]) (use lt in simp_all)
  with clock_tick_sleeper [OF s'(2) lt] nd s'(1,3) show ?case by auto
qed

section \<open>Properties\<close>

text \<open>
  Property C13. A task that calls \<^verbatim>\<open>task_sleep\<close> sleeps for exactly the requested time rounded up to
  ticks of 10 ms: it is asleep after every number of clock interrupts up to that, and the next
  one makes it ready. All the handlers return and the clock advances by one each time.
\<close>

theorem sleep_duration:
  assumes "clock_inv s L" and "current s \<noteq> idle_task s" and "0 < ms"
    and "unat (jiffies s) + (unat ms + 9) div 10 < 2 ^ 31" and "unat ms + 9 < 2 ^ 32" and "n \<le> (unat ms + 9) div 10"
  shows "\<exists>s0 sn s'. task_sleep ms s = Some s0 \<and> current s0 \<noteq> current s \<and>
     clock_ticks n s0 = Some sn \<and> t_state (tcbs sn (current s)) = TASK_SLEEPING \<and> unat (jiffies sn) = unat (jiffies s) + n \<and>
     clock_ticks ((unat ms + 9) div 10 + 1) s0 = Some s' \<and> t_state (tcbs s' (current s)) \<in> {TASK_READY, TASK_RUNNING}"
proof -
  let ?w = "sleep_until s ms" and ?k = "(unat ms + 9) div 10"
  have "unat (ms + 9) = unat ms + 9" by (intro trans [OF unat_plus_noof]) (use assms(5) in simp_all)
  then have "unat ((ms + 9) div 10) = ?k" by (simp add: unat_div)
  then have w: "unat ?w = unat (jiffies s) + ?k"
    unfolding sleep_until_def by (intro trans [OF unat_plus_noof]) (use assms(4) in simp_all)
  have "0 < unat ms" using assms(3) by (simp add: word_less_nat_alt)
  then have "0 < ?k" by simp
  then have lt: "unat (jiffies s) < unat ?w" "unat ?w < 2 ^ 31" using w assms(4) by simp_all
  from task_sleep_clock [OF assms(1-3) lt] obtain s0 L0 where
    s0: "task_sleep ms s = Some s0" "jiffies s0 = jiffies s" "current s0 \<noteq> current s" "clock_inv s0 L0" "t_ticks (tcbs s0 (current s)) = ?w"
      "sched_frame s s0" "\<exists>xs. L0 (sleeping_queue s) = Some xs \<and> node_of (current s) \<in> set xs"
    by blast
  have al: "asleep s0 L0 (current s) ?w" using s0(4-7) by (simp add: asleep_def sched_frame_def)
  from clock_ticks_asleep [OF al _ lt(2), of n] w assms(6) s0(2) obtain sn Ln where
    sn: "clock_ticks n s0 = Some sn" "asleep sn Ln (current s) ?w" "unat (jiffies sn) = unat (jiffies s) + n" by auto
  from clock_ticks_asleep [OF al _ lt(2), of ?k] w s0(2) obtain sk Lk where
    sk: "clock_ticks ?k s0 = Some sk" "asleep sk Lk (current s) ?w" "unat (jiffies sk) = unat ?w" by auto
  have "?w \<le> jiffies sk" "unat (jiffies sk) < 2 ^ 31" using sk(3) lt(2) by (simp_all add: word_le_nat_alt)
  with clock_tick_sleeper [OF sk(2)] obtain s' where
    "clock_handler 0x20 sk = Some s'" "t_state (tcbs s' (current s)) \<in> {TASK_READY, TASK_RUNNING}" by auto
  with s0(1,3) sn asleep_state [OF sn(2)] sk(1) show ?thesis by auto
qed

lemma sample_clock_inv: "clock_inv sample_sched sample_queues"
  using sample_sched_inv by (simp add: clock_inv_def sleepers_ok_def)
    (simp add: sample_sched_def boot_state_def sample_queues_def)

theorem sleep_duration_witness:
  "\<exists>s0 sn. task_sleep 25 sample_sched = Some s0 \<and> clock_ticks 3 s0 = Some sn \<and>
     t_state (tcbs sn 0x30000) = TASK_SLEEPING"
proof -
  have c: "current sample_sched = 0x30000" "current sample_sched \<noteq> idle_task sample_sched" "jiffies sample_sched = 0"
    by (simp_all add: sample_sched_def boot_state_def)
  from sleep_duration [OF sample_clock_inv c(2), of 25 3] show ?thesis by (auto simp: c)
qed

text \<open>
  The ways the scheduler's state changes: the running task yields, sleeps, blocks on the default
  queue or unblocks another one, or the clock ticks.
\<close>

inductive kernel_step :: "kstate \<Rightarrow> kstate \<Rightarrow> bool" where
  yield: "task_yield s = Some s' \<Longrightarrow> kernel_step s s'"
| sleep: "current s \<noteq> idle_task s \<Longrightarrow> 0 < ms \<Longrightarrow> unat (jiffies s) < unat (sleep_until s ms) \<Longrightarrow>
    unat (sleep_until s ms) < 2 ^ 31 \<Longrightarrow> task_sleep ms s = Some s' \<Longrightarrow> kernel_step s s'"
| block: "current s \<noteq> idle_task s \<Longrightarrow> task_block (current s) 0 TASK_BLOCKED s = Some s' \<Longrightarrow> kernel_step s s'"
| unblock: "t \<in> tasks s \<Longrightarrow> t_state (tcbs s t) = TASK_BLOCKED \<Longrightarrow> task_unblock t s = Some s' \<Longrightarrow> kernel_step s s'"
| tick: "unat (jiffies s) < 2 ^ 31 \<Longrightarrow> clock_handler 0x20 s = Some s' \<Longrightarrow> kernel_step s s'"

inductive kernel_reach :: "kstate \<Rightarrow> kstate \<Rightarrow> bool" for s0 where
  start: "kernel_reach s0 s0"
| step: "kernel_reach s0 s \<Longrightarrow> kernel_step s s' \<Longrightarrow> kernel_reach s0 s'"

definition queues_apart :: "kstate \<Rightarrow> bool" where
  "queues_apart s \<longleftrightarrow> blocked_queue s \<noteq> sleeping_queue s \<and> blocked_queue s \<noteq> 0"

lemma default_queue: "blocked_queue s \<noteq> 0 \<Longrightarrow> task_block t 0 st s = task_block t (blocked_queue s) st s"
  by (simp add: task_block_def Let_def)

lemma blocked_in_list:
  assumes "clock_inv s L" and "t \<in> tasks s" and "t_state (tcbs s t) = TASK_BLOCKED"
  shows "\<exists>l as bs. L l = Some (as @ node_of t # bs) \<and> l \<noteq> sleeping_queue s"
proof -
  have pre: "sched_pre s L" using assms(1) by (simp add: clock_inv_def sched_inv_def)
  from sched_preD(5) [OF pre assms(2)] assms(3) obtain l xs where l: "L l = Some xs" "node_of t \<in> set xs"
    by (auto simp: queued_states_def in_list_def)
  moreover have "l \<noteq> sleeping_queue s"
    using assms(1,3) l unfolding clock_inv_def sleepers_ok_def by (metis option.inject task_of_node_of(1) task_state.distinct(31))
  ultimately show ?thesis by (metis split_list)
qed

definition runnable :: "kstate \<Rightarrow> addr \<Rightarrow> bool" where
  "runnable s t \<longleftrightarrow> t_state (tcbs s t) \<in> {TASK_READY, TASK_RUNNING}"

text \<open>
  What a step may do to the lists other than the kernel's own two, and to tasks that can run:
  a list loses at most one node, and the task of that node becomes ready.
\<close>

definition step_effect :: "kstate \<Rightarrow> (addr \<rightharpoonup> addr list) \<Rightarrow> kstate \<Rightarrow> (addr \<rightharpoonup> addr list) \<Rightarrow> bool" where
  "step_effect s L s' L' \<longleftrightarrow> clock_inv s' L' \<and> sched_frame s s' \<and>
     (\<forall>l ys. l \<noteq> blocked_queue s \<longrightarrow> l \<noteq> sleeping_queue s \<longrightarrow> L l = Some ys \<longrightarrow>
        L' l = Some ys \<or> (\<exists>as t bs. ys = as @ node_of t # bs \<and> L' l = Some (as @ bs) \<and> runnable s' t)) \<and>
     (\<forall>t. t \<noteq> current s \<longrightarrow> runnable s t \<longrightarrow> runnable s' t)"

lemma kernel_step_effect:
  assumes "kernel_step s s'" and L: "clock_inv s L" and "queues_apart s"
  shows "\<exists>L'. step_effect s L s' L'"
  using assms(1)
proof (cases rule: kernel_step.cases)
  case yield
  then show ?thesis using schedule_clock [OF L] by (fastforce simp: task_yield_def step_effect_def runnable_def)
next
  case (sleep ms)
  from task_sleep_clock [OF L sleep(1-4)] sleep(5) obtain L' where
    "clock_inv s' L'" "sched_frame s s'" "\<forall>l. l \<noteq> sleeping_queue s \<longrightarrow> L' l = L l"
    "\<forall>t. t \<noteq> current s \<longrightarrow> t_state (tcbs s' t) = (if t = current s' then TASK_RUNNING else t_state (tcbs s t))" by auto
  then show ?thesis by (intro exI [of _ L']) (simp add: step_effect_def runnable_def)
next
  case block
  obtain ys where ys: "L (blocked_queue s) = Some ys" using L by (auto simp: clock_inv_def sched_inv_def sched_pre_def)
  from task_block_clock [OF L block(1) ys, of TASK_BLOCKED] block(2) default_queue [of s] assms(3)
  have "clock_inv s' (L(blocked_queue s \<mapsto> ys @ [node_of (current s)]))" "sched_frame s s'"
    "\<forall>t. t \<noteq> current s \<longrightarrow> t_state (tcbs s' t) = (if t = current s' then TASK_RUNNING else t_state (tcbs s t))"
    by (auto simp: queues_apart_def queued_states_def)
  then show ?thesis
    by (intro exI [of _ "L(blocked_queue s \<mapsto> ys @ [node_of (current s)])"]) (simp add: step_effect_def runnable_def)
next
  case (unblock t)
  from blocked_in_list [OF L unblock(1,2)] obtain l as bs where
    l: "L l = Some (as @ node_of t # bs)" "l \<noteq> sleeping_queue s" by blast
  from task_unblock_clock [OF L unblock(1) l] unblock(3) obtain h where
    h: "s' = upd_tcb t (\<lambda>c. c\<lparr>t_state := TASK_READY\<rparr>) (s\<lparr>nodes := h\<rparr>)" "clock_inv s' (L(l \<mapsto> as @ bs))" by auto
  have "L' = L(l \<mapsto> as @ bs) \<Longrightarrow> L k = Some ys \<Longrightarrow>
    L' k = Some ys \<or> (\<exists>as t bs. ys = as @ node_of t # bs \<and> L' k = Some (as @ bs) \<and> runnable s' t)" for k ys L'
    using l(1) by (cases "k = l") (auto simp: h(1) runnable_def)
  with h show ?thesis by (intro exI [of _ "L(l \<mapsto> as @ bs)"]) (simp add: step_effect_def, simp add: runnable_def)
next
  case tick
  obtain xs where xs: "L (sleeping_queue s) = Some xs" using L by (auto simp: clock_inv_def sleepers_ok_def)
  let ?L = "L(sleeping_queue s \<mapsto> filter (\<lambda>x. \<not> due s x) xs)"
  from clock_handler_law [OF L xs tick(1)] tick(2) obtain s1 where
    s1: "tcbs s1 = ticked s xs" "current s1 = current s" "s' = (if t_ticks (cur s) = 1 then the (schedule s1) else s1)"
      "clock_inv s1 ?L" "clock_inv s' ?L" "sched_frame s s'" by auto
  from schedule_clock [OF s1(4)] obtain s2 where s2: "schedule s1 = Some s2" "tcbs s2 = sched_tcb s1" by blast
  have "runnable s' t" if "t \<noteq> current s" "runnable s t" for t
    using that s2 by (auto simp: runnable_def s1 ticked_def)
  with s1(5,6) show ?thesis by (intro exI [of _ ?L]) (simp add: step_effect_def)
qed

lemma kernel_step_inv:
  assumes "kernel_step s s'" and "\<exists>L. clock_inv s L" and "queues_apart s"
  shows "(\<exists>L. clock_inv s' L) \<and> sched_frame s s'"
  using kernel_step_effect [OF assms(1) _ assms(3)] assms(2) unfolding step_effect_def by blast



text \<open>
  One clock interrupt advances the clock by one, wakes exactly the sleepers whose time
  has come and takes one tick from the current task. When the slice is not used up the task
  keeps the processor; when it is, the slice is refilled with the priority and another ready
  task runs, or the idle task when there is none.
\<close>

theorem clock_tick_effect:
  assumes "clock_inv s L" and "L (sleeping_queue s) = Some xs" and "unat (jiffies s) < 2 ^ 31"
  shows "\<exists>s'. clock_handler 0x20 s = Some s' \<and> jiffies s' = jiffies s + 1 \<and>
     clock_inv s' (L(sleeping_queue s \<mapsto> filter (\<lambda>x. \<not> due s x) xs)) \<and>
     (\<forall>t. node_of t \<in> set xs \<longrightarrow> (t_state (tcbs s' t) = TASK_SLEEPING) = (\<not> due s (node_of t))) \<and>
     (if t_ticks (cur s) \<noteq> 1 then current s' = current s \<and> t_ticks (tcbs s' (current s)) = t_ticks (cur s) - 1
      else t_ticks (tcbs s' (current s)) = t_priority (cur s) \<and>
        (if \<exists>t \<in> tasks s. t \<noteq> current s \<and> (t_state (tcbs s t) = TASK_READY \<or> node_of t \<in> set xs \<and> due s (node_of t))
         then current s' \<in> tasks s \<and> current s' \<noteq> current s else current s' = idle_task s))"
proof -
  let ?L = "L(sleeping_queue s \<mapsto> filter (\<lambda>x. \<not> due s x) xs)"
  from clock_handler_law [OF assms] obtain s1 s' where
    s': "clock_handler 0x20 s = Some s'" "tcbs s1 = ticked s xs" "current s1 = current s" "tasks s1 = tasks s"
      "idle_task s1 = idle_task s" "s' = (if t_ticks (cur s) = 1 then the (schedule s1) else s1)"
      "clock_inv s1 ?L" "clock_inv s' ?L" "jiffies s' = jiffies s + 1" by blast
  have sl: "t_state (tcbs s' t) = TASK_SLEEPING \<longleftrightarrow> \<not> due s (node_of t)" if "node_of t \<in> set xs" for t
  proof -
    have "asleep s L t (t_ticks (tcbs s t))" using assms(1,2) that by (auto simp: asleep_def)
    from clock_tick_sleeper [OF this assms(3)] s'(1) show ?thesis
      by (auto simp: due_def asleep_state split: if_splits)
  qed
  from schedule_clock [OF s'(7)] obtain s2 where
    s2: "schedule s1 = Some s2" "current s2 = pick s1" "tcbs s2 = sched_tcb s1" by blast
  have cand: "candidate s1 TASK_READY t \<longleftrightarrow> t \<in> tasks s \<and> t \<noteq> current s \<and>
      (t_state (tcbs s t) = TASK_READY \<or> node_of t \<in> set xs \<and> due s (node_of t))" for t
    using s'(2-4) by (auto simp: candidate_def ticked_def)
  show ?thesis
  proof (cases "t_ticks (cur s) = 1")
    case True
    have "t_ticks (tcbs s' (current s)) = t_priority (cur s)"
      using True s2 s'(2,3,6) by (simp add: ticked_def)
    moreover have "if \<exists>t \<in> tasks s. t \<noteq> current s \<and> (t_state (tcbs s t) = TASK_READY \<or> node_of t \<in> set xs \<and> due s (node_of t))
         then current s' \<in> tasks s \<and> current s' \<noteq> current s else current s' = idle_task s"
      using True pick_candidate [of s1] s2(1,2) s'(5,6) unfolding cand by auto
    ultimately show ?thesis using s'(1,8,9) sl True by auto
  next
    case False
    then have "current s' = current s \<and> t_ticks (tcbs s' (current s)) = t_ticks (cur s) - 1"
      using s'(2,3,6) by (simp add: ticked_def)
    with s'(1,8,9) sl False show ?thesis by auto
  qed
qed

theorem clock_tick_effect_witness:
  "\<exists>s'. clock_handler 0x20 sample_sched = Some s' \<and> current s' = 0x30000 \<and> t_ticks (tcbs s' 0x30000) = 2"
proof -
  have c: "current sample_sched = 0x30000" "sample_queues (sleeping_queue sample_sched) = Some []"
    "jiffies sample_sched = 0" "t_ticks (tcbs sample_sched 0x30000) = 3"
    by (simp_all add: sample_sched_def boot_state_def sample_queues_def sample_tcb_def)
  from clock_tick_effect [OF sample_clock_inv c(2)] show ?thesis by (auto simp: c)
qed

end
