(* ===== verification/Mutex.thy ===== *)
theory Mutex
  imports Clock
begin

text \<open>
  Mutual exclusion: \<^verbatim>\<open>kernel/mutex.c\<close>. The fields of all mutexes and locks are in a record \<open>locks\<close>,
  the waiting tasks in the kernel's lists. An operation that blocks or yields ends with the
  switch; what the caller does when it runs again (\<open>acquire_loop\<close>, \<open>set_irq_state\<close>) is a later step
  of the relation \<open>mutex_step\<close>, in which the operations of all tasks and the clock interleave.
\<close>

section \<open>The operations\<close>

record locks =
  semphore :: "addr \<Rightarrow> bool"
  holder :: "addr \<Rightarrow> addr"
  repeat :: "addr \<Rightarrow> u32"

text \<open>The list of a mutex follows its \<^verbatim>\<open>bool\<close>, the mutex of a lock its holder, each after four bytes.\<close>

definition waiters :: "addr \<Rightarrow> addr" where "waiters m = m + 4"
definition lock_mutex :: "addr \<Rightarrow> addr" where "lock_mutex l = l + 4"

definition mutex_init :: "addr \<Rightarrow> locks \<Rightarrow> kstate \<Rightarrow> (locks \<times> kstate) option" where
  "mutex_init m k s = do {
     let k = k\<lparr>semphore := (semphore k)(m := True)\<rparr>;
     h \<leftarrow> list_init (nodes s) (waiters m);
     Some (k, s\<lparr>nodes := h\<rparr>) }"

text \<open>How a call ends: returned, or switched away with the saved interrupt state still to be restored.\<close>

datatype outcome = Returned | Switched bool

definition acquire_loop :: "addr \<Rightarrow> bool \<Rightarrow> locks \<Rightarrow> kstate \<Rightarrow> (outcome \<times> locks \<times> kstate) option" where
  "acquire_loop m irq k s =
     (if \<not> semphore k m then do {
        s \<leftarrow> task_block (current_task s) (waiters m) TASK_BLOCKED s;
        Some (Switched irq, k, s) }
      else do {
        assert_c (semphore k m);
        let k = k\<lparr>semphore := (semphore k)(m := False)\<rparr>;
        assert_c (\<not> semphore k m);
        Some (Returned, k, set_irq_state irq s) })"

definition mutex_acquire :: "addr \<Rightarrow> locks \<Rightarrow> kstate \<Rightarrow> (outcome \<times> locks \<times> kstate) option" where
  "mutex_acquire m k s = (let (irq, s) = irq_disable s in acquire_loop m irq k s)"

definition mutex_release :: "addr \<Rightarrow> locks \<Rightarrow> kstate \<Rightarrow> (outcome \<times> locks \<times> kstate) option" where
  "mutex_release m k s = do {
     let (irq, s) = irq_disable s;
     assert_c (\<not> semphore k m);
     let k = k\<lparr>semphore := (semphore k)(m := True)\<rparr>;
     assert_c (semphore k m);
     e \<leftarrow> list_empty (nodes s) (waiters m);
     if \<not> e then do {
       n \<leftarrow> load (nodes s) (list_head (waiters m));
       let task = task_of_node (nnext n);
       assert_c (t_magic (tcbs s task) = XOS_MAGIC);
       s \<leftarrow> task_unblock task s;
       let cu = current_task s;
       s \<leftarrow> task_yield s;
       Some (if current_task s = cu then (Returned, k, set_irq_state irq s) else (Switched irq, k, s)) }
     else Some (Returned, k, set_irq_state irq s) }"

definition mutexlock_init :: "addr \<Rightarrow> locks \<Rightarrow> kstate \<Rightarrow> (locks \<times> kstate) option" where
  "mutexlock_init l k s = do {
     let k = k\<lparr>holder := (holder k)(l := 0)\<rparr>;
     (k, s) \<leftarrow> mutex_init (lock_mutex l) k s;
     Some (k\<lparr>repeat := (repeat k)(l := 0)\<rparr>, s) }"

text \<open>What \<^verbatim>\<open>mutexlock_acquire\<close> does once the mutex is held.\<close>

definition lock_taken :: "addr \<Rightarrow> kstate \<Rightarrow> locks \<Rightarrow> locks option" where
  "lock_taken l s k = do {
     let k = k\<lparr>holder := (holder k)(l := current_task s)\<rparr>;
     assert_c (repeat k l = 0);
     Some (k\<lparr>repeat := (repeat k)(l := 1)\<rparr>) }"

definition mutexlock_acquire :: "addr \<Rightarrow> locks \<Rightarrow> kstate \<Rightarrow> (outcome \<times> locks \<times> kstate) option" where
  "mutexlock_acquire l k s =
     (if holder k l \<noteq> current_task s then do {
        (r, k, s) \<leftarrow> mutex_acquire (lock_mutex l) k s;
        case r of
          Returned \<Rightarrow> do { k \<leftarrow> lock_taken l s k; Some (Returned, k, s) }
        | Switched irq \<Rightarrow> Some (Switched irq, k, s) }
      else Some (Returned, k\<lparr>repeat := (repeat k)(l := repeat k l + 1)\<rparr>, s))"

definition mutexlock_release :: "addr \<Rightarrow> locks \<Rightarrow> kstate \<Rightarrow> (outcome \<times> locks \<times> kstate) option" where
  "mutexlock_release l k s = do {
     assert_c (current_task s = holder k l);
     if repeat k l > 1 then Some (Returned, k\<lparr>repeat := (repeat k)(l := repeat k l - 1)\<rparr>, s)
     else do {
       assert_c (repeat k l = 1);
       let k = k\<lparr>holder := (holder k)(l := 0), repeat := (repeat k)(l := 0)\<rparr>;
       mutex_release (lock_mutex l) k s } }"

section \<open>The interleaving of all tasks\<close>

text \<open>
  Where a task is with respect to one mutex: not using it, waiting in \<^verbatim>\<open>mutex_acquire\<close>, holding it, or in
  \<^verbatim>\<open>mutex_release\<close> after the switch. \<open>Waiting\<close> and \<open>Leaving\<close> carry the local variable \<^verbatim>\<open>irq\<close>.
\<close>

datatype place = Outside | Waiting bool | Inside | Leaving bool

record system =
  ks :: kstate
  lk :: locks
  places :: "addr \<Rightarrow> place"

primrec after_acquire :: "outcome \<Rightarrow> place" where
  "after_acquire Returned = Inside"
| "after_acquire (Switched irq) = Waiting irq"

primrec after_release :: "outcome \<Rightarrow> place" where
  "after_release Returned = Outside"
| "after_release (Switched irq) = Leaving irq"

abbreviation running :: "system \<Rightarrow> addr" where
  "running x \<equiv> current (ks x)"

text \<open>
  A task that is not in the middle of a mutex operation may do anything else: its kernel call or
  an interrupt starts with interrupts off, and its end restores the flag.
\<close>

inductive mutex_step :: "addr \<Rightarrow> system \<Rightarrow> system \<Rightarrow> bool" for m where
  acquire: "places x (running x) = Outside \<Longrightarrow> running x \<noteq> idle_task (ks x) \<Longrightarrow>
    mutex_acquire m (lk x) (ks x) = Some (r, k, s) \<Longrightarrow>
    mutex_step m x \<lparr>ks = s, lk = k, places = (places x)(running x := after_acquire r)\<rparr>"
| retry: "places x (running x) = Waiting irq \<Longrightarrow>
    acquire_loop m irq (lk x) ((ks x)\<lparr>iflag := False\<rparr>) = Some (r, k, s) \<Longrightarrow>
    mutex_step m x \<lparr>ks = s, lk = k, places = (places x)(running x := after_acquire r)\<rparr>"
| release: "places x (running x) = Inside \<Longrightarrow> mutex_release m (lk x) (ks x) = Some (r, k, s) \<Longrightarrow>
    mutex_step m x \<lparr>ks = s, lk = k, places = (places x)(running x := after_release r)\<rparr>"
| leave: "places x (running x) = Leaving irq \<Longrightarrow>
    mutex_step m x (x\<lparr>ks := set_irq_state irq (ks x), places := (places x)(running x := Outside)\<rparr>)"
| other: "places x (running x) \<in> {Outside, Inside} \<Longrightarrow> kernel_step ((ks x)\<lparr>iflag := False\<rparr>) s \<Longrightarrow>
    mutex_step m x (x\<lparr>ks := s\<rparr>)"
| iret: "places x (running x) \<in> {Outside, Inside} \<Longrightarrow> mutex_step m x (x\<lparr>ks := (ks x)\<lparr>iflag := b\<rparr>\<rparr>)"

inductive mutex_reach :: "addr \<Rightarrow> system \<Rightarrow> system \<Rightarrow> bool" for m x where
  start: "mutex_reach m x x"
| step: "mutex_reach m x y \<Longrightarrow> mutex_step m y z \<Longrightarrow> mutex_reach m x z"

definition waiting :: "system \<Rightarrow> addr \<Rightarrow> bool" where
  "waiting x t \<longleftrightarrow> (\<exists>irq. places x t = Waiting irq)"

text \<open>
  \<open>ws\<close> are the tasks in the mutex's list. The mutex is taken exactly when a task holds it, a task
  waits in the list or can run and will test again, and when the mutex is free while tasks are
  in the list, one of the latter kind exists: no wake-up is lost.
\<close>

definition mutex_inv :: "addr \<Rightarrow> system \<Rightarrow> (addr \<rightharpoonup> addr list) \<Rightarrow> addr list \<Rightarrow> bool" where
  "mutex_inv m x L ws \<longleftrightarrow>
     clock_inv ((ks x)\<lparr>iflag := False\<rparr>) L \<and> queues_apart (ks x) \<and> L (waiters m) = Some (map node_of ws) \<and>
     waiters m \<notin> {0, blocked_queue (ks x), sleeping_queue (ks x)} \<and>
     (\<forall>t. places x t \<noteq> Outside \<longrightarrow> t \<in> tasks (ks x) \<and> t \<noteq> idle_task (ks x)) \<and>
     (\<forall>t \<in> set ws. waiting x t) \<and> (\<forall>t. waiting x t \<longrightarrow> t \<in> set ws \<or> runnable (ks x) t) \<and>
     (\<forall>t t'. places x t = Inside \<longrightarrow> places x t' = Inside \<longrightarrow> t = t') \<and>
     (semphore (lk x) m \<longleftrightarrow> (\<forall>t. places x t \<noteq> Inside)) \<and>
     (semphore (lk x) m \<longrightarrow> ws \<noteq> [] \<longrightarrow> (\<exists>t. waiting x t \<and> t \<notin> set ws))"

lemma iflag_simps [simp]:
  "tasks (s\<lparr>iflag := b\<rparr>) = tasks s" "runnable (s\<lparr>iflag := b\<rparr>) t = runnable s t"
  "queues_apart (s\<lparr>iflag := b\<rparr>) = queues_apart s"
  by (simp_all add: tasks_def runnable_def queues_apart_def)

lemma mutex_inv_flag: "mutex_inv m x L ws \<Longrightarrow> mutex_inv m (x\<lparr>ks := (ks x)\<lparr>iflag := b\<rparr>\<rparr>) L ws"
  by (simp add: mutex_inv_def waiting_def)

text \<open>The parts of the invariant, for the state with interrupts off in which every operation runs.\<close>

lemma clock_inv_flag:
  assumes "clock_inv s L"
  shows "clock_inv (s\<lparr>iflag := False\<rparr>) L"
proof -
  have "s\<lparr>iflag := False\<rparr> = s" using assms by (cases s) (simp add: clock_inv_def)
  with assms show ?thesis by simp
qed

lemma mutex_invD:
  assumes "mutex_inv m x L ws"
  shows "clock_inv ((ks x)\<lparr>iflag := False\<rparr>) L" "L (waiters m) = Some (map node_of ws)" "waiters m \<noteq> 0"
    "waiters m \<noteq> blocked_queue (ks x)" "waiters m \<noteq> sleeping_queue (ks x)"
    "\<And>t. t \<in> set ws \<Longrightarrow> t \<in> tasks (ks x)" "running x \<notin> set ws" "distinct ws" "klists (nodes (ks x)) L"
proof -
  show c: "clock_inv ((ks x)\<lparr>iflag := False\<rparr>) L" and w: "L (waiters m) = Some (map node_of ws)"
    and "waiters m \<noteq> 0" "waiters m \<noteq> blocked_queue (ks x)" "waiters m \<noteq> sleeping_queue (ks x)"
    using assms by (simp_all add: mutex_inv_def)
  show t: "t \<in> tasks (ks x)" if "t \<in> set ws" for t
    using assms that by (auto simp: mutex_inv_def waiting_def)
  have si: "sched_inv ((ks x)\<lparr>iflag := False\<rparr>) L" using c by (simp add: clock_inv_def)
  show "running x \<notin> set ws" using sched_inv_queue(1) [OF si w] t by fastforce
  show k: "klists (nodes (ks x)) L" using si by (simp add: sched_inv_def sched_pre_def)
  show "distinct ws" using klist.distinct [OF k w] by (auto simp: list_nodes_def distinct_map)
qed

text \<open>The three ways the waiting list changes: not at all, a task joins it, its first task leaves it.\<close>

lemma acquire_loop_inv:
  assumes inv: "mutex_inv m x L ws" and p: "places x (running x) = Outside \<or> waiting x (running x)"
    and c: "running x \<noteq> idle_task (ks x)"
    and run: "acquire_loop m irq (lk x) ((ks x)\<lparr>iflag := False\<rparr>) = Some (r, k, s)"
  shows "\<exists>L' ws'. mutex_inv m \<lparr>ks = s, lk = k, places = (places x)(running x := after_acquire r)\<rparr> L' ws'"
proof -
  note d = mutex_invD [OF inv]
  have t: "running x \<in> tasks (ks x)"
    using d(1) current_task_in [of "(ks x)\<lparr>iflag := False\<rparr>" L] by (simp add: clock_inv_def sched_inv_def)
  have ni: "places x (running x) \<noteq> Inside" using p by (auto simp: waiting_def)
  show ?thesis
  proof (cases "semphore (lk x) m")
    case True
    then have r: "r = Returned" "k = (lk x)\<lparr>semphore := (semphore (lk x))(m := False)\<rparr>" "s = (ks x)\<lparr>iflag := irq\<rparr>"
      using run by (simp_all add: acquire_loop_def set_irq_state_def)
    show ?thesis
      using inv True t c d(7) by (intro exI [of _ L] exI [of _ ws]) (auto simp: mutex_inv_def waiting_def r)
  next
    case False
    let ?s = "(ks x)\<lparr>iflag := False\<rparr>" and ?L = "L(waiters m \<mapsto> map node_of ws @ [node_of (running x)])"
    have b: "task_block (running x) (waiters m) TASK_BLOCKED ?s = Some s" and r: "r = Switched irq" "k = lk x"
      using run False by (auto simp: acquire_loop_def current_task_def bind_eq_Some_conv)
    from task_block_clock [where st = TASK_BLOCKED, OF d(1) _ _ d(3)] b c d(2,5)
    have s: "clock_inv s ?L" "sched_frame ?s s"
      "\<forall>t. t \<noteq> running x \<longrightarrow> t_state (tcbs s t) = (if t = current s then TASK_RUNNING else t_state (tcbs (ks x) t))"
      by (auto simp: queued_states_def sched_frame_def)
    have rn: "runnable s t" if "t \<noteq> running x" "runnable (ks x) t" for t using that s(3) by (simp add: runnable_def)
    have f: "tasks s = tasks (ks x)" "queues_apart s = queues_apart (ks x)" "blocked_queue s = blocked_queue (ks x)"
      "sleeping_queue s = sleeping_queue (ks x)" "idle_task s = idle_task (ks x)"
      using s(2) sched_frame_tasks [OF s(2)] by (simp_all add: sched_frame_def queues_apart_def)
    show ?thesis
      using inv False t c d(7) ni rn clock_inv_flag [OF s(1)]
      by (intro exI [of _ ?L] exI [of _ "ws @ [running x]"]) (simp add: mutex_inv_def waiting_def r f, metis)
  qed
qed

lemma mutex_release_inv:
  assumes inv: "mutex_inv m x L ws" and p: "places x (running x) = Inside"
  shows "\<exists>r k s. mutex_release m (lk x) (ks x) = Some (r, k, s) \<and>
    mutex_inv m \<lparr>ks = s, lk = k, places = (places x)(running x := after_release r)\<rparr>
      (L(waiters m \<mapsto> map node_of (tl ws))) (tl ws) \<and> semphore k m \<and>
      (if ws = [] then r = Returned \<and> s = ks x
       else runnable s (hd ws) \<and> current s \<noteq> running x \<and> r = Switched (iflag (ks x)))"
proof -
  note d = mutex_invD [OF inv]
  have "places x (running x) \<noteq> Outside \<longrightarrow> running x \<in> tasks (ks x) \<and> running x \<noteq> idle_task (ks x)"
    using inv unfolding mutex_inv_def by blast
  then have cu: "running x \<in> tasks (ks x)" "running x \<noteq> idle_task (ks x)" using p by simp_all
  have sem: "\<not> semphore (lk x) m" and only: "\<And>t. places x t = Inside \<longleftrightarrow> t = running x"
    using inv p by (auto simp: mutex_inv_def)
  let ?s = "(ks x)\<lparr>iflag := False\<rparr>" and ?k = "(lk x)\<lparr>semphore := (semphore (lk x))(m := True)\<rparr>"
  have dl: "dlist (nodes (ks x)) (waiters m) (map node_of ws)" by (rule klistsD [OF d(9,2)])
  show ?thesis
  proof (cases ws)
    case Nil
    have "mutex_release m (lk x) (ks x) = Some (Returned, ?k, ks x)"
      using sem list_empty_dlist [OF dl] Nil
      by (simp add: mutex_release_def irq_disable_def get_irq_state_def set_irq_state_def Let_def)
    then show ?thesis using inv only Nil d(2)
      by (auto simp: mutex_inv_def waiting_def map_upd_triv)
  next
    case (Cons w us)
    have w: "w \<in> tasks ?s" using d(6) Cons by simp
    have l: "L (waiters m) = Some ([] @ node_of w # map node_of us)" using d(2) Cons by simp
    let ?L = "L(waiters m \<mapsto> map node_of us)"
    from task_unblock_clock [OF d(1) w l] d(5) obtain h where
      h: "task_unblock w ?s = Some (upd_tcb w (\<lambda>c. c\<lparr>t_state := TASK_READY\<rparr>) (?s\<lparr>nodes := h\<rparr>))"
        "clock_inv (upd_tcb w (\<lambda>c. c\<lparr>t_state := TASK_READY\<rparr>) (?s\<lparr>nodes := h\<rparr>)) ?L" "w \<noteq> running x" by auto
    define s1 where "s1 = upd_tcb w (\<lambda>c. c\<lparr>t_state := TASK_READY\<rparr>) (?s\<lparr>nodes := h\<rparr>)"
    have inv1: "clock_inv s1 ?L" using h(2) by (simp add: s1_def)
    have s1: "current s1 = running x" "sched_frame ?s s1" "tasks s1 = tasks (ks x)" by (simp_all add: s1_def)
    from schedule_clock [OF inv1] obtain s2 where
      s2: "schedule s1 = Some s2" "clock_inv s2 ?L" "sched_frame s1 s2" "current s2 = pick s1" "tcbs s2 = sched_tcb s1" by blast
    have "candidate s1 TASK_READY w" using h(3) w s1 by (simp add: candidate_def) (simp add: s1_def)
    then have sw: "current s2 \<noteq> running x" using pick_candidate(1) [of s1] s2(4) s1(1) by (auto simp: candidate_def)
    have "sched_pre ?s L" using d(1) by (simp add: clock_inv_def sched_inv_def)
    from sched_preD(1) [OF this w] have mg: "t_magic (tcbs (ks x) w) = XOS_MAGIC" by simp
    have run: "mutex_release m (lk x) (ks x) = Some (Switched (iflag (ks x)), ?k, s2)"
      using sem list_empty_dlist [OF dl] Cons dlist_first(1,2) [OF dl] mg h(1) s2(1) sw s1(1)
      by (simp add: mutex_release_def irq_disable_def get_irq_state_def set_irq_state_def Let_def
          current_task_def task_yield_def s1_def)
    have rn: "runnable s2 t" if "t \<noteq> running x" "runnable (ks x) t \<or> t = w" for t
      using that s2(5) by (auto simp: runnable_def s1_def)
    have fr: "sched_frame ?s s2" by (rule sched_frame_trans [OF s1(2) s2(3)])
    have f: "tasks s2 = tasks (ks x)" "queues_apart s2 = queues_apart (ks x)" "blocked_queue s2 = blocked_queue (ks x)"
      "sleeping_queue s2 = sleeping_queue (ks x)" "idle_task s2 = idle_task (ks x)"
      using fr sched_frame_tasks [OF fr] by (simp_all add: sched_frame_def queues_apart_def)
    have wt: "waiting x w" using inv Cons by (simp add: mutex_inv_def)
    have wn: "waiting x t \<Longrightarrow> t \<noteq> running x" for t using p by (auto simp: waiting_def)
    have wy: "waiting \<lparr>ks = s2, lk = k, places = (places x)(running x := Leaving b)\<rparr> t = waiting x t" for k t b
      using p by (auto simp: waiting_def)
    have "mutex_inv m \<lparr>ks = s2, lk = ?k, places = (places x)(running x := Leaving (iflag (ks x)))\<rparr> ?L us"
      using inv only Cons d(8) wt wn rn cu clock_inv_flag [OF s2(2)]
      by (auto simp: mutex_inv_def f wy)
    with run rn [of w] h(3) Cons sw show ?thesis by auto
  qed
qed

lemma map_eq_split: "map f ws = as @ y # bs \<Longrightarrow> \<exists>us t vs. ws = us @ t # vs \<and> as = map f us \<and> y = f t \<and> bs = map f vs"
  unfolding map_eq_append_conv by (auto simp: Cons_eq_map_conv)

lemma other_step_inv:
  assumes inv: "mutex_inv m x L ws" and p: "places x (running x) \<in> {Outside, Inside}"
    and st: "kernel_step ((ks x)\<lparr>iflag := False\<rparr>) s"
  shows "\<exists>L' ws'. mutex_inv m (x\<lparr>ks := s\<rparr>) L' ws'"
proof -
  note d = mutex_invD [OF inv]
  have qa: "queues_apart ((ks x)\<lparr>iflag := False\<rparr>)" using inv by (simp add: mutex_inv_def)
  from kernel_step_effect [OF st d(1) qa] obtain L' where L': "step_effect ((ks x)\<lparr>iflag := False\<rparr>) L s L'" by blast
  then have c: "clock_inv s L'" and fr: "sched_frame ((ks x)\<lparr>iflag := False\<rparr>) s"
    and rn: "\<And>t. t \<noteq> running x \<Longrightarrow> runnable (ks x) t \<Longrightarrow> runnable s t"
    by (simp_all add: step_effect_def)
  have f: "tasks s = tasks (ks x)" "queues_apart s = queues_apart (ks x)" "blocked_queue s = blocked_queue (ks x)"
    "sleeping_queue s = sleeping_queue (ks x)" "idle_task s = idle_task (ks x)"
    using fr sched_frame_tasks [OF fr] by (simp_all add: sched_frame_def queues_apart_def)
  have wn: "waiting x t \<Longrightarrow> t \<noteq> running x" for t using p by (auto simp: waiting_def)
  have wy: "waiting (x\<lparr>ks := s\<rparr>) t = waiting x t" for t by (simp add: waiting_def)
  have "L' (waiters m) = Some (map node_of ws) \<or>
      (\<exists>as t bs. map node_of ws = as @ node_of t # bs \<and> L' (waiters m) = Some (as @ bs) \<and> runnable s t)"
    using L' d(2,4,5) by (simp add: step_effect_def)
  then have "L' (waiters m) = Some (map node_of ws) \<or>
      (\<exists>us t vs. ws = us @ t # vs \<and> L' (waiters m) = Some (map node_of (us @ vs)) \<and> runnable s t)"
  proof (elim disjE exE conjE)
    fix as t bs
    assume a: "map node_of ws = as @ node_of t # bs" "L' (waiters m) = Some (as @ bs)" "runnable s t"
    from map_eq_split [OF a(1)] obtain us t' vs where
      "ws = us @ t' # vs" "as = map node_of us" "node_of t = node_of t'" "bs = map node_of vs" by blast
    with a(2,3) show ?thesis by auto
  qed simp
  then consider (same) "L' (waiters m) = Some (map node_of ws)"
    | (less) us t vs where "ws = us @ t # vs" "L' (waiters m) = Some (map node_of (us @ vs))" "runnable s t"
    by blast
  then show ?thesis
  proof cases
    case same
    then show ?thesis
      using inv rn wn clock_inv_flag [OF c]
      by (intro exI [of _ L'] exI [of _ ws]) (simp add: mutex_inv_def f wy, blast)
  next
    case less
    then show ?thesis
      using inv rn wn clock_inv_flag [OF c]
      by (intro exI [of _ L'] exI [of _ "us @ vs"]) (simp add: mutex_inv_def f wy, blast)
  qed
qed

lemma mutex_step_inv:
  assumes "mutex_step m x y" and "\<exists>L ws. mutex_inv m x L ws"
  shows "\<exists>L ws. mutex_inv m y L ws"
proof -
  from assms(2) obtain L ws where inv: "mutex_inv m x L ws" by blast
  have nz: "places x t \<noteq> Outside \<Longrightarrow> t \<noteq> idle_task (ks x)" for t using inv unfolding mutex_inv_def by blast
  show ?thesis using assms(1)
  proof (cases rule: mutex_step.cases)
    case (acquire r k s)
    have "acquire_loop m (iflag (ks x)) (lk x) ((ks x)\<lparr>iflag := False\<rparr>) = Some (r, k, s)"
      using acquire(4) by (simp add: mutex_acquire_def irq_disable_def get_irq_state_def set_irq_state_def)
    with acquire_loop_inv [OF inv _ acquire(3)] acquire(1,2) show ?thesis by simp
  next
    case (retry irq r k s)
    with acquire_loop_inv [OF inv _ nz, of irq r k s] show ?thesis by (simp add: waiting_def)
  next
    case (release r k s)
    from mutex_release_inv [OF inv release(2)] release(3)
    have "mutex_inv m \<lparr>ks = s, lk = k, places = (places x)(running x := after_release r)\<rparr>
      (L(waiters m \<mapsto> map node_of (tl ws))) (tl ws)" by auto
    with release(1) show ?thesis by blast
  next
    case (leave irq)
    let ?y = "x\<lparr>ks := (ks x)\<lparr>iflag := irq\<rparr>, places := (places x)(running x := Outside)\<rparr>"
    have wy: "waiting ?y t = waiting x t" for t using leave(2) by (simp add: waiting_def)
    have pl: "((places x)(running x := Outside)) t = Inside \<longleftrightarrow> places x t = Inside"
      "((places x)(running x := Outside)) t \<noteq> Outside \<Longrightarrow> places x t \<noteq> Outside" for t
      using leave(2) by (auto split: if_splits)
    have "mutex_inv m ?y L ws"
      using inv pl(2) by (simp add: mutex_inv_def wy pl(1) del: fun_upd_apply)
    with leave show ?thesis by (auto simp: set_irq_state_def)
  next
    case (other s)
    with other_step_inv [OF inv] show ?thesis by blast
  next
    case (iret b)
    with mutex_inv_flag [OF inv, of b] show ?thesis by blast
  qed
qed

lemma mutex_reach_inv: "mutex_reach m x y \<Longrightarrow> \<exists>L ws. mutex_inv m x L ws \<Longrightarrow> \<exists>L ws. mutex_inv m y L ws"
  by (induction rule: mutex_reach.induct) (assumption, rule mutex_step_inv)

text \<open>\<^verbatim>\<open>mutex_init\<close> starts the system: no task uses the mutex and its list is empty.\<close>

lemma mutex_inv_start:
  assumes "clock_inv s L" and "queues_apart s" and "L (waiters m) = Some []"
    and "waiters m \<notin> {0, blocked_queue s, sleeping_queue s}" and "semphore k m"
  shows "mutex_inv m \<lparr>ks = s, lk = k, places = \<lambda>_. Outside\<rparr> L []"
  using assms clock_inv_flag [OF assms(1)] by (simp add: mutex_inv_def waiting_def)

lemma list_head_unowned:
  assumes "list_head l \<notin> owned L"
  shows "L l = None"
proof (rule ccontr)
  assume "L l \<noteq> None"
  then obtain xs where "L l = Some xs" by blast
  from ownedI [of L l xs, OF this, of "list_head l"] assms show False by (simp add: list_nodes_def)
qed

lemma owned_upd_new:
  assumes "L l = None"
  shows "owned (L(l \<mapsto> [])) = owned L \<union> {list_head l, list_tail l}"
proof -
  have "(\<exists>k zs. k \<noteq> l \<and> L k = Some zs \<and> a \<in> set (list_nodes k zs)) =
      (\<exists>k zs. L k = Some zs \<and> a \<in> set (list_nodes k zs))" for a
    by (metis assms option.distinct(1))
  then have "a \<in> owned (L(l \<mapsto> [])) \<longleftrightarrow> a \<in> owned L \<or> a \<in> set (list_nodes l [])" for a
    unfolding in_owned_upd in_owned_iff [of a L] by blast
  then show ?thesis by (auto simp: list_nodes_def)
qed

lemma mutex_init_law:
  assumes "clock_inv s L" and "list_head (waiters m) \<notin> owned L" and "list_tail (waiters m) \<notin> owned L"
    and "waiters m \<noteq> 0" and "list_tail (waiters m) \<noteq> 0"
    and "\<forall>t \<in> tasks s. node_of t \<notin> {list_head (waiters m), list_tail (waiters m)}"
  shows "\<exists>h. mutex_init m k s = Some (k\<lparr>semphore := (semphore k)(m := True)\<rparr>, s\<lparr>nodes := h\<rparr>) \<and>
    clock_inv (s\<lparr>nodes := h\<rparr>) (L(waiters m \<mapsto> []))"
proof -
  have si: "sched_inv s L" and pre: "sched_pre s L" and sl: "sleepers_ok s L" and nf: "\<not> iflag s"
    using assms(1) by (simp_all add: clock_inv_def sched_inv_def)
  have kl: "klists (nodes s) L" using pre by (simp add: sched_pre_def)
  from list_init_lists [OF kl assms(2-5)] obtain h where
    h: "list_init (nodes s) (waiters m) = Some h" "klists h (L(waiters m \<mapsto> []))"
      "moved (nodes s) h {list_head (waiters m), list_tail (waiters m)}" by blast
  have wn: "L (waiters m) = None" by (rule list_head_unowned [OF assms(2)])
  have q: "sleeping_queue s \<noteq> waiters m" "blocked_queue s \<noteq> waiters m"
    using pre wn by (auto simp: sched_pre_def)
  have own: "owned (L(waiters m \<mapsto> [])) = owned L \<union> {list_head (waiters m), list_tail (waiters m)}"
    by (rule owned_upd_new [of L "waiters m", OF wn])
  have il: "in_list (L(waiters m \<mapsto> [])) n = in_list L n" for n
    using wn by (auto simp: in_list_def) (metis option.distinct(1))
  have "task_ok (s\<lparr>nodes := h\<rparr>) (L(waiters m \<mapsto> [])) t" if t: "t \<in> tasks s" for t
  proof -
    have "node_free h (node_of t) = node_free (nodes s) (node_of t)"
      by (rule klist.frame_free [OF h(3)]) (use assms(6) t in blast)
    with sched_preD [OF pre t] assms(6) t show ?thesis by (auto simp: task_ok_def own il)
  qed
  then have "sched_inv (s\<lparr>nodes := h\<rparr>) (L(waiters m \<mapsto> []))"
    using si h(2) q by (auto simp: sched_inv_def sched_pre_def)
  moreover have "sleepers_ok (s\<lparr>nodes := h\<rparr>) (L(waiters m \<mapsto> []))"
    by (rule sleepers_ok_cong [where L = L and L' = "L(waiters m \<mapsto> [])", OF sl]) (use q in simp_all)
  ultimately have "clock_inv (s\<lparr>nodes := h\<rparr>) (L(waiters m \<mapsto> []))" using nf by (simp add: clock_inv_def)
  with h(1) show ?thesis by (auto simp: mutex_init_def)
qed

section \<open>Properties\<close>

text \<open>
  Property C2. However the tasks acquire, release, are preempted, sleep, block and are woken, at
  most one of them holds the mutex, the counter is 0 exactly while one does, and no wake-up is
  lost: a waiting task is in the list or can run, and while the mutex is free and tasks are in
  the list some other waiting task can run and will test the counter.
\<close>

theorem mutex_exclusion:
  assumes "mutex_reach m x y" and "mutex_inv m x L ws"
  shows "(\<forall>t t'. places y t = Inside \<and> places y t' = Inside \<longrightarrow> t = t') \<and>
     (semphore (lk y) m \<longleftrightarrow> (\<forall>t. places y t \<noteq> Inside)) \<and>
     (\<exists>us. dlist (nodes (ks y)) (waiters m) (map node_of us) \<and>
       (\<forall>t. waiting y t \<longrightarrow> t \<in> set us \<or> runnable (ks y) t) \<and>
       (semphore (lk y) m \<and> us \<noteq> [] \<longrightarrow> (\<exists>t. waiting y t \<and> runnable (ks y) t)))"
proof -
  from mutex_reach_inv [OF assms(1)] assms(2) obtain L' us where inv: "mutex_inv m y L' us" by blast
  have "dlist (nodes (ks y)) (waiters m) (map node_of us)"
    using klistsD mutex_invD(2,9) [OF inv] by blast
  with inv show ?thesis unfolding mutex_inv_def by blast
qed


text \<open>The sample kernel with a mutex at 0x50.\<close>

lemma sample_mutex:
  "\<exists>h L. mutex_inv 0x50 \<lparr>ks = sample_sched\<lparr>nodes := h\<rparr>,
     lk = \<lparr>semphore = \<lambda>_. True, holder = \<lambda>_. 0, repeat = \<lambda>_. 0\<rparr>, places = \<lambda>_. Outside\<rparr> L []"
proof -
  let ?k = "\<lparr>semphore = \<lambda>_. True, holder = \<lambda>_. 0, repeat = \<lambda>_. 0\<rparr>"
  have t: "tasks sample_sched = {0x30000, 0x40000, 0x50000, 0x60000}"
    by (auto simp: tasks_def sample_sched_def)
  have n: "\<forall>t \<in> tasks sample_sched. node_of t \<notin> {list_head (waiters 0x50), list_tail (waiters 0x50)}"
    by (simp add: t node_of_def list_head_def list_tail_def waiters_def)
  have q: "queues_apart sample_sched" by (simp add: queues_apart_def sample_sched_def boot_state_def)
  from mutex_init_law [where k = ?k, OF sample_clock_inv _ _ _ _ n] obtain h where
    h: "clock_inv (sample_sched\<lparr>nodes := h\<rparr>) (sample_queues(waiters 0x50 \<mapsto> []))"
    by (auto simp: sample_queues_owned list_head_def list_tail_def waiters_def)
  have "queues_apart (sample_sched\<lparr>nodes := h\<rparr>)" using q by (simp add: queues_apart_def)
  from mutex_inv_start [where m = "0x50" and k = ?k, OF h this] show ?thesis
    by (auto simp: waiters_def sample_sched_def boot_state_def)
qed

theorem mutex_exclusion_witness:
  "\<exists>x y. mutex_step 0x50 x y \<and> places y 0x30000 = Inside \<and> (\<forall>t. places y t = Inside \<longrightarrow> t = 0x30000)"
proof -
  from sample_mutex obtain h L where inv: "mutex_inv 0x50 \<lparr>ks = sample_sched\<lparr>nodes := h\<rparr>,
     lk = \<lparr>semphore = \<lambda>_. True, holder = \<lambda>_. 0, repeat = \<lambda>_. 0\<rparr>, places = \<lambda>_. Outside\<rparr> L []" (is "mutex_inv _ ?x _ _")
    by blast
  have c: "current sample_sched = 0x30000" "running ?x \<noteq> idle_task (ks ?x)" by (simp_all add: sample_sched_def)
  have "mutex_acquire 0x50 (lk ?x) (ks ?x) =
      Some (Returned, (lk ?x)\<lparr>semphore := (\<lambda>_. True)(0x50 := False)\<rparr>, set_irq_state (iflag (ks ?x)) (set_irq_state False (ks ?x)))"
    by (simp add: mutex_acquire_def acquire_loop_def irq_disable_def get_irq_state_def)
  from mutex_step.acquire [OF _ c(2) this] obtain y where y: "mutex_step 0x50 ?x y" "places y 0x30000 = Inside"
    by (auto simp: c(1))
  from mutex_exclusion [OF mutex_reach.step [OF mutex_reach.start y(1)] inv] y show ?thesis by blast
qed


text \<open>\<open>lock_held l t k\<close>: the locks \<open>k\<close> after task \<open>t\<close> has taken \<open>l\<close> once.\<close>

definition lock_held :: "addr \<Rightarrow> addr \<Rightarrow> locks \<Rightarrow> locks" where
  "lock_held l t k =
    k\<lparr>semphore := (semphore k)(lock_mutex l := False), holder := (holder k)(l := t), repeat := (repeat k)(l := 1)\<rparr>"

lemma lock_free_acquire:
  assumes "holder k l = 0" and "repeat k l = 0" and "semphore k (lock_mutex l)" and "current s \<noteq> 0"
  shows "mutexlock_acquire l k s = Some (Returned, lock_held l (current s) k, s)"
  using assms
  by (simp add: mutexlock_acquire_def mutex_acquire_def acquire_loop_def irq_disable_def set_irq_state_def
      get_irq_state_def lock_taken_def current_task_def lock_held_def)

lemma lock_held_release:
  assumes "holder k l = 0" and "repeat k l = 0" and "semphore k (lock_mutex l)" and "dlist (nodes s) (waiters (lock_mutex l)) []"
  shows "mutexlock_release l (lock_held l (current s) k) s = Some (Returned, k, s)"
proof -
  let ?k = "(lock_held l (current s) k)\<lparr>holder := (holder (lock_held l (current s) k))(l := 0),
    repeat := (repeat (lock_held l (current s) k))(l := 0)\<rparr>"
  have "?k\<lparr>semphore := (semphore ?k)(lock_mutex l := True)\<rparr> = k"
    using assms(1-3) by (intro locks.equality) (simp_all add: lock_held_def fun_eq_iff)
  moreover have "mutexlock_release l (lock_held l (current s) k) s = mutex_release (lock_mutex l) ?k s"
    by (simp add: mutexlock_release_def current_task_def lock_held_def)
  moreover have "mutex_release (lock_mutex l) ?k s = Some (Returned, ?k\<lparr>semphore := (semphore ?k)(lock_mutex l := True)\<rparr>, s)"
    using list_empty_dlist [OF assms(4)]
    by (simp add: mutex_release_def irq_disable_def get_irq_state_def set_irq_state_def lock_held_def Let_def)
  ultimately show ?thesis by simp
qed

primrec lock_times :: "nat \<Rightarrow> (locks \<Rightarrow> kstate \<Rightarrow> (outcome \<times> locks \<times> kstate) option) \<Rightarrow> locks \<times> kstate \<Rightarrow> (locks \<times> kstate) option" where
  "lock_times 0 op x = Some x"
| "lock_times (Suc n) op x =
     do { (k, s) \<leftarrow> lock_times n op x; (r, k, s) \<leftarrow> op k s; assert_c (r = Returned); Some (k, s) }"

lemma lock_times_first:
  assumes "op k s = Some (Returned, k1, s1)"
  shows "lock_times (Suc n) op (k, s) = lock_times n op (k1, s1)"
proof (induction n)
  case (Suc n)
  show ?case by (subst lock_times.simps(2), subst Suc, rule lock_times.simps(2) [symmetric])
qed (simp add: assms)

lemma lock_again:
  assumes "holder k l = current_task s" and "unat (repeat k l) + n < 2 ^ 32"
  shows "lock_times n (mutexlock_acquire l) (k, s) =
    Some (k\<lparr>repeat := (repeat k)(l := repeat k l + of_nat n)\<rparr>, s)"
  using assms(2) by (induction n) (simp_all add: mutexlock_acquire_def assms(1) algebra_simps)

lemma unlock_again:
  assumes "holder k l = current_task s" and "n < unat (repeat k l)"
  shows "lock_times n (mutexlock_release l) (k, s) =
    Some (k\<lparr>repeat := (repeat k)(l := repeat k l - of_nat n)\<rparr>, s)"
  using assms(2)
proof (induction n)
  case (Suc n)
  have "n < 4294967296" using Suc.prems unat_u32(1) [of "repeat k l"] by linarith
  then have n: "unat (of_nat n :: u32) = n" by (simp add: unat_of_nat)
  have "unat (repeat k l - of_nat n) = unat (repeat k l) - n"
    using Suc.prems n by (subst unat_sub) (simp_all add: word_le_nat_alt)
  then have "1 < repeat k l - of_nat n" using Suc.prems by (simp add: word_less_nat_alt)
  with Suc assms(1) show ?case 
    by (simp add: mutexlock_release_def algebra_simps fun_upd_same del: fun_upd_apply)
qed simp

text \<open>
  Property C24. A task that takes a free \<^verbatim>\<open>mutexlock\<close> can take it again any number of times without blocking;
  the lock stays its own until it has released it as often, and then it is free again.
\<close>

theorem mutexlock_reentrant:
  assumes "holder k l = 0" and "repeat k l = 0" and "semphore k (lock_mutex l)" and "current s \<noteq> 0"
    and "dlist (nodes s) (waiters (lock_mutex l)) []" and "n + 1 < 2 ^ 32" and "j \<le> n"
  shows "\<exists>k' kj. lock_times (Suc n) (mutexlock_acquire l) (k, s) = Some (k', s) \<and> holder k' l = current s \<and>
     \<not> semphore k' (lock_mutex l) \<and>
     lock_times j (mutexlock_release l) (k', s) = Some (kj, s) \<and> holder kj l = current s \<and> \<not> semphore kj (lock_mutex l) \<and>
     lock_times (Suc n) (mutexlock_release l) (k', s) = Some (k, s)"
proof -
  let ?m = "lock_mutex l"
  define k1 where "k1 = lock_held l (current s) k"
  define k' where "k' = k1\<lparr>repeat := (repeat k1)(l := of_nat (Suc n))\<rparr>"
  define kr where "kr i = k'\<lparr>repeat := (repeat k')(l := of_nat (Suc n) - of_nat i)\<rparr>" for i
  have first: "mutexlock_acquire l k s = Some (Returned, k1, s)"
    unfolding k1_def by (rule lock_free_acquire) (use assms in auto)
  have "lock_times (Suc n) (mutexlock_acquire l) (k, s) = lock_times n (mutexlock_acquire l) (k1, s)"
    by (rule lock_times_first [of "mutexlock_acquire l", OF first])
  also have "\<dots> = Some (k', s)"
    using lock_again [of k1 l s n] assms(6) by (simp add: k1_def k'_def lock_held_def current_task_def)
  finally have acq: "lock_times (Suc n) (mutexlock_acquire l) (k, s) = Some (k', s)" .
  have r: "unat (repeat k' l) = Suc n" "holder k' l = current_task s" "\<not> semphore k' ?m"
    using assms(6) by (simp_all add: k'_def k1_def lock_held_def current_task_def unat_of_nat del: of_nat_Suc)
  have rel: "lock_times i (mutexlock_release l) (k', s) = Some (kr i, s)" if "i \<le> n" for i
    using unlock_again [OF r(2), of i] r(1) that by (simp add: kr_def k'_def)
  have "kr n = lock_held l (current s) k" by (simp add: kr_def k'_def k1_def lock_held_def)
  then have "mutexlock_release l (kr n) s = Some (Returned, k, s)"
    using lock_held_release [OF assms(1-3,5)] by simp
  then have "lock_times (Suc n) (mutexlock_release l) (k', s) = Some (k, s)" using rel [of n] by simp
  moreover have "holder (kr j) l = current s" "\<not> semphore (kr j) ?m"
    using r(2,3) by (simp_all add: kr_def current_task_def)
  ultimately show ?thesis using acq rel [OF assms(7)] r(2,3) by (auto simp: current_task_def)
qed

definition sample_lock :: kstate where
  "sample_lock = sample_sched\<lparr>nodes := (\<lambda>_. \<lparr>nprev = 0x54, nnext = 0x5c\<rparr>)(0x54 := \<lparr>nprev = 0, nnext = 0x5c\<rparr>,
     0x5c := \<lparr>nprev = 0x54, nnext = 0\<rparr>)\<rparr>"

theorem mutexlock_reentrant_witness:
  "\<exists>k'. lock_times (Suc 2) (mutexlock_acquire 0x4c) (\<lparr>semphore = \<lambda>_. True, holder = \<lambda>_. 0, repeat = \<lambda>_. 0\<rparr>, sample_lock) =
    Some (k', sample_lock) \<and> holder k' 0x4c = 0x30000"
proof -
  let ?k = "\<lparr>semphore = \<lambda>_. True, holder = \<lambda>_. 0, repeat = \<lambda>_. 0\<rparr>"
  have d: "dlist (nodes sample_lock) (waiters (lock_mutex 0x4c)) []"
    by (simp add: dlist_def list_nodes_def list_head_def list_tail_def waiters_def lock_mutex_def sample_lock_def)
  have c: "current sample_lock = 0x30000" by (simp add: sample_lock_def sample_sched_def)
  have "current sample_lock \<noteq> 0" by (simp add: c)
  from mutexlock_reentrant [OF _ _ _ this d, of ?k 2 0] show ?thesis unfolding c by fastforce
qed

end
