(* ===== verification/Device.thy ===== *)
theory Device
  imports Mutex
begin

text \<open>
  Virtual devices: \<^verbatim>\<open>kernel/device.c\<close>. A device has an entry in the table \<open>devices\<close>; a block device
  also has a list of requests sorted by sector, one task at a time carries out the request it
  put there and then wakes the task of the next one in the direction of the disk arm. The
  functions behind the pointers \<^verbatim>\<open>ioctl\<close>, \<^verbatim>\<open>read\<close> and \<^verbatim>\<open>write\<close> of a device are found with a
  parameter \<open>call\<close> that maps a code address to what it does.
\<close>

section \<open>Devices and requests\<close>

datatype dev_type = DEV_NULL | DEV_CHAR | DEV_BLOCK
datatype dev_subtype = DEV_CONSOLE | DEV_KEYBOARD | DEV_ATA_DISK | DEV_ATA_PART
datatype dev_cmd = DEV_CMD_NULL | DEV_CMD_SECTOR_START | DEV_CMD_SECTOR_COUNT
datatype req_type = REQ_READ | REQ_WRITE
datatype dev_direction = DIRECT_IN | DIRECT_OUT

record request =
  rq_dev_id :: i32
  rq_type :: req_type
  rq_idx :: u32
  rq_count :: u32
  rq_flags :: i32
  rq_buf :: addr
  rq_task :: addr

text \<open>The list node of a request is its last member, at offset 28.\<close>

definition req_node :: "addr \<Rightarrow> addr" where "req_node r = r + 28"
definition req_of_node :: "addr \<Rightarrow> addr" where "req_of_node n = n - 28"

record dev =
  dv_name :: string
  dv_type :: dev_type
  dv_subtype :: dev_subtype
  dv_id :: i32
  dv_parent :: i32
  dv_dev :: addr
  request_list :: addr
  direction :: dev_direction
  dv_ioctl :: addr
  dv_read :: addr
  dv_write :: addr

record devsys =
  kern :: kstate
  devices :: "dev list"
  requests :: "addr \<Rightarrow> request"

type_synonym transfer = "addr \<Rightarrow> addr \<Rightarrow> u32 \<Rightarrow> u32 \<Rightarrow> i32 \<Rightarrow> devsys \<Rightarrow> (i32 \<times> devsys) option"
type_synonym control = "addr \<Rightarrow> dev_cmd \<Rightarrow> addr \<Rightarrow> i32 \<Rightarrow> devsys \<Rightarrow> (i32 \<times> devsys) option"

definition DEV_NR :: nat where "DEV_NR = 64"
definition DEV_NAMELEN :: nat where "DEV_NAMELEN = 16"

text \<open>What \<^verbatim>\<open>strncpy\<close> leaves in a \<^verbatim>\<open>char [16]\<close>: at most 15 characters and the terminator.\<close>

definition name_field :: "string \<Rightarrow> string" where
  "name_field name = take (DEV_NAMELEN - 1) name"

definition upd_dev :: "nat \<Rightarrow> (dev \<Rightarrow> dev) \<Rightarrow> devsys \<Rightarrow> devsys" where
  "upd_dev i f x = x\<lparr>devices := (devices x)[i := f (devices x ! i)]\<rparr>"

section \<open>The operations\<close>

primrec first_null :: "dev list \<Rightarrow> nat \<Rightarrow> nat option" where
  "first_null [] i = None"
| "first_null (d # ds) i = (if dv_type d = DEV_NULL then Some i else first_null ds (i + 1))"

definition get_null_dev :: "devsys \<Rightarrow> nat option" where
  "get_null_dev x = (case first_null (devices x) 0 of None \<Rightarrow> panic ''no more devices!!!'' | Some i \<Rightarrow> Some i)"

text \<open>The argument \<open>parent\<close> is not used: the member is set to -1.\<close>

definition dev_install ::
  "dev_type \<Rightarrow> dev_subtype \<Rightarrow> addr \<Rightarrow> string \<Rightarrow> i32 \<Rightarrow> addr \<Rightarrow> addr \<Rightarrow> addr \<Rightarrow> devsys \<Rightarrow> (i32 \<times> devsys) option" where
  "dev_install ty subty dv name parent ioctl rd wr x = do {
     i \<leftarrow> get_null_dev x;
     let x = upd_dev i (\<lambda>d. d\<lparr>dv_name := name_field name, dv_type := ty, dv_subtype := subty, dv_parent := - 1,
       dv_dev := dv, dv_ioctl := ioctl, dv_read := rd, dv_write := wr\<rparr>) x;
     Some (dv_id (devices x ! i), x) }"

primrec find_loop :: "dev list \<Rightarrow> nat \<Rightarrow> dev_subtype \<Rightarrow> u32 \<Rightarrow> u32 \<Rightarrow> nat option" where
  "find_loop [] i subty idx cnt = None"
| "find_loop (d # ds) i subty idx cnt =
     (if dv_subtype d \<noteq> subty then find_loop ds (i + 1) subty idx cnt
      else if cnt = idx then Some i else find_loop ds (i + 1) subty idx (cnt + 1))"

definition dev_find :: "dev_subtype \<Rightarrow> u32 \<Rightarrow> devsys \<Rightarrow> nat option" where
  "dev_find subty idx x = find_loop (devices x) 0 subty idx 0"

definition dev_get :: "i32 \<Rightarrow> devsys \<Rightarrow> nat option" where
  "dev_get dev_id x = do {
     assert_c (0 \<le> sint dev_id \<and> sint dev_id < 64);
     let i = unat dev_id;
     assert_c (dv_type (devices x ! i) \<noteq> DEV_NULL);
     Some i }"

definition dev_ioctl :: "(addr \<Rightarrow> control) \<Rightarrow> i32 \<Rightarrow> dev_cmd \<Rightarrow> addr \<Rightarrow> i32 \<Rightarrow> devsys \<Rightarrow> (i32 \<times> devsys) option" where
  "dev_ioctl call dev_id cmd args flags x = do {
     ASSERT_IRQ_DISABLE (kern x);
     i \<leftarrow> dev_get dev_id x;
     let d = devices x ! i;
     if dv_ioctl d = 0 then Some (- 1, x) else call (dv_ioctl d) (dv_dev d) cmd args flags x }"

definition dev_read :: "(addr \<Rightarrow> transfer) \<Rightarrow> i32 \<Rightarrow> addr \<Rightarrow> u32 \<Rightarrow> u32 \<Rightarrow> i32 \<Rightarrow> devsys \<Rightarrow> (i32 \<times> devsys) option" where
  "dev_read call dev_id buf cnt idx flags x = do {
     ASSERT_IRQ_DISABLE (kern x);
     i \<leftarrow> dev_get dev_id x;
     let d = devices x ! i;
     if dv_read d = 0 then Some (- 1, x) else call (dv_read d) (dv_dev d) buf cnt idx flags x }"

definition dev_write :: "(addr \<Rightarrow> transfer) \<Rightarrow> i32 \<Rightarrow> addr \<Rightarrow> u32 \<Rightarrow> u32 \<Rightarrow> i32 \<Rightarrow> devsys \<Rightarrow> (i32 \<times> devsys) option" where
  "dev_write call dev_id buf cnt idx flags x = do {
     ASSERT_IRQ_DISABLE (kern x);
     i \<leftarrow> dev_get dev_id x;
     let d = devices x ! i;
     if dv_write d = 0 then Some (- 1, x) else call (dv_write d) (dv_dev d) buf cnt idx flags x }"

text \<open>The result is the new direction and the node of the next request, 0 for none.\<close>

definition next_request :: "heap \<Rightarrow> addr \<Rightarrow> dev_direction \<Rightarrow> addr \<Rightarrow> (dev_direction \<times> addr) option" where
  "next_request h list dir node = do {
     dir \<leftarrow> (if dir = DIRECT_OUT then do {
               t \<leftarrow> list_istail h list node;
               Some (if t then DIRECT_IN else DIRECT_OUT) }
             else do {
               t \<leftarrow> list_ishead h list node;
               Some (if t then DIRECT_OUT else DIRECT_IN) });
     n \<leftarrow> load h node;
     let next = (case dir of DIRECT_OUT \<Rightarrow> nnext n | DIRECT_IN \<Rightarrow> nprev n);
     s \<leftarrow> list_singular h list;
     Some (dir, if s then 0 else next) }"

definition do_dev_request :: "(addr \<Rightarrow> transfer) \<Rightarrow> addr \<Rightarrow> devsys \<Rightarrow> devsys option" where
  "do_dev_request call req x = (let r = requests x req in
     case rq_type r of
       REQ_READ \<Rightarrow> map_option snd (dev_read call (rq_dev_id r) (rq_buf r) (rq_count r) (rq_idx r) (rq_flags r) x)
     | REQ_WRITE \<Rightarrow> map_option snd (dev_write call (rq_dev_id r) (rq_buf r) (rq_count r) (rq_idx r) (rq_flags r) x))"

text \<open>The part of \<^verbatim>\<open>dev_request\<close> from \<^verbatim>\<open>do_dev_request\<close> on, which a task that had to wait runs later.\<close>

definition finish_request :: "(addr \<Rightarrow> transfer) \<Rightarrow> nat \<Rightarrow> addr \<Rightarrow> devsys \<Rightarrow> devsys option" where
  "finish_request call i req x = do {
     x \<leftarrow> do_dev_request call req x;
     (dir, next) \<leftarrow> next_request (nodes (kern x)) (request_list (devices x ! i)) (direction (devices x ! i)) (req_node req);
     let x = upd_dev i (\<lambda>d. d\<lparr>direction := dir\<rparr>) x;
     h \<leftarrow> list_remove (nodes (kern x)) (req_node req);
     s \<leftarrow> kfree ((kern x)\<lparr>nodes := h\<rparr>) req;
     if next \<noteq> 0 then do {
       let task = rq_task (requests x (req_of_node next));
       assert_c (t_magic (tcbs s task) = XOS_MAGIC);
       s \<leftarrow> task_unblock task s;
       Some (x\<lparr>kern := s\<rparr>) }
     else Some (x\<lparr>kern := s\<rparr>) }"

datatype progress = Finished | Waits addr

definition idx_key :: "devsys \<Rightarrow> addr \<Rightarrow> int" where
  "idx_key x n = sint (rq_idx (requests x (req_of_node n)))"

text \<open>The memory from \<^verbatim>\<open>kmalloc\<close> is zeroed, the list node in it included.\<close>

definition dev_request ::
  "(addr \<Rightarrow> transfer) \<Rightarrow> i32 \<Rightarrow> addr \<Rightarrow> u32 \<Rightarrow> u32 \<Rightarrow> i32 \<Rightarrow> req_type \<Rightarrow> devsys \<Rightarrow> (progress \<times> devsys) option" where
  "dev_request call dev_id buf cnt idx flags ty x = do {
     ASSERT_IRQ_DISABLE (kern x);
     i \<leftarrow> dev_get dev_id x;
     assert_c (dv_type (devices x ! i) = DEV_BLOCK);
     (req, s) \<leftarrow> kmalloc (kern x) 36;
     let s = s\<lparr>nodes := (nodes s)(req_node req := \<lparr>nprev = 0, nnext = 0\<rparr>)\<rparr>;
     let r = \<lparr>rq_dev_id = dev_id, rq_type = ty, rq_idx = idx, rq_count = cnt, rq_flags = flags, rq_buf = buf,
       rq_task = current_task s\<rparr>;
     let x = x\<lparr>kern := s, requests := (requests x)(req := r)\<rparr>;
     flag \<leftarrow> list_empty (nodes s) (request_list (devices x ! i));
     h \<leftarrow> list_insert_sort (nodes s) (idx_key x) (request_list (devices x ! i)) (req_node req);
     let s = s\<lparr>nodes := h\<rparr>;
     if \<not> flag then do {
       s \<leftarrow> task_block (current_task s) 0 TASK_BLOCKED s;
       Some (Waits req, x\<lparr>kern := s\<rparr>) }
     else do {
       x \<leftarrow> finish_request call i req (x\<lparr>kern := s\<rparr>);
       Some (Finished, x) } }"

text \<open>\<open>base\<close> is the address of the array \<^verbatim>\<open>devices\<close> of 68-byte entries, the list at offset 36.\<close>

definition device_init :: "addr \<Rightarrow> devsys \<Rightarrow> devsys option" where
  "device_init base = forM [0 ..< DEV_NR] (\<lambda>i x. do {
     let x = upd_dev i (\<lambda>d. d\<lparr>dv_name := ''null'', dv_type := DEV_NULL, dv_id := of_nat i, dv_parent := 0, dv_dev := 0,
       dv_ioctl := 0, dv_read := 0, dv_write := 0, request_list := base + 68 * of_nat i + 36\<rparr>) x;
     h \<leftarrow> list_init (nodes (kern x)) (request_list (devices x ! i));
     let x = x\<lparr>kern := (kern x)\<lparr>nodes := h\<rparr>\<rparr>;
     Some (upd_dev i (\<lambda>d. d\<lparr>direction := DIRECT_IN\<rparr>) x) })"

section \<open>The elevator\<close>

definition turn :: "dev_direction \<Rightarrow> 'a list \<Rightarrow> 'a list \<Rightarrow> dev_direction" where
  "turn dir as bs = (if dir = DIRECT_OUT then if bs = [] then DIRECT_IN else DIRECT_OUT
     else if as = [] then DIRECT_OUT else DIRECT_IN)"

lemma next_request_dlist:
  assumes "dlist h l (as @ x # bs)"
  shows "next_request h l dir x = Some (turn dir as bs,
    if as = [] \<and> bs = [] then 0 else if turn dir as bs = DIRECT_OUT then hd bs else last as)"
proof -
  note m = dlist_middle [OF assms]
  have ld: "load h x = Some (h x)" using dlist_suffix_facts [OF assms] by simp
  have d: "distinct (list_nodes l (as @ x # bs))" using assms by (simp add: dlist_def)
  have t: "after l bs = list_tail l \<longleftrightarrow> bs = []" using d by (cases bs) (auto simp: list_nodes_def)
  have hd: "before l as = list_head l \<longleftrightarrow> as = []" using d by (cases as rule: rev_cases) (auto simp: list_nodes_def)
  have s: "list_singular h l = Some (as = [] \<and> bs = [])"
    using list_singular_dlist [OF assms] by (auto simp: length_Suc_conv)
  have a: "bs \<noteq> [] \<Longrightarrow> after l bs = hd bs" by (cases bs) simp_all
  have b: "as \<noteq> [] \<Longrightarrow> before l as = last as" by (cases as rule: rev_cases) simp_all
  show ?thesis
    using m(1,2) ld t hd s a b
    by (cases dir) (auto simp: next_request_def list_istail_def list_ishead_def turn_def Let_def)
qed

text \<open>
  The tasks that wait in a request list carry out their requests one after the other:
  \<open>serve n h l dir x\<close> is the order of the first \<open>n\<close>, from the request \<open>x\<close> on, and the list at the end.
\<close>

primrec serve :: "nat \<Rightarrow> heap \<Rightarrow> addr \<Rightarrow> dev_direction \<Rightarrow> addr \<Rightarrow> (addr list \<times> heap) option" where
  "serve 0 h l dir x = None"
| "serve (Suc n) h l dir x = do {
     (dir, next) \<leftarrow> next_request h l dir x;
     h \<leftarrow> list_remove h x;
     if next = 0 then Some ([x], h)
     else do { (xs, h) \<leftarrow> serve n h l dir next; Some (x # xs, h) } }"

definition scan_order :: "dev_direction \<Rightarrow> 'a list \<Rightarrow> 'a \<Rightarrow> 'a list \<Rightarrow> 'a list" where
  "scan_order dir as x bs = x # (if dir = DIRECT_OUT then bs @ rev as else rev as @ bs)"

lemma serve_scan:
  assumes "klists h L" and "L l = Some (as @ x # bs)"
  shows "\<exists>h'. serve (length as + length bs + 1) h l dir x = Some (scan_order dir as x bs, h') \<and> klists h' (L(l \<mapsto> []))"
  using assms
proof (induction "length as + length bs" arbitrary: as bs x h L dir)
  case 0
  then have e: "as = []" "bs = []" by simp_all
  from klist.rm [OF 0(2,3)] obtain h' where "list_remove h x = Some h'" "klists h' (L(l \<mapsto> []))" by (auto simp: e)
  with next_request_dlist [OF klistsD [OF 0(2,3)]] show ?case by (auto simp: e scan_order_def simp del: fun_upd_apply)
next
  case (Suc n)
  note d = klistsD [OF Suc.prems]
  from klist.rm [OF Suc.prems] obtain h' where h': "list_remove h x = Some h'" "klists h' (L(l \<mapsto> as @ bs))" by blast
  have nz: "0 \<notin> set as" "0 \<notin> set bs" using d by (auto simp: dlist_def list_nodes_def)
  have len: "length as + length bs + 1 = Suc (Suc n)" using Suc.hyps(2) by simp
  have go: "\<exists>h'. serve (length as + length bs + 1) h l dir x = Some (scan_order dir as x bs, h') \<and> klists h' (L(l \<mapsto> []))"
    if nx: "next_request h l dir x = Some (dir', y)" and y: "as @ bs = us @ y # vs" "y \<noteq> 0"
      and o: "scan_order dir as x bs = x # scan_order dir' us y vs" for dir' us y vs
  proof -
    have "length (as @ bs) = length (us @ y # vs)" using y(1) by (rule arg_cong)
    then have "length us + length vs = n" using Suc.hyps(2) by simp
    moreover have "(L(l \<mapsto> as @ bs)) l = Some (us @ y # vs)" using y(1) by simp
    ultimately obtain h2 where "serve (length us + length vs + 1) h' l dir' y = Some (scan_order dir' us y vs, h2)"
      "klists h2 ((L(l \<mapsto> as @ bs))(l \<mapsto> []))" using Suc.hyps(1) [OF _ h'(2)] by metis
    with nx h'(1) y(2) o len \<open>length us + length vs = n\<close> show ?thesis by (auto simp del: fun_upd_apply)
  qed
  show ?case
  proof (cases "turn dir as bs = DIRECT_OUT")
    case True
    then obtain b bs' where b: "bs = b # bs'" using Suc.hyps(2) by (cases bs; cases dir) (auto simp: turn_def split: if_splits)
    show ?thesis
      by (rule go [of DIRECT_OUT b as bs'])
        (use next_request_dlist [OF d, of dir] True b nz in \<open>auto simp: scan_order_def turn_def split: if_splits\<close>)
  next
    case False
    then have t: "turn dir as bs = DIRECT_IN" by (cases "turn dir as bs") simp_all
    then obtain as' a where a: "as = as' @ [a]" using Suc.hyps(2)
      by (cases as rule: rev_cases; cases dir) (auto simp: turn_def split: if_splits)
    show ?thesis
      by (rule go [of DIRECT_IN a as' bs])
        (use next_request_dlist [OF d, of dir] t a nz in \<open>auto simp: scan_order_def turn_def split: if_splits\<close>)
  qed
qed

section \<open>The device table\<close>

definition table_ok :: "devsys \<Rightarrow> bool" where
  "table_ok x \<longleftrightarrow> length (devices x) = DEV_NR \<and> (\<forall>i < DEV_NR. dv_id (devices x ! i) = of_nat i)"

lemma first_null_Some:
  "first_null ds k = Some i \<Longrightarrow> k \<le> i \<and> i - k < length ds \<and> dv_type (ds ! (i - k)) = DEV_NULL \<and>
     (\<forall>j < i - k. dv_type (ds ! j) \<noteq> DEV_NULL)"
proof (induction ds arbitrary: k)
  case (Cons d ds)
  show ?case
  proof (cases "dv_type d = DEV_NULL")
    case False
    with Cons have IH: "Suc k \<le> i" "i - Suc k < length ds" "dv_type (ds ! (i - Suc k)) = DEV_NULL"
      "\<forall>j < i - Suc k. dv_type (ds ! j) \<noteq> DEV_NULL" by (auto split: if_splits)
    then obtain j where "i - k = Suc j" "i - Suc k = j" by (metis Suc_diff_le diff_Suc_Suc)
    with IH False show ?thesis by (auto simp: less_Suc_eq_0_disj)
  qed (use Cons.prems in auto)
qed simp

lemma first_null_exists: "\<exists>d \<in> set ds. dv_type d = DEV_NULL \<Longrightarrow> first_null ds k \<noteq> None"
  by (induction ds arbitrary: k) auto

lemma find_loop_nth:
  assumes "unat c + length ds < 2 ^ 32" and "unat c \<le> unat idx"
  shows "find_loop ds k subty idx c =
    (let is = filter (\<lambda>i. dv_subtype (ds ! i) = subty) [0 ..< length ds]
     in if unat idx - unat c < length is then Some (k + is ! (unat idx - unat c)) else None)"
  using assms
proof (induction ds arbitrary: k c)
  case (Cons d ds)
  have up: "[0 ..< Suc (length ds)] = 0 # map Suc [0 ..< length ds]" by (simp add: map_Suc_upt upt_conv_Cons del: upt_Suc)
  have fl: "filter (\<lambda>i. dv_subtype ((d # ds) ! i) = subty) (map Suc [0 ..< length ds]) =
      map Suc (filter (\<lambda>i. dv_subtype (ds ! i) = subty) [0 ..< length ds])"
    by (simp add: filter_map comp_def)
  show ?case
  proof (cases "dv_subtype d = subty")
    case False
    with Cons.IH [of c "k + 1"] Cons.prems up fl show ?thesis by (simp add: Let_def)
  next
    case True
    show ?thesis
    proof (cases "c = idx")
      case eq: True
      with True up fl show ?thesis by (simp add: Let_def)
    next
      case False
      then have "unat c < unat idx" using Cons.prems(2) by (metis le_neq_implies_less word_unat_eq_iff)
      moreover have c1: "unat (c + 1) = unat c + 1" by (intro trans [OF unat_plus_noof]) (use Cons.prems(1) in simp_all)
      ultimately have "unat idx - unat c = Suc (unat idx - unat (c + 1))" by simp
      with Cons.IH [of "c + 1" "k + 1"] Cons.prems True False c1 \<open>unat c < unat idx\<close> up fl show ?thesis
        by (simp add: Let_def)
    qed
  qed
qed simp

section \<open>Properties\<close>

text \<open>
  Property C21. From any request in the list of a device, the tasks carry out all requests of the list,
  each exactly once, in the order of the elevator: on to the end in the current direction, then
  back from the starting point to the other end. No step halts and the list is empty afterwards.
\<close>

theorem scan_serves_all:
  assumes "klists h L" and "L l = Some (as @ x # bs)"
  shows "\<exists>h' xs. serve (length as + length bs + 1) h l dir x = Some (xs, h') \<and> klists h' (L(l \<mapsto> [])) \<and>
     xs = x # (if dir = DIRECT_OUT then bs @ rev as else rev as @ bs) \<and> mset xs = mset (as @ x # bs) \<and> distinct xs"
proof -
  have "distinct (as @ x # bs)" using klist.distinct [OF assms] by (auto simp: list_nodes_def)
  then have "distinct (scan_order dir as x bs)" "mset (scan_order dir as x bs) = mset (as @ x # bs)"
    by (auto simp: scan_order_def)
  with serve_scan [OF assms, of dir] show ?thesis unfolding scan_order_def by blast
qed

theorem scan_serves_all_witness:
  "\<exists>h h'. klists h [0x100 \<mapsto> [0x200, 0x300, 0x400]] \<and>
     serve 3 h 0x100 DIRECT_OUT 0x300 = Some ([0x300, 0x400, 0x200], h')"
proof -
  have "[0x100 \<mapsto> []] (0x100 :: addr) = Some ([] :: addr list)" by simp
  from klist.push_all [OF sample_klists this, of "[0x200, 0x300, 0x400]"]
  have "\<exists>h. klists h ([0x100 \<mapsto> []](0x100 \<mapsto> [0x200, 0x300, 0x400]))" by (auto simp: sample_owned simp del: fun_upd_apply fun_upd_upd)
  then obtain h where h: "klists h [0x100 \<mapsto> [0x200, 0x300, 0x400]]" by auto
  have "[0x100 \<mapsto> [0x200, 0x300, 0x400]] (0x100 :: addr) = Some ([0x200] @ 0x300 # [0x400 :: addr])" by simp
  from scan_serves_all [OF h this, of DIRECT_OUT] h show ?thesis by (auto simp: numeral_3_eq_3)
qed

text \<open>
  \<^verbatim>\<open>dev_install\<close> takes the first free entry of the table and returns its number, under which
  \<^verbatim>\<open>dev_get\<close> then finds the device with the given functions and data; every other entry is as before.
  The argument \<^verbatim>\<open>parent\<close> is ignored: the entry's parent is -1. It halts when no entry is free.
\<close>

theorem dev_install_get:
  assumes "table_ok x" and "ty \<noteq> DEV_NULL"
  shows "if \<exists>d \<in> set (devices x). dv_type d = DEV_NULL
     then \<exists>i x'. i < DEV_NR \<and> dv_type (devices x ! i) = DEV_NULL \<and> (\<forall>j < i. dv_type (devices x ! j) \<noteq> DEV_NULL) \<and>
       dev_install ty subty dv name parent ioctl rd wr x = Some (of_nat i, x') \<and> table_ok x' \<and>
       dev_get (of_nat i) x' = Some i \<and> (\<forall>j < DEV_NR. j \<noteq> i \<longrightarrow> devices x' ! j = devices x ! j) \<and>
       (let d = devices x' ! i in dv_type d = ty \<and> dv_subtype d = subty \<and> dv_dev d = dv \<and> dv_name d = take 15 name \<and>
          dv_ioctl d = ioctl \<and> dv_read d = rd \<and> dv_write d = wr \<and> dv_parent d = - 1)
     else dev_install ty subty dv name parent ioctl rd wr x = None"
proof (cases "first_null (devices x) 0")
  case None
  then have "\<not> (\<exists>d \<in> set (devices x). dv_type d = DEV_NULL)" using first_null_exists by blast
  with None show ?thesis by (simp add: dev_install_def get_null_dev_def panic_def)
next
  case (Some i)
  from first_null_Some [OF Some] have i: "i < length (devices x)" "dv_type (devices x ! i) = DEV_NULL"
    "\<forall>j < i. dv_type (devices x ! j) \<noteq> DEV_NULL" by auto
  then have ex: "\<exists>d \<in> set (devices x). dv_type d = DEV_NULL" by (metis nth_mem)
  have i64: "i < 64" using assms(1) i(1) by (simp add: table_ok_def DEV_NR_def)
  then have u: "unat (of_nat i :: i32) = i" by (simp add: unat_of_nat)
  have sg: "sint (of_nat i :: i32) = int i" using sint_small [of "of_nat i"] i64 by (simp add: u)
  define x' where "x' = upd_dev i (\<lambda>d. d\<lparr>dv_name := name_field name, dv_type := ty, dv_subtype := subty, dv_parent := - 1,
       dv_dev := dv, dv_ioctl := ioctl, dv_read := rd, dv_write := wr\<rparr>) x"
  have run: "dev_install ty subty dv name parent ioctl rd wr x = Some (of_nat i, x')"
    using Some i(1) assms(1) by (simp add: dev_install_def get_null_dev_def x'_def upd_dev_def table_ok_def)
  have "table_ok x'" using assms(1) i(1) by (auto simp: table_ok_def x'_def upd_dev_def nth_list_update)
  moreover have "dev_get (of_nat i) x' = Some i"
    using i(1) assms(2) i64 by (simp add: dev_get_def sg u x'_def upd_dev_def)
  ultimately show ?thesis using run i ex i64
    by (auto simp: x'_def upd_dev_def name_field_def DEV_NAMELEN_def DEV_NR_def Let_def intro!: exI [of _ i])
qed

definition sample_devs :: devsys where
  "sample_devs = \<lparr>kern = sample_sched, devices = map (\<lambda>i. \<lparr>dv_name = ''null'', dv_type = DEV_NULL, dv_subtype = DEV_CONSOLE,
     dv_id = of_nat i, dv_parent = 0, dv_dev = 0, request_list = 0, direction = DIRECT_IN, dv_ioctl = 0, dv_read = 0,
     dv_write = 0\<rparr>) [0 ..< DEV_NR], requests = (\<lambda>_. \<lparr>rq_dev_id = 0, rq_type = REQ_READ, rq_idx = 0, rq_count = 0,
     rq_flags = 0, rq_buf = 0, rq_task = 0\<rparr>)\<rparr>"

theorem dev_install_get_witness:
  "\<exists>x'. dev_install DEV_CHAR DEV_KEYBOARD 0 ''keyboard'' 0 0 0x1234 0 sample_devs = Some (0, x') \<and>
     dev_get 0 x' = Some 0 \<and> dv_read (devices x' ! 0) = 0x1234"
proof -
  have "table_ok sample_devs" by (simp add: table_ok_def sample_devs_def)
  moreover have n: "\<exists>d \<in> set (devices sample_devs). dv_type d = DEV_NULL" "dv_type (devices sample_devs ! 0) = DEV_NULL"
    by (auto simp: sample_devs_def DEV_NR_def intro: exI [of _ "0 :: nat"])
  moreover have "DEV_CHAR \<noteq> DEV_NULL" by simp
  ultimately obtain i x' where i: "\<forall>j < i. dv_type (devices sample_devs ! j) \<noteq> DEV_NULL"
    and x': "dev_install DEV_CHAR DEV_KEYBOARD 0 ''keyboard'' 0 0 0x1234 0 sample_devs = Some (of_nat i, x')"
      "dev_get (of_nat i) x' = Some i" "dv_read (devices x' ! i) = 0x1234"
    using dev_install_get [of sample_devs DEV_CHAR DEV_KEYBOARD 0 "''keyboard''" 0 0 "0x1234" 0] unfolding Let_def by metis
  have "i = 0" using i n(2) by (cases i) auto
  with x' show ?thesis by auto
qed

text \<open>
  What is found: \<^verbatim>\<open>dev_find\<close> is the \<open>idx\<close>-th entry of the table with the given subtype, counted from 0, or NULL
  when there are not so many. The type of an entry is not looked at, and a free entry has
  subtype 0 like a console.
\<close>

theorem dev_find_nth:
  assumes "table_ok x"
  shows "dev_find subty idx x =
     (let is = filter (\<lambda>i. dv_subtype (devices x ! i) = subty) [0 ..< DEV_NR]
      in if unat idx < length is then Some (is ! unat idx) else None)"
  using find_loop_nth [of 0 "devices x" idx 0 subty] assms
  by (simp add: dev_find_def table_ok_def DEV_NR_def Let_def)

theorem dev_find_nth_witness: "dev_find DEV_CONSOLE 5 sample_devs = Some 5"
proof -
  have "table_ok sample_devs" by (simp add: table_ok_def sample_devs_def)
  from dev_find_nth [OF this, of DEV_CONSOLE 5] show ?thesis
    by (simp add: sample_devs_def DEV_NR_def Let_def)
qed

end
