(* ===== verification/Buffer.thy ===== *)
theory Buffer
  imports Device
begin

text \<open>
  The block cache: \<^verbatim>\<open>kernel/buffer.c\<close>. Buffers are found by device and block number in a hash table
  of 31 lists; released buffers are on a free list, most recently released first, and are
  reused from its end. A call that has to wait for a buffer or for the device ends as \<open>Blocked\<close>
  after the switch to another task. When the task runs again it calls \<open>get_free_buffer\<close> once more, as the
  loop of the code does, or ends its transfer with \<open>finish_request\<close> and \<open>io_done\<close>.
\<close>

section \<open>The cache\<close>

record buffer =
  b_data :: addr
  b_dev :: i32
  b_block :: u32
  b_count :: u32
  b_dirty :: bool
  b_valid :: bool

text \<open>The members \<^verbatim>\<open>hnode\<close>, \<^verbatim>\<open>rnode\<close> and \<^verbatim>\<open>lock\<close> of the 64 bytes of a \<^verbatim>\<open>buffer_t\<close>.\<close>

definition hnode :: "addr \<Rightarrow> addr" where "hnode b = b + 16"
definition rnode :: "addr \<Rightarrow> addr" where "rnode b = b + 24"
definition buf_lock :: "addr \<Rightarrow> addr" where "buf_lock b = b + 32"
definition buf_of_hnode :: "addr \<Rightarrow> addr" where "buf_of_hnode n = n - 16"
definition buf_of_rnode :: "addr \<Rightarrow> addr" where "buf_of_rnode n = n - 24"

record bufsys =
  dsys :: devsys
  block_locks :: locks
  bufs :: "addr \<Rightarrow> buffer"
  buffer_ptr :: addr
  buffer_data :: addr
  hash_table :: addr
  free_list :: addr
  wait_list :: addr

definition HASH_COUNT :: u32 where "HASH_COUNT = 31"
definition BLOCK_SECS :: u32 where "BLOCK_SECS = 2"
definition BLOCK_SIZE :: u32 where "BLOCK_SIZE = 1024"

datatype 'a run = Done 'a | Blocked

abbreviation bnodes :: "bufsys \<Rightarrow> heap" where
  "bnodes x \<equiv> nodes (kern (dsys x))"

definition set_kern :: "kstate \<Rightarrow> bufsys \<Rightarrow> bufsys" where
  "set_kern s x = x\<lparr>dsys := (dsys x)\<lparr>kern := s\<rparr>\<rparr>"

definition set_bnodes :: "heap \<Rightarrow> bufsys \<Rightarrow> bufsys" where
  "set_bnodes h x = x\<lparr>dsys := (dsys x)\<lparr>kern := (kern (dsys x))\<lparr>nodes := h\<rparr>\<rparr>\<rparr>"

definition upd_buf :: "addr \<Rightarrow> (buffer \<Rightarrow> buffer) \<Rightarrow> bufsys \<Rightarrow> bufsys" where
  "upd_buf b f x = x\<lparr>bufs := (bufs x)(b := f (bufs x b))\<rparr>"

section \<open>The operations\<close>

definition hash :: "i32 \<Rightarrow> u32 \<Rightarrow> u32" where
  "hash dev_id blk = (xor dev_id blk) mod HASH_COUNT"

definition hash_list :: "bufsys \<Rightarrow> u32 \<Rightarrow> addr" where
  "hash_list x idx = hash_table x + 16 * idx"

definition hash_insert :: "addr \<Rightarrow> bufsys \<Rightarrow> bufsys option" where
  "hash_insert bf x = do {
     let idx = hash (b_dev (bufs x bf)) (b_block (bufs x bf));
     let list = hash_list x idx;
     c \<leftarrow> list_contains (bnodes x) list (hnode bf);
     assert_c (\<not> c);
     h \<leftarrow> list_push_front (bnodes x) list (hnode bf);
     Some (set_bnodes h x) }"

definition hash_remove :: "addr \<Rightarrow> bufsys \<Rightarrow> bufsys option" where
  "hash_remove bf x = do {
     let idx = hash (b_dev (bufs x bf)) (b_block (bufs x bf));
     let list = hash_list x idx;
     c \<leftarrow> list_contains (bnodes x) list (hnode bf);
     assert_c c;
     h \<leftarrow> list_remove (bnodes x) (hnode bf);
     Some (set_bnodes h x) }"

partial_function (option) lookup_loop :: "bufsys \<Rightarrow> addr \<Rightarrow> addr \<Rightarrow> i32 \<Rightarrow> u32 \<Rightarrow> addr option" where
  "lookup_loop x tail node dev_id blk =
     (if node = tail then Some 0
      else if b_dev (bufs x (buf_of_hnode node)) = dev_id \<and> b_block (bufs x (buf_of_hnode node)) = blk
      then Some (buf_of_hnode node)
      else do { n \<leftarrow> load (bnodes x) node; lookup_loop x tail (nnext n) dev_id blk })"

definition get_from_hash_table :: "i32 \<Rightarrow> u32 \<Rightarrow> bufsys \<Rightarrow> (addr \<times> bufsys) option" where
  "get_from_hash_table dev_id blk x = do {
     let idx = hash dev_id blk;
     let list = hash_list x idx;
     n \<leftarrow> load (bnodes x) (list_head list);
     bf \<leftarrow> lookup_loop x (list_tail list) (nnext n) dev_id blk;
     if bf = 0 then Some (0, x)
     else do {
       c \<leftarrow> list_contains (bnodes x) (free_list x) (rnode bf);
       if c then do {
         h \<leftarrow> list_remove (bnodes x) (rnode bf);
         Some (bf, set_bnodes h x) }
       else Some (bf, x) } }"

text \<open>The memory of the cache is fresh, its list nodes are zero.\<close>

definition get_new_buffer :: "bufsys \<Rightarrow> (addr \<times> bufsys) option" where
  "get_new_buffer x =
     (if buffer_ptr x + 64 < buffer_data x then do {
        let bf = buffer_ptr x;
        let x = upd_buf bf (\<lambda>_. \<lparr>b_data = buffer_data x, b_dev = - 1, b_block = 0, b_count = 0, b_dirty = False,
          b_valid = False\<rparr>) x;
        (k, s) \<leftarrow> mutexlock_init (buf_lock bf) (block_locks x) (kern (dsys x));
        let x = set_kern s (x\<lparr>block_locks := k\<rparr>);
        Some (bf, x\<lparr>buffer_ptr := buffer_ptr x + 64, buffer_data := buffer_data x - BLOCK_SIZE\<rparr>) }
      else Some (0, x))"

definition get_free_buffer :: "bufsys \<Rightarrow> (addr run \<times> bufsys) option" where
  "get_free_buffer x = do {
     (bf, x) \<leftarrow> get_new_buffer x;
     if bf \<noteq> 0 then Some (Done bf, x)
     else do {
       e \<leftarrow> list_empty (bnodes x) (free_list x);
       if \<not> e then do {
         (n, h) \<leftarrow> list_pop_back (bnodes x) (free_list x);
         let bf = buf_of_rnode n;
         x \<leftarrow> hash_remove bf (set_bnodes h x);
         Some (Done bf, upd_buf bf (\<lambda>b. b\<lparr>b_valid := False\<rparr>) x) }
       else do {
         s \<leftarrow> task_block (current_task (kern (dsys x))) (wait_list x) TASK_BLOCKED (kern (dsys x));
         Some (Blocked, set_kern s x) } } }"

definition getblk :: "i32 \<Rightarrow> u32 \<Rightarrow> bufsys \<Rightarrow> (addr run \<times> bufsys) option" where
  "getblk dev_id blk x = do {
     (bf, x) \<leftarrow> get_from_hash_table dev_id blk x;
     if bf \<noteq> 0 then Some (Done bf, upd_buf bf (\<lambda>b. b\<lparr>b_count := b_count b + 1\<rparr>) x)
     else do {
       (r, x) \<leftarrow> get_free_buffer x;
       case r of
         Blocked \<Rightarrow> Some (Blocked, x)
       | Done bf \<Rightarrow> do {
           assert_c (b_count (bufs x bf) = 0);
           assert_c (\<not> b_dirty (bufs x bf));
           let x = upd_buf bf (\<lambda>b. b\<lparr>b_dev := dev_id, b_block := blk, b_count := 1\<rparr>) x;
           x \<leftarrow> hash_insert bf x;
           Some (Done bf, x) } } }"

text \<open>What \<^verbatim>\<open>bread\<close> and \<^verbatim>\<open>bwrite\<close> do when the transfer is over, at once or after a wait.\<close>

definition io_done :: "addr \<Rightarrow> bufsys \<Rightarrow> bufsys" where
  "io_done bf x = upd_buf bf (\<lambda>b. b\<lparr>b_dirty := False, b_valid := True\<rparr>) x"

definition bread :: "(addr \<Rightarrow> transfer) \<Rightarrow> i32 \<Rightarrow> u32 \<Rightarrow> bufsys \<Rightarrow> (addr run \<times> bufsys) option" where
  "bread call dev_id blk x = do {
     (r, x) \<leftarrow> getblk dev_id blk x;
     case r of
       Blocked \<Rightarrow> Some (Blocked, x)
     | Done bf \<Rightarrow> do {
         assert_c (bf \<noteq> 0);
         if b_valid (bufs x bf) then Some (Done bf, x)
         else do {
           let b = bufs x bf;
           (p, d) \<leftarrow> dev_request call (b_dev b) (b_data b) BLOCK_SECS (b_block b * BLOCK_SECS) 0 REQ_READ (dsys x);
           let x = x\<lparr>dsys := d\<rparr>;
           case p of
             Waits _ \<Rightarrow> Some (Blocked, x)
           | Finished \<Rightarrow> Some (Done bf, io_done bf x) } } }"

definition bwrite :: "(addr \<Rightarrow> transfer) \<Rightarrow> addr \<Rightarrow> bufsys \<Rightarrow> (unit run \<times> bufsys) option" where
  "bwrite call bf x = do {
     assert_c (bf \<noteq> 0);
     if \<not> b_dirty (bufs x bf) then Some (Done (), x)
     else do {
       let b = bufs x bf;
       (p, d) \<leftarrow> dev_request call (b_dev b) (b_data b) BLOCK_SECS (b_block b * BLOCK_SECS) 0 REQ_WRITE (dsys x);
       let x = x\<lparr>dsys := d\<rparr>;
       case p of
         Waits _ \<Rightarrow> Some (Blocked, x)
       | Finished \<Rightarrow> Some (Done (), io_done bf x) } }"

text \<open>The assertion \<^verbatim>\<open>bf->count >= 0\<close> on an unsigned number always holds.\<close>

definition wake_waiter :: "bufsys \<Rightarrow> bufsys option" where
  "wake_waiter x = do {
     e \<leftarrow> list_empty (bnodes x) (wait_list x);
     if \<not> e then do {
       (n, h) \<leftarrow> list_pop_front (bnodes x) (wait_list x);
       let x = set_bnodes h x;
       s \<leftarrow> task_unblock (task_of_node n) (kern (dsys x));
       Some (set_kern s x) }
     else Some x }"

definition brelse :: "(addr \<Rightarrow> transfer) \<Rightarrow> addr \<Rightarrow> bufsys \<Rightarrow> (unit run \<times> bufsys) option" where
  "brelse call bf x =
     (if bf = 0 then Some (Done (), x)
      else do {
        let x = upd_buf bf (\<lambda>b. b\<lparr>b_count := b_count b - 1\<rparr>) x;
        if b_count (bufs x bf) > 0 then Some (Done (), x)
        else do {
          assert_c (node_free (bnodes x) (rnode bf));
          h \<leftarrow> list_push_front (bnodes x) (free_list x) (rnode bf);
          let x = set_bnodes h x;
          (r, x) \<leftarrow> (if b_dirty (bufs x bf) then bwrite call bf x else Some (Done (), x));
          case r of
            Blocked \<Rightarrow> Some (Blocked, x)
          | Done _ \<Rightarrow> do { x \<leftarrow> wake_waiter x; Some (Done (), x) } } })"

definition buffer_init :: "bufsys \<Rightarrow> bufsys option" where
  "buffer_init x = do {
     h \<leftarrow> list_init (bnodes x) (free_list x);
     h \<leftarrow> list_init h (wait_list x);
     h \<leftarrow> forM [0 ..< unat HASH_COUNT] (\<lambda>i h. list_init h (hash_list x (of_nat i))) h;
     Some (set_bnodes h x) }"

section \<open>The invariant of the cache\<close>

definition key_of :: "bufsys \<Rightarrow> addr \<Rightarrow> i32 \<times> u32" where
  "key_of x b = (b_dev (bufs x b), b_block (bufs x b))"

text \<open>\<open>H i\<close> are the buffers of hash list \<open>i\<close>, \<open>F\<close> the free ones, most recently released first.\<close>

definition cached :: "(u32 \<Rightarrow> addr list) \<Rightarrow> addr \<Rightarrow> bool" where
  "cached H b \<longleftrightarrow> (\<exists>i < HASH_COUNT. b \<in> set (H i))"

definition KERNEL_BUFFER_BASE :: addr where "KERNEL_BUFFER_BASE = 0x800000"
definition KERNEL_BUFFER_SIZE :: addr where "KERNEL_BUFFER_SIZE = 0x400000"
definition BUFFER_END :: addr where "BUFFER_END = 0xc00000"

definition unborn :: "bufsys \<Rightarrow> addr \<Rightarrow> bool" where
  "unborn x a \<longleftrightarrow> buffer_ptr x \<le> a \<and> a < BUFFER_END"

definition cache_lists :: "bufsys \<Rightarrow> (addr \<rightharpoonup> addr list) \<Rightarrow> (u32 \<Rightarrow> addr list) \<Rightarrow> addr list \<Rightarrow> bool" where
  "cache_lists x L H F \<longleftrightarrow> klists (bnodes x) L \<and>
     (\<forall>i < HASH_COUNT. L (hash_list x i) = Some (map hnode (H i)) \<and> hash_list x i \<notin> {free_list x, wait_list x}) \<and>
     L (free_list x) = Some (map rnode F) \<and> L (wait_list x) \<noteq> None \<and> free_list x \<noteq> wait_list x"

definition cache_bufs :: "bufsys \<Rightarrow> (addr \<rightharpoonup> addr list) \<Rightarrow> (u32 \<Rightarrow> addr list) \<Rightarrow> addr list \<Rightarrow> bool" where
  "cache_bufs x L H F \<longleftrightarrow>
     (\<forall>i < HASH_COUNT. \<forall>b \<in> set (H i). hash (b_dev (bufs x b)) (b_block (bufs x b)) = i \<and> b \<noteq> 0 \<and> rnode b \<noteq> 0 \<and>
       \<not> unborn x (rnode b)) \<and>
     (\<forall>b b'. cached H b \<longrightarrow> cached H b' \<longrightarrow> key_of x b = key_of x b' \<longrightarrow> b = b') \<and>
     (\<forall>b \<in> set F. cached H b \<and> b_count (bufs x b) = 0 \<and> \<not> b_dirty (bufs x b)) \<and>
     (\<forall>b. cached H b \<longrightarrow> b \<notin> set F \<longrightarrow> 0 < b_count (bufs x b) \<and> rnode b \<notin> owned L \<and> node_free (bnodes x) (rnode b)) \<and>
     (\<forall>a. unborn x a \<longrightarrow> a \<notin> owned L \<and> node_free (bnodes x) a) \<and> KERNEL_BUFFER_BASE \<le> buffer_ptr x \<and> buffer_ptr x \<le> BUFFER_END \<and> buffer_data x < BUFFER_END"

definition cache_ok :: "bufsys \<Rightarrow> (addr \<rightharpoonup> addr list) \<Rightarrow> (u32 \<Rightarrow> addr list) \<Rightarrow> addr list \<Rightarrow> bool" where
  "cache_ok x L H F \<longleftrightarrow> cache_lists x L H F \<and> cache_bufs x L H F"

lemma node_offsets [simp]:
  "buf_of_hnode (hnode b) = b" "buf_of_rnode (rnode b) = b" "hnode b = hnode b' \<longleftrightarrow> b = b'" "rnode b = rnode b' \<longleftrightarrow> b = b'"
  by (simp_all add: buf_of_hnode_def hnode_def buf_of_rnode_def rnode_def)

lemma buf_state_simps [simp]:
  "bnodes (set_bnodes h x) = h" "bufs (set_bnodes h x) = bufs x" "hash_list (set_bnodes h x) i = hash_list x i"
  "free_list (set_bnodes h x) = free_list x" "wait_list (set_bnodes h x) = wait_list x"
  "buffer_ptr (set_bnodes h x) = buffer_ptr x" "buffer_data (set_bnodes h x) = buffer_data x"
  "key_of (set_bnodes h x) b = key_of x b" "unborn (set_bnodes h x) a = unborn x a"
  "bnodes (upd_buf b f x) = bnodes x" "bufs (upd_buf b f x) c = (if c = b then f (bufs x b) else bufs x c)"
  "hash_list (upd_buf b f x) i = hash_list x i" "free_list (upd_buf b f x) = free_list x"
  "wait_list (upd_buf b f x) = wait_list x" "buffer_ptr (upd_buf b f x) = buffer_ptr x"
  "buffer_data (upd_buf b f x) = buffer_data x" "unborn (upd_buf b f x) a = unborn x a" "dsys (upd_buf b f x) = dsys x"
  by (simp_all add: set_bnodes_def upd_buf_def hash_list_def key_of_def unborn_def)

lemma hash_less [simp]: "hash d k < HASH_COUNT"
  by (simp add: hash_def HASH_COUNT_def word_mod_less_divisor)

lemma hash_list_inj: "i < HASH_COUNT \<Longrightarrow> j < HASH_COUNT \<Longrightarrow> hash_list x i = hash_list x j \<longleftrightarrow> i = j"
  unfolding hash_list_def add_left_cancel
  by (simp add: HASH_COUNT_def word_less_nat_alt word_unat_eq_iff unat_word_ariths)

lemma remove1_map: "inj f \<Longrightarrow> remove1 (f x) (map f xs) = map f (remove1 x xs)"
  by (induction xs) (auto dest: injD)

lemma inj_nodes [simp]: "inj hnode" "inj rnode"
  by (auto intro: injI)

lemma cache_listsD:
  assumes "cache_lists x L H F"
  shows "klists (bnodes x) L" "i < HASH_COUNT \<Longrightarrow> L (hash_list x i) = Some (map hnode (H i))"
    "i < HASH_COUNT \<Longrightarrow> hash_list x i \<noteq> free_list x" "i < HASH_COUNT \<Longrightarrow> hash_list x i \<noteq> wait_list x"
    "L (free_list x) = Some (map rnode F)" "distinct F" "i < HASH_COUNT \<Longrightarrow> distinct (H i)"
    "free_list x \<noteq> wait_list x"
proof -
  show k: "klists (bnodes x) L" and f: "L (free_list x) = Some (map rnode F)" and "free_list x \<noteq> wait_list x"
    using assms by (simp_all add: cache_lists_def)
  show "distinct F" using klist.distinct [OF k f] by (auto simp: list_nodes_def distinct_map)
  show h: "L (hash_list x i) = Some (map hnode (H i))" "hash_list x i \<noteq> free_list x" "hash_list x i \<noteq> wait_list x"
    if "i < HASH_COUNT" using assms that by (auto simp: cache_lists_def)
  show "distinct (H i)" if "i < HASH_COUNT"
    using klist.distinct [OF k h(1) [OF that]] by (auto simp: list_nodes_def distinct_map)
qed

lemma cache_bufsD:
  assumes "cache_bufs x L H F"
  shows "i < HASH_COUNT \<Longrightarrow> b \<in> set (H i) \<Longrightarrow> hash (b_dev (bufs x b)) (b_block (bufs x b)) = i"
    "cached H b \<Longrightarrow> b \<noteq> 0" "cached H b \<Longrightarrow> \<not> unborn x (rnode b)"
    "cached H b \<Longrightarrow> cached H b' \<Longrightarrow> key_of x b = key_of x b' \<Longrightarrow> b = b'"
    "b \<in> set F \<Longrightarrow> cached H b" "b \<in> set F \<Longrightarrow> b_count (bufs x b) = 0" "b \<in> set F \<Longrightarrow> \<not> b_dirty (bufs x b)"
    "cached H b \<Longrightarrow> b \<notin> set F \<Longrightarrow> 0 < b_count (bufs x b)" "cached H b \<Longrightarrow> b \<notin> set F \<Longrightarrow> rnode b \<notin> owned L"
    "cached H b \<Longrightarrow> b \<notin> set F \<Longrightarrow> node_free (bnodes x) (rnode b)"
    "unborn x a \<Longrightarrow> a \<notin> owned L" "unborn x a \<Longrightarrow> node_free (bnodes x) a"
    "KERNEL_BUFFER_BASE \<le> buffer_ptr x" "buffer_ptr x \<le> BUFFER_END" "buffer_data x < BUFFER_END"
    "cached H b \<Longrightarrow> rnode b \<noteq> 0"
  using assms unfolding cache_bufs_def cached_def by blast+

section \<open>Looking a block up\<close>

lemma lookup_loop_dlist:
  assumes "dlist (bnodes x) l (as @ map hnode bs)"
  shows "lookup_loop x (list_tail l) (after l (map hnode bs)) d k =
    Some (case find (\<lambda>b. key_of x b = (d, k)) bs of None \<Rightarrow> 0 | Some b \<Rightarrow> b)"
  using assms
proof (induction bs arbitrary: as)
  case Nil
  then show ?case by (simp add: lookup_loop.simps)
next
  case (Cons b bs)
  have d: "dlist (bnodes x) l (as @ hnode b # map hnode bs)" using Cons.prems by simp
  from dlist_suffix_facts [OF d] Cons.IH [of "as @ [hnode b]"] Cons.prems show ?case
    by (simp add: lookup_loop.simps [of x _ "hnode b"] key_of_def)
qed

lemma lookup_cached:
  fixes d :: i32 and k :: u32
  assumes "cache_ok x L H F"
  defines "i \<equiv> hash d k"
  shows "do { n \<leftarrow> load (bnodes x) (list_head (hash_list x i)); lookup_loop x (list_tail (hash_list x i)) (nnext n) d k } =
      Some (if \<exists>b. cached H b \<and> key_of x b = (d, k) then (THE b. cached H b \<and> key_of x b = (d, k)) else 0)"
    "cached H b \<Longrightarrow> key_of x b = (d, k) \<Longrightarrow> (THE b. cached H b \<and> key_of x b = (d, k)) = b"
    "cached H b \<Longrightarrow> key_of x b = (d, k) \<Longrightarrow> b \<noteq> 0 \<and> b \<in> set (H i)"
proof -
  have cl: "cache_lists x L H F" and cb: "cache_bufs x L H F" using assms(1) by (simp_all add: cache_ok_def)
  have i: "i < HASH_COUNT" by (simp add: i_def)
  have uniq: "cached H b \<Longrightarrow> cached H b' \<Longrightarrow> key_of x b = key_of x b' \<Longrightarrow> b = b'" for b b'
    using cb unfolding cache_bufs_def by blast
  show the: "(THE b. cached H b \<and> key_of x b = (d, k)) = b" if "cached H b" "key_of x b = (d, k)" for b
    using that uniq by (intro the_equality) auto
  show inH: "b \<noteq> 0 \<and> b \<in> set (H i)" if c: "cached H b" "key_of x b = (d, k)" for b
  proof -
    from c(1) obtain j where j: "j < HASH_COUNT" "b \<in> set (H j)" by (auto simp: cached_def)
    with cb have "hash (b_dev (bufs x b)) (b_block (bufs x b)) = j" "b \<noteq> 0" unfolding cache_bufs_def by blast+
    with c(2) j show ?thesis by (simp add: key_of_def i_def)
  qed
  note dl = klistsD [OF cache_listsD(1) [OF cl] cache_listsD(2) [OF cl i]]
  have "find (\<lambda>b. key_of x b = (d, k)) (H i) =
      (if \<exists>b. cached H b \<and> key_of x b = (d, k) then Some (THE b. cached H b \<and> key_of x b = (d, k)) else None)"
  proof (cases "\<exists>b. cached H b \<and> key_of x b = (d, k)")
    case True
    then obtain b where b: "cached H b" "key_of x b = (d, k)" by blast
    then have "find (\<lambda>b. key_of x b = (d, k)) (H i) \<noteq> None" using inH [OF b] by (auto simp: find_None_iff)
    then obtain c where c: "find (\<lambda>b. key_of x b = (d, k)) (H i) = Some c" by blast
    then have cc: "c \<in> set (H i)" "key_of x c = (d, k)" by (auto simp: find_Some_iff)
    have "cached H c" using cc(1) i by (auto simp: cached_def)
    then have "c = b" using uniq [of c b] b cc(2) by simp
    with c True the [OF b] show ?thesis by simp
  next
    case False
    then have "find (\<lambda>b. key_of x b = (d, k)) (H i) = None" using i by (auto simp: find_None_iff cached_def)
    with False show ?thesis by auto
  qed
  with lookup_loop_dlist [of x "hash_list x i" "[]" "H i" d k] dl dlist_first(1,2) [OF dl]
  show "do { n \<leftarrow> load (bnodes x) (list_head (hash_list x i)); lookup_loop x (list_tail (hash_list x i)) (nnext n) d k } =
      Some (if \<exists>b. cached H b \<and> key_of x b = (d, k) then (THE b. cached H b \<and> key_of x b = (d, k)) else 0)"
    by (cases "\<exists>b. cached H b \<and> key_of x b = (d, k)") auto
qed

lemma get_from_hash_alt:
  "get_from_hash_table d k x = do {
     bf \<leftarrow> do { n \<leftarrow> load (bnodes x) (list_head (hash_list x (hash d k)));
               lookup_loop x (list_tail (hash_list x (hash d k))) (nnext n) d k };
     if bf = 0 then Some (0, x)
     else do {
       c \<leftarrow> list_contains (bnodes x) (free_list x) (rnode bf);
       if c then do { h \<leftarrow> list_remove (bnodes x) (rnode bf); Some (bf, set_bnodes h x) }
       else Some (bf, x) } }"
  by (simp add: get_from_hash_table_def Let_def)

lemma get_from_hash_hit:
  assumes ok: "cache_ok x L H F" and b: "cached H b" "key_of x b = (d, k)"
  shows "\<exists>h. get_from_hash_table d k x = Some (b, set_bnodes h x) \<and>
    klists h (L(free_list x \<mapsto> map rnode (remove1 b F))) \<and> moved (bnodes x) h (owned L) \<and>
    rnode b \<notin> owned (L(free_list x \<mapsto> map rnode (remove1 b F))) \<and> node_free h (rnode b)"
proof -
  have cl: "cache_lists x L H F" and cb: "cache_bufs x L H F" using ok by (simp_all add: cache_ok_def)
  note c = cache_listsD [OF cl]
  let ?i = "hash d k"
  have lk: "do { n \<leftarrow> load (bnodes x) (list_head (hash_list x ?i)); lookup_loop x (list_tail (hash_list x ?i)) (nnext n) d k } = Some b"
    using lookup_cached(1) [OF ok, of d k] lookup_cached(2) [OF ok b] b by auto
  have nz: "b \<noteq> 0" using lookup_cached(3) [OF ok b] by simp
  have ct: "list_contains (bnodes x) (free_list x) (rnode b) = Some (b \<in> set F)"
    using list_contains_dlist [OF klistsD [OF c(1,5)], of "rnode b"] by auto
  show ?thesis
  proof (cases "b \<in> set F")
    case True
    then have "rnode b \<in> set (map rnode F)" by simp
    from klist.rm_member [OF c(1,5) this] obtain h where
      h: "list_remove (bnodes x) (rnode b) = Some h" "klists h (L(free_list x \<mapsto> map rnode (remove1 b F)))"
        "moved (bnodes x) h (owned L)" "node_free h (rnode b)" by (auto simp: remove1_map simp del: fun_upd_apply)
    obtain as bs where F: "F = as @ b # bs" "remove1 b F = as @ bs"
      using True c(6) by (metis remove1_append remove1.simps(2) split_list_first)
    have "L (free_list x) = Some (map rnode as @ rnode b # map rnode bs)" using c(5) F(1) by simp
    from klist.removed_not_owned(1) [OF c(1) this] have "rnode b \<notin> owned (L(free_list x \<mapsto> map rnode (remove1 b F)))"
      using F(2) by simp
    with h lk nz ct True show ?thesis
      unfolding get_from_hash_alt lk by (auto simp del: fun_upd_apply)
  next
    case False
    then have "L(free_list x \<mapsto> map rnode (remove1 b F)) = L" using c(5) by (simp add: remove1_idem map_upd_triv)
    moreover have "rnode b \<notin> owned L" "node_free (bnodes x) (rnode b)" using cb b(1) False unfolding cache_bufs_def by blast+
    moreover have "set_bnodes (bnodes x) x = x" by (simp add: set_bnodes_def)
    ultimately show ?thesis using nz ct False c(1) unfolding get_from_hash_alt lk
      by (intro exI [of _ "bnodes x"]) (auto simp: moved_def)
  qed
qed

lemma get_from_hash_miss:
  assumes ok: "cache_ok x L H F" and b: "\<And>b. cached H b \<Longrightarrow> key_of x b \<noteq> (d, k)"
  shows "get_from_hash_table d k x = Some (0, x)"
  unfolding get_from_hash_alt lookup_cached(1) [OF ok] using b by auto

lemma getblk_hit:
  assumes ok: "cache_ok x L H F" and b: "cached H b" "key_of x b = (d, k)" and ov: "b_count (bufs x b) \<noteq> - 1"
  shows "\<exists>h. let x' = upd_buf b (\<lambda>c. c\<lparr>b_count := b_count c + 1\<rparr>) (set_bnodes h x)
    in getblk d k x = Some (Done b, x') \<and> cache_ok x' (L(free_list x \<mapsto> map rnode (remove1 b F))) H (remove1 b F)"
proof -
  have cl: "cache_lists x L H F" and cb: "cache_bufs x L H F" using ok by (simp_all add: cache_ok_def)
  note c = cache_listsD [OF cl]
  let ?L = "L(free_list x \<mapsto> map rnode (remove1 b F))"
  from get_from_hash_hit [OF ok b] obtain h where
    h: "get_from_hash_table d k x = Some (b, set_bnodes h x)" "klists h ?L" "moved (bnodes x) h (owned L)"
      "rnode b \<notin> owned ?L" "node_free h (rnode b)" by blast
  define x' where "x' = upd_buf b (\<lambda>c. c\<lparr>b_count := b_count c + 1\<rparr>) (set_bnodes h x)"
  have nz: "b \<noteq> 0" using lookup_cached(3) [OF ok b] by simp
  have run: "getblk d k x = Some (Done b, x')" using h(1) nz by (simp add: getblk_def x'_def)
  have set1: "set (remove1 b F) = set F - {b}" using c(6) by (simp add: set_remove1_eq)
  have sub: "owned ?L \<subseteq> owned L"
  proof (cases "b \<in> set F")
    case True
    then obtain as bs where F: "F = as @ b # bs" "remove1 b F = as @ bs"
      using c(6) by (metis remove1_append remove1.simps(2) split_list_first)
    have "L (free_list x) = Some (map rnode as @ rnode b # map rnode bs)" using c(5) F(1) by simp
    from klist.removed_not_owned(2) [OF c(1) this] show ?thesis using F(2) by simp
  qed (use c(5) in \<open>simp add: remove1_idem map_upd_triv\<close>)
  have key: "key_of x' c = key_of x c" for c by (simp add: key_of_def x'_def)
  have fr: "node_free h a = node_free (bnodes x) a" if "a \<notin> owned L" for a
    by (rule klist.frame_free [OF h(3) that])
  have pos: "0 < b_count (bufs x b) + 1" using ov by (metis word_gt_0 eq_neg_iff_add_eq_0)
  have "cache_lists x' ?L H (remove1 b F)"
    using cl h(2) by (auto simp: cache_lists_def x'_def)
  moreover have "cache_bufs x' ?L H (remove1 b F)"
    using cb sub h(4,5) fr pos set1 unfolding cache_bufs_def key
    by (auto simp: x'_def)
  ultimately show ?thesis using run by (intro exI [of _ h]) (simp add: Let_def cache_ok_def x'_def)
qed

section \<open>Buffers for new blocks\<close>

text \<open>\<open>held x L H F b\<close>: buffer \<open>b\<close> is in no list, all others satisfy the invariant.\<close>

definition held :: "bufsys \<Rightarrow> (addr \<rightharpoonup> addr list) \<Rightarrow> (u32 \<Rightarrow> addr list) \<Rightarrow> addr list \<Rightarrow> addr \<Rightarrow> bool" where
  "held x L H F b \<longleftrightarrow> cache_ok x L H F \<and> \<not> cached H b \<and> b \<noteq> 0 \<and> rnode b \<noteq> 0 \<and> \<not> unborn x (rnode b) \<and> b_count (bufs x b) = 0 \<and>
     \<not> b_dirty (bufs x b) \<and> \<not> b_valid (bufs x b) \<and> hnode b \<notin> owned L \<and> hnode b \<noteq> 0 \<and> rnode b \<notin> owned L \<and>
     rnode b \<noteq> hnode b \<and> node_free (bnodes x) (rnode b) \<and> (\<forall>c. cached H c \<longrightarrow> rnode c \<noteq> hnode b) \<and> \<not> unborn x (hnode b)"

lemma hash_insert_held:
  assumes hd: "held x L H F b" and new: "\<And>c. cached H c \<Longrightarrow> key_of x c \<noteq> (d, k)"
  defines "x1 \<equiv> upd_buf b (\<lambda>c. c\<lparr>b_dev := d, b_block := k, b_count := 1\<rparr>) x" and "i \<equiv> hash d k"
  shows "\<exists>h. hash_insert b x1 = Some (set_bnodes h x1) \<and>
    cache_ok (set_bnodes h x1) (L(hash_list x i \<mapsto> map hnode (b # H i))) (H(i := b # H i)) F"
proof -
  have ok: "cache_ok x L H F" and hb: "\<not> cached H b" "b \<noteq> 0" "\<not> unborn x (rnode b)" "hnode b \<notin> owned L" "hnode b \<noteq> 0" "rnode b \<notin> owned L"
    "rnode b \<noteq> hnode b" "node_free (bnodes x) (rnode b)" "\<And>c. cached H c \<Longrightarrow> rnode c \<noteq> hnode b" "\<not> unborn x (hnode b)" "rnode b \<noteq> 0"
    using hd by (simp_all add: held_def)
  have cl: "cache_lists x L H F" and cb: "cache_bufs x L H F" using ok by (simp_all add: cache_ok_def)
  note c = cache_listsD [OF cl]
  have i: "i < HASH_COUNT" by (simp add: i_def)
  let ?L = "L(hash_list x i \<mapsto> map hnode (b # H i))" and ?H = "H(i := b # H i)"
  from klist.push_front [OF c(1) c(2) [OF i] hb(4,5)] obtain h where
    h: "list_push_front (bnodes x) (hash_list x i) (hnode b) = Some h" "klists h ?L" "moved (bnodes x) h (insert (hnode b) (owned L))"
    by auto
  have "b \<notin> set (H i)" using hb(1) i by (auto simp: cached_def)
  then have "list_contains (bnodes x) (hash_list x i) (hnode b) = Some False"
    using list_contains_dlist [OF klistsD [OF c(1) c(2) [OF i]], of "hnode b"] by auto
  with h(1) have run: "hash_insert b x1 = Some (set_bnodes h x1)"
    by (simp add: hash_insert_def x1_def i_def Let_def)
  have own: "owned ?L = insert (hnode b) (owned L)"
    using owned_upd_split [of L "hash_list x i" "[]" "map hnode (H i)" "hnode b"] c(2) [OF i] by simp
  have fr: "node_free h a = node_free (bnodes x) a" if "a \<notin> owned L" "a \<noteq> hnode b" for a
    by (rule klist.frame_free [OF h(3)]) (use that in simp)
  have ch: "cached ?H a \<longleftrightarrow> a = b \<or> cached H a" for a using i by (auto simp: cached_def)
  have key: "key_of (set_bnodes h x1) a = (if a = b then (d, k) else key_of x a)" for a
    by (simp add: x1_def key_of_def)
  have hl: "hash_list (set_bnodes h x1) j = hash_list x j" for j by (simp add: x1_def)
  have "cache_lists (set_bnodes h x1) ?L ?H F"
    using cl h(2) c(3,4) [of i] i hash_list_inj [of _ i x] by (auto simp: cache_lists_def x1_def)
  moreover have "cache_bufs (set_bnodes h x1) ?L ?H F"
    unfolding cache_bufs_def
  proof (intro conjI)
    show "\<forall>j < HASH_COUNT. \<forall>a \<in> set (?H j). hash (b_dev (bufs (set_bnodes h x1) a)) (b_block (bufs (set_bnodes h x1) a)) = j \<and>
        a \<noteq> 0 \<and> rnode a \<noteq> 0 \<and> \<not> unborn (set_bnodes h x1) (rnode a)"
    proof (intro allI impI ballI)
      fix j a assume j: "j < HASH_COUNT" and a: "a \<in> set (?H j)"
      show "hash (b_dev (bufs (set_bnodes h x1) a)) (b_block (bufs (set_bnodes h x1) a)) = j \<and>
          a \<noteq> 0 \<and> rnode a \<noteq> 0 \<and> \<not> unborn (set_bnodes h x1) (rnode a)"
      proof (cases "a = b")
        case True
        then have "j = i" using a hb(1) j by (auto simp: cached_def split: if_splits)
        with True hb(2,3,11) show ?thesis by (simp add: x1_def i_def)
      next
        case False
        then have "a \<in> set (H j)" using a by (auto split: if_splits)
        with cb j have "hash (b_dev (bufs x a)) (b_block (bufs x a)) = j \<and> a \<noteq> 0 \<and> rnode a \<noteq> 0 \<and> \<not> unborn x (rnode a)"
          unfolding cache_bufs_def by blast
        with False show ?thesis by (simp add: x1_def)
      qed
    qed
    show "\<forall>a a'. cached ?H a \<longrightarrow> cached ?H a' \<longrightarrow> key_of (set_bnodes h x1) a = key_of (set_bnodes h x1) a' \<longrightarrow> a = a'"
      using cb new hb(1) unfolding cache_bufs_def ch key by (metis (full_types))
    show "\<forall>a \<in> set F. cached ?H a \<and> b_count (bufs (set_bnodes h x1) a) = 0 \<and> \<not> b_dirty (bufs (set_bnodes h x1) a)"
      using cb hb(1) unfolding cache_bufs_def ch by (auto simp: x1_def)
    show "\<forall>a. cached ?H a \<longrightarrow> a \<notin> set F \<longrightarrow> 0 < b_count (bufs (set_bnodes h x1) a) \<and> rnode a \<notin> owned ?L \<and>
        node_free (bnodes (set_bnodes h x1)) (rnode a)"
      using cb hb fr unfolding cache_bufs_def ch own by (auto simp: x1_def)
    show "\<forall>a. unborn (set_bnodes h x1) a \<longrightarrow> a \<notin> owned ?L \<and> node_free (bnodes (set_bnodes h x1)) a"
    proof (intro allI impI)
      fix a assume "unborn (set_bnodes h x1) a"
      then have u: "unborn x a" by (simp add: x1_def)
      with cb have "a \<notin> owned L" "node_free (bnodes x) a" unfolding cache_bufs_def by blast+
      moreover have "a \<noteq> hnode b" using u hb(10) by blast
      ultimately show "a \<notin> owned ?L \<and> node_free (bnodes (set_bnodes h x1)) a" unfolding own using fr by simp
    qed
  qed (use cb in \<open>simp_all add: cache_bufs_def x1_def\<close>)
  ultimately show ?thesis using run unfolding cache_ok_def by blast
qed

lemma fresh_region:
  assumes "buffer_ptr x + 64 < buffer_data x" and "buffer_data x < BUFFER_END" and "KERNEL_BUFFER_BASE \<le> buffer_ptr x" and "buffer_ptr x \<le> BUFFER_END"
  shows "k < 64 \<Longrightarrow> unborn x (buffer_ptr x + k)" "k < 64 \<Longrightarrow> buffer_ptr x + k \<noteq> 0"
    "k < 64 \<Longrightarrow> \<not> buffer_ptr x + 64 \<le> buffer_ptr x + k" "buffer_ptr x + 64 \<le> BUFFER_END"
    "KERNEL_BUFFER_BASE \<le> buffer_ptr x + 64" "buffer_data x - BLOCK_SIZE < BUFFER_END"
    "a < BUFFER_END \<Longrightarrow> buffer_ptr x + 64 \<le> a \<Longrightarrow> unborn x a"
proof -
  have p: "8388608 \<le> unat (buffer_ptr x)" "unat (buffer_ptr x) \<le> 12582912" "unat (buffer_data x) < 12582912"
    using assms(2-4) by (simp_all add: BUFFER_END_def KERNEL_BUFFER_BASE_def word_le_nat_alt word_less_nat_alt)
  have a: "unat (buffer_ptr x + k) = unat (buffer_ptr x) + unat k" if "k \<le> 64" for k
    using that p(2) by (intro trans [OF unat_plus_noof]) (simp_all add: word_le_nat_alt)
  have e: "unat (buffer_ptr x) + 64 < unat (buffer_data x)"
    using assms(1) a [of 64] by (simp add: word_less_nat_alt)
  show "unborn x (buffer_ptr x + k)" "buffer_ptr x + k \<noteq> 0" "\<not> buffer_ptr x + 64 \<le> buffer_ptr x + k" if "k < 64"
    using a [of k] a [of 64] that e p
    by (simp_all add: unborn_def BUFFER_END_def word_le_nat_alt word_less_nat_alt word_unat_eq_iff)
  show "buffer_ptr x + 64 \<le> BUFFER_END" "KERNEL_BUFFER_BASE \<le> buffer_ptr x + 64" using a [of 64] e p
    by (simp_all add: BUFFER_END_def KERNEL_BUFFER_BASE_def word_le_nat_alt word_less_nat_alt)
  have "unat (buffer_data x - BLOCK_SIZE) = unat (buffer_data x) - 1024"
    using e p by (subst unat_sub) (simp_all add: BLOCK_SIZE_def word_le_nat_alt)
  then show "buffer_data x - BLOCK_SIZE < BUFFER_END" using p by (simp add: BUFFER_END_def word_less_nat_alt)
  show "a < BUFFER_END \<Longrightarrow> buffer_ptr x + 64 \<le> a \<Longrightarrow> unborn x a"
    using a [of 64] by (simp add: unborn_def word_le_nat_alt)
qed

lemma get_new_buffer_law:
  assumes ok: "cache_ok x L H F" and room: "buffer_ptr x + 64 < buffer_data x"
  defines "b \<equiv> buffer_ptr x"
  shows "\<exists>x' L'. get_new_buffer x = Some (b, x') \<and> held x' L' H F b \<and> b_data (bufs x' b) = buffer_data x \<and>
     (\<forall>c. c \<noteq> b \<longrightarrow> bufs x' c = bufs x c) \<and> free_list x' = free_list x \<and> hash_table x' = hash_table x \<and>
     wait_list x' = wait_list x \<and> L' (wait_list x) = L (wait_list x)"
proof -
  have cl: "cache_lists x L H F" and cb: "cache_bufs x L H F" using ok by (simp_all add: cache_ok_def)
  note c = cache_listsD [OF cl]
  note B = cache_bufsD [OF cb]
  note bd = B(13-15)
  note f = fresh_region [OF room bd(3,1,2)]
  let ?w = "waiters (lock_mutex (buf_lock b))"
  have w: "?w = b + 40" "list_head ?w = b + 40" "list_tail ?w = b + 48"
    by (simp_all add: waiters_def lock_mutex_def buf_lock_def list_head_def list_tail_def)
  have ub: "unborn x (b + 40)" "unborn x (b + 48)" "unborn x (b + 16)" "unborn x (b + 24)" "b + 40 \<noteq> 0" "b + 48 \<noteq> 0" "b \<noteq> 0"
    using f(1) [of 40] f(1) [of 48] f(1) [of 16] f(1) [of 24] f(2) [of 40] f(2) [of 48] f(2) [of 0] by (simp_all add: b_def)
  have hw: "list_head ?w \<notin> owned L" "list_tail ?w \<notin> owned L"
    unfolding w(2,3) using B(11) [OF ub(1)] B(11) [OF ub(2)] by blast+
  have nz: "?w \<noteq> 0" unfolding w(1) by (fact ub(5))
  have nz2: "list_tail ?w \<noteq> 0" unfolding w(3) by (fact ub(6))
  from list_init_lists [OF c(1) hw nz nz2] obtain h where
    h: "list_init (bnodes x) ?w = Some h" "klists h (L(?w \<mapsto> []))" "moved (bnodes x) h {list_head ?w, list_tail ?w}"
    by blast
  have wn: "L ?w = None" by (rule list_head_unowned [OF hw(1)])
  have own: "owned (L(?w \<mapsto> [])) = owned L \<union> {b + 40, b + 48}" using owned_upd_new [of L ?w, OF wn] unfolding w(2,3) by auto
  define x' where "x' = (set_kern ((kern (dsys x))\<lparr>nodes := h\<rparr>)
      ((upd_buf b (\<lambda>_. \<lparr>b_data = buffer_data x, b_dev = - 1, b_block = 0, b_count = 0, b_dirty = False, b_valid = False\<rparr>) x)
       \<lparr>block_locks := (block_locks x)\<lparr>semphore := (semphore (block_locks x))(lock_mutex (buf_lock b) := True),
          holder := (holder (block_locks x))(buf_lock b := 0), repeat := (repeat (block_locks x))(buf_lock b := 0)\<rparr>\<rparr>))
      \<lparr>buffer_ptr := buffer_ptr x + 64, buffer_data := buffer_data x - BLOCK_SIZE\<rparr>"
  have run: "get_new_buffer x = Some (b, x')"
    using room h(1) by (simp add: get_new_buffer_def mutexlock_init_def mutex_init_def Let_def b_def x'_def
        upd_buf_def set_kern_def)
  have x': "bnodes x' = h" "free_list x' = free_list x" "wait_list x' = wait_list x" "hash_list x' i = hash_list x i"
    "bufs x' a = (if a = b then \<lparr>b_data = buffer_data x, b_dev = - 1, b_block = 0, b_count = 0, b_dirty = False, b_valid = False\<rparr>
      else bufs x a)" "buffer_ptr x' = buffer_ptr x + 64" "buffer_data x' = buffer_data x - BLOCK_SIZE" "hash_table x' = hash_table x" for i a
    by (simp_all add: x'_def set_kern_def upd_buf_def hash_list_def)
  have sub: "unborn x' a \<Longrightarrow> unborn x a \<and> a \<noteq> b + 40 \<and> a \<noteq> b + 48" for a
    using f(7) [of a] f(3) [of 40] f(3) [of 48] by (auto simp: unborn_def x' b_def)
  have nb: "\<not> cached H b" using B(3) [of b] ub(4) by (auto simp: rnode_def)
  have fr: "node_free h a = node_free (bnodes x) a" if "a \<noteq> b + 40" "a \<noteq> b + 48" for a
    by (rule klist.frame_free [OF h(3)]) (use that in \<open>unfold w(2,3), simp\<close>)
  have cn: "cached H a \<Longrightarrow> a \<noteq> b \<and> rnode a \<noteq> b + 40 \<and> rnode a \<noteq> b + 48 \<and> rnode a \<noteq> b + 16" for a
    using B(2,3) [of a] ub nb by auto
  have ne: "?w \<noteq> free_list x" "?w \<noteq> wait_list x" "i < HASH_COUNT \<Longrightarrow> ?w \<noteq> hash_list x i" for i
    using wn cl by (auto simp: cache_lists_def)
  have "cache_lists x' (L(?w \<mapsto> [])) H F"
    using cl h(2) ne not_sym [OF ne(3)] by (simp add: cache_lists_def x')
  moreover have "cache_bufs x' (L(?w \<mapsto> [])) H F"
    unfolding cache_bufs_def
  proof (intro conjI)
    show "\<forall>i < HASH_COUNT. \<forall>a \<in> set (H i). hash (b_dev (bufs x' a)) (b_block (bufs x' a)) = i \<and> a \<noteq> 0 \<and> rnode a \<noteq> 0 \<and> \<not> unborn x' (rnode a)"
    proof (intro allI impI ballI)
      fix i a assume ia: "i < HASH_COUNT" "a \<in> set (H i)"
      then have ca: "cached H a" by (auto simp: cached_def)
      from cn [OF ca] have "bufs x' a = bufs x a" by (simp add: x')
      moreover have "\<not> unborn x' (rnode a)" using sub [of "rnode a"] B(3) [OF ca] by blast
      ultimately show "hash (b_dev (bufs x' a)) (b_block (bufs x' a)) = i \<and> a \<noteq> 0 \<and> rnode a \<noteq> 0 \<and> \<not> unborn x' (rnode a)"
        using B(1) [OF ia] B(2) [OF ca] B(16) [OF ca] by simp
    qed
    show "\<forall>a a'. cached H a \<longrightarrow> cached H a' \<longrightarrow> key_of x' a = key_of x' a' \<longrightarrow> a = a'"
      using B(4) cn by (simp add: x' key_of_def)
    show "\<forall>a \<in> set F. cached H a \<and> b_count (bufs x' a) = 0 \<and> \<not> b_dirty (bufs x' a)"
      using B(5-7) cn by (simp add: x')
    show "\<forall>a. cached H a \<longrightarrow> a \<notin> set F \<longrightarrow> 0 < b_count (bufs x' a) \<and> rnode a \<notin> owned (L(?w \<mapsto> [])) \<and> node_free (bnodes x') (rnode a)"
    proof (intro allI impI)
      fix a assume a: "cached H a" "a \<notin> set F"
      note cn [OF a(1)]
      with B(8-10) [OF a] fr [of "rnode a"] show
        "0 < b_count (bufs x' a) \<and> rnode a \<notin> owned (L(?w \<mapsto> [])) \<and> node_free (bnodes x') (rnode a)"
        unfolding own by (simp add: x')
    qed
    show "\<forall>a. unborn x' a \<longrightarrow> a \<notin> owned (L(?w \<mapsto> [])) \<and> node_free (bnodes x') a"
    proof (intro allI impI)
      fix a assume "unborn x' a"
      note sub [OF this]
      with B(11,12) [of a] fr [of a] show "a \<notin> owned (L(?w \<mapsto> [])) \<and> node_free (bnodes x') a"
        unfolding own by (simp add: x')
    qed
  qed (use f bd in \<open>simp_all add: x'\<close>)
  moreover have rh: "rnode b = b + 24" "hnode b = b + 16" by (simp_all add: rnode_def hnode_def)
  moreover have "\<not> unborn x' (rnode b)" "\<not> unborn x' (hnode b)"
    using f(3) [of 24] f(3) [of 16] by (simp_all add: rnode_def hnode_def unborn_def x' b_def)
  moreover have "rnode b \<noteq> 0" using f(2) [of 24] by (simp add: rnode_def b_def)
  moreover have "hnode b \<noteq> 0" using f(2) [of 16] by (simp add: hnode_def b_def)
  moreover have "\<forall>c. cached H c \<longrightarrow> rnode c \<noteq> hnode b" using cn by (simp add: rh)
  moreover have "node_free h (rnode b)" using fr [of "rnode b"] B(12) [OF ub(4)] by (simp add: rh)
  moreover have "rnode b \<notin> owned (L(?w \<mapsto> []))" "hnode b \<notin> owned (L(?w \<mapsto> []))"
    unfolding own using B(11) [OF ub(3)] B(11) [OF ub(4)] by (simp_all add: rh)
  ultimately have "held x' (L(?w \<mapsto> [])) H F b"
    using nb ub(7) unfolding held_def cache_ok_def by (simp add: x')
  with run show ?thesis by (intro exI [of _ x'] exI [of _ "L(?w \<mapsto> [])"]) (use ne in \<open>simp add: x'\<close>)
qed

text \<open>With no room left the buffer released longest ago is reused.\<close>

lemma evict_cached:
  assumes cb: "cache_bufs x L H F" and k: "klists h L2" and own: "owned L2 \<subseteq> owned L"
    and fr: "\<And>a. a \<notin> owned L \<Longrightarrow> node_free h a = node_free (bnodes x) a"
    and F: "F = F' @ [b]" "distinct F" and H: "H' = H(i := remove1 b (H i))" and nb: "\<not> cached H' b"
  defines "x' \<equiv> upd_buf b (\<lambda>c. c\<lparr>b_valid := False\<rparr>) (set_bnodes h x)"
  shows "cache_bufs x' L2 H' F'"
proof -
  note B = cache_bufsD [OF cb]
  have sub: "set (H' j) \<subseteq> set (H j)" for j unfolding H using set_remove1_subset [of b "H i"] by auto
  then have ca: "cached H' a \<Longrightarrow> cached H a" for a by (auto simp: cached_def)
  have stay: "cached H' a" if "cached H a" "a \<noteq> b" for a
    using that unfolding H cached_def by (metis fun_upd_apply in_set_remove1)
  have st: "b_dev (bufs x' a) = b_dev (bufs x a)" "b_block (bufs x' a) = b_block (bufs x a)" "b_count (bufs x' a) = b_count (bufs x a)"
    "b_dirty (bufs x' a) = b_dirty (bufs x a)" "unborn x' a = unborn x a" "bnodes x' = h" "buffer_ptr x' = buffer_ptr x"
    "buffer_data x' = buffer_data x" "key_of x' a = key_of x a" for a
    by (simp_all add: x'_def key_of_def)
  show ?thesis
    unfolding cache_bufs_def st
  proof (intro conjI allI ballI impI)
    fix j a assume "j < HASH_COUNT" "a \<in> set (H' j)"
    then have "a \<in> set (H j)" "cached H a" using sub ca by (auto simp: cached_def)
    with \<open>j < HASH_COUNT\<close> show "hash (b_dev (bufs x a)) (b_block (bufs x a)) = j" "a \<noteq> 0" "rnode a \<noteq> 0" "\<not> unborn x (rnode a)"
      using B(1-3,16) by blast+
  next
    fix a assume "a \<in> set F'"
    then have "a \<in> set F" "a \<noteq> b" using F by auto
    then show "cached H' a" "b_count (bufs x a) = 0" "\<not> b_dirty (bufs x a)" using B(5-7) stay by blast+
  next
    fix a assume a: "cached H' a" "a \<notin> set F'"
    then have "cached H a" "a \<notin> set F" using nb ca F by auto
    then show "0 < b_count (bufs x a)" "rnode a \<notin> owned L2" "node_free h (rnode a)"
      using B(8-10) own fr by blast+
  next
    fix a assume "unborn x a"
    then show "a \<notin> owned L2" "node_free h a" using B(11,12) own fr by blast+
  qed (use B(4,13-15) ca in blast)+
qed

lemma evict:
  assumes ok: "cache_ok x L H (F' @ [b])" and room: "\<not> buffer_ptr x + 64 < buffer_data x"
  shows "\<exists>x' L' H'. get_free_buffer x = Some (Done b, x') \<and> held x' L' H' F' b \<and>
     (\<forall>c. cached H' c \<longleftrightarrow> cached H c \<and> c \<noteq> b) \<and> (\<forall>c. key_of x' c = key_of x c) \<and>
     wait_list x' = wait_list x \<and> L' (wait_list x) = L (wait_list x)"
proof -
  let ?F = "F' @ [b]"
  have cl: "cache_lists x L H ?F" and cb: "cache_bufs x L H ?F" using ok by (simp_all add: cache_ok_def)
  note c = cache_listsD [OF cl] and B = cache_bufsD [OF cb]
  have cbd: "cached H b" using B(5) by simp
  then obtain i where i: "i < HASH_COUNT" "b \<in> set (H i)" by (auto simp: cached_def)
  have hs: "hash (b_dev (bufs x b)) (b_block (bufs x b)) = i" by (rule B(1) [OF i])
  have Lf: "L (free_list x) = Some (map rnode F' @ [rnode b])" using c(5) by simp
  let ?L1 = "L(free_list x \<mapsto> map rnode F')" and ?H = "H(i := remove1 b (H i))"
  from list_pop_back_lists [OF c(1) Lf] obtain h1 where h1: "list_pop_back (bnodes x) (free_list x) = Some (rnode b, h1)"
    "klists h1 ?L1" "moved (bnodes x) h1 (owned L)" "node_free h1 (rnode b)" by blast
  have o1: "rnode b \<notin> owned ?L1" "owned ?L1 \<subseteq> owned L"
    using klist.removed_not_owned [OF c(1) Lf] by simp_all
  have L1: "?L1 (hash_list x i) = Some (map hnode (H i))" using c(2,3) [OF i(1)] by simp
  obtain as bs where Hi: "H i = as @ b # bs" "remove1 b (H i) = as @ bs"
    using i(2) by (metis remove1_append remove1.simps(2) split_list_first)
  have L1': "?L1 (hash_list x i) = Some (map hnode as @ hnode b # map hnode bs)" using L1 Hi by simp
  let ?L2 = "?L1(hash_list x i \<mapsto> map hnode as @ map hnode bs)"
  from klist.rm [OF h1(2) L1'] obtain h2 where h2: "list_remove h1 (hnode b) = Some h2" "klists h2 ?L2" "moved h1 h2 (owned ?L1)" by blast
  note o2 = klist.removed_not_owned [OF h1(2) L1']
  have o3: "owned ?L2 \<subseteq> owned L" using o1(2) o2(2) by (rule subset_trans [rotated])
  have fr: "node_free h2 a = node_free (bnodes x) a" if "a \<notin> owned L" for a
    using klist.frame_free [OF h1(3) that] klist.frame_free [OF h2(3), of a] that o1(2) by blast
  have frb: "node_free h2 (rnode b)" using klist.frame_free [OF h2(3) o1(1)] h1(4) by blast
  define x' where "x' = upd_buf b (\<lambda>c. c\<lparr>b_valid := False\<rparr>) (set_bnodes h2 x)"
  have e: "list_empty (bnodes x) (free_list x) = Some False"
    using list_empty_dlist [OF klistsD [OF c(1) Lf]] by simp
  have ct: "list_contains h1 (hash_list x i) (hnode b) = Some True"
    using list_contains_dlist [OF klistsD [OF h1(2) L1'], of "hnode b"] by simp
  have run: "get_free_buffer x = Some (Done b, x')"
    using room h1(1) h2(1) e ct
    by (simp add: get_free_buffer_def get_new_buffer_def hash_remove_def hs Let_def x'_def) (simp add: set_bnodes_def)
  have nb: "\<not> cached ?H b"
  proof
    assume "cached ?H b"
    then obtain j where j: "j < HASH_COUNT" "b \<in> set (?H j)" by (auto simp: cached_def)
    have "b \<notin> set (remove1 b (H i))" using c(7) [OF i(1)] by (simp add: set_remove1_eq)
    with j have "j \<noteq> i" "b \<in> set (H j)" by (auto split: if_splits)
    with B(1) [OF j(1), of b] hs show False by simp
  qed
  have ch: "cached ?H a \<longleftrightarrow> cached H a \<and> a \<noteq> b" for a
  proof
    assume a: "cached ?H a"
    then have "cached H a" unfolding cached_def using set_remove1_subset [of b "H i"] by (auto split: if_splits)
    with a nb show "cached H a \<and> a \<noteq> b" by blast
  next
    assume "cached H a \<and> a \<noteq> b"
    then show "cached ?H a" unfolding cached_def by (metis fun_upd_apply in_set_remove1)
  qed
  have "cache_lists x' ?L2 ?H F'"
    using cl h2(2) c(3) [OF i(1)] Hi i(1) hash_list_inj [of _ i x] unfolding cache_lists_def by (auto simp: x'_def)
  moreover have "cache_bufs x' ?L2 ?H F'"
    unfolding x'_def by (rule evict_cached [OF cb h2(2) o3 fr refl c(6) refl nb])
  moreover have "hnode b \<in> owned L" using in_list_owned [of L "hash_list x i", OF c(2) [OF i(1)]] i(2) by simp
  moreover have "rnode a \<noteq> hnode b" if "cached H a" for a
  proof (cases "a \<in> set ?F")
    case True
    with klist.disjoint [OF c(1) c(2) [OF i(1)] c(5) c(3) [OF i(1)]] i(2) show ?thesis
      by (auto simp: list_nodes_def)
  qed (use B(9) [OF that] \<open>hnode b \<in> owned L\<close> in metis)
  ultimately have "held x' ?L2 ?H F' b"
    using ch nb B(2,3,16) [OF cbd] B(6,7) [of b] B(11) [of "hnode b"] subsetD [OF o2(2), of "rnode b"] o1(1) o2(1) frb lists_nonnull [OF c(1)] cbd
    unfolding held_def cache_ok_def by (auto simp: x'_def simp del: fun_upd_apply)
  moreover have "key_of x' a = key_of x a" for a by (simp add: x'_def key_of_def)
  moreover have "wait_list x' = wait_list x" "?L2 (wait_list x) = L (wait_list x)"
    using c(4) [OF i(1)] c(8) by (simp_all add: x'_def)
  ultimately show ?thesis using run ch by blast
qed

section \<open>The start of the cache\<close>

definition sentinels :: "bufsys \<Rightarrow> addr list" where
  "sentinels x = free_list x # wait_list x # map (\<lambda>i. hash_list x (of_nat i)) [0 ..< unat HASH_COUNT]"

definition ends :: "addr list \<Rightarrow> addr list" where
  "ends ls = concat (map (\<lambda>l. [list_head l, list_tail l]) ls)"

text \<open>Where the cache may start: its 33 lists are static, outside the buffers, and in no list yet.\<close>

definition cache_fresh :: "bufsys \<Rightarrow> (addr \<rightharpoonup> addr list) \<Rightarrow> bool" where
  "cache_fresh x L \<longleftrightarrow> klists (bnodes x) L \<and> distinct (ends (sentinels x)) \<and>
     (\<forall>a \<in> set (ends (sentinels x)). a \<noteq> 0 \<and> a \<notin> owned L \<and> \<not> unborn x a) \<and>
     (\<forall>a. unborn x a \<longrightarrow> a \<notin> owned L \<and> node_free (bnodes x) a) \<and>
     buffer_ptr x = KERNEL_BUFFER_BASE \<and> buffer_data x = KERNEL_BUFFER_BASE + KERNEL_BUFFER_SIZE - BLOCK_SIZE"

lemma init_lists:
  assumes "klists h L" and "distinct (ends ls)" and "\<And>a. a \<in> set (ends ls) \<Longrightarrow> a \<noteq> 0 \<and> a \<notin> owned L"
  shows "\<exists>h' L'. forM ls (\<lambda>l h. list_init h l) h = Some h' \<and> klists h' L' \<and> moved h h' (set (ends ls)) \<and>
    owned L' = owned L \<union> set (ends ls) \<and> (\<forall>l \<in> set ls. L' l = Some []) \<and> (\<forall>l. L l \<noteq> None \<longrightarrow> L' l = L l)"
  using assms
proof (induction ls arbitrary: h L)
  case Nil
  then show ?case by (auto simp: ends_def moved_def)
next
  case (Cons l ls)
  have e: "ends (l # ls) = list_head l # list_tail l # ends ls" by (simp add: ends_def)
  have a: "list_head l \<notin> owned L" "list_tail l \<notin> owned L" "l \<noteq> 0" "list_tail l \<noteq> 0"
    using Cons.prems(3) [of "list_head l"] Cons.prems(3) [of "list_tail l"] by (simp_all add: e) (simp add: list_head_def)
  from list_init_lists [OF Cons.prems(1) a] obtain h1 where h1: "list_init h l = Some h1" "klists h1 (L(l \<mapsto> []))"
    "moved h h1 {list_head l, list_tail l}" by blast
  have ln: "L l = None" by (rule list_head_unowned [OF a(1)])
  have o1: "owned (L(l \<mapsto> [])) = owned L \<union> {list_head l, list_tail l}" by (rule owned_upd_new [of L l, OF ln])
  have n: "list_head l \<notin> set (ends ls)" "list_tail l \<notin> set (ends ls)" "distinct (ends ls)" using Cons.prems(2) by (auto simp: e)
  have "\<And>a. a \<in> set (ends ls) \<Longrightarrow> a \<noteq> 0 \<and> a \<notin> owned (L(l \<mapsto> []))"
    unfolding o1 using Cons.prems(3) n by (auto simp: e)
  from Cons.IH [OF h1(2) n(3) this] obtain h' L' where h': "forM ls (\<lambda>l h. list_init h l) h1 = Some h'" "klists h' L'"
    "moved h1 h' (set (ends ls))" "owned L' = owned (L(l \<mapsto> [])) \<union> set (ends ls)" "\<forall>l \<in> set ls. L' l = Some []"
    "\<forall>k. (L(l \<mapsto> [])) k \<noteq> None \<longrightarrow> L' k = (L(l \<mapsto> [])) k" by blast
  have "L' l = Some []" using h'(6) by simp
  moreover have "L' k = L k" if "L k \<noteq> None" for k using h'(6) [rule_format, of k] that ln by (cases "k = l") auto
  moreover have "moved h h' (set (ends (l # ls)))" using h1(3) h'(3) by (auto simp: moved_def e)
  moreover have "owned L' = owned L \<union> set (ends (l # ls))" using h'(4) unfolding o1 e by auto
  ultimately show ?case using h1(1) h'(1,2,5) by (intro exI [of _ h'] exI [of _ L']) auto
qed

lemma forM_map: "forM (map f xs) g s = forM xs (\<lambda>x. g (f x)) s"
  by (induction xs arbitrary: s) simp_all

lemma ends_distinct: "distinct (ends ls) \<Longrightarrow> distinct ls"
proof (induction ls)
  case (Cons l ls)
  then have "list_head l \<notin> set (ends ls)" "distinct ls" by (simp_all add: ends_def)
  moreover have "l \<in> set ls \<Longrightarrow> list_head l \<in> set (ends ls)" by (auto simp: ends_def)
  ultimately show ?case by auto
qed simp

lemma hash_list_sentinel: "i < HASH_COUNT \<Longrightarrow> hash_list x i \<in> set (map (\<lambda>i. hash_list x (of_nat i)) [0 ..< unat HASH_COUNT])"
  unfolding set_map by (rule image_eqI [of _ _ "unat i"]) (simp_all add: word_less_nat_alt del: upt_Suc)

lemma buffer_init_law:
  assumes "cache_fresh x L"
  shows "\<exists>h L'. buffer_init x = Some (set_bnodes h x) \<and> cache_ok (set_bnodes h x) L' (\<lambda>_. []) [] \<and>
    L' (wait_list x) = Some [] \<and> (\<forall>l. L l \<noteq> None \<longrightarrow> L' l = L l) \<and> owned L' = owned L \<union> set (ends (sentinels x))"
proof -
  from assms have k: "klists (bnodes x) L" and d: "distinct (ends (sentinels x))"
    and e: "\<And>a. a \<in> set (ends (sentinels x)) \<Longrightarrow> a \<noteq> 0 \<and> a \<notin> owned L"
    and u: "\<And>a. unborn x a \<Longrightarrow> a \<notin> owned L \<and> node_free (bnodes x) a \<and> a \<notin> set (ends (sentinels x))"
    and p: "buffer_ptr x = KERNEL_BUFFER_BASE" "buffer_data x = KERNEL_BUFFER_BASE + KERNEL_BUFFER_SIZE - BLOCK_SIZE"
    unfolding cache_fresh_def by blast+
  from init_lists [OF k d e] obtain h L' where h: "forM (sentinels x) (\<lambda>l h. list_init h l) (bnodes x) = Some h" "klists h L'"
    "moved (bnodes x) h (set (ends (sentinels x)))" "owned L' = owned L \<union> set (ends (sentinels x))"
    "\<forall>l \<in> set (sentinels x). L' l = Some []" "\<forall>l. L l \<noteq> None \<longrightarrow> L' l = L l" by blast
  have run: "buffer_init x = Some (set_bnodes h x)"
    using h(1) unfolding buffer_init_def sentinels_def by (simp add: forM_map bind_eq_Some_conv del: upt_Suc) blast
  have L': "L' (free_list x) = Some []" "L' (wait_list x) = Some []" "i < HASH_COUNT \<Longrightarrow> L' (hash_list x i) = Some []" for i
    using h(5) hash_list_sentinel [of i x] by (auto simp: sentinels_def simp del: upt_Suc)
  have ne: "free_list x \<noteq> wait_list x" "i < HASH_COUNT \<Longrightarrow> hash_list x i \<noteq> free_list x \<and> hash_list x i \<noteq> wait_list x" for i
    using ends_distinct [OF d] hash_list_sentinel [of i x] by (auto simp: sentinels_def simp del: upt_Suc set_map)
  have "cache_lists (set_bnodes h x) L' (\<lambda>_. []) []"
    using h(2) L' ne by (simp add: cache_lists_def)
  moreover have "cache_bufs (set_bnodes h x) L' (\<lambda>_. []) []"
    using u klist.frame_free [OF h(3)] p unfolding cache_bufs_def cached_def h(4)
    by (simp add: KERNEL_BUFFER_BASE_def KERNEL_BUFFER_SIZE_def BUFFER_END_def BLOCK_SIZE_def)
  ultimately show ?thesis using run h(4,6) L'(2) by (intro exI [of _ h] exI [of _ L']) (simp add: cache_ok_def)
qed

section \<open>Getting and releasing buffers\<close>

lemma cached_upd:
  "i < HASH_COUNT \<Longrightarrow> cached (H(i := ys)) c \<longleftrightarrow> c \<in> set ys \<or> (\<exists>j < HASH_COUNT. j \<noteq> i \<and> c \<in> set (H j))"
  unfolding cached_def by (metis fun_upd_apply)

lemma cached_cons:
  "i < HASH_COUNT \<Longrightarrow> cached (H(i := b # H i)) c \<longleftrightarrow> c = b \<or> cached H c"
  by (auto simp: cached_upd cached_def)

text \<open>The buffer a miss takes: a new one while there is room, otherwise the one released longest ago.\<close>

lemma get_free_buffer_law:
  assumes "cache_ok x L H F" and "buffer_ptr x + 64 < buffer_data x \<or> F \<noteq> []"
  shows "\<exists>b x1 L1 H1 F1. get_free_buffer x = Some (Done b, x1) \<and> held x1 L1 H1 F1 b \<and>
     (\<forall>c. cached H1 c \<longleftrightarrow> cached H c \<and> c \<noteq> b) \<and> (\<forall>c. c \<noteq> b \<longrightarrow> key_of x1 c = key_of x c) \<and>
     (if buffer_ptr x + 64 < buffer_data x then b = buffer_ptr x \<and> F1 = F else F = F1 @ [b]) \<and>
     wait_list x1 = wait_list x \<and> L1 (wait_list x) = L (wait_list x)"
proof (cases "buffer_ptr x + 64 < buffer_data x")
  case True
  from get_new_buffer_law [OF assms(1) True] obtain x' L' where
    n: "get_new_buffer x = Some (buffer_ptr x, x')" "held x' L' H F (buffer_ptr x)" "\<forall>c. c \<noteq> buffer_ptr x \<longrightarrow> bufs x' c = bufs x c"
    "wait_list x' = wait_list x" "L' (wait_list x) = L (wait_list x)" by blast
  then have "buffer_ptr x \<noteq> 0" "\<not> cached H (buffer_ptr x)" by (simp_all add: held_def)
  moreover from this have "get_free_buffer x = Some (Done (buffer_ptr x), x')" using n(1) by (simp add: get_free_buffer_def)
  ultimately show ?thesis using n(2-5) True
    by (intro exI [of _ "buffer_ptr x"] exI [of _ x'] exI [of _ L'] exI [of _ H] exI [of _ F]) (auto simp: key_of_def)
next
  case False
  with assms(2) obtain F' b where F: "F = F' @ [b]" by (metis append_butlast_last_id)
  have "cache_ok x L H (F' @ [b])" using assms(1) F by simp
  from evict [OF this False] obtain x' L' H' where e: "get_free_buffer x = Some (Done b, x')" "held x' L' H' F' b"
    "\<forall>c. cached H' c \<longleftrightarrow> cached H c \<and> c \<noteq> b" "\<forall>c. key_of x' c = key_of x c"
    "wait_list x' = wait_list x" "L' (wait_list x) = L (wait_list x)" by blast
  show ?thesis
    by (rule exI [of _ b], rule exI [of _ x'], rule exI [of _ L'], rule exI [of _ H'], rule exI [of _ F'])
      (use e F False in simp)
qed

lemma getblk_miss_law:
  assumes "cache_ok x L H F" and "\<And>c. cached H c \<Longrightarrow> key_of x c \<noteq> (d, k)"
    and "buffer_ptr x + 64 < buffer_data x \<or> F \<noteq> []"
  shows "\<exists>b x' L' H' F'. getblk d k x = Some (Done b, x') \<and> cache_ok x' L' H' F' \<and>
     key_of x' b = (d, k) \<and> b_count (bufs x' b) = 1 \<and> \<not> b_valid (bufs x' b) \<and> \<not> b_dirty (bufs x' b) \<and>
     (\<forall>c. cached H' c \<longleftrightarrow> cached H c \<or> c = b) \<and> (\<forall>c. c \<noteq> b \<longrightarrow> key_of x' c = key_of x c) \<and>
     (if buffer_ptr x + 64 < buffer_data x then b = buffer_ptr x \<and> F' = F else F = F' @ [b]) \<and>
     wait_list x' = wait_list x \<and> L' (wait_list x) = L (wait_list x)"
proof -
  from get_free_buffer_law [OF assms(1,3)] obtain b x1 L1 H1 F1 where
    g: "get_free_buffer x = Some (Done b, x1)" "held x1 L1 H1 F1 b" "\<And>c. cached H1 c \<longleftrightarrow> cached H c \<and> c \<noteq> b"
      "\<And>c. c \<noteq> b \<Longrightarrow> key_of x1 c = key_of x c"
      "if buffer_ptr x + 64 < buffer_data x then b = buffer_ptr x \<and> F1 = F else F = F1 @ [b]"
      "wait_list x1 = wait_list x" "L1 (wait_list x) = L (wait_list x)" by blast
  have new: "\<And>c. cached H1 c \<Longrightarrow> key_of x1 c \<noteq> (d, k)" using g(3,4) assms(2) by auto
  let ?u = "upd_buf b (\<lambda>c. c\<lparr>b_dev := d, b_block := k, b_count := 1\<rparr>) x1"
  from hash_insert_held [OF g(2) new] obtain h where h: "hash_insert b ?u = Some (set_bnodes h ?u)"
    "cache_ok (set_bnodes h ?u) (L1(hash_list x1 (hash d k) \<mapsto> map hnode (b # H1 (hash d k)))) (H1(hash d k := b # H1 (hash d k))) F1"
    by blast
  have b: "b_count (bufs x1 b) = 0" "\<not> b_dirty (bufs x1 b)" "\<not> b_valid (bufs x1 b)" using g(2) by (simp_all add: held_def)
  have run: "getblk d k x = Some (Done b, set_bnodes h ?u)"
    using get_from_hash_miss [OF assms(1,2)] g(1) b h(1) by (simp add: getblk_def)
  have ch: "cached (H1(hash d k := b # H1 (hash d k))) c \<longleftrightarrow> cached H c \<or> c = b" for c
    using g(3) [of c] cached_cons [of "hash d k" H1 b c] by auto
  have key: "c \<noteq> b \<Longrightarrow> key_of (set_bnodes h ?u) c = key_of x c" for c using g(4) [of c] by (simp add: key_of_def)
  have at_b: "key_of (set_bnodes h ?u) b = (d, k)" "b_count (bufs (set_bnodes h ?u) b) = 1" "\<not> b_valid (bufs (set_bnodes h ?u) b)"
    "\<not> b_dirty (bufs (set_bnodes h ?u) b)"
    using b(2,3) by (simp_all add: key_of_def)
  have "wait_list (set_bnodes h ?u) = wait_list x" using g(6) by simp
  moreover have "hash_list x1 (hash d k) \<noteq> wait_list x1" using g(2) cache_listsD(4) [of x1 L1 H1 F1 "hash d k"] by (simp add: held_def cache_ok_def)
  then have "(L1(hash_list x1 (hash d k) \<mapsto> map hnode (b # H1 (hash d k)))) (wait_list x) = L (wait_list x)" using g(6,7) by simp
  ultimately show ?thesis
    by (intro exI conjI allI impI) ((rule run h(2) at_b ch key g(5) | assumption)+)
qed

text \<open>
  Property C16. A request for a block that is not in the cache gets a buffer that no other block uses:
  a fresh one while there is room, and otherwise the free buffer that was released longest ago; the
  buffer is then the one and only entry for the block, used once, not yet valid; the entries of all other
  blocks stay, except the one whose buffer is reused, and the cache stays consistent.
\<close>

theorem getblk_miss:
  assumes "cache_ok x L H F" and "\<And>c. cached H c \<Longrightarrow> key_of x c \<noteq> (d, k)"
    and "buffer_ptr x + 64 < buffer_data x \<or> F \<noteq> []"
  shows "\<exists>b x' L' H' F'. getblk d k x = Some (Done b, x') \<and> cache_ok x' L' H' F' \<and>
     key_of x' b = (d, k) \<and> b_count (bufs x' b) = 1 \<and> \<not> b_valid (bufs x' b) \<and> \<not> b_dirty (bufs x' b) \<and>
     (\<forall>c. cached H' c \<longleftrightarrow> cached H c \<or> c = b) \<and> (\<forall>c. c \<noteq> b \<longrightarrow> key_of x' c = key_of x c) \<and>
     (if buffer_ptr x + 64 < buffer_data x then b = buffer_ptr x \<and> F' = F else F = F' @ [b])"
  using getblk_miss_law [OF assms] by blast

definition sample_cache :: bufsys where
  "sample_cache = \<lparr>dsys = sample_devs, block_locks = \<lparr>semphore = (\<lambda>_. False), holder = (\<lambda>_. 0), repeat = (\<lambda>_. 0)\<rparr>,
     bufs = (\<lambda>_. \<lparr>b_data = 0, b_dev = 0, b_block = 0, b_count = 0, b_dirty = False, b_valid = False\<rparr>),
     buffer_ptr = KERNEL_BUFFER_BASE, buffer_data = KERNEL_BUFFER_BASE + KERNEL_BUFFER_SIZE - BLOCK_SIZE,
     hash_table = 0x22000, free_list = 0x23000, wait_list = 0x23010\<rparr>"

lemma sample_cache_fresh: "cache_fresh sample_cache sample_queues"
proof -
  have "distinct (ends (sentinels sample_cache))"
    "\<forall>a \<in> set (ends (sentinels sample_cache)). a \<noteq> 0 \<and> a \<notin> owned sample_queues \<and> \<not> unborn sample_cache a"
    by (simp_all add: ends_def sentinels_def hash_list_def sample_cache_def HASH_COUNT_def upt_rec list_head_def list_tail_def
        sample_queues_owned unborn_def KERNEL_BUFFER_BASE_def BUFFER_END_def)
  moreover have "a \<notin> owned sample_queues \<and> node_free (bnodes sample_cache) a" if "unborn sample_cache a" for a
    using that by (auto simp: unborn_def sample_queues_owned sample_cache_def sample_devs_def sample_sched_def node_free_def
        KERNEL_BUFFER_BASE_def boot_state_def)
  moreover have "klists (bnodes sample_cache) sample_queues"
    using sample_sched_inv(1) by (simp add: sched_inv_def sched_pre_def sample_cache_def sample_devs_def)
  ultimately show ?thesis by (simp add: cache_fresh_def) (simp add: sample_cache_def)
qed

text \<open>The cache after \<^verbatim>\<open>buffer_init\<close>, and after the first block was requested.\<close>

lemma sample_started:
  "\<exists>x L. buffer_init sample_cache = Some x \<and> cache_ok x L (\<lambda>_. []) [] \<and> L (wait_list x) = Some [] \<and>
     buffer_ptr x + 64 < buffer_data x \<and> buffer_ptr x = 0x800000"
  using buffer_init_law [OF sample_cache_fresh]
  by (auto simp: sample_cache_def KERNEL_BUFFER_BASE_def KERNEL_BUFFER_SIZE_def BLOCK_SIZE_def)

lemma sample_not_cached: "\<not> cached (\<lambda>_. []) c"
  by (simp add: cached_def)

theorem getblk_miss_witness:
  "\<exists>x x'. buffer_init sample_cache = Some x \<and> getblk 1 7 x = Some (Done 0x800000, x') \<and> key_of x' 0x800000 = (1, 7)"
proof -
  from sample_started obtain x L where x: "buffer_init sample_cache = Some x" "cache_ok x L (\<lambda>_. []) []"
    "buffer_ptr x + 64 < buffer_data x" "buffer_ptr x = 0x800000" by blast
  from getblk_miss [OF x(2), of 1 7] x(1,3,4) sample_not_cached show ?thesis by auto
qed

text \<open>The last reference is given up: the buffer becomes the first of the free list.\<close>

lemma brelse_last_law:
  assumes "cache_ok x L H F" and "cached H b" and "b_count (bufs x b) = 1" and "\<not> b_dirty (bufs x b)"
    and "L (wait_list x) = Some []"
  shows "\<exists>h. brelse call b x = Some (Done (), set_bnodes h (upd_buf b (\<lambda>c. c\<lparr>b_count := 0\<rparr>) x)) \<and>
    cache_ok (set_bnodes h (upd_buf b (\<lambda>c. c\<lparr>b_count := 0\<rparr>) x)) (L(free_list x \<mapsto> map rnode (b # F))) H (b # F)"
proof -
  have cl: "cache_lists x L H F" and cb: "cache_bufs x L H F" using assms(1) by (simp_all add: cache_ok_def)
  note c = cache_listsD [OF cl] and B = cache_bufsD [OF cb]
  have nf: "b \<notin> set F" using B(6) assms(3) by auto
  note R = B(9,10) [OF assms(2) nf]
  have hn: "hnode b \<in> owned L"
    using assms(2) in_list_owned [of L _ _ "hnode b", OF c(2)] by (auto simp: cached_def)
  note r0 = B(16) [OF assms(2)]
  let ?L = "L(free_list x \<mapsto> map rnode (b # F))"
  from klist.push_front [OF c(1,5) R(1) r0] obtain h where
    h: "list_push_front (bnodes x) (free_list x) (rnode b) = Some h" "klists h ?L" "moved (bnodes x) h (insert (rnode b) (owned L))"
    by auto
  define x' where "x' = set_bnodes h (upd_buf b (\<lambda>c. c\<lparr>b_count := 0\<rparr>) x)"
  have e: "list_empty h (wait_list x) = Some True"
    using list_empty_dlist [OF klistsD [OF h(2), of "wait_list x" "[]"]] assms(5) c(8) by simp
  have run: "brelse call b x = Some (Done (), x')"
    using B(2) [OF assms(2)] assms(3,4) R(2) h(1) e
    by (simp add: brelse_def wake_waiter_def x'_def Let_def upd_buf_def)
  have own: "owned ?L = insert (rnode b) (owned L)"
    using owned_upd_split [of L "free_list x" "[]" "map rnode F" "rnode b"] c(5) by simp
  have st: "b_dev (bufs x' a) = b_dev (bufs x a)" "b_block (bufs x' a) = b_block (bufs x a)" "b_dirty (bufs x' a) = b_dirty (bufs x a)"
    "b_count (bufs x' a) = (if a = b then 0 else b_count (bufs x a))" "unborn x' a = unborn x a" "key_of x' a = key_of x a"
    "bnodes x' = h" "buffer_ptr x' = buffer_ptr x" "buffer_data x' = buffer_data x" for a
    by (simp_all add: x'_def key_of_def)
  have fr: "node_free h a = node_free (bnodes x) a" if "a \<notin> owned L" "a \<noteq> rnode b" for a
    by (rule klist.frame_free [OF h(3)]) (use that in simp)
  have "cache_lists x' ?L H (b # F)"
    using cl h(2) c(5) unfolding cache_lists_def by (auto simp: x'_def)
  moreover have "cache_bufs x' ?L H (b # F)"
    unfolding cache_bufs_def st own
  proof (intro conjI allI ballI impI)
    fix a assume a: "cached H a" "a \<notin> set (b # F)"
    then have a': "a \<noteq> b" "a \<notin> set F" "rnode a \<noteq> rnode b" by auto
    from B(8-10) [OF a(1) a'(2)] a' fr [of "rnode a"]
    show "0 < (if a = b then 0 else b_count (bufs x a))" "rnode a \<notin> insert (rnode b) (owned L)" "node_free h (rnode a)" by simp_all
  next
    fix a assume u: "unborn x a"
    then have "a \<noteq> rnode b" using B(3) [OF assms(2)] by blast
    with B(11,12) [OF u] fr [of a] show "a \<notin> insert (rnode b) (owned L)" "node_free h a" by simp_all
  next
    fix a assume "a \<in> set (b # F)"
    then show "cached H a" "(if a = b then 0 else b_count (bufs x a)) = 0" "\<not> b_dirty (bufs x a)"
      using B(5-7) [of a] assms(2,4) by auto
  next
    fix j a assume ja: "j < HASH_COUNT" "a \<in> set (H j)"
    then have ca: "cached H a" by (auto simp: cached_def)
    show "hash (b_dev (bufs x a)) (b_block (bufs x a)) = j" by (rule B(1) [OF ja])
    show "a \<noteq> 0" "rnode a \<noteq> 0" "\<not> unborn x (rnode a)" using B(2,3,16) [OF ca] by blast+
  qed (use B(4,13-15) in blast)+
  ultimately have ok': "cache_ok x' ?L H (b # F)" by (simp add: cache_ok_def)
  from run ok' show ?thesis unfolding x'_def by blast
qed

text \<open>
  The last release of a clean buffer puts it first on the free list, as the most recently used
  one, where its block can still be found: a request for that block finds the same buffer again and
  takes it off the free list.
\<close>

theorem brelse_keeps_block:
  assumes "cache_ok x L H F" and "cached H b" and "b_count (bufs x b) = 1" and "\<not> b_dirty (bufs x b)"
    and "L (wait_list x) = Some []"
  shows "\<exists>x'. brelse call b x = Some (Done (), x') \<and> cache_ok x' (L(free_list x \<mapsto> map rnode (b # F))) H (b # F) \<and>
     (\<exists>x''. getblk (fst (key_of x b)) (snd (key_of x b)) x' = Some (Done b, x'') \<and> bufs x'' = bufs x \<and>
        cache_ok x'' L H F)"
proof -
  have c: "L (free_list x) = Some (map rnode F)" using assms(1) by (simp add: cache_ok_def cache_lists_def)
  let ?L = "L(free_list x \<mapsto> map rnode (b # F))"
  from brelse_last_law [OF assms] obtain h where
    h: "brelse call b x = Some (Done (), set_bnodes h (upd_buf b (\<lambda>c. c\<lparr>b_count := 0\<rparr>) x))"
      "cache_ok (set_bnodes h (upd_buf b (\<lambda>c. c\<lparr>b_count := 0\<rparr>) x)) ?L H (b # F)" by blast
  define x' where "x' = set_bnodes h (upd_buf b (\<lambda>c. c\<lparr>b_count := 0\<rparr>) x)"
  note run = h(1) [folded x'_def] and ok' = h(2) [folded x'_def]
  have key: "key_of x' b = (fst (key_of x b), snd (key_of x b))" by (simp add: x'_def key_of_def)
  have "b_count (bufs x' b) \<noteq> - 1" by (simp add: x'_def)
  from getblk_hit [OF ok' assms(2) key this] obtain g where
    g: "getblk (fst (key_of x b)) (snd (key_of x b)) x' = Some (Done b, upd_buf b (\<lambda>c. c\<lparr>b_count := b_count c + 1\<rparr>) (set_bnodes g x'))"
      "cache_ok (upd_buf b (\<lambda>c. c\<lparr>b_count := b_count c + 1\<rparr>) (set_bnodes g x')) (?L(free_list x' \<mapsto> map rnode (remove1 b (b # F)))) H (remove1 b (b # F))"
    by (auto simp: Let_def simp del: remove1.simps list.map)
  have "?L(free_list x' \<mapsto> map rnode (remove1 b (b # F))) = L" using c by (simp add: x'_def map_upd_triv)
  moreover have "bufs (upd_buf b (\<lambda>c. c\<lparr>b_count := b_count c + 1\<rparr>) (set_bnodes g x')) = bufs x"
    using assms(3) by (intro ext) (simp add: x'_def)
  ultimately have "\<exists>x''. getblk (fst (key_of x b)) (snd (key_of x b)) x' = Some (Done b, x'') \<and> bufs x'' = bufs x \<and> cache_ok x'' L H F"
    using g by auto
  with run ok' show ?thesis by blast
qed

theorem brelse_keeps_block_witness:
  "\<exists>x x1 x2. buffer_init sample_cache = Some x \<and> getblk 1 7 x = Some (Done 0x800000, x1) \<and>
     brelse (\<lambda>_ _ _ _ _ _ _. None) 0x800000 x1 = Some (Done (), x2)"
proof -
  from sample_started obtain x L where x: "buffer_init sample_cache = Some x" "cache_ok x L (\<lambda>_. []) []"
    "L (wait_list x) = Some []" "buffer_ptr x + 64 < buffer_data x" "buffer_ptr x = 0x800000" by blast
  from getblk_miss_law [OF x(2), of 1 7] x(4,5) sample_not_cached obtain x1 L1 H1 F1 where
    x1: "getblk 1 7 x = Some (Done 0x800000, x1)" "cache_ok x1 L1 H1 F1" "b_count (bufs x1 0x800000) = 1" "cached H1 0x800000"
      "\<not> b_dirty (bufs x1 0x800000)" "L1 (wait_list x1) = Some []" using x(3) by auto
  from brelse_keeps_block [OF x1(2,4,3,5,6)] x(1) x1(1) show ?thesis by blast
qed

text \<open>
  Property C36. The last release of a clean buffer while a task waits for a buffer ends in a failed
  assertion: the waiting task is taken off the wait list first and \<^verbatim>\<open>task_unblock\<close> then removes its node a
  second time.
\<close>

theorem brelse_waiter_halts:
  assumes "klists (bnodes x) L" and "L (free_list x) = Some fs" and "L (wait_list x) = Some (n # ns)" and "free_list x \<noteq> wait_list x"
    and "b \<noteq> 0" and "b_count (bufs x b) = 1" and "\<not> b_dirty (bufs x b)" and "rnode b \<notin> owned L" and "rnode b \<noteq> 0"
  shows "brelse call b x = None"
proof -
  from klist.push_front [OF assms(1,2,8,9)] obtain h where h: "list_push_front (bnodes x) (free_list x) (rnode b) = Some h"
    "klists h (L(free_list x \<mapsto> rnode b # fs))" by blast
  have w: "(L(free_list x \<mapsto> rnode b # fs)) (wait_list x) = Some (n # ns)" using assms(3,4) by simp
  from klist.pop_front [OF h(2) w] obtain h2 where h2: "list_pop_front h (wait_list x) = Some (n, h2)" "node_free h2 n" by blast
  have "list_remove h2 n = None" using h2(2) by (simp add: list_remove_def load_def node_free_def)
  then show ?thesis
    using h(1) h2(1) list_empty_dlist [OF klistsD [OF h(2) w]] assms(5-7)
    by (simp add: brelse_def wake_waiter_def Let_def task_unblock_def set_bnodes_def upd_buf_def)
qed

theorem brelse_waiter_halts_witness:
  "\<exists>x x1 n. buffer_init sample_cache = Some x \<and> list_push_back (bnodes x) (wait_list x) n = Some x1 \<and>
     brelse (\<lambda>_ _ _ _ _ _ _. None) 0x800000 (upd_buf 0x800000 (\<lambda>c. c\<lparr>b_count := 1, b_dirty := False\<rparr>) (set_bnodes x1 x)) = None"
proof -
  from sample_started obtain x L where x: "buffer_init sample_cache = Some x" "cache_ok x L (\<lambda>_. []) []"
    "L (wait_list x) = Some []" "buffer_ptr x = 0x800000" by blast
  note c = cache_listsD [of x L "\<lambda>_. []" "[]"]
  have cl: "cache_lists x L (\<lambda>_. []) []" and u: "\<And>a. unborn x a \<Longrightarrow> a \<notin> owned L"
    using x(2) cache_bufsD(11) [of x L] by (auto simp: cache_ok_def)
  have n: "0x900000 \<notin> owned L" "rnode 0x800000 \<notin> owned L"
    by (rule u, simp add: unborn_def x(4) BUFFER_END_def rnode_def)+
  from klist.push_back [OF c(1) [OF cl] x(3) n(1)] obtain h where
    h: "list_push_back (bnodes x) (wait_list x) 0x900000 = Some h" "klists h (L(wait_list x \<mapsto> [0x900000]))" by auto
  have "owned (L(wait_list x \<mapsto> [0x900000])) = insert 0x900000 (owned L)"
    using owned_upd_split [of L "wait_list x" "[]" "[]" "0x900000"] x(3) by simp
  then have r: "rnode 0x800000 \<notin> owned (L(wait_list x \<mapsto> [0x900000]))" using n(2) by (simp add: rnode_def)
  let ?x = "upd_buf 0x800000 (\<lambda>c. c\<lparr>b_count := 1, b_dirty := False\<rparr>) (set_bnodes h x)"
  have "brelse (\<lambda>_ _ _ _ _ _ _. None) 0x800000 ?x = None"
    by (rule brelse_waiter_halts [of ?x "L(wait_list x \<mapsto> [0x900000])" "[]" "0x900000" "[]"])
      (use h(2) r c(5,8) [OF cl] in \<open>simp_all add: rnode_def\<close>)
  with x(1) h(1) show ?thesis by blast
qed

section \<open>The cache as its clients use it\<close>

text \<open>
  A client holds a block from \<open>get\<close> to \<open>put\<close>. \<open>v\<close> is the view of the lists that the invariant \<open>ok\<close> needs, \<open>entry\<close> what a buffer
  holds apart from the number of its users.
\<close>

locale block_cache =
  fixes ok :: "'c \<Rightarrow> 'v \<Rightarrow> bool"
    and holds :: "'v \<Rightarrow> addr \<Rightarrow> bool"
    and entry :: "'c \<Rightarrow> addr \<Rightarrow> 'e"
    and key :: "'e \<Rightarrow> 'k"
    and clean :: "'e \<Rightarrow> bool"
    and uses :: "'c \<Rightarrow> addr \<Rightarrow> nat"
    and limit :: nat
    and get :: "'k \<Rightarrow> 'c \<Rightarrow> (addr \<times> 'c) option"
    and put :: "addr \<Rightarrow> 'c \<Rightarrow> 'c option"
  assumes hit: "\<lbrakk>ok c v; holds v b; key (entry c b) = k; uses c b < limit\<rbrakk> \<Longrightarrow>
      \<exists>c' v'. get k c = Some (b, c') \<and> ok c' v' \<and> holds v' = holds v \<and> entry c' = entry c \<and> (\<forall>a. uses c' a = (if a = b then Suc (uses c b) else uses c a))"
    and rel: "\<lbrakk>ok c v; holds v b; clean (entry c b); uses c b = Suc n\<rbrakk> \<Longrightarrow>
      \<exists>c' v'. put b c = Some c' \<and> ok c' v' \<and> holds v' = holds v \<and> entry c' = entry c \<and> (\<forall>a. uses c' a = (if a = b then n else uses c a))"
begin

lemma gets:
  assumes "ok c v" "holds v b" "key (entry c b) = k" "uses c b + n \<le> limit"
  shows "\<exists>c' v'. forM [0 ..< n] (\<lambda>_ c. map_option snd (get k c)) c = Some c' \<and> ok c' v' \<and> holds v' = holds v \<and> entry c' = entry c \<and>
    (\<forall>a. uses c' a = (if a = b then uses c b + n else uses c a))"
  using assms(4)
proof (induction n)
  case 0
  then show ?case using assms(1) by auto
next
  case (Suc n)
  then obtain c1 v1 where c1: "forM [0 ..< n] (\<lambda>_ c. map_option snd (get k c)) c = Some c1" "ok c1 v1" "holds v1 = holds v" "entry c1 = entry c"
    "\<forall>a. uses c1 a = (if a = b then uses c b + n else uses c a)" by auto
  from hit [OF c1(2), of b k] c1(3-5) assms(2,3) Suc.prems show ?case by (auto simp: forM_append c1(1))
qed

lemma puts:
  assumes "ok c v" "holds v b" "clean (entry c b)" "uses c b = m + n"
  shows "\<exists>c' v'. forM [0 ..< n] (\<lambda>_. put b) c = Some c' \<and> ok c' v' \<and> holds v' = holds v \<and> entry c' = entry c \<and> (\<forall>a. uses c' a = (if a = b then m else uses c a))"
  using assms
proof (induction n arbitrary: m)
  case 0
  then show ?case by auto
next
  case (Suc n)
  from Suc.IH [of "Suc m"] Suc.prems obtain c1 v1 where c1: "forM [0 ..< n] (\<lambda>_. put b) c = Some c1" "ok c1 v1" "holds v1 = holds v"
    "entry c1 = entry c" "\<forall>a. uses c1 a = (if a = b then Suc m else uses c a)" by auto
  from rel [OF c1(2), of b m] c1(3-5) Suc.prems(2,3) show ?case by (auto simp: forM_append c1(1))
qed

lemma balanced:
  assumes "ok c v" "holds v b" "key (entry c b) = k" "clean (entry c b)" "uses c b + n \<le> limit"
  shows "\<exists>c1 c2 v2. forM [0 ..< n] (\<lambda>_ c. map_option snd (get k c)) c = Some c1 \<and> uses c1 b = uses c b + n \<and>
    forM [0 ..< n] (\<lambda>_. put b) c1 = Some c2 \<and> ok c2 v2 \<and> holds v2 = holds v \<and> entry c2 = entry c \<and> (\<forall>a. uses c2 a = uses c a)"
proof -
  from gets [OF assms(1-3,5)] obtain c1 v1 where
    c1: "forM [0 ..< n] (\<lambda>_ c. map_option snd (get k c)) c = Some c1" "ok c1 v1" "holds v1 = holds v" "entry c1 = entry c"
      "\<forall>a. uses c1 a = (if a = b then uses c b + n else uses c a)" by blast
  from puts [OF c1(2), of b "uses c b" n] c1(3-5) assms(2,4) obtain c2 v2 where
    c2: "forM [0 ..< n] (\<lambda>_. put b) c1 = Some c2" "ok c2 v2" "holds v2 = holds v" "entry c2 = entry c"
      "\<forall>a. uses c2 a = (if a = b then uses c b else uses c1 a)" by auto
  have "uses c2 a = uses c a" for a using c2(5) c1(5) by (cases "a = b") auto
  with c1 c2(1-4) show ?thesis by auto
qed

end

text \<open>A release with other users left only lowers the count.\<close>

lemma brelse_shared_law:
  assumes "cache_ok x L H F" and "cached H b" and "1 < b_count (bufs x b)"
  shows "brelse call b x = Some (Done (), upd_buf b (\<lambda>c. c\<lparr>b_count := b_count c - 1\<rparr>) x)"
    "cache_ok (upd_buf b (\<lambda>c. c\<lparr>b_count := b_count c - 1\<rparr>) x) L H F"
proof -
  have cl: "cache_lists x L H F" and cb: "cache_bufs x L H F" using assms(1) by (simp_all add: cache_ok_def)
  note B = cache_bufsD [OF cb]
  have "1 < unat (b_count (bufs x b))" using assms(3) by (simp add: word_less_nat_alt)
  moreover from this have "unat (b_count (bufs x b) - 1) = unat (b_count (bufs x b)) - 1" by (simp add: unat_minus_le word_le_nat_alt)
  ultimately have pos: "0 < b_count (bufs x b) - 1" by (simp add: word_less_nat_alt)
  show "brelse call b x = Some (Done (), upd_buf b (\<lambda>c. c\<lparr>b_count := b_count c - 1\<rparr>) x)"
    using B(2) [OF assms(2)] pos by (simp add: brelse_def Let_def)
  have nf: "b \<notin> set F" using B(6) [of b] assms(3) by auto
  let ?x = "upd_buf b (\<lambda>c. c\<lparr>b_count := b_count c - 1\<rparr>) x"
  have st: "b_dev (bufs ?x a) = b_dev (bufs x a)" "b_block (bufs ?x a) = b_block (bufs x a)" "b_dirty (bufs ?x a) = b_dirty (bufs x a)"
    "b_count (bufs ?x a) = (if a = b then b_count (bufs x b) - 1 else b_count (bufs x a))" "key_of ?x a = key_of x a" for a
    by (simp_all add: key_of_def)
  have "cache_lists ?x L H F" using cl by (simp add: cache_lists_def)
  moreover have "cache_bufs ?x L H F"
    using cb nf pos unfolding cache_bufs_def st by auto
  ultimately show "cache_ok ?x L H F" by (simp add: cache_ok_def)
qed

text \<open>The operations as a client calls them, with the block as its key.\<close>

definition hold_block :: "i32 \<times> u32 \<Rightarrow> bufsys \<Rightarrow> (addr \<times> bufsys) option" where
  "hold_block k c = do { (r, c) \<leftarrow> getblk (fst k) (snd k) c; case r of Done b \<Rightarrow> Some (b, c) | Blocked \<Rightarrow> None }"

definition give_block :: "(addr \<Rightarrow> transfer) \<Rightarrow> addr \<Rightarrow> bufsys \<Rightarrow> bufsys option" where
  "give_block call b c = do { (r, c) \<leftarrow> brelse call b c; case r of Done _ \<Rightarrow> Some c | Blocked \<Rightarrow> None }"

definition cache_view :: "bufsys \<Rightarrow> (addr \<rightharpoonup> addr list) \<times> (u32 \<Rightarrow> addr list) \<times> addr list \<Rightarrow> bool" where
  "cache_view c v \<longleftrightarrow> cache_ok c (fst v) (fst (snd v)) (snd (snd v)) \<and> fst v (wait_list c) = Some []"

definition cache_entry :: "bufsys \<Rightarrow> addr \<Rightarrow> buffer" where
  "cache_entry c b = (bufs c b)\<lparr>b_count := 0\<rparr>"

interpretation blocks: block_cache cache_view "\<lambda>v. cached (fst (snd v))" cache_entry "\<lambda>e. (b_dev e, b_block e)" "\<lambda>e. \<not> b_dirty e"
  "\<lambda>c b. unat (b_count (bufs c b))" "2 ^ 32 - 1" hold_block "give_block call"
proof unfold_locales
  fix c v b k n
  assume ok: "cache_view c v" and b: "cached (fst (snd v)) b"
  obtain L H F where v: "v = (L, H, F)" by (cases v) auto
  have c: "cache_ok c L H F" "L (wait_list c) = Some []" "cached H b" using ok b by (simp_all add: cache_view_def v)
  have fw: "free_list c \<noteq> wait_list c" using c(1) by (simp add: cache_ok_def cache_lists_def)
  {
    assume k: "(b_dev (cache_entry c b), b_block (cache_entry c b)) = k" and "unat (b_count (bufs c b)) < 2 ^ 32 - 1"
    then have ov: "b_count (bufs c b) \<noteq> - 1" and u: "unat (b_count (bufs c b) + 1) = Suc (unat (b_count (bufs c b)))"
      by (auto simp: unat_minus_1 unat_plus_noof)
    have key: "key_of c b = (fst k, snd k)" using k by (auto simp: cache_entry_def key_of_def)
    from getblk_hit [OF c(1,3) key ov] obtain h where
      h: "getblk (fst k) (snd k) c = Some (Done b, upd_buf b (\<lambda>c. c\<lparr>b_count := b_count c + 1\<rparr>) (set_bnodes h c))"
        "cache_ok (upd_buf b (\<lambda>c. c\<lparr>b_count := b_count c + 1\<rparr>) (set_bnodes h c)) (L(free_list c \<mapsto> map rnode (remove1 b F))) H (remove1 b F)"
      by (auto simp: Let_def simp del: fun_upd_apply)
    let ?c = "upd_buf b (\<lambda>c. c\<lparr>b_count := b_count c + 1\<rparr>) (set_bnodes h c)"
    have "cache_view ?c (L(free_list c \<mapsto> map rnode (remove1 b F)), H, remove1 b F)"
      using h(2) c(2) fw by (simp add: cache_view_def)
    moreover have "hold_block k c = Some (b, ?c)" using h(1) by (simp add: hold_block_def)
    ultimately show "\<exists>c' v'. hold_block k c = Some (b, c') \<and> cache_view c' v' \<and> (cached (fst (snd v')) = cached (fst (snd v))) \<and>
        cache_entry c' = cache_entry c \<and> (\<forall>a. unat (b_count (bufs c' a)) = (if a = b then Suc (unat (b_count (bufs c b))) else unat (b_count (bufs c a))))"
      using u by (intro exI [of _ ?c] exI [of _ "(L(free_list c \<mapsto> map rnode (remove1 b F)), H, remove1 b F)"])
        (auto simp: v cache_entry_def fun_eq_iff)
  next
    assume d: "\<not> b_dirty (cache_entry c b)" and n: "unat (b_count (bufs c b)) = Suc n"
    have dirty: "\<not> b_dirty (bufs c b)" using d by (simp add: cache_entry_def)
    show "\<exists>c' v'. give_block call b c = Some c' \<and> cache_view c' v' \<and> (cached (fst (snd v')) = cached (fst (snd v))) \<and>
        cache_entry c' = cache_entry c \<and> (\<forall>a. unat (b_count (bufs c' a)) = (if a = b then n else unat (b_count (bufs c a))))"
    proof (cases "n = 0")
      case True
      then have one: "b_count (bufs c b) = 1" using n by (simp add: word_unat_eq_iff)
      from brelse_last_law [OF c(1,3) one dirty c(2)] obtain h where
        h: "brelse call b c = Some (Done (), set_bnodes h (upd_buf b (\<lambda>c. c\<lparr>b_count := 0\<rparr>) c))"
          "cache_ok (set_bnodes h (upd_buf b (\<lambda>c. c\<lparr>b_count := 0\<rparr>) c)) (L(free_list c \<mapsto> map rnode (b # F))) H (b # F)" by blast
      let ?c = "set_bnodes h (upd_buf b (\<lambda>c. c\<lparr>b_count := 0\<rparr>) c)"
      have "cache_view ?c (L(free_list c \<mapsto> map rnode (b # F)), H, b # F)" using h(2) c(2) fw by (simp add: cache_view_def)
      moreover have "give_block call b c = Some ?c" using h(1) by (simp add: give_block_def)
      ultimately show ?thesis
        using True by (intro exI [of _ ?c] exI [of _ "(L(free_list c \<mapsto> map rnode (b # F)), H, b # F)"]) (auto simp: v cache_entry_def fun_eq_iff)
    next
      case False
      then have "1 < b_count (bufs c b)" and m: "unat (b_count (bufs c b) - 1) = n" using n
        by (simp_all add: word_less_nat_alt unat_minus_le word_le_nat_alt)
      note r = brelse_shared_law [OF c(1,3) this(1)]
      let ?c = "upd_buf b (\<lambda>c. c\<lparr>b_count := b_count c - 1\<rparr>) c"
      have "give_block call b c = Some ?c" using r(1) [of call] by (simp add: give_block_def)
      then show ?thesis
        using r(2) c(2) m by (intro exI [of _ ?c] exI [of _ v]) (auto simp: v cache_view_def cache_entry_def fun_eq_iff)
    qed
  }
qed

text \<open>
  Property C17. Use counts are balanced: a cached clean block that is requested \<open>n\<close> times and released as often, whoever does it and
  however many users it has in between or had before, has \<open>n\<close> users more in between, and afterwards every buffer is as it was,
  the same blocks are cached and the cache is consistent.
\<close>

theorem block_use_balanced:
  assumes "cache_ok c L H F" and "L (wait_list c) = Some []" and "cached H b" and "key_of c b = k" and "\<not> b_dirty (bufs c b)"
    and "unat (b_count (bufs c b)) + n < 2 ^ 32"
  shows "\<exists>c1 c2 L2 H2 F2. forM [0 ..< n] (\<lambda>_ c. map_option snd (hold_block k c)) c = Some c1 \<and>
    unat (b_count (bufs c1 b)) = unat (b_count (bufs c b)) + n \<and>
    forM [0 ..< n] (\<lambda>_. give_block call b) c1 = Some c2 \<and> cache_ok c2 L2 H2 F2 \<and> cached H2 = cached H \<and> bufs c2 = bufs c"
proof -
  have v: "cache_view c (L, H, F)" "(b_dev (cache_entry c b), b_block (cache_entry c b)) = k" "\<not> b_dirty (cache_entry c b)"
    using assms(1,2,4,5) by (simp_all add: cache_view_def cache_entry_def key_of_def)
  have n: "unat (b_count (bufs c b)) + n \<le> 2 ^ 32 - 1" using assms(6) by simp
  from blocks.balanced [of c "(L, H, F)" b k n call] v n assms(3) obtain c1 c2 v2 where
    c: "forM [0 ..< n] (\<lambda>_ c. map_option snd (hold_block k c)) c = Some c1" "unat (b_count (bufs c1 b)) = unat (b_count (bufs c b)) + n"
      "forM [0 ..< n] (\<lambda>_. give_block call b) c1 = Some c2" "cache_view c2 v2" "cached (fst (snd v2)) = cached H"
      "cache_entry c2 = cache_entry c" "\<forall>a. unat (b_count (bufs c2 a)) = unat (b_count (bufs c a))" by auto
  have "bufs c2 a = bufs c a" for a
  proof -
    have "(bufs c2 a)\<lparr>b_count := 0\<rparr> = (bufs c a)\<lparr>b_count := 0\<rparr>" using fun_cong [OF c(6), of a] by (simp add: cache_entry_def)
    moreover have "b_count (bufs c2 a) = b_count (bufs c a)" using c(7) by (simp add: word_unat_eq_iff)
    ultimately show ?thesis by (cases "bufs c2 a"; cases "bufs c a") simp
  qed
  then have "bufs c2 = bufs c" by (rule ext)
  then show ?thesis using c(1-5) unfolding cache_view_def by blast
qed

theorem block_use_balanced_witness:
  "\<exists>x x1 x2 x3. buffer_init sample_cache = Some x \<and> getblk 1 7 x = Some (Done 0x800000, x1) \<and>
     forM [0 ..< 5] (\<lambda>_ c. map_option snd (hold_block (1, 7) c)) x1 = Some x2 \<and> unat (b_count (bufs x2 0x800000)) = 6 \<and>
     forM [0 ..< 5] (\<lambda>_. give_block (\<lambda>_ _ _ _ _ _ _. None) 0x800000) x2 = Some x3 \<and> bufs x3 = bufs x1"
proof -
  from sample_started obtain x L where x: "buffer_init sample_cache = Some x" "cache_ok x L (\<lambda>_. []) []"
    "L (wait_list x) = Some []" "buffer_ptr x + 64 < buffer_data x" "buffer_ptr x = 0x800000" by blast
  from getblk_miss_law [OF x(2), of 1 7] x(4,5) sample_not_cached obtain x1 L1 H1 F1 where
    x1: "getblk 1 7 x = Some (Done 0x800000, x1)" "cache_ok x1 L1 H1 F1" "b_count (bufs x1 0x800000) = 1" "cached H1 0x800000"
      "\<not> b_dirty (bufs x1 0x800000)" "L1 (wait_list x1) = Some []" "key_of x1 0x800000 = (1, 7)" using x(3) by auto
  have "unat (b_count (bufs x1 0x800000)) + 5 < 2 ^ 32" by (simp add: x1(3))
  from block_use_balanced [OF x1(2,6,4,7,5) this, of "\<lambda>_ _ _ _ _ _ _. None"] x(1) x1(1,3) show ?thesis
    by (auto simp del: upt_rec_numeral)
qed

end
