(* ===== verification/Fs.thy ===== *)
theory Fs
  imports Buffer
begin

text \<open>
  The file system: block and inode maps and the block index of a file (\<^verbatim>\<open>fs/fsmap.c\<close>), the pool of
  inodes (\<^verbatim>\<open>fs/inode.c\<close>) and the super blocks (\<^verbatim>\<open>fs/super.c\<close>), above the block cache. The structures
  of the disk format are read and written as bytes of the memory \<open>kmem\<close>, where the cache keeps its
  blocks. An inode or a super block in memory is named by its index in the table.
\<close>

section \<open>The disk format\<close>

definition BLOCK_BITS :: u32 where "BLOCK_BITS = BLOCK_SIZE * 8"
definition BLOCK_INODES :: u32 where "BLOCK_INODES = BLOCK_SIZE div 32"
definition BLOCK_INDEXES :: u32 where "BLOCK_INDEXES = BLOCK_SIZE div 2"
definition DIRECT_BLOCKS :: u32 where "DIRECT_BLOCKS = 7"
definition INDIRECT1_BLOCKS :: u32 where "INDIRECT1_BLOCKS = BLOCK_INDEXES"
definition INDIRECT2_BLOCKS :: u32 where "INDIRECT2_BLOCKS = INDIRECT1_BLOCKS * INDIRECT1_BLOCKS"
definition TOTAL_BLOCKS :: u32 where "TOTAL_BLOCKS = DIRECT_BLOCKS + INDIRECT1_BLOCKS + INDIRECT2_BLOCKS"
definition MINIX_MAGIC :: u16 where "MINIX_MAGIC = 0x137F"
definition IMAP_MAX_BLOCKS :: nat where "IMAP_MAX_BLOCKS = 8"
definition ZMAP_MAX_BLOCKS :: nat where "ZMAP_MAX_BLOCKS = 8"
definition INODE_NR :: nat where "INODE_NR = 64"
definition SUPERBLOCK_NR :: nat where "SUPERBLOCK_NR = 16"

text \<open>Members of \<^verbatim>\<open>super_desc_t\<close> and of the 32 bytes of an \<^verbatim>\<open>inode_desc_t\<close> at an address.\<close>

definition sd_ninodes :: "mem \<Rightarrow> addr \<Rightarrow> u16" where "sd_ninodes m d = rd16 m d"
definition sd_nzones :: "mem \<Rightarrow> addr \<Rightarrow> u16" where "sd_nzones m d = rd16 m (d + 2)"
definition sd_imap_blocks :: "mem \<Rightarrow> addr \<Rightarrow> u16" where "sd_imap_blocks m d = rd16 m (d + 4)"
definition sd_zmap_blocks :: "mem \<Rightarrow> addr \<Rightarrow> u16" where "sd_zmap_blocks m d = rd16 m (d + 6)"
definition sd_first_data_zone :: "mem \<Rightarrow> addr \<Rightarrow> u16" where "sd_first_data_zone m d = rd16 m (d + 8)"
definition sd_magic :: "mem \<Rightarrow> addr \<Rightarrow> u16" where "sd_magic m d = rd16 m (d + 16)"
definition id_mtime :: "mem \<Rightarrow> addr \<Rightarrow> u32" where "id_mtime m d = rd32 m (d + 8)"
definition id_zone :: "addr \<Rightarrow> addr" where "id_zone d = d + 14"

section \<open>The tables in memory\<close>

record inode =
  i_desc :: addr
  i_buf :: addr
  i_dev :: i32
  i_nr :: u32
  i_count :: u32
  i_atime :: u32
  i_ctime :: u32
  i_mount :: i32

record superblock =
  sb_desc :: addr
  sb_buf :: addr
  sb_imaps :: "addr list"
  sb_zmaps :: "addr list"
  sb_dev :: i32
  sb_iroot :: "nat option"
  sb_imount :: "nat option"

record fssys =
  cache :: bufsys
  supers :: "superblock list"
  inodes :: "inode list"
  super_base :: addr
  inode_base :: addr
  fs_root :: "nat option"
  startup_time :: u32

text \<open>The list \<^verbatim>\<open>inode_list\<close> of a super block (100 bytes each) and the node of an inode (40 bytes each).\<close>

definition inode_list :: "fssys \<Rightarrow> nat \<Rightarrow> addr" where "inode_list x i = super_base x + 100 * of_nat i + 76"
definition inode_node :: "fssys \<Rightarrow> nat \<Rightarrow> addr" where "inode_node x i = inode_base x + 40 * of_nat i + 28"
definition inode_of_node :: "fssys \<Rightarrow> addr \<Rightarrow> nat" where
  "inode_of_node x n = unat ((n - inode_base x - 28) div 40)"

abbreviation fkern :: "fssys \<Rightarrow> kstate" where "fkern x \<equiv> kern (dsys (cache x))"
abbreviation fmem :: "fssys \<Rightarrow> mem" where "fmem x \<equiv> kmem (fkern x)"

definition set_fkern :: "kstate \<Rightarrow> fssys \<Rightarrow> fssys" where
  "set_fkern s x = x\<lparr>cache := set_kern s (cache x)\<rparr>"

definition set_fmem :: "mem \<Rightarrow> fssys \<Rightarrow> fssys" where
  "set_fmem m x = set_fkern ((fkern x)\<lparr>kmem := m\<rparr>) x"

definition upd_inode :: "nat \<Rightarrow> (inode \<Rightarrow> inode) \<Rightarrow> fssys \<Rightarrow> fssys" where
  "upd_inode i f x = x\<lparr>inodes := (inodes x)[i := f (inodes x ! i)]\<rparr>"

definition upd_super :: "nat \<Rightarrow> (superblock \<Rightarrow> superblock) \<Rightarrow> fssys \<Rightarrow> fssys" where
  "upd_super i f x = x\<lparr>supers := (supers x)[i := f (supers x ! i)]\<rparr>"

definition set_dirty :: "addr \<Rightarrow> fssys \<Rightarrow> fssys" where
  "set_dirty bf x = x\<lparr>cache := upd_buf bf (\<lambda>b. b\<lparr>b_dirty := True\<rparr>) (cache x)\<rparr>"

text \<open>\<^verbatim>\<open>buf->data\<close>; page 0 is not mapped, so a read through \<open>NULL\<close> is a page fault the kernel does not survive.\<close>

definition buf_data :: "addr \<Rightarrow> fssys \<Rightarrow> addr option" where
  "buf_data bf x = do { assert_c (bf \<noteq> 0); Some (b_data (bufs (cache x) bf)) }"

text \<open>A call that waits suspends its callers too; what they do afterwards is not modelled.\<close>

definition run_bind :: "('a run \<times> 's) option \<Rightarrow> ('a \<Rightarrow> 's \<Rightarrow> ('b run \<times> 's) option) \<Rightarrow> ('b run \<times> 's) option" where
  "run_bind r f = do { (p, x) \<leftarrow> r; case p of Blocked \<Rightarrow> Some (Blocked, x) | Done a \<Rightarrow> f a x }"

definition on_cache :: "(bufsys \<Rightarrow> ('a run \<times> bufsys) option) \<Rightarrow> fssys \<Rightarrow> ('a run \<times> fssys) option" where
  "on_cache f x = do { (r, c) \<leftarrow> f (cache x); Some (r, x\<lparr>cache := c\<rparr>) }"

section \<open>Super blocks\<close>

primrec first_index :: "('a \<Rightarrow> bool) \<Rightarrow> 'a list \<Rightarrow> nat \<Rightarrow> nat option" where
  "first_index P [] i = None"
| "first_index P (y # ys) i = (if P y then Some i else first_index P ys (i + 1))"

definition get_free_superblock :: "fssys \<Rightarrow> nat option" where
  "get_free_superblock x = (case first_index (\<lambda>s. sb_dev s = - 1) (supers x) 0 of
     None \<Rightarrow> panic ''no more super block!!!'' | Some i \<Rightarrow> Some i)"

text \<open>The result \<open>None\<close> is \<open>NULL\<close>.\<close>

definition get_superblock :: "i32 \<Rightarrow> fssys \<Rightarrow> nat option" where
  "get_superblock dev_id x = first_index (\<lambda>s. sb_dev s = dev_id) (supers x) 0"

text \<open>\<^verbatim>\<open>sb->desc\<close> of entry \<open>i\<close>.\<close>

definition sdesc :: "fssys \<Rightarrow> nat \<Rightarrow> addr" where "sdesc x i = sb_desc (supers x ! i)"

section \<open>The maps of blocks and inodes\<close>

text \<open>
  \<^verbatim>\<open>balloc\<close> and \<^verbatim>\<open>ialloc\<close> run the same loop over the map buffers \<open>bfs\<close>, with the number \<open>off\<close> of the first
  bit and the limit \<open>lim\<close>; the result is the number and the buffer to write back, 0 and 0 for none.
  \<^verbatim>\<open>bitmap_new\<close> takes a number of bytes; the code passes the number of bits.
\<close>

primrec map_search :: "(fssys \<Rightarrow> u32) \<Rightarrow> addr list \<Rightarrow> u32 \<Rightarrow> fssys \<Rightarrow> (u32 \<times> addr \<times> fssys) option" where
  "map_search lim [] off x = Some (0, 0, x)"
| "map_search lim (bf # bfs) off x = do {
     d \<leftarrow> buf_data bf x;
     let bm = bitmap_new d BLOCK_BITS off;
     (nr, m) \<leftarrow> bitmap_insert_nbits (fmem x) bm 1;
     let x = set_fmem m x;
     if nr \<noteq> EOF \<and> nr < lim x then Some (nr, bf, set_dirty bf x)
     else map_search lim bfs (off + BLOCK_BITS) x }"

definition balloc :: "(addr \<Rightarrow> transfer) \<Rightarrow> i32 \<Rightarrow> fssys \<Rightarrow> (u32 run \<times> fssys) option" where
  "balloc call dev_id x = do {
     sb \<leftarrow> get_superblock dev_id x;
     (nr, bf, x) \<leftarrow> map_search (\<lambda>x. ucast (sd_nzones (fmem x) (sdesc x sb))) (take ZMAP_MAX_BLOCKS (sb_zmaps (supers x ! sb)))
       (ucast (sd_first_data_zone (fmem x) (sdesc x sb)) - 1) x;
     if bf = 0 then Some (Done 0, x) else run_bind (on_cache (bwrite call bf) x) (\<lambda>_ x. Some (Done nr, x)) }"

definition ialloc :: "(addr \<Rightarrow> transfer) \<Rightarrow> i32 \<Rightarrow> fssys \<Rightarrow> (u32 run \<times> fssys) option" where
  "ialloc call dev_id x = do {
     sb \<leftarrow> get_superblock dev_id x;
     (nr, bf, x) \<leftarrow> map_search (\<lambda>x. ucast (sd_ninodes (fmem x) (sdesc x sb))) (take IMAP_MAX_BLOCKS (sb_imaps (supers x ! sb))) 1 x;
     if bf = 0 then Some (Done 0, x) else run_bind (on_cache (bwrite call bf) x) (\<lambda>_ x. Some (Done nr, x)) }"

text \<open>The loop of \<^verbatim>\<open>bfree\<close> and \<^verbatim>\<open>ifree\<close>; the result is the buffer to write back, 0 when no map has the number.\<close>

primrec map_free :: "u32 \<Rightarrow> addr list \<Rightarrow> u32 \<Rightarrow> fssys \<Rightarrow> (addr \<times> fssys) option" where
  "map_free nr [] off x = Some (0, x)"
| "map_free nr (bf # bfs) off x =
     (if nr \<ge> off + BLOCK_BITS then map_free nr bfs (off + BLOCK_BITS) x
      else do {
        d \<leftarrow> buf_data bf x;
        let bm = bitmap_new d BLOCK_BITS off;
        c \<leftarrow> bitmap_contains (fmem x) bm nr;
        assert_c c;
        m \<leftarrow> bitmap_remove (fmem x) bm nr;
        Some (bf, set_dirty bf (set_fmem m x)) })"

definition bfree :: "(addr \<Rightarrow> transfer) \<Rightarrow> i32 \<Rightarrow> u32 \<Rightarrow> fssys \<Rightarrow> (unit run \<times> fssys) option" where
  "bfree call dev_id nr x = do {
     sb \<leftarrow> get_superblock dev_id x;
     (bf, x) \<leftarrow> map_free nr (take ZMAP_MAX_BLOCKS (sb_zmaps (supers x ! sb))) (ucast (sd_first_data_zone (fmem x) (sdesc x sb)) - 1) x;
     on_cache (bwrite call bf) x }"

definition ifree :: "(addr \<Rightarrow> transfer) \<Rightarrow> i32 \<Rightarrow> u32 \<Rightarrow> fssys \<Rightarrow> (unit run \<times> fssys) option" where
  "ifree call dev_id nr x = do {
     sb \<leftarrow> get_superblock dev_id x;
     (bf, x) \<leftarrow> map_free nr (take IMAP_MAX_BLOCKS (sb_imaps (supers x ! sb))) 1 x;
     on_cache (bwrite call bf) x }"

section \<open>The block index of a file\<close>

text \<open>The two lines that allocate a missing entry \<^verbatim>\<open>array[index]\<close> and write its block back.\<close>

definition bmap_slot ::
  "(addr \<Rightarrow> transfer) \<Rightarrow> i32 \<Rightarrow> bool \<Rightarrow> addr \<Rightarrow> u32 \<Rightarrow> addr \<Rightarrow> fssys \<Rightarrow> (u16 run \<times> fssys) option" where
  "bmap_slot call dev_id create array index bf x =
     run_bind
       (if rd16 (fmem x) (array + 2 * index) = 0 \<and> create
        then run_bind (balloc call dev_id x) (\<lambda>nr x. Some (Done (), set_dirty bf (set_fmem (wr16 (fmem x) (array + 2 * index) (ucast nr)) x)))
        else Some (Done (), x))
       (\<lambda>_ x. run_bind (on_cache (bwrite call bf) x) (\<lambda>_ x. Some (Done (rd16 (fmem x) (array + 2 * index)), x)))"

primrec bmap_loop ::
  "(addr \<Rightarrow> transfer) \<Rightarrow> i32 \<Rightarrow> bool \<Rightarrow> nat \<Rightarrow> addr \<Rightarrow> u32 \<Rightarrow> u32 \<Rightarrow> addr \<Rightarrow> fssys \<Rightarrow> (u32 run \<times> fssys) option" where
  "bmap_loop call dev_id create 0 array index nr bf x =
     run_bind (bmap_slot call dev_id create array index bf x) (\<lambda>z x. Some (Done (ucast z), x))"
| "bmap_loop call dev_id create (Suc level) array index nr bf x =
     run_bind (bmap_slot call dev_id create array index bf x) (\<lambda>z x.
       if z = 0 then run_bind (bmap_slot call dev_id create array index bf x) (\<lambda>z x. Some (Done (ucast z), x))
       else run_bind (on_cache (bread call dev_id (ucast z)) x) (\<lambda>bf x. do {
         d \<leftarrow> buf_data bf x;
         let blocks = (if level = 0 then 1 else BLOCK_INDEXES);
         bmap_loop call dev_id create level d (nr div blocks) (nr mod blocks) bf x }))"

definition bmap :: "(addr \<Rightarrow> transfer) \<Rightarrow> nat \<Rightarrow> u32 \<Rightarrow> bool \<Rightarrow> fssys \<Rightarrow> (u32 run \<times> fssys) option" where
  "bmap call i nr create x = do {
     assert_c (nr < TOTAL_BLOCKS);
     let ino = inodes x ! i;
     let array = id_zone (i_desc ino);
     let bf = i_buf ino;
     if nr < DIRECT_BLOCKS then bmap_loop call (i_dev ino) create 0 array nr nr bf x
     else do {
       let nr = nr - DIRECT_BLOCKS;
       if nr < INDIRECT1_BLOCKS then bmap_loop call (i_dev ino) create 1 array DIRECT_BLOCKS nr bf x
       else do {
         let nr = nr - INDIRECT1_BLOCKS;
         if nr < INDIRECT2_BLOCKS then bmap_loop call (i_dev ino) create 2 array (DIRECT_BLOCKS + 1) nr bf x
         else panic ''unreachable!!!'' } } }"

section \<open>The pool of inodes\<close>

definition get_root_inode :: nat where "get_root_inode = 0"

definition get_free_inode :: "fssys \<Rightarrow> nat option" where
  "get_free_inode x = (case first_index (\<lambda>n. i_dev n = EOF) (inodes x) 0 of None \<Rightarrow> panic ''no more inode!!!'' | Some i \<Rightarrow> Some i)"

definition put_free_inode :: "nat \<Rightarrow> fssys \<Rightarrow> fssys option" where
  "put_free_inode i x = do {
     assert_c (i \<noteq> 0);
     assert_c (i_count (inodes x ! i) = 0);
     Some (upd_inode i (\<lambda>n. n\<lparr>i_dev := EOF\<rparr>) x) }"

partial_function (option) find_inode_loop :: "fssys \<Rightarrow> addr \<Rightarrow> addr \<Rightarrow> u32 \<Rightarrow> nat option option" where
  "find_inode_loop x tail node nr =
     (if node = tail then Some None
      else if i_nr (inodes x ! inode_of_node x node) = nr then Some (Some (inode_of_node x node))
      else do { n \<leftarrow> load (nodes (fkern x)) node; find_inode_loop x tail (nnext n) nr })"

definition find_inode :: "i32 \<Rightarrow> u32 \<Rightarrow> fssys \<Rightarrow> nat option option" where
  "find_inode dev_id nr x = do {
     sb \<leftarrow> get_superblock dev_id x;
     n \<leftarrow> load (nodes (fkern x)) (list_head (inode_list x sb));
     find_inode_loop x (list_tail (inode_list x sb)) (nnext n) nr }"

definition inode_block :: "nat \<Rightarrow> u32 \<Rightarrow> fssys \<Rightarrow> u32" where
  "inode_block sb nr x = 2 + ucast (sd_imap_blocks (fmem x) (sdesc x sb)) + ucast (sd_zmap_blocks (fmem x) (sdesc x sb)) +
     (nr - 1) div BLOCK_INODES"

definition fs_time :: "fssys \<Rightarrow> u32" where "fs_time x = sys_time (startup_time x) (fkern x)"

definition iget :: "(addr \<Rightarrow> transfer) \<Rightarrow> i32 \<Rightarrow> u32 \<Rightarrow> fssys \<Rightarrow> (nat run \<times> fssys) option" where
  "iget call dev_id nr x = do {
     f \<leftarrow> find_inode dev_id nr x;
     case f of
       Some i \<Rightarrow> Some (Done i, upd_inode i (\<lambda>n. n\<lparr>i_count := i_count n + 1, i_atime := fs_time x\<rparr>) x)
     | None \<Rightarrow> do {
         sb \<leftarrow> get_superblock dev_id x;
         assert_c (nr \<le> ucast (sd_ninodes (fmem x) (sdesc x sb)));
         i \<leftarrow> get_free_inode x;
         h \<leftarrow> list_push_back (nodes (fkern x)) (inode_list x sb) (inode_node x i);
         let x = set_fkern ((fkern x)\<lparr>nodes := h\<rparr>) x;
         run_bind (on_cache (bread call dev_id (inode_block sb nr x)) x) (\<lambda>bf x. do {
           d \<leftarrow> buf_data bf x;
           let desc = d + 32 * ((nr - 1) mod BLOCK_INODES);
           Some (Done i, upd_inode i (\<lambda>n. n\<lparr>i_buf := bf, i_desc := desc, i_dev := dev_id, i_nr := nr, i_count := 1,
             i_atime := fs_time x, i_ctime := id_mtime (fmem x) desc\<rparr>) x) }) } }"

text \<open>The assertion \<^verbatim>\<open>inode->count >= 0\<close> on an unsigned number always holds.\<close>

definition iput :: "(addr \<Rightarrow> transfer) \<Rightarrow> nat option \<Rightarrow> fssys \<Rightarrow> (unit run \<times> fssys) option" where
  "iput call ino x = (case ino of
     None \<Rightarrow> Some (Done (), x)
   | Some i \<Rightarrow>
       (let x = upd_inode i (\<lambda>n. n\<lparr>i_count := i_count n - 1\<rparr>) x in
        if i_count (inodes x ! i) > 0 then Some (Done (), x)
        else run_bind (on_cache (brelse call (i_buf (inodes x ! i))) x) (\<lambda>_ x. do {
          h \<leftarrow> list_remove (nodes (fkern x)) (inode_node x i);
          x \<leftarrow> put_free_inode i (set_fkern ((fkern x)\<lparr>nodes := h\<rparr>) x);
          Some (Done (), x) })))"

definition inode_init :: "fssys \<Rightarrow> fssys" where
  "inode_init x = fold (\<lambda>i. upd_inode i (\<lambda>n. n\<lparr>i_dev := EOF\<rparr>)) [0 ..< INODE_NR] x"

section \<open>Mounting\<close>

text \<open>
  The two loops of \<^verbatim>\<open>read_superblock\<close>: entry \<open>i\<close> of the map is read from block \<open>idx\<close>, for \<open>i\<close> from \<open>8 - k\<close> on; the loop
  ends at the latest when \<open>i\<close> is 8 and the assertion on it fails.
\<close>

primrec read_maps ::
  "(addr \<Rightarrow> transfer) \<Rightarrow> i32 \<Rightarrow> (fssys \<Rightarrow> u16) \<Rightarrow> (nat \<Rightarrow> addr \<Rightarrow> fssys \<Rightarrow> fssys) \<Rightarrow> nat \<Rightarrow> u32 \<Rightarrow> fssys \<Rightarrow> (u32 run \<times> fssys) option" where
  "read_maps call dev_id lim put 0 idx x = do { assert_c (unat (lim x) \<le> 8); Some (Done idx, x) }"
| "read_maps call dev_id lim put (Suc k) idx x =
     (if 8 - Suc k < unat (lim x)
      then run_bind (on_cache (bread call dev_id idx) x) (\<lambda>bf x.
        if bf \<noteq> 0 then read_maps call dev_id lim put k (idx + 1) (put (8 - Suc k) bf x) else panic ''unreachable!!!'')
      else Some (Done idx, x))"

definition read_superblock :: "(addr \<Rightarrow> transfer) \<Rightarrow> i32 \<Rightarrow> fssys \<Rightarrow> (nat run \<times> fssys) option" where
  "read_superblock call dev_id x = (case get_superblock dev_id x of
     Some sb \<Rightarrow> Some (Done sb, x)
   | None \<Rightarrow> do {
       sb \<leftarrow> get_free_superblock x;
       run_bind (on_cache (bread call dev_id 1) x) (\<lambda>bf x. do {
         d \<leftarrow> buf_data bf x;
         let x = upd_super sb (\<lambda>s. s\<lparr>sb_buf := bf, sb_desc := d, sb_dev := dev_id\<rparr>) x;
         assert_c (sd_magic (fmem x) d = MINIX_MAGIC);
         let x = upd_super sb (\<lambda>s. s\<lparr>sb_imaps := List.replicate 8 0, sb_zmaps := List.replicate 8 0\<rparr>) x;
         run_bind (read_maps call dev_id (\<lambda>x. sd_imap_blocks (fmem x) (sdesc x sb))
             (\<lambda>i bf. upd_super sb (\<lambda>s. s\<lparr>sb_imaps := (sb_imaps s)[i := bf]\<rparr>)) IMAP_MAX_BLOCKS 2 x) (\<lambda>idx x.
           run_bind (read_maps call dev_id (\<lambda>x. sd_zmap_blocks (fmem x) (sdesc x sb))
               (\<lambda>i bf. upd_super sb (\<lambda>s. s\<lparr>sb_zmaps := (sb_zmaps s)[i := bf]\<rparr>)) ZMAP_MAX_BLOCKS idx x) (\<lambda>_ x.
             Some (Done sb, x))) }) })"

definition mount_root :: "(addr \<Rightarrow> transfer) \<Rightarrow> fssys \<Rightarrow> (unit run \<times> fssys) option" where
  "mount_root call x = do {
     i \<leftarrow> dev_find DEV_ATA_PART 0 (dsys (cache x));
     let dv = dv_id (devices (dsys (cache x)) ! i);
     run_bind (read_superblock call dv x) (\<lambda>sb x.
       run_bind (iget call dv 1 (x\<lparr>fs_root := Some sb\<rparr>)) (\<lambda>ri x.
         run_bind (iget call dv 1 (upd_super sb (\<lambda>s. s\<lparr>sb_iroot := Some ri\<rparr>) x)) (\<lambda>i x.
           run_bind (bmap call i 3 True x) (\<lambda>_ x.
             run_bind (bmap call i (7 + 7) True x) (\<lambda>_ x.
               run_bind (bmap call i (7 + 512 * 3 + 510) True x) (\<lambda>_ x. iput call (Some i) x)))))) }"

definition super_init :: "(addr \<Rightarrow> transfer) \<Rightarrow> fssys \<Rightarrow> (unit run \<times> fssys) option" where
  "super_init call x = do {
     x \<leftarrow> forM [0 ..< SUPERBLOCK_NR] (\<lambda>i x. do {
       let x = upd_super i (\<lambda>s. s\<lparr>sb_desc := 0, sb_buf := 0, sb_dev := - 1\<rparr>) x;
       h \<leftarrow> list_init (nodes (fkern x)) (inode_list x i);
       Some (upd_super i (\<lambda>s. s\<lparr>sb_iroot := None, sb_imount := None\<rparr>) (set_fkern ((fkern x)\<lparr>nodes := h\<rparr>) x)) }) x;
     mount_root call x }"

section \<open>What the maps promise\<close>

lemma fs_simps [simp]:
  "fmem (set_fmem m x) = m" "cache (set_fkern s x) = set_kern s (cache x)" "supers (set_fmem m x) = supers x"
  "inodes (set_fmem m x) = inodes x" "sdesc (set_fmem m x) i = sdesc x i" "fmem (set_dirty b x) = fmem x"
  "supers (set_dirty b x) = supers x" "sdesc (set_dirty b x) i = sdesc x i" "inodes (set_dirty b x) = inodes x"
  "buf_data b (set_fmem m x) = buf_data b x" "buf_data b (set_dirty c x) = buf_data b x"
  by (simp_all add: set_fmem_def set_fkern_def set_kern_def sdesc_def set_dirty_def upd_buf_def buf_data_def)

text \<open>The bitmap the code builds over the data of a map buffer.\<close>

definition map_bits :: "fssys \<Rightarrow> addr \<Rightarrow> u32 \<Rightarrow> bitmap" where
  "map_bits x bf off = bitmap_new (b_data (bufs (cache x) bf)) BLOCK_BITS off"

lemma map_bits_ok:
  assumes "unat off < 2 ^ 31"
  shows "bitmap_ok (map_bits x bf off)" "bits_of (map_bits x bf off) = {unat off ..< unat off + 65536}"
  using assms bitmap_new_ok [of off "0x2000" "b_data (bufs (cache x) bf)"]
  by (simp_all add: map_bits_def BLOCK_BITS_def BLOCK_SIZE_def bits_of_def bitmap_new_def)

text \<open>The bytes of a map are determined by the numbers in use.\<close>

lemma used_bit:
  "j < unat (bm_size b) \<Longrightarrow> i < 8 \<Longrightarrow> bit (m (bm_bits b + of_nat j)) i \<longleftrightarrow> unat (bm_offset b) + (8 * j + i) \<in> used m b"
  by (auto simp: used_def bits_of_def bit_at_def)

lemma byte_determined:
  assumes "j < unat (bm_size b)"
    and "\<And>i. i < 8 \<Longrightarrow> unat (bm_offset b) + (8 * j + i) \<in> used m' b \<longleftrightarrow> unat (bm_offset b) + (8 * j + i) \<in> used m b"
  shows "m' (bm_bits b + of_nat j) = m (bm_bits b + of_nat j)"
  by (rule bit_word_eqI) (simp add: used_bit assms)

lemma used_frame:
  assumes "same_outside b m m'" and "bitmap_ok b"
    and "\<And>i. i \<in> bits_of b \<Longrightarrow> a = bm_bits b + of_nat ((i - unat (bm_offset b)) div 8) \<Longrightarrow> i \<in> used m' b \<longleftrightarrow> i \<in> used m b"
  shows "m' a = m a"
proof (cases "in_buffer b a")
  case True
  then obtain j where j: "j < unat (bm_size b)" "a = bm_bits b + of_nat j" by (auto simp: in_buffer_def in_range_def)
  show ?thesis
    unfolding j(2) by (rule byte_determined [OF j(1)], rule assms(3)) (use j in \<open>auto simp: bits_of_def\<close>)
qed (use assms(1) in \<open>simp add: same_outside_def\<close>)

lemma used_memory:
  "same_outside b m m' \<Longrightarrow> bitmap_ok b \<Longrightarrow> used m' b = used m b \<Longrightarrow> m' = m"
  by (rule ext, erule (1) used_frame, erule arg_cong)

definition first_free_nr :: "fssys \<Rightarrow> addr \<Rightarrow> u32 \<Rightarrow> nat" where
  "first_free_nr x bf off = (LEAST i. i \<in> bits_of (map_bits x bf off) - used (fmem x) (map_bits x bf off))"

text \<open>One number is taken: the first free one, and only its bit changes.\<close>

lemma take_first:
  assumes "unat off < 2 ^ 31" and "k \<in> bits_of (map_bits x bf off) - used (fmem x) (map_bits x bf off)"
  shows "\<exists>nr m. bitmap_insert_nbits (fmem x) (map_bits x bf off) 1 = Some (nr, m) \<and> nr \<noteq> EOF \<and> unat nr = first_free_nr x bf off \<and>
     unat nr \<le> k \<and> unat nr \<in> bits_of (map_bits x bf off) - used (fmem x) (map_bits x bf off) \<and>
     used m (map_bits x bf off) = insert (unat nr) (used (fmem x) (map_bits x bf off)) \<and>
     same_outside (map_bits x bf off) (fmem x) m \<and>
     (\<forall>a. a \<noteq> b_data (bufs (cache x) bf) + of_nat ((unat nr - unat off) div 8) \<longrightarrow> m a = fmem x a)"
proof -
  let ?b = "map_bits x bf off"
  note ok = map_bits_ok(1) [OF assms(1), of x bf]
  have fit: "fits (fmem x) ?b 1 i \<longleftrightarrow> i \<in> bits_of ?b - used (fmem x) ?b" for i by (auto simp: fits_def)
  have ex: "\<exists>s. fits (fmem x) ?b 1 s" using assms(2) fit by (intro exI [of _ k]) simp
  from bitmap_insert_nbits_first_fit [OF ok one_neq_zero, of "fmem x", unfolded unat_1 if_P [OF ex]]
  obtain r m where r: "bitmap_insert_nbits (fmem x) ?b 1 = Some (r, m)" "\<forall>a. \<not> in_buffer ?b a \<longrightarrow> m a = fmem x a"
    and c: "r \<noteq> EOF" "fits (fmem x) ?b 1 (unat r)" "\<forall>s < unat r. \<not> fits (fmem x) ?b 1 s"
      "used m ?b = used (fmem x) ?b \<union> {unat r ..< unat r + 1}"
    by blast
  have u: "used m ?b = insert (unat r) (used (fmem x) ?b)" using c(4) by auto
  have so: "same_outside ?b (fmem x) m" using r(2) by (simp add: same_outside_def)
  have "unat r = first_free_nr x bf off"
    using c(2,3) unfolding fit first_free_nr_def by (intro Least_equality [symmetric]) (auto simp: not_less [symmetric])
  moreover have "unat r \<le> k" using c(3) assms(2) unfolding fit by (meson not_le)
  moreover have "m a = fmem x a" if "a \<noteq> b_data (bufs (cache x) bf) + of_nat ((unat r - unat off) div 8)" for a
    by (rule used_frame [OF so ok]) (use that u in \<open>auto simp: map_bits_def bitmap_new_def\<close>)
  ultimately show ?thesis using r(1) c(1,2) u so unfolding fit by blast
qed

lemma map_search_step:
  assumes "bf \<noteq> 0"
  shows "map_search lim (bf # bfs) off x = do {
     (nr, m) \<leftarrow> bitmap_insert_nbits (fmem x) (map_bits x bf off) 1;
     if nr \<noteq> EOF \<and> nr < lim (set_fmem m x) then Some (nr, bf, set_dirty bf (set_fmem m x))
     else map_search lim bfs (off + BLOCK_BITS) (set_fmem m x) }"
  using assms by (simp add: buf_data_def map_bits_def Let_def)

lemma map_free_taken:
  assumes "bf \<noteq> 0" and "unat off < 2 ^ 31" and "unat nr \<in> used (fmem x) (map_bits x bf off)" and "nr < off + BLOCK_BITS"
  shows "\<exists>m. map_free nr (bf # bfs) off x = Some (bf, set_dirty bf (set_fmem m x)) \<and>
     used m (map_bits x bf off) = used (fmem x) (map_bits x bf off) - {unat nr} \<and> same_outside (map_bits x bf off) (fmem x) m"
proof -
  note ok = map_bits_ok(1) [OF assms(2), of x bf]
  have i: "unat nr \<in> bits_of (map_bits x bf off)" using assms(3) used_subset by blast
  from bm.remove_idx [OF ok i, of "fmem x"] bm.contains [OF ok i, of "fmem x"] assms(1,3,4) show ?thesis
    by (auto simp: buf_data_def map_bits_def not_le)
qed


lemma buf_data_null [simp]: "buf_data 0 x = None"
  by (simp add: buf_data_def)

lemma unat_ucast16: "unat (ucast (w :: u16) :: u32) = unat w"
proof -
  have "unat w < 2 ^ 16" using unsigned_less [of w, where 'a = nat] by simp
  then show ?thesis by (simp add: unsigned_ucast_eq take_bit_eq_mod)
qed

text \<open>
  Property C37. When every zone number of the only zone map block of a disk is in use, \<^verbatim>\<open>balloc\<close> does not
  return 0: it goes on to the map buffers that were never read and stops on a \<open>NULL\<close> pointer. (The byte in
  which it marks a number past the end of the map is not the one that holds the number of zones.)
\<close>

theorem balloc_full_halts:
  fixes x :: fssys and sb :: nat
  defines "off \<equiv> (ucast (sd_first_data_zone (fmem x) (sdesc x sb)) :: u32) - 1"
  assumes "get_superblock d x = Some sb" and "sb_zmaps (supers x ! sb) = z # 0 # zs" and "z \<noteq> 0"
    and "sd_first_data_zone (fmem x) (sdesc x sb) \<noteq> 0"
    and full: "\<And>k. k \<in> bits_of (map_bits x z off) \<Longrightarrow> k < unat (sd_nzones (fmem x) (sdesc x sb)) \<Longrightarrow> k \<in> used (fmem x) (map_bits x z off)"
    and far: "\<And>a. a \<in> {sdesc x sb + 2, sdesc x sb + 3} \<Longrightarrow> a \<noteq> b_data (bufs (cache x) z) + of_nat ((first_free_nr x z off - unat off) div 8)"
  shows "balloc call d x = None"
proof -
  let ?lim = "\<lambda>x. ucast (sd_nzones (fmem x) (sdesc x sb)) :: u32"
  let ?b = "map_bits x z off"
  have f: "0 < sd_first_data_zone (fmem x) (sdesc x sb)" using assms(5) by (simp add: word_gt_0)
  have "unat off < 65536"
    using f unsigned_less [of "sd_first_data_zone (fmem x) (sdesc x sb)", where 'a = nat] unfolding off_def
    by (subst unat_sub) (simp_all add: word_le_nat_alt word_less_nat_alt unat_ucast16)
  then have o: "unat off < 2 ^ 31" by simp
  obtain nr m where i: "bitmap_insert_nbits (fmem x) ?b 1 = Some (nr, m)" and n: "nr = EOF \<or> \<not> nr < ?lim (set_fmem m x)"
  proof (cases "bits_of ?b - used (fmem x) ?b = {}")
    case True
    then have ne: "\<not> (\<exists>s. fits (fmem x) ?b 1 s)" by (auto simp: fits_def)
    from bitmap_insert_nbits_first_fit [OF map_bits_ok(1) [OF o, of x z] one_neq_zero, of "fmem x", unfolded unat_1 if_not_P [OF ne]]
    show ?thesis using that by blast
  next
    case False
    then obtain k where "k \<in> bits_of ?b - used (fmem x) ?b" by blast
    from take_first [OF o this] obtain r m where t: "bitmap_insert_nbits (fmem x) ?b 1 = Some (r, m)" "unat r = first_free_nr x z off"
      "unat r \<in> bits_of ?b - used (fmem x) ?b"
      "\<forall>a. a \<noteq> b_data (bufs (cache x) z) + of_nat ((unat r - unat off) div 8) \<longrightarrow> m a = fmem x a" by blast
    have "m a = fmem x a" if "a \<in> {sdesc x sb + 2, sdesc x sb + 3}" for a using t(4) far [OF that] t(2) by simp
    then have "?lim (set_fmem m x) = ucast (sd_nzones (fmem x) (sdesc x sb))"
      by (simp add: sd_nzones_def rd16_def add.assoc)
    moreover have "\<not> unat r < unat (sd_nzones (fmem x) (sdesc x sb))" using full [of "unat r"] t(3) by blast
    ultimately have "\<not> r < ?lim (set_fmem m x)" by (simp add: word_less_nat_alt unat_ucast16)
    with t(1) show ?thesis using that by blast
  qed
  have "map_search ?lim (z # 0 # take 6 zs) off x = None"
    using i n unfolding map_search_step [OF assms(4)] by auto
  then show ?thesis
    using assms(2,3) by (simp add: balloc_def off_def ZMAP_MAX_BLOCKS_def del: map_search.simps)
qed

text \<open>A disk with 5 zones, all in use: the super block is at \<^verbatim>\<open>0xbffc00\<close>, the zone map at \<^verbatim>\<open>0xbff400\<close>.\<close>

definition sample_disk :: mem where
  "sample_disk a = (if a = 0xbffc02 then 5 else if a = 0xbffc08 then 1 else if a = 0xbff400 then 0x1f else 0)"

definition sample_fs :: fssys where
  "sample_fs = set_fmem sample_disk \<lparr>cache = upd_buf 0x800040 (\<lambda>b. b\<lparr>b_data := 0xbff400\<rparr>) sample_cache,
     supers = [\<lparr>sb_desc = 0xbffc00, sb_buf = 0x800000, sb_imaps = [0x800080, 0, 0, 0, 0, 0, 0, 0],
       sb_zmaps = [0x800040, 0, 0, 0, 0, 0, 0, 0], sb_dev = 3, sb_iroot = None, sb_imount = None\<rparr>],
     inodes = [], super_base = 0x24000, inode_base = 0x25000, fs_root = None, startup_time = 0\<rparr>"

lemma sample_fs_simps:
  "fmem sample_fs = sample_disk" "sdesc sample_fs 0 = 0xbffc00" "b_data (bufs (cache sample_fs) 0x800040) = 0xbff400"
  "get_superblock 3 sample_fs = Some 0" "sb_zmaps (supers sample_fs ! 0) = [0x800040, 0, 0, 0, 0, 0, 0, 0]"
  "sd_nzones sample_disk 0xbffc00 = 5" "sd_first_data_zone sample_disk 0xbffc00 = 1"
  by (simp_all add: sample_fs_def set_fmem_def set_fkern_def set_kern_def upd_buf_def get_superblock_def sdesc_def
      sd_nzones_def sd_first_data_zone_def rd16_def sample_disk_def)

lemma sample_map:
  "5 \<in> bits_of (map_bits sample_fs 0x800040 0) - used sample_disk (map_bits sample_fs 0x800040 0)"
  "k < 5 \<Longrightarrow> k \<in> used sample_disk (map_bits sample_fs 0x800040 0)"
  "first_free_nr sample_fs 0x800040 0 \<le> 5"
proof -
  let ?b = "map_bits sample_fs 0x800040 0"
  have b: "bits_of ?b = {0 ..< 65536}" using map_bits_ok(2) [of 0 sample_fs "0x800040"] by simp
  have m: "bm_bits ?b = 0xbff400" "bm_offset ?b = 0" by (simp_all add: map_bits_def bitmap_new_def sample_fs_simps)
  show 5: "5 \<in> bits_of ?b - used sample_disk ?b" by (simp add: b used_def bit_at_def m sample_disk_def bit_numeral_rec)
  show "k \<in> used sample_disk ?b" if "k < 5"
  proof -
    have "k = 0 \<or> k = 1 \<or> k = 2 \<or> k = 3 \<or> k = 4" using that by linarith
    then show ?thesis by (auto simp: b used_def bit_at_def m sample_disk_def bit_numeral_rec)
  qed
  show "first_free_nr sample_fs 0x800040 0 \<le> 5" unfolding first_free_nr_def sample_fs_simps by (rule Least_le) (rule 5)
qed


theorem balloc_full_halts_witness: "balloc (\<lambda>_ _ _ _ _ _ _. None) 3 sample_fs = None"
proof -
  have "first_free_nr sample_fs 0x800040 0 div 8 = 0" using sample_map(3) by simp
  then show ?thesis
    using sample_map(2)
    by (intro balloc_full_halts [of 3 sample_fs 0 "0x800040" "[0, 0, 0, 0, 0, 0]"]) (auto simp: sample_fs_simps)
qed

section \<open>Looking a block of a file up\<close>

lemma bread_hit:
  assumes ok: "cache_ok c L H F" and b: "cached H b" "key_of c b = (d, k)" and "b_count (bufs c b) \<noteq> - 1" and "b_valid (bufs c b)"
  shows "\<exists>c' L' F'. bread call d k c = Some (Done b, c') \<and> cache_ok c' L' H F' \<and> kern (dsys c') = (kern (dsys c))\<lparr>nodes := bnodes c'\<rparr> \<and>
     bufs c' = (bufs c)(b := (bufs c b)\<lparr>b_count := b_count (bufs c b) + 1\<rparr>)"
proof -
  from getblk_hit [OF ok b assms(4)] obtain h where
    h: "getblk d k c = Some (Done b, upd_buf b (\<lambda>e. e\<lparr>b_count := b_count e + 1\<rparr>) (set_bnodes h c))"
      "cache_ok (upd_buf b (\<lambda>e. e\<lparr>b_count := b_count e + 1\<rparr>) (set_bnodes h c)) (L(free_list c \<mapsto> map rnode (remove1 b F))) H (remove1 b F)"
    by (auto simp: Let_def)
  have "b \<noteq> 0" using lookup_cached(3) [OF ok b] by simp
  with h(1) assms(5) have "bread call d k c = Some (Done b, upd_buf b (\<lambda>e. e\<lparr>b_count := b_count e + 1\<rparr>) (set_bnodes h c))"
    by (simp add: bread_def)
  with h(2) show ?thesis
    by (intro exI conjI) (assumption | simp add: upd_buf_def set_bnodes_def)+
qed

text \<open>
  \<open>reads c H d a is v\<close>: the entries \<open>is\<close>, the first in the array at \<open>a\<close> and each next in the cached block of device
  \<open>d\<close> the one before names, lead to the number \<open>v\<close>; a missing block reads as 0.
\<close>

inductive reads :: "bufsys \<Rightarrow> (u32 \<Rightarrow> addr list) \<Rightarrow> i32 \<Rightarrow> addr \<Rightarrow> u32 list \<Rightarrow> u16 \<Rightarrow> bool" for c H d where
  last: "reads c H d a [i] (rd16 (kmem (kern (dsys c))) (a + 2 * i))"
| hole: "rd16 (kmem (kern (dsys c))) (a + 2 * i) = 0 \<Longrightarrow> reads c H d a (i # j # is) 0"
| step: "\<lbrakk>z = rd16 (kmem (kern (dsys c))) (a + 2 * i); z \<noteq> 0; cached H b; key_of c b = (d, ucast z); b_valid (bufs c b);
     \<not> b_dirty (bufs c b); reads c H d (b_data (bufs c b)) (j # is) v\<rbrakk> \<Longrightarrow> reads c H d a (i # j # is) v"

inductive_cases reads_lastE: "reads c H d a [i] v"
inductive_cases reads_stepE: "reads c H d a (i # j # is) v"

text \<open>The entries that lead to block \<open>nr\<close> of a file.\<close>

primrec level_path :: "nat \<Rightarrow> u32 \<Rightarrow> u32 list" where
  "level_path 0 nr = []"
| "level_path (Suc l) nr = (let b = (if l = 0 then 1 else BLOCK_INDEXES) in nr div b # level_path l (nr mod b))"

definition block_path :: "u32 \<Rightarrow> u32 list" where
  "block_path nr = (if nr < 7 then [nr] else if nr - 7 < 512 then 7 # level_path 1 (nr - 7) else 8 # level_path 2 (nr - 7 - 512))"

text \<open>\<open>same_blocks\<close>: the cache differs in its lists and use counts only.\<close>

definition same_blocks :: "bufsys \<Rightarrow> bufsys \<Rightarrow> bool" where
  "same_blocks c c' \<longleftrightarrow> kmem (kern (dsys c')) = kmem (kern (dsys c)) \<and>
     (\<forall>b. \<exists>n. bufs c' b = (bufs c b)\<lparr>b_count := n\<rparr>)"

lemma same_blocks_count:
  assumes "same_blocks c c0" and "kmem (kern (dsys c1)) = kmem (kern (dsys c0))" and "bufs c1 = (bufs c0)(b := (bufs c0 b)\<lparr>b_count := n\<rparr>)"
  shows "same_blocks c c1"
  unfolding same_blocks_def
proof (intro conjI allI)
  show "kmem (kern (dsys c1)) = kmem (kern (dsys c))" using assms(1,2) by (simp add: same_blocks_def)
  fix e
  obtain k where "bufs c0 e = (bufs c e)\<lparr>b_count := k\<rparr>" using assms(1) unfolding same_blocks_def by blast
  then show "\<exists>n. bufs c1 e = (bufs c e)\<lparr>b_count := n\<rparr>"
    unfolding assms(3) by (cases "e = b") (auto intro: exI [of _ n] exI [of _ k])
qed

lemma same_blocksD:
  assumes "same_blocks c c'"
  shows "kmem (kern (dsys c')) = kmem (kern (dsys c))" "key_of c' b = key_of c b" "b_valid (bufs c' b) = b_valid (bufs c b)"
    "b_dirty (bufs c' b) = b_dirty (bufs c b)" "b_data (bufs c' b) = b_data (bufs c b)"
proof -
  obtain n where e: "bufs c' b = (bufs c b)\<lparr>b_count := n\<rparr>" using assms unfolding same_blocks_def by blast
  then show "key_of c' b = key_of c b" "b_valid (bufs c' b) = b_valid (bufs c b)" "b_dirty (bufs c' b) = b_dirty (bufs c b)"
    "b_data (bufs c' b) = b_data (bufs c b)" by (simp_all add: key_of_def)
qed (use assms in \<open>simp add: same_blocks_def\<close>)

lemma bmap_slot_read:
  assumes "bf \<noteq> 0" and "\<not> b_dirty (bufs (cache x) bf)"
  shows "bmap_slot call d False array i bf x = Some (Done (rd16 (fmem x) (array + 2 * i)), x)"
  using assms by (simp add: bmap_slot_def run_bind_def on_cache_def bwrite_def)


lemma bmap_loop_reads:
  assumes "reads c H d a (i # level_path l nr) v" and "same_blocks c (cache x)" and "cache_ok (cache x) L H F"
    and "bf \<noteq> 0" and "\<not> b_dirty (bufs (cache x) bf)" and "\<And>b. unat (b_count (bufs (cache x) b)) + l < 2 ^ 32"
  shows "\<exists>y L' F'. bmap_loop call d False l a i nr bf x = Some (Done (ucast v), y) \<and> same_blocks c (cache y) \<and> cache_ok (cache y) L' H F'"
  using assms
proof (induction l arbitrary: a i nr bf x L F)
  case 0
  note m = same_blocksD(1) [OF 0(2)]
  from 0(1) have "v = rd16 (fmem x) (a + 2 * i)" by (auto simp: m elim: reads_lastE)
  with bmap_slot_read [OF 0(4,5)] have "bmap_loop call d False 0 a i nr bf x = Some (Done (ucast v), x)"
    by (simp add: run_bind_def)
  with 0(2,3) show ?case by blast
next
  case (Suc l)
  note s = same_blocksD [OF Suc.prems(2)] and slot = bmap_slot_read [OF Suc.prems(4,5)]
  let ?b = "if l = 0 then 1 else BLOCK_INDEXES"
  from Suc.prems(1) have "reads c H d a (i # nr div ?b # level_path l (nr mod ?b)) v" by (simp add: Let_def)
  then consider (hole) "v = 0" "rd16 (fmem x) (a + 2 * i) = 0"
    | (step) b where "rd16 (fmem x) (a + 2 * i) \<noteq> 0" "cached H b" "key_of c b = (d, ucast (rd16 (fmem x) (a + 2 * i)))"
      "b_valid (bufs c b)" "\<not> b_dirty (bufs c b)" "reads c H d (b_data (bufs c b)) (nr div ?b # level_path l (nr mod ?b)) v"
    unfolding s(1) by (rule reads_stepE) blast+
  then show ?case
  proof cases
    case hole
    with slot have "bmap_loop call d False (Suc l) a i nr bf x = Some (Done (ucast v), x)"
      by (simp add: run_bind_def)
    with Suc.prems(2,3) show ?thesis by blast
  next
    case step
    let ?z = "ucast (rd16 (fmem x) (a + 2 * i)) :: u32"
    have key: "key_of (cache x) b = (d, ?z)" and val: "b_valid (bufs (cache x) b)" using step(3,4) by (simp_all add: s(2,3))
    have "b_count (bufs (cache x) b) \<noteq> - 1" using Suc.prems(6) [of b] by (auto simp: unat_minus_1)
    from bread_hit [OF Suc.prems(3) step(2) key this val] obtain c' L' F' where
      r: "bread call d ?z (cache x) = Some (Done b, c')" "cache_ok c' L' H F'"
        "kern (dsys c') = (kern (dsys (cache x)))\<lparr>nodes := bnodes c'\<rparr>"
        "bufs c' = (bufs (cache x))(b := (bufs (cache x) b)\<lparr>b_count := b_count (bufs (cache x) b) + 1\<rparr>)" by blast
    let ?y = "x\<lparr>cache := c'\<rparr>"
    have same: "same_blocks c (cache ?y)"
      using same_blocks_count [OF Suc.prems(2) _ r(4)] arg_cong [OF r(3), of kmem] by simp
    have nz: "b \<noteq> 0" using lookup_cached(3) [OF Suc.prems(3) step(2) key] by simp
    have cl: "\<not> b_dirty (bufs (cache ?y) b)" and dt: "b_data (bufs c' b) = b_data (bufs c b)"
      using step(5) by (simp_all add: r(4) s(4,5))
    have "unat (b_count (bufs (cache ?y) e)) + l < 2 ^ 32" for e
      using Suc.prems(6) [of e] by (auto simp: r(4) unat_word_ariths intro: le_less_trans [OF add_right_mono [OF mod_less_eq_dividend]])
    have ok: "cache_ok (cache ?y) L' H F'" using r(2) by simp
    from Suc.IH [OF step(6) same ok nz cl \<open>\<And>e. unat (b_count (bufs (cache ?y) e)) + l < 2 ^ 32\<close>] obtain y L'' F'' where
      y: "bmap_loop call d False l (b_data (bufs c b)) (nr div ?b) (nr mod ?b) b ?y = Some (Done (ucast v), y)"
        "same_blocks c (cache y)" "cache_ok (cache y) L'' H F''" by blast
    have "bmap_loop call d False (Suc l) a i nr bf x = Some (Done (ucast v), y)"
      using slot step(1) r(1) y(1) nz dt by (simp add: run_bind_def on_cache_def buf_data_def Let_def)
    with y(2,3) show ?thesis by blast
  qed
qed


text \<open>
  Property C18. With the index blocks of a file in the cache, \<^verbatim>\<open>bmap\<close> without \<^verbatim>\<open>create\<close> returns the number that the
  entries of the block lead to: an entry of the inode for the first 7 blocks, through one index block for the next
  512 and through two for the rest, 0 where an index block is missing. It writes nothing and keeps the
  cache consistent.
\<close>

theorem bmap_reads:
  assumes "nr < TOTAL_BLOCKS" and "cache_ok (cache x) L H F" and "i_buf (inodes x ! i) \<noteq> 0"
    and "\<not> b_dirty (bufs (cache x) (i_buf (inodes x ! i)))" and "\<And>b. unat (b_count (bufs (cache x) b)) + 2 < 2 ^ 32"
    and "reads (cache x) H (i_dev (inodes x ! i)) (id_zone (i_desc (inodes x ! i))) (block_path nr) v"
  shows "\<exists>y L' F'. bmap call i nr False x = Some (Done (ucast v), y) \<and> same_blocks (cache x) (cache y) \<and> cache_ok (cache y) L' H F'"
proof -
  note go = bmap_loop_reads [OF _ _ assms(2,3,4)]
  have refl: "same_blocks (cache x) (cache x)" unfolding same_blocks_def
  proof (intro conjI allI refl)
    show "\<exists>n. bufs (cache x) b = (bufs (cache x) b)\<lparr>b_count := n\<rparr>" for b
      by (rule exI [of _ "b_count (bufs (cache x) b)"]) simp
  qed
  have bound: "unat (b_count (bufs (cache x) b)) + l < 2 ^ 32" if "l \<le> 2" for b and l :: nat
    using assms(5) [of b] that by linarith
  note d = DIRECT_BLOCKS_def INDIRECT1_BLOCKS_def INDIRECT2_BLOCKS_def TOTAL_BLOCKS_def BLOCK_INDEXES_def BLOCK_SIZE_def
  consider "nr < 7" | "\<not> nr < 7" "nr - 7 < 512" | "\<not> nr < 7" "\<not> nr - 7 < 512" by blast
  then show ?thesis
  proof cases
    case 1
    with go [where c = "cache x" and i = nr and l = 0 and nr = nr and v = v, OF _ refl bound] assms(1,6) show ?thesis
      by (simp add: bmap_def block_path_def Let_def d)
  next
    case 2
    with go [where c = "cache x" and i = 7 and l = 1 and nr = "nr - 7" and v = v, OF _ refl bound] assms(1,6) show ?thesis
      by (simp add: bmap_def block_path_def Let_def d)
  next
    case 3
    then have "unat nr - 7 \<ge> 512" "unat (nr - 7) = unat nr - 7" by (simp_all add: not_less word_le_nat_alt unat_sub)
    moreover have "unat nr < 262663" using assms(1) by (simp add: d word_less_nat_alt)
    ultimately have "nr - 7 - 512 < 262144" by (simp add: word_less_nat_alt unat_sub word_le_nat_alt)
    with 3 go [where c = "cache x" and i = 8 and l = 2 and nr = "nr - 7 - 512" and v = v, OF _ refl bound] assms(1,6) show ?thesis
      by (simp add: bmap_def block_path_def Let_def d)
  qed
qed

lemma cache_ok_kmem: "cache_ok (set_kern ((kern (dsys c))\<lparr>kmem := m\<rparr>) c) L H F = cache_ok c L H F"
  by (simp add: cache_ok_def cache_lists_def cache_bufs_def set_kern_def key_of_def unborn_def hash_list_def)

text \<open>An inode whose fourth zone is block 42 and which has no index block.\<close>

definition sample_file :: "bufsys \<Rightarrow> fssys" where
  "sample_file c = \<lparr>cache = set_kern ((kern (dsys c))\<lparr>kmem := (\<lambda>a. if a = 0x900014 then 42 else 0)\<rparr>) c, supers = [],
     inodes = [\<lparr>i_desc = 0x900000, i_buf = 0x800000, i_dev = 3, i_nr = 1, i_count = 1, i_atime = 0, i_ctime = 0, i_mount = 0\<rparr>],
     super_base = 0x24000, inode_base = 0x25000, fs_root = None, startup_time = 0\<rparr>"

theorem bmap_reads_witness:
  "\<exists>c y z. buffer_init sample_cache = Some c \<and> bmap (\<lambda>_ _ _ _ _ _ _. None) 0 3 False (sample_file c) = Some (Done 42, y) \<and>
     bmap (\<lambda>_ _ _ _ _ _ _. None) 0 100 False (sample_file c) = Some (Done 0, z)"
proof -
  from buffer_init_law [OF sample_cache_fresh] obtain h L where
    c: "buffer_init sample_cache = Some (set_bnodes h sample_cache)" "cache_ok (set_bnodes h sample_cache) L (\<lambda>_. []) []" by blast
  let ?x = "sample_file (set_bnodes h sample_cache)"
  have ok: "cache_ok (cache ?x) L (\<lambda>_. []) []" using c(2) by (simp add: sample_file_def cache_ok_kmem)
  have b: "bufs (cache ?x) b = \<lparr>b_data = 0, b_dev = 0, b_block = 0, b_count = 0, b_dirty = False, b_valid = False\<rparr>" for b
    by (simp add: sample_file_def set_kern_def sample_cache_def set_bnodes_def)
  have m: "fmem ?x = (\<lambda>a. if a = 0x900014 then 42 else 0)" by (simp add: sample_file_def set_kern_def)
  have i: "i_desc (inodes ?x ! 0) = 0x900000" "i_buf (inodes ?x ! 0) = 0x800000" by (simp_all add: sample_file_def)
  have r: "reads (cache ?x) (\<lambda>_. []) d (id_zone 0x900000) (block_path 3) 42"
    "reads (cache ?x) (\<lambda>_. []) d (id_zone 0x900000) (block_path 100) 0" for d
    using reads.last [of "cache ?x" "\<lambda>_. []" d "id_zone 0x900000" 3] reads.hole [of "cache ?x" "id_zone 0x900000" 7 "\<lambda>_. []" d 93 "[]"]
    by (simp_all add: m id_zone_def rd16_def block_path_def)
  have t: "3 < TOTAL_BLOCKS" "100 < TOTAL_BLOCKS"
    by (simp_all add: TOTAL_BLOCKS_def DIRECT_BLOCKS_def INDIRECT1_BLOCKS_def INDIRECT2_BLOCKS_def BLOCK_INDEXES_def BLOCK_SIZE_def)

  have "\<exists>y. bmap (\<lambda>_ _ _ _ _ _ _. None) 0 3 False ?x = Some (Done (ucast (42 :: u16)), y)"
    using bmap_reads [of 3 ?x L "\<lambda>_. []" "[]" 0 42 "\<lambda>_ _ _ _ _ _ _. None"] t ok b i r by auto
  moreover have "\<exists>y. bmap (\<lambda>_ _ _ _ _ _ _. None) 0 100 False ?x = Some (Done (ucast (0 :: u16)), y)"
    using bmap_reads [of 100 ?x L "\<lambda>_. []" "[]" 0 0 "\<lambda>_ _ _ _ _ _ _. None"] t ok b i r by auto
  ultimately show ?thesis using c(1) by simp
qed

end
