(* ===== verification/Inode.thy ===== *)
theory Inode
  imports Fs
begin

text \<open>
  The pool of inodes of \<^verbatim>\<open>fs/inode.c\<close>: each super block keeps the inodes in use on a list, \<open>iget\<close> shares an entry that is already
  there and takes a free one otherwise, \<open>iput\<close> gives the last reference back.
\<close>

section \<open>Looking an inode up\<close>

lemma inode_of_node [simp]: "i < INODE_NR \<Longrightarrow> inode_of_node x (inode_node x i) = i"
proof -
  assume "i < INODE_NR"
  then have i: "i < 64" by (simp add: INODE_NR_def)
  have "inode_node x i - inode_base x - 28 = 40 * of_nat i" by (simp add: inode_node_def)
  moreover have "unat (40 * of_nat i :: u32) = 40 * i" using i by (simp add: unat_word_ariths unat_of_nat)
  ultimately show ?thesis by (simp add: inode_of_node_def unat_div)
qed

lemma inode_loop_dlist:
  assumes "dlist (nodes (fkern x)) l (as @ map (inode_node x) is)" and "\<forall>i \<in> set is. i < INODE_NR"
  shows "find_inode_loop x (list_tail l) (after l (map (inode_node x) is)) nr = Some (find (\<lambda>i. i_nr (inodes x ! i) = nr) is)"
  using assms
proof (induction "is" arbitrary: as)
  case Nil
  then show ?case by (simp add: find_inode_loop.simps)
next
  case (Cons i "is")
  have d: "dlist (nodes (fkern x)) l (as @ inode_node x i # map (inode_node x) is)" using Cons.prems(1) by simp
  from dlist_suffix_facts [OF d] Cons.IH [of "as @ [inode_node x i]"] Cons.prems show ?case
    by (simp add: find_inode_loop.simps [of x _ "inode_node x i"])
qed

lemma find_inode_law:
  assumes "get_superblock d x = Some sb" and "klists (nodes (fkern x)) L" "L (inode_list x sb) = Some (map (inode_node x) is)"
    and "\<forall>i \<in> set is. i < INODE_NR"
  shows "find_inode d nr x = Some (find (\<lambda>i. i_nr (inodes x ! i) = nr) is)"
proof -
  note dl = klistsD [OF assms(2,3)]
  show ?thesis
    using assms(1) dlist_first(1,2) [OF dl] inode_loop_dlist [of x "inode_list x sb" "[]" "is" nr] dl assms(4)
    by (simp add: find_inode_def)
qed

section \<open>Lists beside those of the cache\<close>

text \<open>A list and a node that the block cache does not use.\<close>

definition other_list :: "bufsys \<Rightarrow> addr \<Rightarrow> bool" where
  "other_list c l \<longleftrightarrow> l \<noteq> free_list c \<and> l \<noteq> wait_list c \<and> (\<forall>i < HASH_COUNT. l \<noteq> hash_list c i)"

definition other_node :: "bufsys \<Rightarrow> (u32 \<Rightarrow> addr list) \<Rightarrow> addr \<Rightarrow> bool" where
  "other_node c H n \<longleftrightarrow> \<not> unborn c n \<and> (\<forall>b. cached H b \<longrightarrow> n \<noteq> rnode b)"

lemma cache_ok_other:
  assumes ok: "cache_ok c L H F" and l: "other_list c l" and n: "other_node c H n"
    and h: "klists h (L(l \<mapsto> ys))" "moved (bnodes c) h (insert n (owned L))" and sub: "owned (L(l \<mapsto> ys)) \<subseteq> insert n (owned L)"
  shows "cache_ok (set_bnodes h c) (L(l \<mapsto> ys)) H F"
proof -
  have cl: "cache_lists c L H F" and cb: "cache_bufs c L H F" using ok by (simp_all add: cache_ok_def)
  note B = cache_bufsD [OF cb]
  have "cache_lists (set_bnodes h c) (L(l \<mapsto> ys)) H F"
    using cl l h(1) by (auto simp: cache_lists_def other_list_def)
  moreover have "cache_bufs (set_bnodes h c) (L(l \<mapsto> ys)) H F"
    unfolding cache_bufs_def buf_state_simps
  proof (intro conjI allI impI ballI)
    fix b assume b: "cached H b" "b \<notin> set F"
    have "rnode b \<notin> insert n (owned L)" using n b B(9) [OF b] by (auto simp: other_node_def)
    then show "rnode b \<notin> owned (L(l \<mapsto> ys))" "node_free h (rnode b)"
      using sub klist.frame_free [OF h(2)] B(10) [OF b] by auto
    show "0 < b_count (bufs c b)" by (rule B(8) [OF b])
  next
    fix a assume a: "unborn c a"
    have "a \<notin> insert n (owned L)" using n a B(11) [OF a] by (auto simp: other_node_def)
    then show "a \<notin> owned (L(l \<mapsto> ys))" "node_free h a" using sub klist.frame_free [OF h(2)] B(12) [OF a] by auto
  qed (use cb in \<open>auto simp: cache_bufs_def cached_def\<close>)
  ultimately show ?thesis by (simp add: cache_ok_def)
qed

section \<open>iget and iput\<close>

text \<open>
  The state of the pool for super block \<open>sb\<close> of device \<open>d\<close>: \<open>is\<close> are the entries on its list, and the cache, which keeps its lists
  in the same memory, is consistent.
\<close>

definition pool_ok :: "fssys \<Rightarrow> (addr \<rightharpoonup> addr list) \<Rightarrow> (u32 \<Rightarrow> addr list) \<Rightarrow> addr list \<Rightarrow> i32 \<Rightarrow> nat \<Rightarrow> nat list \<Rightarrow> bool" where
  "pool_ok x L H F d sb is \<longleftrightarrow> cache_ok (cache x) L H F \<and> get_superblock d x = Some sb \<and> length (inodes x) = INODE_NR \<and>
     L (inode_list x sb) = Some (map (inode_node x) is) \<and> (\<forall>i \<in> set is. i < INODE_NR) \<and> other_list (cache x) (inode_list x sb)"

lemma pool_find: "pool_ok x L H F d sb is \<Longrightarrow> find_inode d nr x = Some (find (\<lambda>i. i_nr (inodes x ! i) = nr) is)"
  by (rule find_inode_law [of d x sb L]) (simp_all add: pool_ok_def cache_ok_def cache_lists_def)

text \<open>An entry that no list holds.\<close>

definition free_entry :: "fssys \<Rightarrow> (addr \<rightharpoonup> addr list) \<Rightarrow> (u32 \<Rightarrow> addr list) \<Rightarrow> nat \<Rightarrow> bool" where
  "free_entry x L H k \<longleftrightarrow> get_free_inode x = Some k \<and> k < INODE_NR \<and> inode_node x k \<noteq> 0 \<and> inode_node x k \<notin> owned L \<and>
     other_node (cache x) H (inode_node x k)"

lemma pool_simps [simp]:
  "inode_list (x\<lparr>cache := c\<rparr>) sb = inode_list x sb" "inode_node (x\<lparr>cache := c\<rparr>) i = inode_node x i" "supers (x\<lparr>cache := c\<rparr>) = supers x"
  "inode_list (upd_inode k f x) sb = inode_list x sb" "inode_node (upd_inode k f x) i = inode_node x i" "supers (upd_inode k f x) = supers x"
  "cache (upd_inode k f x) = cache x" "inodes (x\<lparr>cache := c\<rparr>) = inodes x" "get_superblock d (x\<lparr>cache := c\<rparr>) = get_superblock d x"
  "get_superblock d (upd_inode k f x) = get_superblock d x" "inodes (upd_inode k f x) = (inodes x)[k := f (inodes x ! k)]"
  by (simp_all add: inode_list_def inode_node_def upd_inode_def get_superblock_def fun_eq_iff)

lemma set_nodes_cache: "set_fkern ((fkern x)\<lparr>nodes := h\<rparr>) x = x\<lparr>cache := set_bnodes h (cache x)\<rparr>"
  by (simp add: set_fkern_def set_kern_def set_bnodes_def)

lemma other_simps [simp]:
  "other_list (set_bnodes h c) = other_list c" "other_list (upd_buf b f c) = other_list c"
  "other_node (set_bnodes h c) = other_node c" "other_node (upd_buf b f c) = other_node c"
  by (simp_all add: other_list_def other_node_def fun_eq_iff)

text \<open>A miss takes the free entry and the cached block of the inode.\<close>

lemma iget_law:
  assumes p: "pool_ok x L H F d sb is" and miss: "\<forall>i \<in> set is. i_nr (inodes x ! i) \<noteq> nr" and k: "free_entry x L H k"
    and nr: "nr \<le> ucast (sd_ninodes (fmem x) (sdesc x sb))"
    and b: "cached H b" "key_of (cache x) b = (d, inode_block sb nr x)" "b_valid (bufs (cache x) b)" "b_count (bufs (cache x) b) \<noteq> - 1"
  defines "desc \<equiv> b_data (bufs (cache x) b) + 32 * ((nr - 1) mod BLOCK_INODES)"
  shows "\<exists>h x1. iget call d nr x = Some (Done k, x1) \<and>
    cache x1 = upd_buf b (\<lambda>c. c\<lparr>b_count := b_count c + 1\<rparr>) (set_bnodes h (cache x)) \<and>
    inodes x1 = (inodes x)[k := (inodes x ! k)\<lparr>i_buf := b, i_desc := desc, i_dev := d, i_nr := nr, i_count := 1,
      i_atime := i_atime (inodes x1 ! k), i_ctime := id_mtime (fmem x) desc\<rparr>] \<and>
    supers x1 = supers x \<and> inode_list x1 sb = inode_list x sb \<and> inode_node x1 = inode_node x \<and>
    pool_ok x1 (L(inode_list x sb \<mapsto> map (inode_node x) (is @ [k]), free_list (cache x) \<mapsto> map rnode (remove1 b F))) H (remove1 b F) d sb (is @ [k])"
proof -
  let ?l = "inode_list x sb" and ?n = "inode_node x k"
  have P: "cache_ok (cache x) L H F" "get_superblock d x = Some sb" "length (inodes x) = INODE_NR" "L ?l = Some (map (inode_node x) is)"
    "\<forall>i \<in> set is. i < INODE_NR" "other_list (cache x) ?l" using p by (simp_all add: pool_ok_def)
  have K: "get_free_inode x = Some k" "k < INODE_NR" "?n \<noteq> 0" "?n \<notin> owned L" "other_node (cache x) H ?n" using k by (simp_all add: free_entry_def)
  have kl: "klists (bnodes (cache x)) L" using P(1) by (simp add: cache_ok_def cache_lists_def)
  from klist.push_back [OF kl P(4) K(4,3)] obtain h1 where
    h1: "list_push_back (bnodes (cache x)) ?l ?n = Some h1" "klists h1 (L(?l \<mapsto> map (inode_node x) is @ [?n]))"
      "moved (bnodes (cache x)) h1 (insert ?n (owned L))" by blast
  let ?L1 = "L(?l \<mapsto> map (inode_node x) is @ [?n])" and ?c1 = "set_bnodes h1 (cache x)"
  have o: "owned ?L1 = insert ?n (owned L)" using owned_upd_split [of L ?l "map (inode_node x) is" "[]" ?n] P(4) by simp
  have ok1: "cache_ok ?c1 ?L1 H F" by (rule cache_ok_other [OF P(1,6) K(5) h1(2,3)]) (simp add: o)
  have kb: "key_of ?c1 b = (d, inode_block sb nr x)" "b_count (bufs ?c1 b) \<noteq> - 1" using b(2,4) by simp_all
  from getblk_hit [OF ok1 b(1) kb] obtain h where
    h: "getblk d (inode_block sb nr x) ?c1 = Some (Done b, upd_buf b (\<lambda>c. c\<lparr>b_count := b_count c + 1\<rparr>) (set_bnodes h ?c1))"
      "cache_ok (upd_buf b (\<lambda>c. c\<lparr>b_count := b_count c + 1\<rparr>) (set_bnodes h ?c1)) (?L1(free_list (cache x) \<mapsto> map rnode (remove1 b F))) H (remove1 b F)"
    by (auto simp: Let_def simp del: fun_upd_apply)
  define c2 where "c2 = upd_buf b (\<lambda>c. c\<lparr>b_count := b_count c + 1\<rparr>) (set_bnodes h (cache x))"
  have ss: "set_bnodes h ?c1 = set_bnodes h (cache x)" by (simp add: set_bnodes_def)
  have b0: "b \<noteq> 0" using lookup_cached(3) [OF ok1 b(1) kb(1)] by simp
  have br: "bread call d (inode_block sb nr x) ?c1 = Some (Done b, c2)" using h(1) b0 b(3) by (simp add: bread_def c2_def ss)
  let ?x2 = "x\<lparr>cache := c2\<rparr>"
  define x1 where "x1 = upd_inode k (\<lambda>n. n\<lparr>i_buf := b, i_desc := desc, i_dev := d, i_nr := nr, i_count := 1,
      i_atime := fs_time ?x2, i_ctime := id_mtime (fmem ?x2) desc\<rparr>) ?x2"
  have ib: "inode_block sb nr (x\<lparr>cache := ?c1\<rparr>) = inode_block sb nr x" by (simp add: inode_block_def sdesc_def set_bnodes_def)
  have fm: "fmem ?x2 = fmem x" by (simp add: c2_def set_bnodes_def)
  have d2: "buf_data b ?x2 = Some (b_data (bufs (cache x) b))" using b0 by (simp add: buf_data_def c2_def)
  have "find_inode d nr x = Some None" using pool_find [OF p, of nr] miss by (simp add: find_None_iff)
  then have run: "iget call d nr x = Some (Done k, x1)"
    using P(2) nr K(1) h1(1) br ib d2
    by (simp add: iget_def set_nodes_cache run_bind_def on_cache_def x1_def desc_def Let_def)
  have len: "k < length (inodes x)" using K(2) P(3) by simp
  have I: "inodes x1 = (inodes x)[k := (inodes x ! k)\<lparr>i_buf := b, i_desc := desc, i_dev := d, i_nr := nr, i_count := 1,
      i_atime := i_atime (inodes x1 ! k), i_ctime := id_mtime (fmem x) desc\<rparr>]"
    unfolding x1_def fm using len by simp
  have C: "cache x1 = c2" by (simp add: x1_def)
  have "pool_ok x1 (?L1(free_list (cache x) \<mapsto> map rnode (remove1 b F))) H (remove1 b F) d sb (is @ [k])"
    using h(2) P K(2) by (simp add: pool_ok_def x1_def ss c2_def [symmetric]) (simp add: c2_def other_list_def)
  then show ?thesis
    using run I C unfolding c2_def by (intro exI [of _ h] exI [of _ x1]) (simp add: x1_def fun_eq_iff)
qed

text \<open>When the block has to be waited for, the entry is on the list but not marked as taken: the next \<open>iget\<close> takes it again.\<close>

lemma iget_blocked_unreserved:
  assumes "find_inode d nr x = Some None" and "iget call d nr x = Some (Blocked, x1)"
  shows "get_free_inode x1 = get_free_inode x"
proof -
  have "inodes x1 = inodes x"
    using assms
    by (auto simp: iget_def run_bind_def on_cache_def set_fkern_def Let_def split: Option.bind_splits run.splits if_splits prod.splits)
  then show ?thesis by (simp add: get_free_inode_def)
qed

text \<open>The last reference: the block is released, and the entry leaves the list and is free again.\<close>

lemma iput_last_law:
  assumes p: "pool_ok x L H F d sb (as @ k # bs)" and n: "other_node (cache x) H (inode_node x k)" and k: "i_count (inodes x ! k) = 1" "k \<noteq> 0"
    and b: "cached H (i_buf (inodes x ! k))" "b_count (bufs (cache x) (i_buf (inodes x ! k))) = 1" "\<not> b_dirty (bufs (cache x) (i_buf (inodes x ! k)))"
    and w: "L (wait_list (cache x)) = Some []"
  shows "\<exists>h x1. iput call (Some k) x = Some (Done (), x1) \<and>
    cache x1 = set_bnodes h (upd_buf (i_buf (inodes x ! k)) (\<lambda>c. c\<lparr>b_count := 0\<rparr>) (cache x)) \<and>
    inodes x1 = (inodes x)[k := (inodes x ! k)\<lparr>i_count := 0, i_dev := EOF\<rparr>] \<and>
    pool_ok x1 (L(free_list (cache x) \<mapsto> map rnode (i_buf (inodes x ! k) # F), inode_list x sb \<mapsto> map (inode_node x) (as @ bs))) H
      (i_buf (inodes x ! k) # F) d sb (as @ bs)"
proof -
  let ?l = "inode_list x sb" and ?n = "inode_node x k" and ?b = "i_buf (inodes x ! k)"
  have P: "cache_ok (cache x) L H F" "get_superblock d x = Some sb" "length (inodes x) = INODE_NR"
    "L ?l = Some (map (inode_node x) as @ ?n # map (inode_node x) bs)"
    "\<forall>i \<in> set (as @ bs). i < INODE_NR" "k < INODE_NR" "other_list (cache x) ?l" using p by (simp_all add: pool_ok_def)
  have len: "k < length (inodes x)" using P(3,6) by simp
  from brelse_last_law [OF P(1) b w] obtain g where
    g: "brelse call ?b (cache x) = Some (Done (), set_bnodes g (upd_buf ?b (\<lambda>c. c\<lparr>b_count := 0\<rparr>) (cache x)))"
      "cache_ok (set_bnodes g (upd_buf ?b (\<lambda>c. c\<lparr>b_count := 0\<rparr>) (cache x))) (L(free_list (cache x) \<mapsto> map rnode (?b # F))) H (?b # F)" by blast
  let ?c = "set_bnodes g (upd_buf ?b (\<lambda>c. c\<lparr>b_count := 0\<rparr>) (cache x))" and ?L = "L(free_list (cache x) \<mapsto> map rnode (?b # F))"
  have kl: "klists g ?L" using g(2) by (simp add: cache_ok_def cache_lists_def del: fun_upd_apply)
  have nl: "free_list (cache x) \<noteq> ?l" using P(7) by (auto simp: other_list_def)
  have l: "?L ?l = Some (map (inode_node x) as @ ?n # map (inode_node x) bs)" using P(4) nl by simp
  from klist.rm [OF kl l] obtain h where
    h: "list_remove g ?n = Some h" "klists h (?L(?l \<mapsto> map (inode_node x) as @ map (inode_node x) bs))" "moved g h (owned ?L)" by blast
  have m: "moved (bnodes ?c) h (insert ?n (owned ?L))" using h(3) by (simp add: moved_def)
  have sub: "owned (?L(?l \<mapsto> map (inode_node x) as @ map (inode_node x) bs)) \<subseteq> insert ?n (owned ?L)"
    using klist.removed_not_owned(2) [OF kl l] by blast
  have ok: "cache_ok (set_bnodes h ?c) (?L(?l \<mapsto> map (inode_node x) as @ map (inode_node x) bs)) H (?b # F)"
    by (rule cache_ok_other [OF g(2) _ _ h(2) m sub]) (use P(7) n in simp_all)
  let ?x1 = "upd_inode k (\<lambda>n. n\<lparr>i_count := i_count n - 1\<rparr>) x"
  define x2 where "x2 = upd_inode k (\<lambda>n. n\<lparr>i_dev := EOF\<rparr>) (?x1\<lparr>cache := set_bnodes h ?c\<rparr>)"
  have one: "inodes ?x1 ! k = (inodes x ! k)\<lparr>i_count := 0\<rparr>" using len k(1) by simp
  have run: "iput call (Some k) x = Some (Done (), x2)"
    using one len k g(1) h(1)
    by (simp add: iput_def Let_def run_bind_def on_cache_def set_nodes_cache put_free_inode_def x2_def)
  have ss: "set_bnodes h ?c = set_bnodes h (upd_buf ?b (\<lambda>c. c\<lparr>b_count := 0\<rparr>) (cache x))" by (simp add: set_bnodes_def)
  have I: "inodes x2 = (inodes x)[k := (inodes x ! k)\<lparr>i_count := 0, i_dev := EOF\<rparr>]" using len k(1) by (simp add: x2_def)
  have "pool_ok x2 (?L(?l \<mapsto> map (inode_node x) (as @ bs))) H (?b # F) d sb (as @ bs)"
    using ok P(2,3,5,7) by (simp add: pool_ok_def x2_def)
  then show ?thesis using run I ss by (intro exI [of _ h] exI [of _ x2]) (simp add: x2_def)
qed

section \<open>Properties\<close>

text \<open>
  Property C20. Taking an inode that is not in use and giving it back: \<^verbatim>\<open>iget\<close> takes a free entry and the cached block that holds the
  inode, after which the inode is found in that entry, with one reference and its place in the block; a second \<^verbatim>\<open>iget\<close> shares the entry.
  \<^verbatim>\<open>iput\<close> of the only reference releases the block, frees the entry and takes it off the list of its super block, while every other
  entry is untouched and the cache stays consistent.
\<close>

theorem iget_iput_roundtrip:
  assumes p: "pool_ok x L H F d sb is" and miss: "\<forall>i \<in> set is. i_nr (inodes x ! i) \<noteq> nr" and k: "free_entry x L H k" "k \<noteq> 0"
    and nr: "nr \<le> ucast (sd_ninodes (fmem x) (sdesc x sb))"
    and b: "b \<in> set F" "key_of (cache x) b = (d, inode_block sb nr x)" "b_valid (bufs (cache x) b)" and w: "L (wait_list (cache x)) = Some []"
  shows "\<exists>x1 x2. iget call d nr x = Some (Done k, x1) \<and> find_inode d nr x1 = Some (Some k) \<and> i_count (inodes x1 ! k) = 1 \<and>
    i_buf (inodes x1 ! k) = b \<and> i_desc (inodes x1 ! k) = b_data (bufs (cache x) b) + 32 * ((nr - 1) mod BLOCK_INODES) \<and>
    (\<exists>x3. iget call d nr x1 = Some (Done k, x3) \<and> i_count (inodes x3 ! k) = 2 \<and> cache x3 = cache x1) \<and>
    iput call (Some k) x1 = Some (Done (), x2) \<and> find_inode d nr x2 = Some None \<and> i_dev (inodes x2 ! k) = EOF \<and>
    (\<forall>j. j \<noteq> k \<longrightarrow> inodes x2 ! j = inodes x ! j) \<and> bufs (cache x2) = bufs (cache x) \<and>
    (\<exists>L'. pool_ok x2 L' H (b # remove1 b F) d sb is)"
proof -
  have P: "cache_ok (cache x) L H F" "length (inodes x) = INODE_NR" "\<forall>i \<in> set is. i < INODE_NR" "other_list (cache x) (inode_list x sb)"
    using p by (simp_all add: pool_ok_def)
  have K: "k < INODE_NR" "other_node (cache x) H (inode_node x k)" "inode_node x k \<notin> owned L" using k(1) by (simp_all add: free_entry_def)
  have cb: "cache_bufs (cache x) L H F" using P(1) by (simp add: cache_ok_def)
  note B = cache_bufsD(5-7) [OF cb b(1)]
  have len: "k < length (inodes x)" using K(1) P(2) by simp
  have notin: "k \<notin> set is"
  proof
    assume "k \<in> set is"
    then have "inode_node x k \<in> set (map (inode_node x) is)" by simp
    moreover have "L (inode_list x sb) = Some (map (inode_node x) is)" using p by (simp add: pool_ok_def)
    ultimately show False using K(3) in_list_owned by blast
  qed
  from iget_law [OF p miss k(1) nr B(1) b(2,3), of call] B(2) obtain h x1 where
    x1: "iget call d nr x = Some (Done k, x1)" "cache x1 = upd_buf b (\<lambda>c. c\<lparr>b_count := b_count c + 1\<rparr>) (set_bnodes h (cache x))"
      "inodes x1 = (inodes x)[k := (inodes x ! k)\<lparr>i_buf := b, i_desc := b_data (bufs (cache x) b) + 32 * ((nr - 1) mod BLOCK_INODES),
        i_dev := d, i_nr := nr, i_count := 1, i_atime := i_atime (inodes x1 ! k),
        i_ctime := id_mtime (fmem x) (b_data (bufs (cache x) b) + 32 * ((nr - 1) mod BLOCK_INODES))\<rparr>]"
      "inode_list x1 sb = inode_list x sb" "inode_node x1 = inode_node x"
      "pool_ok x1 (L(inode_list x sb \<mapsto> map (inode_node x) (is @ [k]), free_list (cache x) \<mapsto> map rnode (remove1 b F))) H (remove1 b F) d sb (is @ [k])"
    by auto
  let ?L1 = "L(inode_list x sb \<mapsto> map (inode_node x) (is @ [k]), free_list (cache x) \<mapsto> map rnode (remove1 b F))"
  have e: "i_count (inodes x1 ! k) = 1" "i_buf (inodes x1 ! k) = b" "i_nr (inodes x1 ! k) = nr"
    "i_desc (inodes x1 ! k) = b_data (bufs (cache x) b) + 32 * ((nr - 1) mod BLOCK_INODES)"
    by (subst x1(3), use len in simp)+
  have other: "inodes x1 ! j = inodes x ! j" if "j \<noteq> k" for j using that by (subst x1(3)) simp
  have nf: "find (\<lambda>i. i_nr (inodes x1 ! i) = nr) is = None"
    using miss notin other by (force simp: find_None_iff)
  have f1: "find_inode d nr x1 = Some (Some k)"
  proof -
    have "find (\<lambda>i. i_nr (inodes x1 ! i) = nr) (is @ [k]) = Some k" if "find (\<lambda>i. i_nr (inodes x1 ! i) = nr) is = None" for "is"
      using that e(3) by (induction "is") (auto split: if_splits)
    then show ?thesis using pool_find [OF x1(6)] nf by simp
  qed
  have n1: "other_node (cache x1) H (inode_node x1 k)" using K(2) by (simp add: x1(2,5))
  have c1: "cached H (i_buf (inodes x1 ! k))" "b_count (bufs (cache x1) (i_buf (inodes x1 ! k))) = 1"
    "\<not> b_dirty (bufs (cache x1) (i_buf (inodes x1 ! k)))" using B by (simp_all add: e x1(2))
  have "?L1 (wait_list (cache x1)) = Some []"
    using w P(1,4) by (auto simp: x1(2) other_list_def cache_ok_def cache_lists_def)
  from iput_last_law [OF x1(6) n1 e(1) k(2) c1 this, of call] obtain g x2 where
    x2: "iput call (Some k) x1 = Some (Done (), x2)" "cache x2 = set_bnodes g (upd_buf b (\<lambda>c. c\<lparr>b_count := 0\<rparr>) (cache x1))"
      "inodes x2 = (inodes x1)[k := (inodes x1 ! k)\<lparr>i_count := 0, i_dev := EOF\<rparr>]" and p2: "\<exists>L'. pool_ok x2 L' H (b # remove1 b F) d sb is"
    unfolding e(2) append_Nil2 by blast
  have len1: "length (inodes x1) = length (inodes x)" by (subst x1(3)) simp
  have d2: "i_dev (inodes x2 ! k) = EOF" "\<And>j. j \<noteq> k \<Longrightarrow> inodes x2 ! j = inodes x ! j"
    using len len1 other by (simp_all add: x2(3))
  have nf2: "find_inode d nr x2 = Some None"
  proof -
    obtain L' where "pool_ok x2 L' H (b # remove1 b F) d sb is" using p2 by blast
    moreover have "find (\<lambda>i. i_nr (inodes x2 ! i) = nr) is = None" using miss notin d2(2) by (force simp: find_None_iff)
    ultimately show ?thesis using pool_find by metis
  qed
  have bb: "bufs (cache x2) = bufs (cache x)" using B(2) by (auto simp: x2(2) x1(2) fun_eq_iff)
  have "\<exists>x3. iget call d nr x1 = Some (Done k, x3) \<and> i_count (inodes x3 ! k) = 2 \<and> cache x3 = cache x1"
    using len len1 e(1) by (simp add: iget_def f1)
  then show ?thesis using x1(1) f1 e x2(1) nf2 d2 bb p2 by (intro exI [of _ x1] exI [of _ x2]) simp
qed

text \<open>A disk with ten inodes whose first block of inodes is cached and free; the first entry of the pool is in use.\<close>

definition sample_buffer :: bufsys where
  "sample_buffer = set_kern ((kern (dsys sample_cache))\<lparr>kmem := (\<lambda>a. if a = 0x900000 then 10 else 0)\<rparr>) (sample_cache\<lparr>buffer_ptr := 0x800040,
     bufs := (bufs sample_cache)(0x800000 := \<lparr>b_data = 0xa00000, b_dev = 3, b_block = 2, b_count = 0, b_dirty = False, b_valid = True\<rparr>)\<rparr>)"

definition sample_inode :: "i32 \<Rightarrow> inode" where
  "sample_inode d = \<lparr>i_desc = 0, i_buf = 0, i_dev = d, i_nr = 0, i_count = 0, i_atime = 0, i_ctime = 0, i_mount = 0\<rparr>"

definition sample_pool :: "heap \<Rightarrow> fssys" where
  "sample_pool h = \<lparr>cache = set_bnodes h sample_buffer,
     supers = [\<lparr>sb_desc = 0x900000, sb_buf = 0, sb_imaps = [], sb_zmaps = [], sb_dev = 3, sb_iroot = None, sb_imount = None\<rparr>],
     inodes = sample_inode 3 # sample_inode EOF # replicate 62 (sample_inode EOF),
     super_base = 0x20fc4, inode_base = 0x25000, fs_root = None, startup_time = 0\<rparr>"

lemma sample_pool_simps:
  "cache (sample_pool h) = set_bnodes h sample_buffer" "length (inodes (sample_pool h)) = INODE_NR" "get_superblock 3 (sample_pool h) = Some 0"
  "get_free_inode (sample_pool h) = Some 1" "inode_list (sample_pool h) 0 = 0x21010" "inode_node (sample_pool h) 1 = 0x25044"
  "bufs sample_buffer 0x800000 = \<lparr>b_data = 0xa00000, b_dev = 3, b_block = 2, b_count = 0, b_dirty = False, b_valid = True\<rparr>"
  "inode_block 0 1 (sample_pool h) = 2" "sd_ninodes (fmem (sample_pool h)) (sdesc (sample_pool h) 0) = 10" "inodes (sample_pool h) ! 0 = sample_inode 3"
proof -
  show "length (inodes (sample_pool h)) = INODE_NR" "get_superblock 3 (sample_pool h) = Some 0" "cache (sample_pool h) = set_bnodes h sample_buffer"
    "inode_list (sample_pool h) 0 = 0x21010" "inode_node (sample_pool h) 1 = 0x25044"
    "bufs sample_buffer 0x800000 = \<lparr>b_data = 0xa00000, b_dev = 3, b_block = 2, b_count = 0, b_dirty = False, b_valid = True\<rparr>"
    "inodes (sample_pool h) ! 0 = sample_inode 3"
    by (simp_all add: sample_pool_def INODE_NR_def get_superblock_def inode_list_def inode_node_def sample_buffer_def set_kern_def)
  show "get_free_inode (sample_pool h) = Some 1" by (simp add: get_free_inode_def sample_pool_def sample_inode_def EOF_def)
  show "inode_block 0 1 (sample_pool h) = 2" "sd_ninodes (fmem (sample_pool h)) (sdesc (sample_pool h) 0) = 10"
    by (simp_all add: inode_block_def sd_imap_blocks_def sd_zmap_blocks_def sd_ninodes_def rd16_def sdesc_def sample_pool_def sample_buffer_def
        set_kern_def set_bnodes_def BLOCK_INODES_def BLOCK_SIZE_def)
qed

lemma sample_pool_ok:
  "\<exists>h L H. pool_ok (sample_pool h) L H [0x800000] 3 0 [] \<and> free_entry (sample_pool h) L H 1 \<and> L (wait_list sample_buffer) = Some []"
proof -
  let ?b = "0x800000 :: addr" and ?c0 = "\<lambda>h. set_bnodes h sample_cache" and ?i = "hash 3 2"
  from buffer_init_law [OF sample_cache_fresh] obtain h0 L0 where
    ok0: "cache_ok (?c0 h0) L0 (\<lambda>_. []) []" and w0: "L0 (wait_list sample_cache) = Some []" and
    q0: "\<forall>l. sample_queues l \<noteq> None \<longrightarrow> L0 l = sample_queues l" and o0: "owned L0 = owned sample_queues \<union> set (ends (sentinels sample_cache))" by blast
  have cl0: "cache_lists (?c0 h0) L0 (\<lambda>_. []) []" and cb0: "cache_bufs (?c0 h0) L0 (\<lambda>_. []) []" using ok0 by (simp_all add: cache_ok_def)
  note c0 = cache_listsD [OF cl0, unfolded buf_state_simps] and B0 = cache_bufsD [OF cb0, unfolded buf_state_simps]
  have un: "unborn sample_cache (hnode ?b)" "unborn sample_cache (rnode ?b)" "hnode ?b \<noteq> rnode ?b" "hnode ?b \<noteq> 0" "rnode ?b \<noteq> 0"
    by (simp_all add: unborn_def hnode_def rnode_def sample_cache_def BUFFER_END_def KERNEL_BUFFER_BASE_def)
  from klist.push_front [OF c0(1) c0(2) B0(11) [OF un(1)] un(4), of ?i] obtain h1 where
    h1: "klists h1 (L0(hash_list sample_cache ?i \<mapsto> [hnode ?b]))" "moved h0 h1 (insert (hnode ?b) (owned L0))" by auto
  let ?L1 = "L0(hash_list sample_cache ?i \<mapsto> [hnode ?b])"
  have o1: "owned ?L1 = insert (hnode ?b) (owned L0)"
    using owned_upd_split [of L0 "hash_list sample_cache ?i" "[]" "[]" "hnode ?b"] c0(2) [of ?i] by simp
  have f1: "?L1 (free_list sample_cache) = Some []" using c0(3) [of ?i] c0(5) by auto
  have n1: "rnode ?b \<notin> owned ?L1" using B0(11) [OF un(2)] un(3) by (auto simp: o1)
  from klist.push_front [OF h1(1) f1 n1 un(5)] obtain h2 where
    h2: "klists h2 (?L1(free_list sample_cache \<mapsto> [rnode ?b]))" "moved h1 h2 (insert (rnode ?b) (owned ?L1))" by auto
  let ?L2 = "?L1(free_list sample_cache \<mapsto> [rnode ?b])" and ?H = "(\<lambda>_. [])(?i := [?b])" and ?c = "set_bnodes h2 sample_buffer"
  have o2: "owned ?L2 = insert (rnode ?b) (insert (hnode ?b) (owned L0))"
    using owned_upd_split [of ?L1 "free_list sample_cache" "[]" "[]" "rnode ?b"] f1 o1 by simp
  have ca: "cached ?H c \<longleftrightarrow> c = ?b" for c by (auto simp: cached_def)
  have g: "hash_list sample_buffer j = hash_list sample_cache j" "free_list sample_buffer = free_list sample_cache"
    "wait_list sample_buffer = wait_list sample_cache" "unborn sample_buffer a \<longleftrightarrow> 0x800040 \<le> a \<and> a < BUFFER_END" for j a
    by (simp_all add: sample_buffer_def set_kern_def hash_list_def unborn_def)
  have u0: "a \<notin> owned ?L2 \<and> node_free h2 a" if "0x800040 \<le> a" "a < BUFFER_END" for a
  proof -
    have ua: "unborn sample_cache a" "a \<noteq> hnode ?b" "a \<noteq> rnode ?b"
      using that by (auto simp: unborn_def sample_cache_def KERNEL_BUFFER_BASE_def hnode_def rnode_def word_le_nat_alt)
    then have no: "a \<notin> owned ?L2" "a \<notin> insert (hnode ?b) (owned L0)" using B0(11) [OF ua(1)] by (auto simp: o2)
    then have "node_free h2 a = node_free h0 a"
      using klist.frame_free [OF h2(2), of a] klist.frame_free [OF h1(2), of a] unfolding o1 o2 by auto
    then show ?thesis using no(1) B0(12) [OF ua(1)] by simp
  qed
  have "cache_lists ?c ?L2 ?H [?b]"
    unfolding cache_lists_def buf_state_simps g
  proof (intro conjI allI impI)
    fix j assume j: "j < HASH_COUNT"
    show "?L2 (hash_list sample_cache j) = Some (map hnode (?H j))"
      using c0(2,3) [OF j] hash_list_inj [OF j hash_less, of sample_cache 3 2] by auto
    show "hash_list sample_cache j \<notin> {free_list sample_cache, wait_list sample_cache}" using c0(3,4) [OF j] by simp
  qed (use h2(1) c0(4) [of ?i] c0(8) w0 in auto)
  moreover have "cache_bufs ?c ?L2 ?H [?b]"
    unfolding cache_bufs_def buf_state_simps g ca
    using u0 un(5) by (auto simp: sample_pool_simps key_of_def rnode_def word_le_nat_alt BUFFER_END_def KERNEL_BUFFER_BASE_def
        sample_buffer_def set_kern_def sample_cache_def KERNEL_BUFFER_SIZE_def BLOCK_SIZE_def split: if_splits)
  ultimately have ok: "cache_ok ?c ?L2 ?H [?b]" by (simp add: cache_ok_def)
  have ends: "\<forall>a \<in> set (ends (sentinels sample_cache)). a \<notin> owned sample_queues"
    using sample_cache_fresh unfolding cache_fresh_def by blast
  have q: "0x21010 \<in> owned sample_queues" by (simp add: sample_queues_owned)
  have not_end: "l \<noteq> 0x21010" if "l \<in> set (sentinels sample_cache)" for l
    using ends that q by (auto simp: ends_def list_head_def)
  have sen: "free_list sample_cache \<in> set (sentinels sample_cache)" "wait_list sample_cache \<in> set (sentinels sample_cache)"
    "j < HASH_COUNT \<Longrightarrow> hash_list sample_cache j \<in> set (sentinels sample_cache)" for j
    unfolding sentinels_def using hash_list_sentinel [of j sample_cache] by (simp_all del: upt_Suc set_map set_upt)
  have ol: "free_list sample_cache \<noteq> 0x21010" "wait_list sample_cache \<noteq> 0x21010" "j < HASH_COUNT \<Longrightarrow> hash_list sample_cache j \<noteq> 0x21010" for j
    using not_end sen by blast+
  have other: "other_list ?c 0x21010" using ol unfolding other_list_def buf_state_simps g by metis
  have "L0 0x21010 = Some []" using q0 by (simp add: sample_queues_def)
  then have l: "?L2 0x21010 = Some []" using ol(1) ol(3) [OF hash_less, of 3 2] by auto
  have pool: "pool_ok (sample_pool h2) ?L2 ?H [?b] 3 0 []"
    unfolding pool_ok_def sample_pool_simps using ok other l by simp
  have "0x25044 \<notin> set (ends (sentinels sample_cache))"
    by (simp add: ends_def sentinels_def hash_list_def sample_cache_def HASH_COUNT_def upt_rec list_head_def list_tail_def)
  then have "0x25044 \<notin> owned ?L2" unfolding o2 o0 sample_queues_owned by (simp add: hnode_def rnode_def)
  moreover have "other_node ?c ?H 0x25044"
    unfolding other_node_def buf_state_simps g ca by (simp add: rnode_def word_le_nat_alt)
  ultimately have "free_entry (sample_pool h2) ?L2 ?H 1"
    unfolding free_entry_def sample_pool_simps by (simp add: INODE_NR_def)
  moreover have "?L2 (wait_list sample_buffer) = Some []" using w0 c0(4) [of ?i] c0(8) by (auto simp: g)
  ultimately show ?thesis using pool by blast
qed

theorem iget_iput_roundtrip_witness:
  "\<exists>h x1 x2. iget (\<lambda>_ _ _ _ _ _ _. None) 3 1 (sample_pool h) = Some (Done 1, x1) \<and> i_desc (inodes x1 ! 1) = 0xa00000 \<and>
     iput (\<lambda>_ _ _ _ _ _ _. None) (Some 1) x1 = Some (Done (), x2) \<and> i_dev (inodes x2 ! 1) = EOF"
proof -
  from sample_pool_ok obtain h L H where
    h: "pool_ok (sample_pool h) L H [0x800000] 3 0 []" "free_entry (sample_pool h) L H 1" "L (wait_list sample_buffer) = Some []" by blast
  have b: "0x800000 \<in> set [0x800000 :: addr]" "key_of (cache (sample_pool h)) 0x800000 = (3, inode_block 0 1 (sample_pool h))"
    "b_valid (bufs (cache (sample_pool h)) 0x800000)" "L (wait_list (cache (sample_pool h))) = Some []"
    using h(3) by (simp_all add: sample_pool_simps key_of_def)
  have n: "1 \<le> (ucast (sd_ninodes (fmem (sample_pool h)) (sdesc (sample_pool h) 0)) :: u32)" unfolding sample_pool_simps(9) by simp
  have d: "b_data (bufs (cache (sample_pool h)) 0x800000) = 0xa00000" by (simp add: sample_pool_simps)
  from iget_iput_roundtrip [OF h(1) _ h(2) _ n b, of "\<lambda>_ _ _ _ _ _ _. None", unfolded d] show ?thesis by auto
qed

end
