(* ===== verification/Ports.thy ===== *)
theory Ports
  imports Prelude
begin

text \<open>
  The I/O ports: \<^verbatim>\<open>inb\<close>, \<^verbatim>\<open>outb\<close>, \<^verbatim>\<open>inw\<close> and \<^verbatim>\<open>outw\<close> of \<^verbatim>\<open>kernel/io.asm\<close>. The devices behind the ports are a
  parameter \<open>hw\<close>: the value a read returns depends on the port and on all accesses made before, in order.
\<close>

datatype io = Out u16 u16 | In u16

type_synonym ports = "io list"

type_synonym hardware = "ports \<Rightarrow> u16 \<Rightarrow> u16"

definition inw :: "hardware \<Rightarrow> u16 \<Rightarrow> ports \<Rightarrow> u16 \<times> ports" where
  "inw hw port p = (hw p port, p @ [In port])"

definition inb :: "hardware \<Rightarrow> u16 \<Rightarrow> ports \<Rightarrow> u8 \<times> ports" where
  "inb hw port p = (let (v, p) = inw hw port p in (ucast v, p))"

definition outw :: "u16 \<Rightarrow> u16 \<Rightarrow> ports \<Rightarrow> ports" where
  "outw port v p = p @ [Out port v]"

definition outb :: "u16 \<Rightarrow> u8 \<Rightarrow> ports \<Rightarrow> ports" where
  "outb port v p = outw port (ucast v) p"

text \<open>The writes of a list of pairs of port and byte, as \<^verbatim>\<open>send_eoi\<close> makes them.\<close>

definition outs :: "(u16 \<times> u8) list \<Rightarrow> ports \<Rightarrow> ports" where
  "outs ws p = p @ map (\<lambda>(a, v). Out a (ucast v)) ws"

end
