(* ===== verification/Vsprintf.thy ===== *)
theory Vsprintf
  imports Kstring
begin

text \<open>
  Formatted output: \<^verbatim>\<open>lib/vsprintf.c\<close>, with \<^verbatim>\<open>va_arg\<close> of \<^verbatim>\<open>stdarg.h\<close>. The format is the list of its
  characters without the terminator, the output the list of the characters written from \<^verbatim>\<open>buf\<close>
  on. \<open>args i\<close> is the \<open>i\<close>-th word of the caller's stack after the format; strings are read from the memory,
  which the output buffer is not part of. The \<^verbatim>\<open>int\<close> variables are integers (an overflow of a width is
  undefined in C).
\<close>

unbundle bit_operations_syntax

section \<open>Numbers\<close>

definition ZEROPAD :: u32 where "ZEROPAD = 1"
definition SIGN :: u32 where "SIGN = 2"
definition PLUS :: u32 where "PLUS = 4"
definition SPACE :: u32 where "SPACE = 8"
definition LEFT :: u32 where "LEFT = 8"
definition SPECIAL :: u32 where "SPECIAL = 16"
definition SMALL :: u32 where "SMALL = 32"

definition has :: "u32 \<Rightarrow> u32 \<Rightarrow> bool" where "has flags f \<longleftrightarrow> flags AND f \<noteq> 0"

definition is_digit :: "u8 \<Rightarrow> bool" where "is_digit c \<longleftrightarrow> 48 \<le> c \<and> c \<le> 57"

text \<open>The value and the rest of the format.\<close>

fun skip_atoi :: "int \<Rightarrow> u8 list \<Rightarrow> int \<times> u8 list" where
  "skip_atoi i [] = (i, [])"
| "skip_atoi i (c # cs) = (if is_digit c then skip_atoi (i * 10 + sint c - 48) cs else (i, c # cs))"

text \<open>Entry \<open>k\<close> of the table \<^verbatim>\<open>digits\<close>, in capitals or small letters.\<close>

definition digit :: "bool \<Rightarrow> nat \<Rightarrow> u8" where
  "digit small k = (if k < 10 then 48 + of_nat k else (if small then 87 else 55) + of_nat k)"

text \<open>The loop that fills \<^verbatim>\<open>tmp\<close>, the last digit first. \<^verbatim>\<open>number\<close> calls it with a base from 2 on.\<close>

function digits_loop :: "bool \<Rightarrow> u32 \<Rightarrow> u32 \<Rightarrow> u8 list" where
  "digits_loop small base num =
     (if num = 0 \<or> base < 2 then [] else digit small (unat (num mod base)) # digits_loop small base (num div base))"
  by pat_completeness auto

lemma digits_smaller:
  assumes "num \<noteq> 0" and "\<not> base < (2 :: u32)"
  shows "unat (num div base) < unat num"
proof -
  have "1 < unat base" using assms(2) by (simp add: not_less word_le_nat_alt)
  moreover have "0 < unat num" using assms(1) by (simp add: unat_gt_0)
  ultimately show ?thesis by (simp add: unat_div)
qed

termination digits_loop
  by (relation "measure (\<lambda>(_, _, num). unat num)") (auto simp: digits_smaller)

declare digits_loop.simps [simp del]

lemma digits_loop_0 [simp]: "digits_loop small base 0 = []"
  by (subst digits_loop.simps) simp

text \<open>The loop \<^verbatim>\<open>while (size-- > 0) *str++ = c;\<close>: what it writes and the value it leaves in \<^verbatim>\<open>size\<close>.\<close>

definition pad :: "int \<Rightarrow> u8 \<Rightarrow> u8 list \<times> int" where
  "pad sz c = (List.replicate (nat sz) c, min sz 0 - 1)"

text \<open>
  \<^verbatim>\<open>number\<close> returns \<open>NULL\<close> for a base it cannot print, which the caller then writes through. The comparison
  \<open>num < 0\<close> is one of unsigned numbers, as in the code; the statement \<^verbatim>\<open>flags & ~ZEROPAD;\<close> has no effect.
\<close>

definition number :: "u32 \<Rightarrow> u32 \<Rightarrow> int \<Rightarrow> int \<Rightarrow> u32 \<Rightarrow> u8 list option" where
  "number num base sz precision flags = do {
     assert_c (2 \<le> base \<and> base \<le> 36);
     let small = has flags SMALL;
     let c = (if has flags ZEROPAD then 48 else 32);
     let neg = (has flags SIGN \<and> num < 0);
     let sign = (if neg then [45] else if has flags PLUS then [43] else if has flags SPACE then [32] else []);
     let num = (if neg then - num else num);
     let sz = (if sign \<noteq> [] then sz - 1 else sz);
     let sz = (if has flags SPECIAL then if base = 16 then sz - 2 else if base = 8 then sz - 1 else sz else sz);
     let tmp = (if num = 0 then [48] else digits_loop small base num);
     let i = int (length tmp);
     let precision = (if i > precision then i else precision);
     let sz = sz - precision;
     let (pad1, sz) = (if \<not> has flags (ZEROPAD OR LEFT) then pad sz 32 else ([], sz));
     let special = (if has flags SPECIAL then if base = 8 then [48] else if base = 16 then [48, digit small 33] else [] else []);
     let (pad2, sz) = (if \<not> has flags LEFT then pad sz c else ([], sz));
     let (pad3, sz) = pad sz 32;
     Some (pad1 @ sign @ special @ pad2 @ List.replicate (nat (precision - i)) 48 @ rev tmp @ pad3) }"

section \<open>Formats\<close>

definition peek :: "u8 list \<Rightarrow> u8" where "peek fmt = (case fmt of [] \<Rightarrow> 0 | c # _ \<Rightarrow> c)"

text \<open>The flags after a \<^verbatim>\<open>%\<close>.\<close>

fun parse_flags :: "u32 \<Rightarrow> u8 list \<Rightarrow> u32 \<times> u8 list" where
  "parse_flags flags [] = (flags, [])"
| "parse_flags flags (c # cs) =
     (if c = 45 then parse_flags (flags OR LEFT) cs
      else if c = 43 then parse_flags (flags OR PLUS) cs
      else if c = 32 then parse_flags (flags OR SPACE) cs
      else if c = 35 then parse_flags (flags OR SPECIAL) cs
      else if c = 48 then parse_flags (flags OR ZEROPAD) cs
      else (flags, c # cs))"

text \<open>The width: its value, the flags, the rest of the format and the next argument.\<close>

definition parse_width :: "(nat \<Rightarrow> u32) \<Rightarrow> u32 \<Rightarrow> u8 list \<Rightarrow> nat \<Rightarrow> int \<times> u32 \<times> u8 list \<times> nat" where
  "parse_width args flags fmt ap =
     (if is_digit (peek fmt) then let (w, fmt) = skip_atoi 0 fmt in (w, flags, fmt, ap)
      else if peek fmt = 42
      then let w = sint (args ap) in if w < 0 then (- w, flags OR LEFT, tl fmt, ap + 1) else (w, flags, tl fmt, ap + 1)
      else (- 1, flags, fmt, ap))"

definition parse_precision :: "(nat \<Rightarrow> u32) \<Rightarrow> u8 list \<Rightarrow> nat \<Rightarrow> int \<times> u8 list \<times> nat" where
  "parse_precision args fmt ap =
     (if peek fmt = 46
      then let fmt = tl fmt;
             (p, fmt, ap) = (if is_digit (peek fmt) then let (p, fmt) = skip_atoi 0 fmt in (p, fmt, ap)
                             else if peek fmt = 42 then (sint (args ap), tl fmt, ap + 1)
                             else (- 1, fmt, ap))
           in (if p < 0 then 0 else p, fmt, ap)
      else (- 1, fmt, ap))"

definition parse_qualifier :: "u8 list \<Rightarrow> u8 list" where
  "parse_qualifier fmt = (if peek fmt = 104 \<or> peek fmt = 108 \<or> peek fmt = 76 then tl fmt else fmt)"

text \<open>The conversions of a character and of a string.\<close>

definition conv_char :: "u32 \<Rightarrow> int \<Rightarrow> u32 \<Rightarrow> u8 list" where
  "conv_char arg w flags =
     (let (pad1, w) = (if \<not> has flags LEFT then (List.replicate (nat (w - 1)) 32, min (w - 1) 0) else ([], w))
      in pad1 @ [ucast arg] @ List.replicate (nat (w - 1)) 32)"

definition conv_string :: "mem \<Rightarrow> addr \<Rightarrow> int \<Rightarrow> int \<Rightarrow> u32 \<Rightarrow> u8 list option" where
  "conv_string m s w precision flags = do {
     l \<leftarrow> strlen m s;
     let len = (if precision < 0 then sint l else precision);
     let (pad1, w) = (if \<not> has flags LEFT then (List.replicate (nat (w - len)) 32, min w len - 1) else ([], w));
     Some (pad1 @ map (\<lambda>i. m (s + of_nat i)) [0 ..< nat len] @ List.replicate (nat (w - len)) 32) }"

text \<open>
  One conversion, from the character after the \<^verbatim>\<open>%\<close>: the output, the memory (\<^verbatim>\<open>%n\<close> writes the number \<open>n\<close> of
  characters so far, through a \<^verbatim>\<open>char *\<close>), the rest of the format and the next argument.
\<close>

definition conversion :: "(nat \<Rightarrow> u32) \<Rightarrow> nat \<Rightarrow> mem \<Rightarrow> u8 list \<Rightarrow> nat \<Rightarrow> (u8 list \<times> mem \<times> u8 list \<times> nat) option" where
  "conversion args n m fmt ap = (
     let (flags, fmt) = parse_flags 0 fmt;
       (w, flags, fmt, ap) = parse_width args flags fmt ap;
       (precision, fmt, ap) = parse_precision args fmt ap;
       fmt = parse_qualifier fmt;
       c = peek fmt;
       next = map_option (\<lambda>out. (out, m, tl fmt, ap + 1))
     in if c = 99 then next (Some (conv_char (args ap) w flags))
        else if c = 115 then next (conv_string m (args ap) w precision flags)
        else if c = 111 then next (number (args ap) 8 w precision flags)
        else if c = 112
        then let (w, flags) = (if w = - 1 then (8, flags OR ZEROPAD) else (w, flags)) in next (number (args ap) 16 w precision flags)
        else if c = 120 then next (number (args ap) 16 w precision (flags OR SMALL))
        else if c = 88 then next (number (args ap) 16 w precision flags)
        else if c = 100 \<or> c = 105 then next (number (args ap) 10 w precision (flags OR SIGN))
        else if c = 117 then next (number (args ap) 10 w precision flags)
        else if c = 110 then Some ([], m(args ap := of_nat n), tl fmt, ap + 1)
        else Some ((if c \<noteq> 37 then [37] else []) @ (if c \<noteq> 0 then [c] else []), m, tl fmt, ap))"

lemma parse_lengths:
  "length (snd (skip_atoi i fmt)) \<le> length fmt"
  by (induction i fmt rule: skip_atoi.induct) auto

lemma parse_flags_length: "length (snd (parse_flags flags fmt)) \<le> length fmt"
  by (induction flags fmt rule: parse_flags.induct) auto

lemma parse_width_length: "parse_width args flags fmt ap = (w, flags', fmt', ap') \<Longrightarrow> length fmt' \<le> length fmt"
  using parse_lengths [of 0 fmt] by (auto simp: parse_width_def Let_def split: if_splits prod.splits)

lemma parse_precision_length:
  "parse_precision args fmt ap = (p, fmt', ap') \<Longrightarrow> length fmt' \<le> length fmt"
  using parse_lengths [of 0 "tl fmt"] by (auto simp: parse_precision_def Let_def split: if_splits prod.splits)

lemma conversion_length:
  assumes "conversion args n m fmt ap = Some (out, m', fmt', ap')"
  shows "length fmt' \<le> length fmt"
proof -
  obtain flags f1 where 1: "parse_flags 0 fmt = (flags, f1)" by fastforce
  obtain w flags2 f2 ap2 where 2: "parse_width args flags f1 ap = (w, flags2, f2, ap2)" by (metis prod_cases4)
  obtain p f3 ap3 where 3: "parse_precision args f2 ap2 = (p, f3, ap3)" by (metis prod_cases3)
  have "fmt' = tl (parse_qualifier f3)"
    using assms by (auto simp: conversion_def Let_def 1 2 3 split: if_splits)
  then have "length fmt' \<le> length f3" by (simp add: parse_qualifier_def split: if_splits)
  with parse_flags_length [of 0 fmt] parse_width_length [OF 2] parse_precision_length [OF 3] show ?thesis by (simp add: 1)
qed

text \<open>The loop over the format, with the output so far.\<close>

function vsprintf_loop :: "(nat \<Rightarrow> u32) \<Rightarrow> u8 list \<Rightarrow> u8 list \<Rightarrow> mem \<Rightarrow> nat \<Rightarrow> (u8 list \<times> mem) option" where
  "vsprintf_loop args out [] m ap = Some (out, m)"
| "vsprintf_loop args out (c # fmt) m ap =
     (if c \<noteq> 37 then vsprintf_loop args (out @ [c]) fmt m ap
      else case conversion args (length out) m fmt ap of
        None \<Rightarrow> None
      | Some (new, m', fmt', ap') \<Rightarrow> vsprintf_loop args (out @ new) fmt' m' ap')"
  by pat_completeness auto

termination vsprintf_loop
  by (relation "measure (\<lambda>(_, _, fmt, _, _). length fmt)") (auto dest: conversion_length)

text \<open>The length is checked only after the characters are written.\<close>

definition vsprintf :: "(nat \<Rightarrow> u32) \<Rightarrow> u8 list \<Rightarrow> mem \<Rightarrow> (u8 list \<times> mem) option" where
  "vsprintf args fmt m = do {
     (out, m) \<leftarrow> vsprintf_loop args [] fmt m 0;
     assert_c (length out < 1024);
     Some (out, m) }"

definition sprintf :: "addr \<Rightarrow> u8 list \<Rightarrow> (nat \<Rightarrow> u32) \<Rightarrow> mem \<Rightarrow> (u32 \<times> mem) option" where
  "sprintf buf fmt args m = do {
     (out, m) \<leftarrow> vsprintf args fmt m;
     Some (of_nat (length out), \<lambda>a. if unat (a - buf) < length out then out ! unat (a - buf) else if unat (a - buf) = length out then 0 else m a) }"

section \<open>The printed number\<close>

text \<open>The value of a list of digit characters, most significant first.\<close>

definition digit_value :: "u8 \<Rightarrow> nat" where
  "digit_value c = (if c \<le> 57 then unat c - 48 else if c \<le> 90 then unat c - 55 else unat c - 87)"

definition value_of :: "nat \<Rightarrow> u8 list \<Rightarrow> nat" where
  "value_of base ds = foldl (\<lambda>v c. v * base + digit_value c) 0 ds"

lemma digit_value_digit: "k < 36 \<Longrightarrow> digit_value (digit small k) = k"
  by (auto simp: digit_value_def digit_def unat_of_nat word_le_nat_alt unat_word_ariths)

lemma value_of_snoc: "value_of b (ds @ [c]) = value_of b ds * b + digit_value c"
  by (simp add: value_of_def)

lemma unat_div_mod: "unat (x div b) * unat b + unat (x mod b) = unat (x :: u32)"
  by (simp add: unat_div unat_mod)

lemma digits_value:
  assumes "2 \<le> base" and "base \<le> 36"
  shows "value_of (unat base) (rev (digits_loop small base num)) = unat num \<and>
    (\<forall>c \<in> set (digits_loop small base num). \<exists>k < unat base. c = digit small k) \<and>
    (num \<noteq> 0 \<longrightarrow> digits_loop small base num \<noteq> [] \<and> last (digits_loop small base num) \<noteq> 48)"
  using assms
proof (induction small base num rule: digits_loop.induct)
  case (1 small base num)
  show ?case
  proof (cases "num = 0")
    case True
    then show ?thesis by (simp add: digits_loop.simps value_of_def)
  next
    case False
    have b: "unat base \<le> 36" "0 < unat base" using 1(2,3) by (simp_all add: word_le_nat_alt)
    have k: "unat (num mod base) < unat base" using b(2) by (simp add: unat_mod)
    have d: "digits_loop small base num = digit small (unat (num mod base)) # digits_loop small base (num div base)"
      using False 1(2) by (subst digits_loop.simps) simp
    note IH = 1(1) [OF _ 1(2,3)]
    have "\<not> (num = 0 \<or> base < 2)" using False 1(2) by simp
    note IH = 1(1) [OF this 1(2,3)]
    have "value_of (unat base) (rev (digits_loop small base num)) = unat num"
      using IH k b unat_div_mod [of num base] by (simp add: d value_of_snoc digit_value_digit)
    moreover have "last (digits_loop small base num) \<noteq> 48"
    proof (cases "num div base = 0")
      case True
      then have "unat (num mod base) = unat num" using unat_div_mod [of num base] by simp
      with False have "num mod base \<noteq> 0" by (metis unat_0 unat_eq_0)
      then have "0 < unat (num mod base)" by (simp add: unat_gt_0)
      then have "digit_value (digit small (unat (num mod base))) \<noteq> 0" using k b by (simp add: digit_value_digit)
      then have "digit small (unat (num mod base)) \<noteq> 48" by (auto simp: digit_value_def)
      moreover have "digits_loop small base (num div base) = []" using True by (subst digits_loop.simps) simp
      ultimately show ?thesis by (simp add: d)
    qed (use IH in \<open>simp add: d\<close>)
    ultimately show ?thesis using IH k by (auto simp: d)
  qed
qed

lemma number_left: "has flags LEFT \<Longrightarrow> has flags (ZEROPAD OR LEFT)"
proof -
  have "flags AND LEFT = (flags AND (ZEROPAD OR LEFT)) AND LEFT" by (simp add: ZEROPAD_def LEFT_def and.assoc)
  then show "has flags LEFT \<Longrightarrow> has flags (ZEROPAD OR LEFT)" by (auto simp: has_def)
qed

text \<open>The parts of the output in order; \<open>sz3\<close> is what is left of the width for padding.\<close>

lemma number_parts:
  fixes num base flags :: u32 and w p :: int
  assumes "2 \<le> base" and "base \<le> 36"
  defines "ds \<equiv> rev (if num = 0 then [48] else digits_loop (has flags SMALL) base num)"
    and "sign \<equiv> (if has flags PLUS then [43] else if has flags SPACE then [32 :: u8] else [])"
    and "special \<equiv> (if has flags SPECIAL then if base = 8 then [48] else if base = 16 then [48, digit (has flags SMALL) 33] else [] else [])"
  defines "prec \<equiv> max p (int (length ds))"
  defines "sz3 \<equiv> w - int (length sign) - int (length special) - prec"
  shows "number num base w p flags = Some
    ((if \<not> has flags (ZEROPAD OR LEFT) then List.replicate (nat sz3) 32 else []) @ sign @ special @
     (if has flags (ZEROPAD OR LEFT) \<and> \<not> has flags LEFT then List.replicate (nat sz3) (if has flags ZEROPAD then 48 else 32) else []) @
     List.replicate (nat (prec - int (length ds))) 48 @ ds @
     (if has flags LEFT then List.replicate (nat sz3) 32 else []))"
proof -
  show ?thesis
    using assms(1,2) number_left [of flags]
    by (cases "has flags LEFT"; cases "has flags (ZEROPAD OR LEFT)")
      (auto simp: number_def Let_def pad_def ds_def sign_def special_def prec_def sz3_def max_def)
qed



lemma digits_length:
  assumes "2 \<le> base" and "unat num < 2 ^ k"
  shows "length (digits_loop small base num) \<le> k"
  using assms(2)
proof (induction k arbitrary: num)
  case 0
  then have "num = 0" by (simp add: unat_eq_0)
  then show ?case by simp
next
  case (Suc k)
  show ?case
  proof (cases "num = 0")
    case False
    have "2 \<le> unat base" using assms(1) by (simp add: word_le_nat_alt)
    then have "unat num div unat base \<le> unat num div 2" by (simp add: div_le_mono2)
    also have "\<dots> < 2 ^ k" using Suc.prems by (simp add: less_mult_imp_div_less)
    finally have "length (digits_loop small base (num div base)) \<le> k" by (intro Suc.IH) (simp add: unat_div)
    with False assms(1) show ?thesis by (subst digits_loop.simps) simp
  qed simp
qed



end
