(* ===== verification/Keys.thy ===== *)
theory Keys
  imports Prelude
begin

text \<open>
  The keys of \<^verbatim>\<open>kernel/keyboard.c\<close>: the scan codes of \<^verbatim>\<open>key_t\<close> and the characters of \<^verbatim>\<open>keymap\<close>.
\<close>

section \<open>Scan codes\<close>

definition KEY_ESC :: nat where "KEY_ESC = 0x01"
definition KEY_1 :: nat where "KEY_1 = 0x02"
definition KEY_2 :: nat where "KEY_2 = 0x03"
definition KEY_3 :: nat where "KEY_3 = 0x04"
definition KEY_4 :: nat where "KEY_4 = 0x05"
definition KEY_5 :: nat where "KEY_5 = 0x06"
definition KEY_6 :: nat where "KEY_6 = 0x07"
definition KEY_7 :: nat where "KEY_7 = 0x08"
definition KEY_8 :: nat where "KEY_8 = 0x09"
definition KEY_9 :: nat where "KEY_9 = 0x0a"
definition KEY_0 :: nat where "KEY_0 = 0x0b"
definition KEY_MINUS :: nat where "KEY_MINUS = 0x0c"
definition KEY_EQUAL :: nat where "KEY_EQUAL = 0x0d"
definition KEY_BACKSPACE :: nat where "KEY_BACKSPACE = 0x0e"
definition KEY_TAB :: nat where "KEY_TAB = 0x0f"
definition KEY_Q :: nat where "KEY_Q = 0x10"
definition KEY_W :: nat where "KEY_W = 0x11"
definition KEY_E :: nat where "KEY_E = 0x12"
definition KEY_R :: nat where "KEY_R = 0x13"
definition KEY_T :: nat where "KEY_T = 0x14"
definition KEY_Y :: nat where "KEY_Y = 0x15"
definition KEY_U :: nat where "KEY_U = 0x16"
definition KEY_I :: nat where "KEY_I = 0x17"
definition KEY_O :: nat where "KEY_O = 0x18"
definition KEY_P :: nat where "KEY_P = 0x19"
definition KEY_BRACKET_L :: nat where "KEY_BRACKET_L = 0x1a"
definition KEY_BRACKET_R :: nat where "KEY_BRACKET_R = 0x1b"
definition KEY_ENTER :: nat where "KEY_ENTER = 0x1c"
definition KEY_CTRL_L :: nat where "KEY_CTRL_L = 0x1d"
definition KEY_A :: nat where "KEY_A = 0x1e"
definition KEY_S :: nat where "KEY_S = 0x1f"
definition KEY_D :: nat where "KEY_D = 0x20"
definition KEY_F :: nat where "KEY_F = 0x21"
definition KEY_G :: nat where "KEY_G = 0x22"
definition KEY_H :: nat where "KEY_H = 0x23"
definition KEY_J :: nat where "KEY_J = 0x24"
definition KEY_K :: nat where "KEY_K = 0x25"
definition KEY_L :: nat where "KEY_L = 0x26"
definition KEY_SEMICOLON :: nat where "KEY_SEMICOLON = 0x27"
definition KEY_QUOTE :: nat where "KEY_QUOTE = 0x28"
definition KEY_BACKQUOTE :: nat where "KEY_BACKQUOTE = 0x29"
definition KEY_SHIFT_L :: nat where "KEY_SHIFT_L = 0x2a"
definition KEY_BACKSLASH :: nat where "KEY_BACKSLASH = 0x2b"
definition KEY_Z :: nat where "KEY_Z = 0x2c"
definition KEY_X :: nat where "KEY_X = 0x2d"
definition KEY_C :: nat where "KEY_C = 0x2e"
definition KEY_V :: nat where "KEY_V = 0x2f"
definition KEY_B :: nat where "KEY_B = 0x30"
definition KEY_N :: nat where "KEY_N = 0x31"
definition KEY_M :: nat where "KEY_M = 0x32"
definition KEY_COMMA :: nat where "KEY_COMMA = 0x33"
definition KEY_POINT :: nat where "KEY_POINT = 0x34"
definition KEY_SLASH :: nat where "KEY_SLASH = 0x35"
definition KEY_SHIFT_R :: nat where "KEY_SHIFT_R = 0x36"
definition KEY_STAR :: nat where "KEY_STAR = 0x37"
definition KEY_ALT_L :: nat where "KEY_ALT_L = 0x38"
definition KEY_SPACE :: nat where "KEY_SPACE = 0x39"
definition KEY_CAPSLOCK :: nat where "KEY_CAPSLOCK = 0x3a"
definition KEY_F1 :: nat where "KEY_F1 = 0x3b"
definition KEY_F2 :: nat where "KEY_F2 = 0x3c"
definition KEY_F3 :: nat where "KEY_F3 = 0x3d"
definition KEY_F4 :: nat where "KEY_F4 = 0x3e"
definition KEY_F5 :: nat where "KEY_F5 = 0x3f"
definition KEY_F6 :: nat where "KEY_F6 = 0x40"
definition KEY_F7 :: nat where "KEY_F7 = 0x41"
definition KEY_F8 :: nat where "KEY_F8 = 0x42"
definition KEY_F9 :: nat where "KEY_F9 = 0x43"
definition KEY_F10 :: nat where "KEY_F10 = 0x44"
definition KEY_NUMLOCK :: nat where "KEY_NUMLOCK = 0x45"
definition KEY_SCRLOCK :: nat where "KEY_SCRLOCK = 0x46"
definition KEY_PAD_7 :: nat where "KEY_PAD_7 = 0x47"
definition KEY_PAD_8 :: nat where "KEY_PAD_8 = 0x48"
definition KEY_PAD_9 :: nat where "KEY_PAD_9 = 0x49"
definition KEY_PAD_MINUS :: nat where "KEY_PAD_MINUS = 0x4a"
definition KEY_PAD_4 :: nat where "KEY_PAD_4 = 0x4b"
definition KEY_PAD_5 :: nat where "KEY_PAD_5 = 0x4c"
definition KEY_PAD_6 :: nat where "KEY_PAD_6 = 0x4d"
definition KEY_PAD_PLUS :: nat where "KEY_PAD_PLUS = 0x4e"
definition KEY_PAD_1 :: nat where "KEY_PAD_1 = 0x4f"
definition KEY_PAD_2 :: nat where "KEY_PAD_2 = 0x50"
definition KEY_PAD_3 :: nat where "KEY_PAD_3 = 0x51"
definition KEY_PAD_0 :: nat where "KEY_PAD_0 = 0x52"
definition KEY_PAD_POINT :: nat where "KEY_PAD_POINT = 0x53"
definition KEY_F11 :: nat where "KEY_F11 = 0x57"
definition KEY_F12 :: nat where "KEY_F12 = 0x58"
definition KEY_WIN_L :: nat where "KEY_WIN_L = 0x5b"
definition KEY_WIN_R :: nat where "KEY_WIN_R = 0x5c"
definition KEY_CLIPBOARD :: nat where "KEY_CLIPBOARD = 0x5d"
definition KEY_PRINT_SCREEN :: nat where "KEY_PRINT_SCREEN = 0xb7"

section \<open>The key map\<close>

text \<open>
  \<open>keymap_entries\<close> is the initialiser of \<^verbatim>\<open>keymap\<close>, one designator after the other, with the characters of each key alone and
  with shift. An entry that is named again overwrites the former one and an entry that is not named is zero, as in C; the
  initialiser names \<^verbatim>\<open>KEY_Q\<close> twice and never \<^verbatim>\<open>KEY_O\<close>. The array ends with its largest index, \<^verbatim>\<open>KEY_PRINT_SCREEN\<close>.
\<close>

definition INV :: u8 where "INV = 0"

abbreviation asc :: "char \<Rightarrow> u8" where "asc \<equiv> of_char"

definition keymap_entries :: "(nat \<times> u8 \<times> u8) list" where
  "keymap_entries = [
     (KEY_ESC, (0x1b, 0x1b)), (KEY_1, (asc CHR ''1'', asc CHR ''!'')), (KEY_2, (asc CHR ''2'', asc CHR ''@'')),
     (KEY_3, (asc CHR ''3'', asc CHR ''#'')), (KEY_4, (asc CHR ''4'', asc CHR ''$'')), (KEY_5, (asc CHR ''5'', asc CHR ''%'')),
     (KEY_6, (asc CHR ''6'', asc CHR ''^'')), (KEY_7, (asc CHR ''7'', asc CHR ''&'')), (KEY_8, (asc CHR ''8'', asc CHR ''*'')),
     (KEY_9, (asc CHR ''9'', asc CHR ''('')), (KEY_0, (asc CHR ''0'', asc CHR '')'')), (KEY_MINUS, (asc CHR ''-'', asc CHR ''_'')),
     (KEY_EQUAL, (asc CHR ''='', asc CHR ''+'')), (KEY_BACKSPACE, (0x8, 0x8)), (KEY_TAB, (0x9, 0x9)),
     (KEY_Q, (asc CHR ''q'', asc CHR ''Q'')), (KEY_W, (asc CHR ''w'', asc CHR ''W'')), (KEY_E, (asc CHR ''e'', asc CHR ''E'')),
     (KEY_R, (asc CHR ''r'', asc CHR ''R'')), (KEY_T, (asc CHR ''t'', asc CHR ''T'')), (KEY_Y, (asc CHR ''y'', asc CHR ''Y'')),
     (KEY_U, (asc CHR ''u'', asc CHR ''U'')), (KEY_I, (asc CHR ''i'', asc CHR ''I'')), (KEY_Q, (asc CHR ''q'', asc CHR ''Q'')),
     (KEY_P, (asc CHR ''p'', asc CHR ''P'')), (KEY_BRACKET_L, (asc CHR ''['', asc CHR ''{'')),
     (KEY_BRACKET_R, (asc CHR '']'', asc CHR ''}'')), (KEY_ENTER, (0xa, 0xa)), (KEY_CTRL_L, (INV, INV)),
     (KEY_A, (asc CHR ''a'', asc CHR ''A'')), (KEY_S, (asc CHR ''s'', asc CHR ''S'')), (KEY_D, (asc CHR ''d'', asc CHR ''D'')),
     (KEY_F, (asc CHR ''f'', asc CHR ''F'')), (KEY_G, (asc CHR ''g'', asc CHR ''G'')), (KEY_H, (asc CHR ''h'', asc CHR ''H'')),
     (KEY_J, (asc CHR ''j'', asc CHR ''J'')), (KEY_K, (asc CHR ''k'', asc CHR ''K'')), (KEY_L, (asc CHR ''l'', asc CHR ''L'')),
     (KEY_SEMICOLON, (asc CHR '';'', asc CHR '':'')), (KEY_QUOTE, (0x27, 0x22)), (KEY_BACKQUOTE, (asc CHR ''`'', asc CHR ''~'')),
     (KEY_SHIFT_L, (INV, INV)), (KEY_BACKSLASH, (0x5c, asc CHR ''|'')), (KEY_Z, (asc CHR ''z'', asc CHR ''Z'')),
     (KEY_X, (asc CHR ''x'', asc CHR ''X'')), (KEY_C, (asc CHR ''c'', asc CHR ''C'')), (KEY_V, (asc CHR ''v'', asc CHR ''V'')),
     (KEY_B, (asc CHR ''b'', asc CHR ''B'')), (KEY_N, (asc CHR ''n'', asc CHR ''N'')), (KEY_M, (asc CHR ''m'', asc CHR ''M'')),
     (KEY_COMMA, (asc CHR '','', asc CHR ''<'')), (KEY_POINT, (asc CHR ''.'', asc CHR ''>'')),
     (KEY_SLASH, (asc CHR ''/'', asc CHR ''?'')), (KEY_SHIFT_R, (INV, INV)), (KEY_STAR, (asc CHR ''*'', asc CHR ''*'')),
     (KEY_ALT_L, (INV, INV)), (KEY_SPACE, (asc CHR '' '', asc CHR '' '')), (KEY_CAPSLOCK, (INV, INV)), (KEY_F1, (INV, INV)),
     (KEY_F2, (INV, INV)), (KEY_F3, (INV, INV)), (KEY_F4, (INV, INV)), (KEY_F5, (INV, INV)), (KEY_F6, (INV, INV)), (KEY_F7, (INV, INV)),
     (KEY_F8, (INV, INV)), (KEY_F9, (INV, INV)), (KEY_F10, (INV, INV)), (KEY_NUMLOCK, (INV, INV)), (KEY_SCRLOCK, (INV, INV)),
     (KEY_PAD_7, (asc CHR ''7'', INV)), (KEY_PAD_8, (asc CHR ''8'', INV)), (KEY_PAD_9, (asc CHR ''9'', INV)),
     (KEY_PAD_MINUS, (asc CHR ''-'', asc CHR ''-'')), (KEY_PAD_4, (asc CHR ''4'', INV)), (KEY_PAD_5, (asc CHR ''5'', INV)),
     (KEY_PAD_6, (asc CHR ''6'', INV)), (KEY_PAD_PLUS, (asc CHR ''+'', asc CHR ''+'')), (KEY_PAD_1, (asc CHR ''1'', INV)),
     (KEY_PAD_2, (asc CHR ''2'', INV)), (KEY_PAD_3, (asc CHR ''3'', INV)), (KEY_PAD_0, (asc CHR ''0'', INV)),
     (KEY_PAD_POINT, (asc CHR ''.'', 0x7f)), (KEY_F11, (INV, INV)), (KEY_F12, (INV, INV)), (KEY_WIN_L, (INV, INV)),
     (KEY_WIN_R, (INV, INV)), (KEY_CLIPBOARD, (INV, INV)), (KEY_PRINT_SCREEN, (INV, INV))]"

definition keymap :: "(u8 \<times> u8) list" where
  "keymap = fold (\<lambda>(key, cs) m. m[key := cs]) keymap_entries (replicate (Suc KEY_PRINT_SCREEN) (0, 0))"

lemma keymap_table:
  "keymap = [
     (0, 0), (27, 27), (49, 33), (50, 64), (51, 35), (52, 36), (53, 37), (54, 94), (55, 38), (56, 42), (57, 40), (48, 41), (45, 95),
     (61, 43), (8, 8), (9, 9), (113, 81), (119, 87), (101, 69), (114, 82), (116, 84), (121, 89), (117, 85), (105, 73), (0, 0), (112, 80),
     (91, 123), (93, 125), (10, 10), (0, 0), (97, 65), (115, 83), (100, 68), (102, 70), (103, 71), (104, 72), (106, 74), (107, 75),
     (108, 76), (59, 58), (39, 34), (96, 126), (0, 0), (92, 124), (122, 90), (120, 88), (99, 67), (118, 86), (98, 66), (110, 78),
     (109, 77), (44, 60), (46, 62), (47, 63), (0, 0), (42, 42), (0, 0), (32, 32), (0, 0), (0, 0), (0, 0), (0, 0), (0, 0), (0, 0), (0, 0),
     (0, 0), (0, 0), (0, 0), (0, 0), (0, 0), (0, 0), (55, 0), (56, 0), (57, 0), (45, 45), (52, 0), (53, 0), (54, 0), (43, 43), (49, 0),
     (50, 0), (51, 0), (48, 0), (46, 127), (0, 0), (0, 0), (0, 0), (0, 0), (0, 0), (0, 0), (0, 0), (0, 0), (0, 0), (0, 0)] @ replicate 90 (0, 0)"
  by code_simp

text \<open>The second character of a letter key is the letter in upper case.\<close>

lemma keymap_letters:
  assumes "(a, b) \<in> set keymap" and "97 \<le> a" and "a \<le> 122"
  shows "b = a - 32"
proof -
  have "list_all (\<lambda>(a, b). 97 \<le> a \<and> a \<le> 122 \<longrightarrow> b = a - 32) keymap" by code_simp
  with assms show ?thesis by (auto simp: list_all_iff)
qed

end
