(* ===== verification/Keyboard.thy ===== *)
theory Keyboard
  imports Buffer Fifo Keys Ports
begin

text \<open>
  The keyboard: \<^verbatim>\<open>kernel/keyboard.c\<close>. The interrupt handler turns scan codes into characters and puts them
  into a ring buffer, from which \<^verbatim>\<open>keyboard_read\<close> takes them. The keyboard controller is the parameter \<open>hw\<close>.
\<close>

unbundle bit_operations_syntax

section \<open>Keys\<close>

definition keycap :: "nat \<Rightarrow> bool \<Rightarrow> u8" where
  "keycap code second = (if second then snd (keymap ! code) else fst (keymap ! code))"

definition isAlpha :: "u8 \<Rightarrow> bool" where
  "isAlpha c \<longleftrightarrow> (97 \<le> c \<and> c \<le> 122) \<or> (65 \<le> c \<and> c \<le> 90)"

section \<open>The state\<close>

record keyboard =
  capslock :: bool
  scrlock :: bool
  numlock :: bool
  extcode :: bool
  ctrl :: bool
  alt :: bool
  shift :: bool
  kb_lock :: addr
  kb_fifo :: fifo
  kb_buf :: addr
  kb_waiter :: addr

text \<open>\<open>pressed code\<close> are the two flags \<^verbatim>\<open>key_state\<close> of a key: pressed, and pressed with the extension byte.\<close>

record kbsys =
  kb :: keyboard
  pressed :: "nat \<Rightarrow> bool \<times> bool"
  kdev :: devsys
  klocks :: locks
  kports :: ports
  kpic :: pic
  ktable :: "nat \<rightharpoonup> addr"

abbreviation kkern :: "kbsys \<Rightarrow> kstate" where "kkern x \<equiv> kern (kdev x)"

definition set_kkern :: "kstate \<Rightarrow> kbsys \<Rightarrow> kbsys" where
  "set_kkern s x = x\<lparr>kdev := (kdev x)\<lparr>kern := s\<rparr>\<rparr>"

definition upd_kb :: "(keyboard \<Rightarrow> keyboard) \<Rightarrow> kbsys \<Rightarrow> kbsys" where
  "upd_kb f x = x\<lparr>kb := f (kb x)\<rparr>"

section \<open>The lamps\<close>

definition KEYBOARD_DATA_PORT :: u16 where "KEYBOARD_DATA_PORT = 0x60"
definition KEYBOARD_CTRL_PORT :: u16 where "KEYBOARD_CTRL_PORT = 0x64"
definition KEYBOARD_CMD_LED :: u8 where "KEYBOARD_CMD_LED = 0xED"
definition KEYBOARD_CMD_ACK :: u8 where "KEYBOARD_CMD_ACK = 0xFA"
definition KEYBOARD_CMD_RESEND :: u8 where "KEYBOARD_CMD_RESEND = 0xFE"
definition EXTCODE :: u16 where "EXTCODE = 0xe0"
definition BUFFER_SIZE :: u32 where "BUFFER_SIZE = 64"

partial_function (option) keyboard_output_wait :: "hardware \<Rightarrow> ports \<Rightarrow> ports option" where
  "keyboard_output_wait hw p = (let (st, p) = inb hw KEYBOARD_CTRL_PORT p
     in if st AND 1 = 0 then keyboard_output_wait hw p else Some p)"

partial_function (option) keyboard_input_wait :: "hardware \<Rightarrow> ports \<Rightarrow> ports option" where
  "keyboard_input_wait hw p = (let (st, p) = inb hw KEYBOARD_CTRL_PORT p
     in if st AND 2 \<noteq> 0 then keyboard_input_wait hw p else Some p)"

definition keyboard_cmd_respond :: "hardware \<Rightarrow> ports \<Rightarrow> u8 \<times> ports" where
  "keyboard_cmd_respond hw p = inb hw KEYBOARD_DATA_PORT p"

text \<open>A byte is sent again as long as the keyboard asks for it; the result is its other answer.\<close>

partial_function (option) send_loop :: "hardware \<Rightarrow> u8 \<Rightarrow> ports \<Rightarrow> (u8 \<times> ports) option" where
  "send_loop hw b p = do {
     p \<leftarrow> keyboard_input_wait hw p;
     let (st, p) = keyboard_cmd_respond hw (outb KEYBOARD_DATA_PORT b p);
     if st = KEYBOARD_CMD_RESEND then send_loop hw b p else Some (st, p) }"

definition keyboard_set_leds :: "hardware \<Rightarrow> keyboard \<Rightarrow> ports \<Rightarrow> ports option" where
  "keyboard_set_leds hw k p = do {
     let leds = (push_bit 2 (of_bool (capslock k)) OR push_bit 1 (of_bool (numlock k)) OR of_bool (scrlock k) :: u8);
     (st, p) \<leftarrow> send_loop hw KEYBOARD_CMD_LED p;
     assert_c (st = KEYBOARD_CMD_ACK);
     (st, p) \<leftarrow> send_loop hw leds p;
     keyboard_input_wait hw p }"

definition keyboard_new :: "hardware \<Rightarrow> kbsys \<Rightarrow> kbsys option" where
  "keyboard_new hw x = do {
     let x = upd_kb (\<lambda>k. k\<lparr>capslock := False, scrlock := False, numlock := False, extcode := False, ctrl := False,
       alt := False, shift := False\<rparr>) x;
     p \<leftarrow> keyboard_set_leds hw (kb x) (kports x);
     (k, s) \<leftarrow> mutexlock_init (kb_lock (kb x)) (klocks x) (kkern x);
     let x = set_kkern s (x\<lparr>kports := p, klocks := k\<rparr>);
     Some (upd_kb (\<lambda>k. k\<lparr>kb_fifo := fifo_init (kb_buf k) BUFFER_SIZE, kb_waiter := 0\<rparr>) x) }"

section \<open>The interrupt handler\<close>

definition set_pressed :: "nat \<Rightarrow> bool \<Rightarrow> bool \<Rightarrow> kbsys \<Rightarrow> kbsys" where
  "set_pressed code ext v x = x\<lparr>pressed := (pressed x)(code := (if ext then (fst (pressed x code), v) else (v, snd (pressed x code))))\<rparr>"

text \<open>The part from the lock keys on, for a key that was pressed.\<close>

definition key_down :: "hardware \<Rightarrow> nat \<Rightarrow> bool \<Rightarrow> kbsys \<Rightarrow> kbsys option" where
  "key_down hw code ext x = do {
     let led = (code = KEY_NUMLOCK \<or> code = KEY_CAPSLOCK \<or> code = KEY_SCRLOCK);
     let x = (if code = KEY_NUMLOCK then upd_kb (\<lambda>k. k\<lparr>numlock := \<not> numlock k\<rparr>) x
              else if code = KEY_CAPSLOCK then upd_kb (\<lambda>k. k\<lparr>capslock := \<not> capslock k\<rparr>) x
              else if code = KEY_SCRLOCK then upd_kb (\<lambda>k. k\<lparr>scrlock := \<not> scrlock k\<rparr>) x
              else x);
     x \<leftarrow> (if led then do { p \<leftarrow> keyboard_set_leds hw (kb x) (kports x); Some (x\<lparr>kports := p\<rparr>) } else Some x);
     let key = pressed x;
     let x = upd_kb (\<lambda>k. k\<lparr>ctrl := fst (key KEY_CTRL_L) \<or> snd (key KEY_CTRL_L),
       alt := fst (key KEY_ALT_L) \<or> snd (key KEY_ALT_L), shift := fst (key KEY_SHIFT_L) \<or> fst (key KEY_SHIFT_R)\<rparr>) x;
     let sh = (capslock (kb x) \<and> isAlpha (keycap code False));
     let sh = (if shift (kb x) then \<not> sh else sh);
     let ch = (if ext then if code = KEY_SLASH then keycap code False else keycap code True else keycap code sh);
     if ch = 0 then Some x
     else do {
       (m, f) \<leftarrow> fifo_put (kmem (kkern x)) (kb_fifo (kb x)) ch;
       let x = upd_kb (\<lambda>k. k\<lparr>kb_fifo := f\<rparr>) (set_kkern ((kkern x)\<lparr>kmem := m\<rparr>) x);
       if kb_waiter (kb x) \<noteq> 0 then do {
         s \<leftarrow> task_unblock (kb_waiter (kb x)) (kkern x);
         Some (upd_kb (\<lambda>k. k\<lparr>kb_waiter := 0\<rparr>) (set_kkern s x)) }
       else Some x } }"

text \<open>The constant \<^verbatim>\<open>0xe0000\<close> loses its upper bits in the 16-bit \<^verbatim>\<open>scan_code\<close>, so the prefix is not added.\<close>

definition keyboard_handler :: "hardware \<Rightarrow> u32 \<Rightarrow> kbsys \<Rightarrow> kbsys option" where
  "keyboard_handler hw vector x = do {
     assert_c (vector = 0x21);
     let p = outs (send_eoi vector) (kports x);
     let (b, p) = inb hw KEYBOARD_DATA_PORT p;
     let x = x\<lparr>kports := p\<rparr>;
     let scan_code = (ucast b :: u16);
     if scan_code = EXTCODE then Some (upd_kb (\<lambda>k. k\<lparr>extcode := True\<rparr>) x)
     else do {
       let ext = extcode (kb x);
       let scan_code = (if ext then scan_code OR ucast (0xe0000 :: u32) else scan_code);
       let x = (if ext then upd_kb (\<lambda>k. k\<lparr>extcode := False\<rparr>) x else x);
       let make_code = unat (scan_code AND 0x7f);
       if make_code \<noteq> KEY_PRINT_SCREEN \<and> make_code > KEY_CLIPBOARD then Some x
       else if scan_code AND 0x80 \<noteq> 0 then Some (set_pressed make_code ext False x)
       else key_down hw make_code ext (set_pressed make_code ext True x) } }"

section \<open>Reading\<close>

text \<open>
  The loop of \<^verbatim>\<open>keyboard_read\<close> from index \<open>i\<close> on. On an empty buffer the task waits; it then goes on with this
  loop at the index it had reached. \<open>kmem\<close> stands for the memory the caller's buffer is in.
\<close>

function read_loop :: "addr \<Rightarrow> u32 \<Rightarrow> nat \<Rightarrow> kbsys \<Rightarrow> (nat run \<times> kbsys) option" where
  "read_loop buf cnt i x =
     (if i < unat cnt
      then if fifo_empty (kb_fifo (kb x))
        then do {
          let x = upd_kb (\<lambda>k. k\<lparr>kb_waiter := current_task (kkern x)\<rparr>) x;
          s \<leftarrow> task_block (kb_waiter (kb x)) 0 TASK_BLOCKED (kkern x);
          Some (Blocked, set_kkern s x) }
        else do {
          (c, f) \<leftarrow> fifo_get (kmem (kkern x)) (kb_fifo (kb x));
          let x = upd_kb (\<lambda>k. k\<lparr>kb_fifo := f\<rparr>) x;
          read_loop buf cnt (i + 1) (set_kkern ((kkern x)\<lparr>kmem := (kmem (kkern x))(buf + of_nat i := c)\<rparr>) x) }
      else Some (Done i, x))"
  by pat_completeness auto

termination read_loop
  by (relation "measure (\<lambda>(_, cnt, i, _). unat cnt - i)") auto

declare read_loop.simps [simp del]

definition keyboard_read :: "addr \<Rightarrow> u32 \<Rightarrow> kbsys \<Rightarrow> (i32 run \<times> kbsys) option" where
  "keyboard_read buf cnt x = do {
     (r, k, s) \<leftarrow> mutexlock_acquire (kb_lock (kb x)) (klocks x) (kkern x);
     let x = set_kkern s (x\<lparr>klocks := k\<rparr>);
     case r of
       Switched _ \<Rightarrow> Some (Blocked, x)
     | Returned \<Rightarrow> do {
         (r, x) \<leftarrow> read_loop buf cnt 0 x;
         case r of
           Blocked \<Rightarrow> Some (Blocked, x)
         | Done i \<Rightarrow> do {
             (r, k, s) \<leftarrow> mutexlock_release (kb_lock (kb x)) (klocks x) (kkern x);
             let x = set_kkern s (x\<lparr>klocks := k\<rparr>);
             Some (case r of Returned \<Rightarrow> Done (of_nat i) | Switched _ \<Rightarrow> Blocked, x) } } }"

text \<open>\<open>kh\<close> and \<open>kr\<close> are the addresses of \<^verbatim>\<open>keyboard_handler\<close> and \<^verbatim>\<open>keyboard_read\<close>.\<close>

definition keyboard_init :: "hardware \<Rightarrow> addr \<Rightarrow> addr \<Rightarrow> kbsys \<Rightarrow> kbsys option" where
  "keyboard_init hw kh kr x = do {
     x \<leftarrow> keyboard_new hw x;
     (i, d) \<leftarrow> dev_install DEV_CHAR DEV_KEYBOARD 0 ''keyboard'' (- 1) 0 kr 0 (kdev x);
     t \<leftarrow> set_interrupt_handler 1 kh (ktable x);
     p \<leftarrow> set_interrupt_mask 1 True (kpic x);
     Some (x\<lparr>kdev := d, ktable := t, kpic := p\<rparr>) }"

section \<open>What is typed\<close>

definition acknowledged :: "kbsys \<Rightarrow> kbsys" where
  "acknowledged x = x\<lparr>kports := kports x @ [Out 0x20 0x20, In 0x60]\<rparr>"

lemma acknowledged_simps [simp]:
  "kb (set_pressed c e v (acknowledged x)) = kb x" "kkern (set_pressed c e v (acknowledged x)) = kkern x"
  "pressed (acknowledged x) = pressed x"
  by (simp_all add: acknowledged_def set_pressed_def)

text \<open>The handler after a byte \<open>code\<close> below 0x80 without the extension byte before it, for a key that is not a lock.\<close>

lemma scan_code_facts:
  assumes "code \<le> 0x5d"
  shows "unat (of_nat code AND 0x7f :: u16) = code" "of_nat code AND 0x80 = (0 :: u16)" "(of_nat code :: u16) \<noteq> 0xe0"
    "(ucast (ucast (of_nat code :: u16) :: u8) :: u16) = of_nat code"
proof -
  have c: "code < 128" using assms by simp
  have m: "(0x7f :: u16) = mask 7" "(0x80 :: u16) = 2 ^ 7" by (simp_all add: mask_eq_exp_minus_1)
  have t: "take_bit 7 code = code" using c by (simp add: take_bit_eq_mod)
  have "of_nat code AND 0x7f = (of_nat code :: u16)"
    unfolding m by (simp add: take_bit_eq_mask [symmetric] take_bit_of_nat t)
  then show "unat (of_nat code AND 0x7f :: u16) = code" using c by (simp add: unat_of_nat)
  have "\<not> bit code 7" using t by (metis bit_take_bit_iff less_irrefl)
  then show "of_nat code AND 0x80 = (0 :: u16)" unfolding m and_exp_eq_0_iff_not_bit by (simp add: bit_of_nat_iff)
  show "(of_nat code :: u16) \<noteq> 0xe0"
  proof
    assume "of_nat code = (0xe0 :: u16)"
    then have "unat (of_nat code :: u16) = 0xe0" by simp
    with c show False by (simp add: unat_of_nat)
  qed
  have u: "unat (of_nat code :: u16) = code" using c by (simp add: unat_of_nat)
  have "unat (ucast (of_nat code :: u16) :: u8) = code"
    by (rule trans [OF unsigned_ucast_eq]) (use c u in \<open>simp only: take_bit_eq_mod, simp\<close>)
  then have "unat (ucast (ucast (of_nat code :: u16) :: u8) :: u16) = code"
    by (intro trans [OF unsigned_ucast_eq]) (use c in \<open>simp only: take_bit_eq_mod, simp\<close>)
  with u show "(ucast (ucast (of_nat code :: u16) :: u8) :: u16) = of_nat code" by (metis word_unat_eq_iff)
qed

lemma handler_make:
  assumes "hw (kports x @ [Out 0x20 0x20]) 0x60 = of_nat code"
    and "\<not> extcode (kb x)" and "code \<le> 0x5d" and "code \<notin> {KEY_CAPSLOCK, KEY_NUMLOCK, KEY_SCRLOCK}"
  shows "keyboard_handler hw 0x21 x = key_down hw code False (set_pressed code False True (acknowledged x))"
  using assms(1-3) scan_code_facts [OF assms(3)]
  by (simp add: keyboard_handler_def send_eoi_def outs_def inb_def inw_def KEYBOARD_DATA_PORT_def EXTCODE_def KEY_CLIPBOARD_def acknowledged_def
      split_def)

lemma key_down_char:
  assumes "code \<notin> {KEY_CAPSLOCK, KEY_NUMLOCK, KEY_SCRLOCK}"
    and "keycap code (if fst (pressed y KEY_SHIFT_L) \<or> fst (pressed y KEY_SHIFT_R) then \<not> (capslock (kb y) \<and> isAlpha (keycap code False))
      else capslock (kb y) \<and> isAlpha (keycap code False)) = c"
  shows "c = 0 \<Longrightarrow> \<exists>z. key_down hw code False y = Some z \<and> pressed z = pressed y \<and> kmem (kkern z) = kmem (kkern y) \<and> kb_fifo (kb z) = kb_fifo (kb y)"
    "c \<noteq> 0 \<Longrightarrow> kb_waiter (kb y) = 0 \<Longrightarrow> fifo_put (kmem (kkern y)) (kb_fifo (kb y)) c = Some (m, f) \<Longrightarrow>
      \<exists>z. key_down hw code False y = Some z \<and> pressed z = pressed y \<and> kmem (kkern z) = m \<and> kb_fifo (kb z) = f"
  using assms unfolding key_down_def by (auto simp: upd_kb_def set_kkern_def Let_def split: if_splits)

text \<open>
  Property C27. Pressing a key that has a character, other than on the extended keypad, puts that character last into
  the input buffer, which loses its oldest byte when it is full; the character is the second of the key
  exactly when either shift key is down or, for letters only, capslock is on, but not both.
\<close>

theorem keyboard_handler_types:
  assumes "hw (kports x @ [Out 0x20 0x20]) 0x60 = of_nat code"
    and "\<not> extcode (kb x)" and "code \<le> 0x5d" and "fifo_ok (kb_fifo (kb x))" and "kb_waiter (kb x) = 0"
  defines "second \<equiv> (fst (pressed x KEY_SHIFT_L) \<or> fst (pressed x KEY_SHIFT_R)) \<noteq> (capslock (kb x) \<and> isAlpha (keycap code False))"
    and "c \<equiv> contents (kmem (kkern x)) (kb_fifo (kb x))"
  assumes "keycap code second \<noteq> 0"
  shows "\<exists>y. keyboard_handler hw 0x21 x = Some y \<and> fst (pressed y code) \<and>
     contents (kmem (kkern y)) (kb_fifo (kb y)) =
       (if length c = unat (f_len (kb_fifo (kb x))) - 1 then tl c else c) @ [keycap code second]"
proof -
  have z: "keycap code b = 0" if "code \<in> {KEY_CAPSLOCK, KEY_NUMLOCK, KEY_SCRLOCK, KEY_SHIFT_L, KEY_SHIFT_R}" for b
    using that by (auto simp: keycap_def keymap_table KEY_CAPSLOCK_def KEY_NUMLOCK_def KEY_SCRLOCK_def KEY_SHIFT_L_def KEY_SHIFT_R_def)
  then have n: "code \<noteq> KEY_CAPSLOCK" "code \<noteq> KEY_NUMLOCK" "code \<noteq> KEY_SCRLOCK" "code \<noteq> KEY_SHIFT_L" "code \<noteq> KEY_SHIFT_R"
    using assms(8) by blast+
  let ?y = "set_pressed code False True (acknowledged x)"
  have h: "keyboard_handler hw 0x21 x = key_down hw code False ?y" by (rule handler_make) (use assms n in auto)
  from fifo_put_contents [OF assms(4), of "kmem (kkern x)" "keycap code second"] obtain m f where
    f: "fifo_put (kmem (kkern x)) (kb_fifo (kb x)) (keycap code second) = Some (m, f)"
      "contents m f = (if Suc (length c) = unat (f_len (kb_fifo (kb x))) then tl c else c) @ [keycap code second]"
    unfolding c_def by blast
  have p: "pressed ?y KEY_SHIFT_L = pressed x KEY_SHIFT_L" "pressed ?y KEY_SHIFT_R = pressed x KEY_SHIFT_R" "fst (pressed ?y code)"
    using n by (simp_all add: set_pressed_def)
  have sh: "(if fst (pressed ?y KEY_SHIFT_L) \<or> fst (pressed ?y KEY_SHIFT_R) then \<not> (capslock (kb ?y) \<and> isAlpha (keycap code False))
      else capslock (kb ?y) \<and> isAlpha (keycap code False)) = second" using p(1,2) by (auto simp: second_def)
  note sh' = arg_cong [OF sh, of "keycap code"]
  have "code \<notin> {KEY_CAPSLOCK, KEY_NUMLOCK, KEY_SCRLOCK}" using n by simp
  from key_down_char(2) [OF this sh' assms(8), of m f hw] assms(5) f(1)
  have "\<exists>y. key_down hw code False ?y = Some y \<and> pressed y = pressed ?y \<and> kmem (kkern y) = m \<and> kb_fifo (kb y) = f" by simp
  moreover have "1 \<le> unat (f_len (kb_fifo (kb x)))" using fifo_okD(1) [OF assms(4)] by simp
  then have "Suc (length c) = unat (f_len (kb_fifo (kb x))) \<longleftrightarrow> length c = unat (f_len (kb_fifo (kb x))) - 1" by auto
  ultimately show ?thesis using h f(2) p(3) by auto
qed


text \<open>
  The letter o cannot be typed: the key has no entry in \<^verbatim>\<open>keymap\<close>, so whatever the state of
  shift and capslock, pressing it leaves the input buffer as it is and wakes no reader.
\<close>

theorem keyboard_O_silent:
  assumes "hw (kports x @ [Out 0x20 0x20]) 0x60 = of_nat KEY_O" and "\<not> extcode (kb x)"
  shows "\<exists>y. keyboard_handler hw 0x21 x = Some y \<and> kb_fifo (kb y) = kb_fifo (kb x) \<and> kmem (kkern y) = kmem (kkern x)"
proof -
  have k: "KEY_O \<le> 0x5d" "KEY_O \<notin> {KEY_CAPSLOCK, KEY_NUMLOCK, KEY_SCRLOCK}" "keycap KEY_O b = 0" for b
    by (simp_all add: KEY_O_def KEY_CAPSLOCK_def KEY_NUMLOCK_def KEY_SCRLOCK_def keycap_def keymap_table)
  from key_down_char(1) [OF k(2), of "set_pressed KEY_O False True (acknowledged x)" 0 hw] handler_make [of hw x KEY_O, OF assms k(1,2)]
  show ?thesis by (auto simp: k(3))
qed

lemma contents_upd:
  assumes "fifo_ok f" and "\<not> in_range (f_buf f) (unat (f_len f)) a"
  shows "contents (m(a := c)) f = contents m f"
proof -
  have "slot f i \<noteq> a" for i
    using assms(2) in_range_offset [of "(unat (f_head f) + i) mod unat (f_len f)" "unat (f_len f)" "f_buf f"] fifo_okD(1) [OF assms(1)]
      unsigned_less [of "f_len f", where 'a = nat]
    by (auto simp: slot_def)
  then show ?thesis by (simp add: contents_def)
qed

lemma read_loop_contents:
  assumes "fifo_ok (kb_fifo (kb x))" and "unat cnt - i \<le> length (contents (kmem (kkern x)) (kb_fifo (kb x)))" and "i \<le> unat cnt"
    and "\<And>k. k < unat cnt \<Longrightarrow> \<not> in_range (f_buf (kb_fifo (kb x))) (unat (f_len (kb_fifo (kb x)))) (buf + of_nat k)"
  shows "\<exists>y. read_loop buf cnt i x = Some (Done (unat cnt), y) \<and> fifo_ok (kb_fifo (kb y)) \<and>
    contents (kmem (kkern y)) (kb_fifo (kb y)) = drop (unat cnt - i) (contents (kmem (kkern x)) (kb_fifo (kb x))) \<and>
    map (\<lambda>k. kmem (kkern y) (buf + of_nat k)) [i ..< unat cnt] = take (unat cnt - i) (contents (kmem (kkern x)) (kb_fifo (kb x))) \<and>
    (\<forall>a. a \<notin> (\<lambda>k. buf + of_nat k) ` {i ..< unat cnt} \<longrightarrow> kmem (kkern y) a = kmem (kkern x) a)"
  using assms
proof (induction "unat cnt - i" arbitrary: i x)
  case 0
  then have "i = unat cnt" by simp
  then show ?case using 0(2) by (simp add: read_loop.simps [of buf cnt])
next
  case (Suc n)
  let ?f = "kb_fifo (kb x)" and ?m = "kmem (kkern x)"
  have i: "i < unat cnt" using Suc(2) by simp
  have ne: "contents ?m ?f \<noteq> []" using Suc(2,4) by auto
  from fifo_get_contents [OF Suc(3) ne] obtain g where
    g: "fifo_get ?m ?f = Some (hd (contents ?m ?f), g)" "fifo_ok g" "contents ?m g = tl (contents ?m ?f)" "f_buf g = f_buf ?f" "f_len g = f_len ?f"
    by blast
  have fe: "\<not> fifo_empty ?f" using fifo_empty_iff [OF Suc(3)] ne by (auto simp: contents_def)
  define y where "y = set_kkern ((kkern x)\<lparr>kmem := ?m(buf + of_nat i := hd (contents ?m ?f))\<rparr>) (upd_kb (\<lambda>k. k\<lparr>kb_fifo := g\<rparr>) x)"
  have y: "kb_fifo (kb y) = g" "kmem (kkern y) = ?m(buf + of_nat i := hd (contents ?m ?f))"
    by (simp_all add: y_def set_kkern_def upd_kb_def)
  have step: "read_loop buf cnt i x = read_loop buf cnt (i + 1) y"
    using i fe g(1) by (subst read_loop.simps) (simp add: y_def upd_kb_def set_kkern_def)
  have c: "contents (kmem (kkern y)) g = tl (contents ?m ?f)"
    unfolding y using contents_upd [OF g(2), of "buf + of_nat i"] Suc(6) [OF i] g(3-5) by simp
  have "n = unat cnt - (i + 1)" using Suc(2) by simp
  from Suc(1) [OF this, of y] Suc(4-6) g(2,4,5) i c obtain z where
    z: "read_loop buf cnt (i + 1) y = Some (Done (unat cnt), z)" "fifo_ok (kb_fifo (kb z))"
      "contents (kmem (kkern z)) (kb_fifo (kb z)) = drop (unat cnt - (i + 1)) (tl (contents ?m ?f))"
      "map (\<lambda>k. kmem (kkern z) (buf + of_nat k)) [i + 1 ..< unat cnt] = take (unat cnt - (i + 1)) (tl (contents ?m ?f))"
      "\<forall>a. a \<notin> (\<lambda>k. buf + of_nat k) ` {i + 1 ..< unat cnt} \<longrightarrow> kmem (kkern z) a = kmem (kkern y) a"
    unfolding y(1) by fastforce
  have "buf + of_nat i \<notin> (\<lambda>k. buf + of_nat k) ` {i + 1 ..< unat cnt}"
  proof
    assume "buf + of_nat i \<in> (\<lambda>k. buf + of_nat k) ` {i + 1 ..< unat cnt}"
    then obtain k where k: "(of_nat i :: u32) = of_nat k" "i < k" "k < unat cnt" by auto
    have "unat cnt < 2 ^ 32" using unsigned_less [of cnt, where 'a = nat] by simp
    then have "k < 2 ^ 32" using k(3) by (rule less_trans [rotated])
    with arg_cong [OF k(1), of unat] k(2) show False by (simp add: unat_of_nat)
  qed
  then have hd: "kmem (kkern z) (buf + of_nat i) = hd (contents ?m ?f)" using z(5) y(2) by simp
  obtain d ds where cs: "contents ?m ?f = d # ds" using ne by (cases "contents ?m ?f") auto
  have s: "unat cnt - i = Suc (unat cnt - (i + 1))" using i by simp
  have "map (\<lambda>k. kmem (kkern z) (buf + of_nat k)) [i ..< unat cnt] = take (unat cnt - i) (contents ?m ?f)"
    using z(4) hd i unfolding s cs by (simp add: upt_conv_Cons)
  moreover have "contents (kmem (kkern z)) (kb_fifo (kb z)) = drop (unat cnt - i) (contents ?m ?f)" using z(3) unfolding s cs by simp
  moreover have "kmem (kkern z) a = ?m a" if "a \<notin> (\<lambda>k. buf + of_nat k) ` {i ..< unat cnt}" for a
  proof -
    have "a \<noteq> buf + of_nat i" "a \<notin> (\<lambda>k. buf + of_nat k) ` {i + 1 ..< unat cnt}" using that i by auto
    then show ?thesis using z(5) y(2) by simp
  qed
  ultimately show ?case using step z(1,2) by auto
qed

lemma read_loop_frame:
  assumes "read_loop buf cnt i x = Some (Done n, y)"
  shows "klocks y = klocks x \<and> kb_lock (kb y) = kb_lock (kb x) \<and> nodes (kkern y) = nodes (kkern x) \<and>
    current (kkern y) = current (kkern x)"
  using assms
proof (induction buf cnt i x rule: read_loop.induct)
  case (1 buf cnt i x)
  note IH = 1(1)
  show ?case
  proof (cases "i < unat cnt \<and> \<not> fifo_empty (kb_fifo (kb x))")
    case True
    with 1(2) obtain c f where g: "fifo_get (kmem (kkern x)) (kb_fifo (kb x)) = Some (c, f)"
      by (subst (asm) read_loop.simps) (auto split: Option.bind_splits)
    from 1(2) True g IH [OF _ _ g refl refl] show ?thesis
      by (subst (asm) read_loop.simps) (simp add: set_kkern_def upd_kb_def Let_def)
  next
    case False
    with 1(2) show ?thesis
      by (subst (asm) read_loop.simps) (auto simp: Let_def split: if_splits Option.bind_splits)
  qed
qed

text \<open>
  Property C26. A task that finds the keyboard lock free and at least \<open>cnt\<close> characters in the input buffer reads
  the oldest \<open>cnt\<close> of them, in the order they were typed, and leaves the others there; no other byte
  changes and the lock is free again.
\<close>

theorem keyboard_read_typed:
  fixes x :: kbsys and buf :: addr
  defines "l \<equiv> kb_lock (kb x)" and "f \<equiv> kb_fifo (kb x)" and "cell \<equiv> \<lambda>k. buf + of_nat k"
  defines "typed \<equiv> contents (kmem (kkern x)) f"
  assumes "fifo_ok f" and "unat cnt \<le> length typed"
    and "\<forall>k < unat cnt. \<not> in_range (f_buf f) (unat (f_len f)) (cell k)"
    and "holder (klocks x) l = 0" and "repeat (klocks x) l = 0" and "semphore (klocks x) (lock_mutex l)"
    and "current (kkern x) \<noteq> 0" and "dlist (nodes (kkern x)) (waiters (lock_mutex l)) []"
  shows "\<exists>y. keyboard_read buf cnt x = Some (Done (of_nat (unat cnt)), y) \<and>
    map (\<lambda>k. kmem (kkern y) (cell k)) [0 ..< unat cnt] = take (unat cnt) typed \<and>
    contents (kmem (kkern y)) (kb_fifo (kb y)) = drop (unat cnt) typed \<and> klocks y = klocks x \<and>
    (\<forall>a. a \<notin> cell ` {0 ..< unat cnt} \<longrightarrow> kmem (kkern y) a = kmem (kkern x) a)"
proof -
  let ?k = "lock_held l (current (kkern x)) (klocks x)" and ?n = "unat cnt"
  define x1 where "x1 = set_kkern (kkern x) (x\<lparr>klocks := ?k\<rparr>)"
  have x1: "kb x1 = kb x" "kkern x1 = kkern x" "klocks x1 = ?k" by (simp_all add: x1_def set_kkern_def)
  have a: "mutexlock_acquire l (klocks x) (kkern x) = Some (Returned, ?k, kkern x)"
    by (rule lock_free_acquire) (use assms in auto)
  have "\<exists>y. read_loop buf cnt 0 x1 = Some (Done ?n, y) \<and> fifo_ok (kb_fifo (kb y)) \<and>
    contents (kmem (kkern y)) (kb_fifo (kb y)) = drop (?n - 0) (contents (kmem (kkern x1)) (kb_fifo (kb x1))) \<and>
    map (\<lambda>k. kmem (kkern y) (buf + of_nat k)) [0 ..< ?n] = take (?n - 0) (contents (kmem (kkern x1)) (kb_fifo (kb x1))) \<and>
    (\<forall>a. a \<notin> (\<lambda>k. buf + of_nat k) ` {0 ..< ?n} \<longrightarrow> kmem (kkern y) a = kmem (kkern x1) a)"
    by (rule read_loop_contents) (use assms(5-7) in \<open>simp_all add: x1 f_def typed_def cell_def\<close>)
  then obtain y where y: "read_loop buf cnt 0 x1 = Some (Done ?n, y)"
    "contents (kmem (kkern y)) (kb_fifo (kb y)) = drop ?n typed"
    "map (\<lambda>k. kmem (kkern y) (buf + of_nat k)) [0 ..< ?n] = take ?n typed"
    "\<forall>a. a \<notin> (\<lambda>k. buf + of_nat k) ` {0 ..< ?n} \<longrightarrow> kmem (kkern y) a = kmem (kkern x) a"
    by (auto simp: x1 f_def typed_def)
  have fr: "klocks y = ?k" "kb_lock (kb y) = l" "nodes (kkern y) = nodes (kkern x)" "current (kkern y) = current (kkern x)"
    using read_loop_frame [OF y(1)] by (simp_all add: x1 l_def)
  have "mutexlock_release l (lock_held l (current (kkern y)) (klocks x)) (kkern y) = Some (Returned, klocks x, kkern y)"
    by (rule lock_held_release) (use assms(8-12) fr in auto)
  then have r: "mutexlock_release l ?k (kkern y) = Some (Returned, klocks x, kkern y)" by (simp only: fr(4))
  have "keyboard_read buf cnt x = Some (Done (of_nat ?n), set_kkern (kkern y) (y\<lparr>klocks := klocks x\<rparr>))"
    using a y(1) r by (simp add: keyboard_read_def l_def [symmetric] x1_def [symmetric] fr)
  then show ?thesis using y(2-4) by (intro exI [of _ "set_kkern (kkern y) (y\<lparr>klocks := klocks x\<rparr>)"]) (auto simp: set_kkern_def cell_def)
qed

section \<open>A concrete keyboard\<close>

text \<open>\<^verbatim>\<open>hi\<close> has been typed and wraps around the end of the buffer; the left shift key is down.\<close>

definition sample_kb :: kbsys where
  "sample_kb = \<lparr>kb = \<lparr>capslock = False, scrlock = False, numlock = False, extcode = False, ctrl = False, alt = False,
       shift = False, kb_lock = 0x4c, kb_fifo = \<lparr>f_buf = 0x1000, f_len = 64, f_head = 62, f_tail = 0\<rparr>, kb_buf = 0x1000, kb_waiter = 0\<rparr>,
     pressed = (\<lambda>_. (False, False))(KEY_SHIFT_L := (True, False)),
     kdev = sample_devs\<lparr>kern := sample_lock\<lparr>kmem := (\<lambda>_. 0)(0x103e := 104, 0x103f := 105)\<rparr>\<rparr>,
     klocks = \<lparr>semphore = \<lambda>_. True, holder = \<lambda>_. 0, repeat = \<lambda>_. 0\<rparr>, kports = [],
     kpic = \<lparr>pic_m = 0, pic_s = 0\<rparr>, ktable = (\<lambda>_. None)\<rparr>"

lemma sample_kb_simps:
  "kb_lock (kb sample_kb) = 0x4c" "kb_waiter (kb sample_kb) = 0" "\<not> extcode (kb sample_kb)" "\<not> capslock (kb sample_kb)"
  "f_buf (kb_fifo (kb sample_kb)) = 0x1000" "f_len (kb_fifo (kb sample_kb)) = 64" "fifo_ok (kb_fifo (kb sample_kb))"
  "fst (pressed sample_kb KEY_SHIFT_L)"
  "contents (kmem (kkern sample_kb)) (kb_fifo (kb sample_kb)) = [104, 105]"
  by (simp_all add: sample_kb_def fifo_ok_def contents_def fcount_def slot_def upt_rec)

theorem keyboard_handler_types_witness:
  "\<exists>y. keyboard_handler (\<lambda>_ _. 0x1e) 0x21 sample_kb = Some y \<and> fst (pressed y 0x1e) \<and>
     contents (kmem (kkern y)) (kb_fifo (kb y)) = [104, 105, 65]"
  using keyboard_handler_types [of "\<lambda>_ _. 0x1e" sample_kb "0x1e"]
  by (simp add: sample_kb_simps keycap_def keymap_table)

theorem keyboard_O_silent_witness:
  "\<exists>y. keyboard_handler (\<lambda>_ _. 0x18) 0x21 sample_kb = Some y \<and> kb_fifo (kb y) = kb_fifo (kb sample_kb) \<and>
     kmem (kkern y) = kmem (kkern sample_kb)"
  by (rule keyboard_O_silent) (simp_all add: sample_kb_simps KEY_O_def)

theorem keyboard_read_typed_witness:
  "\<exists>y. keyboard_read 0x2000 2 sample_kb = Some (Done 2, y) \<and> kmem (kkern y) 0x2000 = 104 \<and> kmem (kkern y) 0x2001 = 105 \<and>
     contents (kmem (kkern y)) (kb_fifo (kb y)) = []"
proof -
  have d: "dlist (nodes (kkern sample_kb)) (waiters (lock_mutex 0x4c)) []"
    by (simp add: dlist_def list_nodes_def list_head_def list_tail_def waiters_def lock_mutex_def sample_kb_def sample_lock_def)
  have l: "holder (klocks sample_kb) 0x4c = 0" "repeat (klocks sample_kb) 0x4c = 0" "semphore (klocks sample_kb) (lock_mutex 0x4c)"
    "current (kkern sample_kb) \<noteq> 0"
    by (simp_all add: sample_kb_def sample_lock_def sample_sched_def)
  have r: "\<forall>k < unat (2 :: u32). \<not> in_range 0x1000 64 ((0x2000 :: addr) + of_nat k)"
  proof (intro allI impI)
    fix k :: nat
    assume "k < unat (2 :: u32)"
    then have "k = 0 \<or> k = 1" by auto
    then show "\<not> in_range 0x1000 64 ((0x2000 :: addr) + of_nat k)" by (auto simp: in_range_def)
  qed
  have u: "unat (2 :: u32) = 2" "[0 ..< 2] = [0, 1 :: nat]" by (simp_all add: upt_rec)
  have "\<exists>y. keyboard_read 0x2000 2 sample_kb = Some (Done (of_nat (unat (2 :: u32))), y) \<and>
    map (\<lambda>k. kmem (kkern y) (0x2000 + of_nat k)) [0 ..< unat (2 :: u32)] = take (unat (2 :: u32)) [104, 105] \<and>
    contents (kmem (kkern y)) (kb_fifo (kb y)) = drop (unat (2 :: u32)) [104, 105]"
    using keyboard_read_typed [of sample_kb 2 "0x2000", OF sample_kb_simps(7)] d l r unfolding sample_kb_simps u by auto
  then show ?thesis unfolding u by auto
qed

end
