(* ===== verification/Ata.thy ===== *)
theory Ata
  imports Buffer Ports Vsprintf
begin

text \<open>
  The disk driver: \<^verbatim>\<open>kernel/ata.c\<close>. The controllers behind the ports are the parameter \<open>hw\<close>. A disk is named by
  the index of its bus and its own index there. What the kernel prints is left out.
\<close>

unbundle bit_operations_syntax

section \<open>Registers and commands\<close>

definition ATA_IOBASE_PRIMARY :: u16 where "ATA_IOBASE_PRIMARY = 0x1F0"
definition ATA_IOBASE_SECONDARY :: u16 where "ATA_IOBASE_SECONDARY = 0x170"
definition ATA_CTLBASE_PRIMARY :: u16 where "ATA_CTLBASE_PRIMARY = 0x3F6"
definition ATA_CTLBASE_SECONDARY :: u16 where "ATA_CTLBASE_SECONDARY = 0x376"
definition ATA_IO_DATA :: u16 where "ATA_IO_DATA = 0"
definition ATA_IO_ERROR :: u16 where "ATA_IO_ERROR = 1"
definition ATA_IO_FEATURE :: u16 where "ATA_IO_FEATURE = 1"
definition ATA_IO_SECNR :: u16 where "ATA_IO_SECNR = 2"
definition ATA_IO_LBA_LOW :: u16 where "ATA_IO_LBA_LOW = 3"
definition ATA_IO_LBA_MID :: u16 where "ATA_IO_LBA_MID = 4"
definition ATA_IO_LBA_HIGH :: u16 where "ATA_IO_LBA_HIGH = 5"
definition ATA_IO_DEVICE :: u16 where "ATA_IO_DEVICE = 6"
definition ATA_IO_STATUS :: u16 where "ATA_IO_STATUS = 7"
definition ATA_IO_COMMAND :: u16 where "ATA_IO_COMMAND = 7"
definition ATA_CTL_ALT_STATUS :: u16 where "ATA_CTL_ALT_STATUS = 0"
definition ATA_CTL_DEV_CONTROL :: u16 where "ATA_CTL_DEV_CONTROL = 1"
definition ATA_SR_NULL :: u8 where "ATA_SR_NULL = 0x00"
definition ATA_SR_ERR :: u8 where "ATA_SR_ERR = 0x01"
definition ATA_SR_DRQ :: u8 where "ATA_SR_DRQ = 0x08"
definition ATA_SR_DRDY :: u8 where "ATA_SR_DRDY = 0x40"
definition ATA_SR_BSY :: u8 where "ATA_SR_BSY = 0x80"
definition ATA_CMD_READ :: u8 where "ATA_CMD_READ = 0x20"
definition ATA_CMD_WRITE :: u8 where "ATA_CMD_WRITE = 0x30"
definition ATA_CMD_IDENTIFY :: u8 where "ATA_CMD_IDENTIFY = 0xEC"
definition ATA_CTRL_SRST :: u8 where "ATA_CTRL_SRST = 0x04"
definition ATA_MASTER_SELECTOR :: u8 where "ATA_MASTER_SELECTOR = 0b11100000"
definition ATA_SLAVE_SELECTOR :: u8 where "ATA_SLAVE_SELECTOR = 0b11110000"
definition SECTOR_SIZE :: nat where "SECTOR_SIZE = 512"
definition ATA_BUS_NR :: nat where "ATA_BUS_NR = 2"
definition ATA_DISK_NR :: nat where "ATA_DISK_NR = 2"
definition ATA_PARTITION_NR :: nat where "ATA_PARTITION_NR = 4"
definition PARTITION_FS_EXTENDED :: u32 where "PARTITION_FS_EXTENDED = 5"

section \<open>The state\<close>

text \<open>The names of buses, disks and partitions are in the memory, at the start of their structures.\<close>

record ata_part =
  pt_disk :: "nat \<times> nat"
  pt_system :: u32
  pt_start_lba :: u32
  pt_count :: u32

record ata_disk =
  dk_bus :: nat
  selector :: u8
  master :: bool
  total_lba :: u32
  dk_parts :: "ata_part list"

record ata_bus =
  bs_lock :: addr
  iobase :: u16
  ctlbase :: u16
  dk_disks :: "ata_disk list"
  active :: "(nat \<times> nat) option"
  bs_waiter :: addr

record atasys =
  adev :: devsys
  alocks :: locks
  aports :: ports
  apic :: pic
  atable :: "nat \<rightharpoonup> addr"
  buses :: "ata_bus list"

text \<open>Where the structures and the functions of the driver are.\<close>

record ata_addrs =
  at_bus :: "nat \<Rightarrow> addr"
  at_disk :: "nat \<Rightarrow> nat \<Rightarrow> addr"
  at_part :: "nat \<Rightarrow> nat \<Rightarrow> nat \<Rightarrow> addr"
  at_ioctl :: addr
  at_read :: addr
  at_write :: addr
  at_part_ioctl :: addr
  at_part_read :: addr
  at_part_write :: addr
  at_handler :: addr

abbreviation akern :: "atasys \<Rightarrow> kstate" where "akern x \<equiv> kern (adev x)"
abbreviation amem :: "atasys \<Rightarrow> mem" where "amem x \<equiv> kmem (akern x)"

definition set_akern :: "kstate \<Rightarrow> atasys \<Rightarrow> atasys" where
  "set_akern s x = x\<lparr>adev := (adev x)\<lparr>kern := s\<rparr>\<rparr>"

definition set_amem :: "mem \<Rightarrow> atasys \<Rightarrow> atasys" where
  "set_amem m x = set_akern ((akern x)\<lparr>kmem := m\<rparr>) x"

definition upd_bus :: "nat \<Rightarrow> (ata_bus \<Rightarrow> ata_bus) \<Rightarrow> atasys \<Rightarrow> atasys" where
  "upd_bus b f x = x\<lparr>buses := (buses x)[b := f (buses x ! b)]\<rparr>"

definition upd_disk :: "nat \<Rightarrow> nat \<Rightarrow> (ata_disk \<Rightarrow> ata_disk) \<Rightarrow> atasys \<Rightarrow> atasys" where
  "upd_disk b d f = upd_bus b (\<lambda>u. u\<lparr>dk_disks := (dk_disks u)[d := f (dk_disks u ! d)]\<rparr>)"

definition upd_part :: "nat \<Rightarrow> nat \<Rightarrow> nat \<Rightarrow> (ata_part \<Rightarrow> ata_part) \<Rightarrow> atasys \<Rightarrow> atasys" where
  "upd_part b d i f = upd_disk b d (\<lambda>k. k\<lparr>dk_parts := (dk_parts k)[i := f (dk_parts k ! i)]\<rparr>)"

definition the_disk :: "nat \<Rightarrow> nat \<Rightarrow> atasys \<Rightarrow> ata_disk" where
  "the_disk b d x = dk_disks (buses x ! b) ! d"

text \<open>A write to the register at offset \<open>reg\<close> of the bus.\<close>

definition reg_out :: "nat \<Rightarrow> u16 \<Rightarrow> u8 \<Rightarrow> atasys \<Rightarrow> atasys" where
  "reg_out b reg v x = x\<lparr>aports := outb (iobase (buses x ! b) + reg) v (aports x)\<rparr>"

section \<open>Waiting and selecting\<close>

text \<open>The errors of the register are only printed.\<close>

definition ata_error :: "hardware \<Rightarrow> ata_bus \<Rightarrow> ports \<Rightarrow> ports" where
  "ata_error hw bus p = snd (inb hw (iobase bus + ATA_IO_ERROR) p)"

partial_function (option) ata_busy_wait :: "hardware \<Rightarrow> ata_bus \<Rightarrow> u8 \<Rightarrow> ports \<Rightarrow> (u8 \<times> ports) option" where
  "ata_busy_wait hw bus ev p = (let (st, p) = inb hw (ctlbase bus + ATA_CTL_ALT_STATUS) p
     in if st AND ATA_SR_ERR \<noteq> 0 then Some (ATA_SR_ERR, ata_error hw bus p)
        else if st AND ATA_SR_BSY \<noteq> 0 then ata_busy_wait hw bus ev p
        else if st AND ev = ev then Some (0, p)
        else ata_busy_wait hw bus ev p)"

definition busy_wait :: "hardware \<Rightarrow> nat \<Rightarrow> u8 \<Rightarrow> atasys \<Rightarrow> (u8 \<times> atasys) option" where
  "busy_wait hw b ev x = do { (r, p) \<leftarrow> ata_busy_wait hw (buses x ! b) ev (aports x); Some (r, x\<lparr>aports := p\<rparr>) }"

definition ata_select_disk :: "nat \<Rightarrow> nat \<Rightarrow> atasys \<Rightarrow> atasys" where
  "ata_select_disk b d x = upd_bus b (\<lambda>u. u\<lparr>active := Some (b, d)\<rparr>) (reg_out b ATA_IO_DEVICE (selector (the_disk b d x)) x)"

definition ata_select_sector :: "nat \<Rightarrow> nat \<Rightarrow> u32 \<Rightarrow> u8 \<Rightarrow> atasys \<Rightarrow> atasys" where
  "ata_select_sector b d lba cnt x = (
     let x = reg_out b ATA_IO_FEATURE 0 x;
       x = reg_out b ATA_IO_SECNR cnt x;
       x = reg_out b ATA_IO_LBA_LOW (ucast (lba AND 0xff)) x;
       x = reg_out b ATA_IO_LBA_MID (ucast (drop_bit 8 lba AND 0xff)) x;
       x = reg_out b ATA_IO_LBA_HIGH (ucast (drop_bit 16 lba AND 0xff)) x;
       x = reg_out b ATA_IO_DEVICE (selector (the_disk b d x) OR ucast (drop_bit 24 lba AND 0xf)) x
     in upd_bus b (\<lambda>u. u\<lparr>active := Some (b, d)\<rparr>) x)"

text \<open>The first \<open>n\<close> words of a sector.\<close>

primrec read_words :: "hardware \<Rightarrow> u16 \<Rightarrow> addr \<Rightarrow> nat \<Rightarrow> ports \<Rightarrow> mem \<Rightarrow> ports \<times> mem" where
  "read_words hw port buf 0 p m = (p, m)"
| "read_words hw port buf (Suc n) p m = (let (v, p) = inw hw port p in read_words hw port (buf + 2) n p (wr16 m buf v))"

primrec write_words :: "u16 \<Rightarrow> addr \<Rightarrow> nat \<Rightarrow> mem \<Rightarrow> ports \<Rightarrow> ports" where
  "write_words port buf 0 m p = p"
| "write_words port buf (Suc n) m p = write_words port (buf + 2) n m (outw port (rd16 m buf) p)"

definition ata_pio_read_sector :: "hardware \<Rightarrow> nat \<Rightarrow> addr \<Rightarrow> atasys \<Rightarrow> atasys" where
  "ata_pio_read_sector hw b buf x =
    (let (p, m) = read_words hw (iobase (buses x ! b) + ATA_IO_DATA) buf (SECTOR_SIZE div 2) (aports x) (amem x)
     in set_amem m (x\<lparr>aports := p\<rparr>))"

definition ata_pio_write_sector :: "nat \<Rightarrow> addr \<Rightarrow> atasys \<Rightarrow> atasys" where
  "ata_pio_write_sector b buf x =
    x\<lparr>aports := write_words (iobase (buses x ! b) + ATA_IO_DATA) buf (SECTOR_SIZE div 2) (amem x) (aports x)\<rparr>"

section \<open>Reading and writing sectors\<close>

text \<open>
  A call ends, or the task waits: for the lock, or for the interrupt that says that sector \<open>i\<close> is ready, after which
  it goes on with \<open>ata_read_from\<close> or \<open>ata_write_from\<close> for that \<open>i\<close> and \<open>woken = True\<close>.
\<close>

datatype progress = Finished i32 | WaitsForLock | WaitsForDisk nat

definition wait_disk :: "nat \<Rightarrow> nat \<Rightarrow> atasys \<Rightarrow> (progress \<times> atasys) option" where
  "wait_disk b i x = do {
     let task = current_task (akern x);
     let x = upd_bus b (\<lambda>u. u\<lparr>bs_waiter := task\<rparr>) x;
     s \<leftarrow> task_block task 0 TASK_BLOCKED (akern x);
     Some (WaitsForDisk i, set_akern s x) }"

definition interrupts_used :: "atasys \<Rightarrow> bool" where
  "interrupts_used x \<longleftrightarrow> t_state (tcbs (akern x) (current_task (akern x))) = TASK_RUNNING"

function ata_read_loop :: "hardware \<Rightarrow> nat \<Rightarrow> addr \<Rightarrow> u8 \<Rightarrow> nat \<Rightarrow> bool \<Rightarrow> atasys \<Rightarrow> (progress \<times> atasys) option" where
  "ata_read_loop hw b buf cnt i woken x =
    (if i < unat cnt
     then if interrupts_used x \<and> \<not> woken then wait_disk b i x
       else do {
         (r, x) \<leftarrow> busy_wait hw b ATA_SR_DRQ x;
         ata_read_loop hw b buf cnt (i + 1) False (ata_pio_read_sector hw b (buf + of_nat (i * SECTOR_SIZE)) x) }
     else Some (Finished 0, x))"
  by pat_completeness auto

termination ata_read_loop
  by (relation "measure (\<lambda>(_, _, _, cnt, i, _). unat cnt - i)") auto

text \<open>Here the wait comes after the sector: a woken task only still checks that the disk is done.\<close>

function ata_write_loop :: "hardware \<Rightarrow> nat \<Rightarrow> addr \<Rightarrow> u8 \<Rightarrow> nat \<Rightarrow> bool \<Rightarrow> atasys \<Rightarrow> (progress \<times> atasys) option" where
  "ata_write_loop hw b buf cnt i woken x =
    (if i < unat cnt
     then do {
       let x = (if woken then x else ata_pio_write_sector b (buf + of_nat (i * SECTOR_SIZE)) x);
       if interrupts_used x \<and> \<not> woken then wait_disk b i x
       else do {
         (r, x) \<leftarrow> busy_wait hw b ATA_SR_NULL x;
         ata_write_loop hw b buf cnt (i + 1) False x } }
     else Some (Finished 0, x))"
  by pat_completeness auto

termination ata_write_loop
  by (relation "measure (\<lambda>(_, _, _, cnt, i, _). unat cnt - i)") auto

declare ata_read_loop.simps [simp del] ata_write_loop.simps [simp del]

definition lock_bus :: "nat \<Rightarrow> atasys \<Rightarrow> (outcome \<times> atasys) option" where
  "lock_bus b x = do {
     (r, k, s) \<leftarrow> mutexlock_acquire (bs_lock (buses x ! b)) (alocks x) (akern x);
     Some (r, set_akern s (x\<lparr>alocks := k\<rparr>)) }"

definition unlock_bus :: "nat \<Rightarrow> i32 \<Rightarrow> atasys \<Rightarrow> (progress \<times> atasys) option" where
  "unlock_bus b v x = do {
     (r, k, s) \<leftarrow> mutexlock_release (bs_lock (buses x ! b)) (alocks x) (akern x);
     Some (case r of Returned \<Rightarrow> Finished v | Switched _ \<Rightarrow> WaitsForLock, set_akern s (x\<lparr>alocks := k\<rparr>)) }"

definition ata_read_from :: "hardware \<Rightarrow> nat \<Rightarrow> addr \<Rightarrow> u8 \<Rightarrow> nat \<Rightarrow> bool \<Rightarrow> atasys \<Rightarrow> (progress \<times> atasys) option" where
  "ata_read_from hw b buf cnt i woken x = do {
     (r, x) \<leftarrow> ata_read_loop hw b buf cnt i woken x;
     case r of Finished v \<Rightarrow> unlock_bus b v x | _ \<Rightarrow> Some (r, x) }"

definition ata_write_from :: "hardware \<Rightarrow> nat \<Rightarrow> addr \<Rightarrow> u8 \<Rightarrow> nat \<Rightarrow> bool \<Rightarrow> atasys \<Rightarrow> (progress \<times> atasys) option" where
  "ata_write_from hw b buf cnt i woken x = do {
     (r, x) \<leftarrow> ata_write_loop hw b buf cnt i woken x;
     case r of Finished v \<Rightarrow> unlock_bus b v x | _ \<Rightarrow> Some (r, x) }"

text \<open>From the lock on, up to and including the command.\<close>

definition ata_command :: "hardware \<Rightarrow> nat \<Rightarrow> nat \<Rightarrow> u32 \<Rightarrow> u8 \<Rightarrow> u8 \<Rightarrow> atasys \<Rightarrow> atasys option" where
  "ata_command hw b d lba cnt cmd x = do {
     let x = ata_select_disk b d x;
     (r, x) \<leftarrow> busy_wait hw b ATA_SR_DRDY x;
     Some (reg_out b ATA_IO_COMMAND cmd (ata_select_sector b d lba cnt x)) }"

definition ata_pio_read :: "hardware \<Rightarrow> nat \<times> nat \<Rightarrow> addr \<Rightarrow> u8 \<Rightarrow> u32 \<Rightarrow> atasys \<Rightarrow> (progress \<times> atasys) option" where
  "ata_pio_read hw disk buf cnt lba x = do {
     assert_c (cnt > 0);
     ASSERT_IRQ_DISABLE (akern x);
     let (b, d) = disk;
     (r, x) \<leftarrow> lock_bus b x;
     if r \<noteq> Returned then Some (WaitsForLock, x)
     else do { x \<leftarrow> ata_command hw b d lba cnt ATA_CMD_READ x; ata_read_from hw b buf cnt 0 False x } }"

definition ata_pio_write :: "hardware \<Rightarrow> nat \<times> nat \<Rightarrow> addr \<Rightarrow> u8 \<Rightarrow> u32 \<Rightarrow> atasys \<Rightarrow> (progress \<times> atasys) option" where
  "ata_pio_write hw disk buf cnt lba x = do {
     assert_c (cnt > 0);
     ASSERT_IRQ_DISABLE (akern x);
     let (b, d) = disk;
     (r, x) \<leftarrow> lock_bus b x;
     if r \<noteq> Returned then Some (WaitsForLock, x)
     else do { x \<leftarrow> ata_command hw b d lba cnt ATA_CMD_WRITE x; ata_write_from hw b buf cnt 0 False x } }"

definition ata_pio_ioctl :: "nat \<times> nat \<Rightarrow> dev_cmd \<Rightarrow> atasys \<Rightarrow> i32 option" where
  "ata_pio_ioctl disk cmd x = (case cmd of
     DEV_CMD_SECTOR_START \<Rightarrow> Some 0
   | DEV_CMD_SECTOR_COUNT \<Rightarrow> Some (total_lba (the_disk (fst disk) (snd disk) x))
   | _ \<Rightarrow> panic ''Unknown device command'')"

definition ata_pio_partition_read :: "hardware \<Rightarrow> ata_part \<Rightarrow> addr \<Rightarrow> u8 \<Rightarrow> u32 \<Rightarrow> atasys \<Rightarrow> (progress \<times> atasys) option" where
  "ata_pio_partition_read hw part buf cnt lba x = ata_pio_read hw (pt_disk part) buf cnt (pt_start_lba part + lba) x"

definition ata_pio_partition_write :: "hardware \<Rightarrow> ata_part \<Rightarrow> addr \<Rightarrow> u8 \<Rightarrow> u32 \<Rightarrow> atasys \<Rightarrow> (progress \<times> atasys) option" where
  "ata_pio_partition_write hw part buf cnt lba x = ata_pio_write hw (pt_disk part) buf cnt (pt_start_lba part + lba) x"

text \<open>The partition is passed by value, although the device table calls this function with a pointer.\<close>

definition ata_pio_partition_ioctl :: "ata_part \<Rightarrow> dev_cmd \<Rightarrow> i32 option" where
  "ata_pio_partition_ioctl part cmd = (case cmd of
     DEV_CMD_SECTOR_START \<Rightarrow> Some (pt_start_lba part)
   | DEV_CMD_SECTOR_COUNT \<Rightarrow> Some (pt_count part)
   | _ \<Rightarrow> panic ''Unknown device command'')"

definition ata_reset_derive :: "hardware \<Rightarrow> nat \<Rightarrow> atasys \<Rightarrow> atasys option" where
  "ata_reset_derive hw b x = do {
     let port = ctlbase (buses x ! b) + ATA_CTL_DEV_CONTROL;
     (r, x) \<leftarrow> busy_wait hw b ATA_SR_NULL (x\<lparr>aports := outb port ATA_CTRL_SRST (aports x)\<rparr>);
     (r, x) \<leftarrow> busy_wait hw b ATA_SR_NULL (x\<lparr>aports := outb port 0 (aports x)\<rparr>);
     Some x }"

section \<open>Finding disks and partitions\<close>

text \<open>Offsets in the data of \<^verbatim>\<open>IDENTIFY\<close>, and in the partition table of the master boot record.\<close>

primrec swap_pairs :: "addr \<Rightarrow> nat \<Rightarrow> mem \<Rightarrow> mem" where
  "swap_pairs buf 0 m = m"
| "swap_pairs buf (Suc n) m = swap_pairs (buf + 2) n (m(buf := m (buf + 1), buf + 1 := m buf))"

definition ata_swap_words :: "addr \<Rightarrow> nat \<Rightarrow> mem \<Rightarrow> mem" where
  "ata_swap_words buf len m = (swap_pairs buf ((len + 1) div 2) m)(buf + of_nat (len - 1) := 0)"

definition ata_identify :: "hardware \<Rightarrow> nat \<Rightarrow> nat \<Rightarrow> addr \<Rightarrow> atasys \<Rightarrow> (progress \<times> atasys) option" where
  "ata_identify hw b d buf x = do {
     (r, x) \<leftarrow> lock_bus b x;
     if r \<noteq> Returned then Some (WaitsForLock, x)
     else do {
       let x = reg_out b ATA_IO_DEVICE (selector (the_disk b d x) AND NOT 0x40) x;
       let x = reg_out b ATA_IO_COMMAND ATA_CMD_IDENTIFY (ata_select_sector b d 0 0 x);
       let (st, p) = inb hw (ctlbase (buses x ! b) + ATA_CTL_ALT_STATUS) (aports x);
       let x = x\<lparr>aports := p\<rparr>;
       (r, x) \<leftarrow> (if st = 0 then Some (ATA_SR_ERR, x) else busy_wait hw b ATA_SR_DRQ x);
       if r = ATA_SR_ERR then unlock_bus b EOF (upd_disk b d (\<lambda>k. k\<lparr>total_lba := 0\<rparr>) x)
       else do {
         let x = ata_pio_read_sector hw b buf x;
         let x = upd_disk b d (\<lambda>k. k\<lparr>total_lba := rd32 (amem x) (buf + 120)\<rparr>) x;
         let m = ata_swap_words (buf + 20) 20 (amem x);
         let m = ata_swap_words (buf + 46) 8 m;
         let m = ata_swap_words (buf + 54) 40 m;
         unlock_bus b 0 (set_amem m x) } } }"

text \<open>One entry of the partition table; \<^verbatim>\<open>%s%d\<close> makes its name.\<close>

definition partition_entry :: "hardware \<Rightarrow> ata_addrs \<Rightarrow> nat \<Rightarrow> nat \<Rightarrow> addr \<Rightarrow> nat \<Rightarrow> atasys \<Rightarrow> (progress \<times> atasys) option" where
  "partition_entry hw A b d buf i x = do {
     let e = buf + 446 + of_nat (16 * i);
     if rd32 (amem x) (e + 12) = 0 then Some (Finished 0, upd_part b d i (\<lambda>q. q\<lparr>pt_count := 0\<rparr>) x)
     else do {
       (n, m) \<leftarrow> sprintf (at_part A b d i) (map of_char ''%s%d'') (\<lambda>k. if k = 0 then at_disk A b d else of_nat (i + 1)) (amem x);
       let x = set_amem m x;
       let x = upd_part b d i (\<lambda>_. \<lparr>pt_disk = (b, d), pt_system = ucast (m (e + 4)), pt_start_lba = rd32 m (e + 8),
         pt_count = rd32 m (e + 12)\<rparr>) x;
       if ucast (m (e + 4)) = PARTITION_FS_EXTENDED
       then ata_pio_read hw (b, d) (buf + of_nat SECTOR_SIZE) 1 (rd32 m (e + 8)) x
       else Some (Finished 0, x) } }"

primrec partition_loop :: "hardware \<Rightarrow> ata_addrs \<Rightarrow> nat \<Rightarrow> nat \<Rightarrow> addr \<Rightarrow> nat list \<Rightarrow> atasys \<Rightarrow> (progress \<times> atasys) option" where
  "partition_loop hw A b d buf [] x = Some (Finished 0, x)"
| "partition_loop hw A b d buf (i # is) x = do {
     (r, x) \<leftarrow> partition_entry hw A b d buf i x;
     case r of Finished _ \<Rightarrow> partition_loop hw A b d buf is x | _ \<Rightarrow> Some (r, x) }"

definition ata_partition :: "hardware \<Rightarrow> ata_addrs \<Rightarrow> nat \<Rightarrow> nat \<Rightarrow> addr \<Rightarrow> atasys \<Rightarrow> (progress \<times> atasys) option" where
  "ata_partition hw A b d buf x =
    (if total_lba (the_disk b d x) = 0 then Some (Finished 0, x)
     else do {
       (r, x) \<leftarrow> ata_pio_read hw (b, d) buf 1 0 x;
       case r of Finished _ \<Rightarrow> partition_loop hw A b d buf [0 ..< ATA_PARTITION_NR] x | _ \<Rightarrow> Some (r, x) })"

text \<open>The name of a disk or partition, as \<^verbatim>\<open>dev_install\<close> copies it.\<close>

definition string_at :: "mem \<Rightarrow> addr \<Rightarrow> string option" where
  "string_at m a = do { n \<leftarrow> strlen m a; Some (map (\<lambda>i. char_of (unat (m (a + of_nat i)))) [0 ..< unat n]) }"

definition install_disk :: "ata_addrs \<Rightarrow> nat \<times> nat \<Rightarrow> atasys \<Rightarrow> atasys option" where
  "install_disk A disk x = (let (b, d) = disk in
     if total_lba (the_disk b d x) = 0 then Some x
     else do {
       name \<leftarrow> string_at (amem x) (at_disk A b d);
       (id, v) \<leftarrow> dev_install DEV_BLOCK DEV_ATA_DISK (at_disk A b d) name (- 1) (at_ioctl A) (at_read A) (at_write A) (adev x);
       forM [0 ..< ATA_PARTITION_NR] (\<lambda>i x.
         if pt_count (dk_parts (the_disk b d x) ! i) = 0 then Some x
         else do {
           name \<leftarrow> string_at (amem x) (at_part A b d i);
           (_, v) \<leftarrow> dev_install DEV_BLOCK DEV_ATA_PART (at_part A b d i) name id (at_part_ioctl A) (at_part_read A)
             (at_part_write A) (adev x);
           Some (x\<lparr>adev := v\<rparr>) }) (x\<lparr>adev := v\<rparr>) })"

definition all_disks :: "(nat \<times> nat) list" where
  "all_disks = List.product [0 ..< ATA_BUS_NR] [0 ..< ATA_DISK_NR]"

definition ata_device_install :: "ata_addrs \<Rightarrow> atasys \<Rightarrow> atasys option" where
  "ata_device_install A x = forM all_disks (install_disk A) x"

definition ata_handler :: "hardware \<Rightarrow> u32 \<Rightarrow> atasys \<Rightarrow> atasys option" where
  "ata_handler hw vector x = do {
     assert_c (vector = 0x2e \<or> vector = 0x2f);
     let x = x\<lparr>aports := outs (send_eoi vector) (aports x)\<rparr>;
     let b = unat (vector - 0x20 - 14);
     let x = x\<lparr>aports := snd (inb hw (iobase (buses x ! b) + ATA_IO_STATUS) (aports x))\<rparr>;
     if bs_waiter (buses x ! b) \<noteq> 0
     then do {
       s \<leftarrow> task_unblock (bs_waiter (buses x ! b)) (akern x);
       Some (upd_bus b (\<lambda>u. u\<lparr>bs_waiter := 0\<rparr>) (set_akern s x)) }
     else Some x }"

definition PAGE_BYTES :: u32 where "PAGE_BYTES = 4096"

definition disk_init :: "hardware \<Rightarrow> ata_addrs \<Rightarrow> addr \<Rightarrow> nat \<Rightarrow> nat \<Rightarrow> atasys \<Rightarrow> (progress \<times> atasys) option" where
  "disk_init hw A buf b d x = do {
     (n, m) \<leftarrow> sprintf (at_disk A b d) (map of_char ''hdd%c'') (\<lambda>_. of_nat (97 + b * ATA_BUS_NR + d)) (amem x);
     let x = upd_disk b d (\<lambda>k. k\<lparr>dk_bus := b, master := (d = 0),
       selector := (if d = 0 then ATA_MASTER_SELECTOR else ATA_SLAVE_SELECTOR)\<rparr>) (set_amem m x);
     (r, x) \<leftarrow> ata_identify hw b d buf x;
     case r of
       Finished _ \<Rightarrow> do {
         let x = set_amem (memset (amem x) buf 0 PAGE_BYTES) x;
         (r, x) \<leftarrow> ata_partition hw A b d buf x;
         case r of Finished _ \<Rightarrow> Some (r, set_amem (memset (amem x) buf 0 PAGE_BYTES) x) | _ \<Rightarrow> Some (r, x) }
     | _ \<Rightarrow> Some (r, x) }"

definition bus_init :: "ata_addrs \<Rightarrow> nat \<Rightarrow> atasys \<Rightarrow> atasys option" where
  "bus_init A b x = do {
     (n, m) \<leftarrow> sprintf (at_bus A b) (map of_char ''ata%u'') (\<lambda>_. of_nat b) (amem x);
     let x = set_amem m x;
     (k, s) \<leftarrow> mutexlock_init (bs_lock (buses x ! b)) (alocks x) (akern x);
     Some (upd_bus b (\<lambda>u. u\<lparr>active := None, bs_waiter := 0, iobase := (if b = 0 then ATA_IOBASE_PRIMARY else ATA_IOBASE_SECONDARY),
       ctlbase := (if b = 0 then ATA_CTLBASE_PRIMARY else ATA_CTLBASE_SECONDARY)\<rparr>) (set_akern s (x\<lparr>alocks := k\<rparr>))) }"

primrec disks_loop :: "hardware \<Rightarrow> ata_addrs \<Rightarrow> addr \<Rightarrow> (nat \<times> nat) list \<Rightarrow> atasys \<Rightarrow> (progress \<times> atasys) option" where
  "disks_loop hw A buf [] x = Some (Finished 0, x)"
| "disks_loop hw A buf (disk # ds) x = do {
     x \<leftarrow> (if snd disk = 0 then bus_init A (fst disk) x else Some x);
     (r, x) \<leftarrow> disk_init hw A buf (fst disk) (snd disk) x;
     case r of Finished _ \<Rightarrow> disks_loop hw A buf ds x | _ \<Rightarrow> Some (r, x) }"

definition ata_bus_init :: "hardware \<Rightarrow> ata_addrs \<Rightarrow> atasys \<Rightarrow> (progress \<times> atasys) option" where
  "ata_bus_init hw A x = do {
     (buf, s) \<leftarrow> kalloc_page (akern x) 1;
     (r, x) \<leftarrow> disks_loop hw A buf all_disks (set_akern s x);
     case r of
       Finished _ \<Rightarrow> do { s \<leftarrow> kfree_page (akern x) buf 1; Some (Finished 0, set_akern s x) }
     | _ \<Rightarrow> Some (r, x) }"

definition ata_init :: "hardware \<Rightarrow> ata_addrs \<Rightarrow> atasys \<Rightarrow> (progress \<times> atasys) option" where
  "ata_init hw A x = do {
     (r, x) \<leftarrow> ata_bus_init hw A x;
     case r of
       Finished _ \<Rightarrow> do {
         x \<leftarrow> ata_device_install A x;
         t \<leftarrow> set_interrupt_handler 14 (at_handler A) (atable x);
         t \<leftarrow> set_interrupt_handler 15 (at_handler A) t;
         p \<leftarrow> set_interrupt_mask 14 True (apic x);
         p \<leftarrow> set_interrupt_mask 15 True p;
         p \<leftarrow> set_interrupt_mask 2 True p;
         Some (Finished 0, x\<lparr>atable := t, apic := p\<rparr>) }
     | _ \<Rightarrow> Some (r, x) }"

end
