(* ===== verification/Drive.thy ===== *)
theory Drive
  imports Ata
begin

text \<open>
  What the disk driver makes a disk do. \<open>drive\<close> says what the driver relies on of a disk (the ATA specification,
  28-bit addresses, PIO transfers): how the accesses to the ports of a bus act on the registers and the sectors of its
  disks. Then come the transfers of \<^verbatim>\<open>ata_pio_read\<close> and \<^verbatim>\<open>ata_pio_write\<close> while the kernel starts, when no task waits.
\<close>

section \<open>A disk\<close>

text \<open>\<open>media s k\<close> is the \<open>k\<close>-th word of the master, or of the slave when \<open>s\<close>; \<open>at_word\<close> counts the words of a command.\<close>

record drive =
  rg_count :: u8
  rg_low :: u8
  rg_mid :: u8
  rg_high :: u8
  rg_device :: u8
  rg_command :: u8
  at_word :: nat
  media :: "bool \<Rightarrow> nat \<Rightarrow> u16"

definition drive_lba :: "drive \<Rightarrow> nat" where
  "drive_lba D = unat (rg_low D) + 2 ^ 8 * unat (rg_mid D) + 2 ^ 16 * unat (rg_high D) + 2 ^ 24 * (unat (rg_device D) mod 16)"

definition drive_slave :: "drive \<Rightarrow> bool" where
  "drive_slave D \<longleftrightarrow> bit (rg_device D) 4"

definition drive_index :: "drive \<Rightarrow> nat" where
  "drive_index D = 256 * drive_lba D + at_word D"

primrec drive_step :: "u16 \<Rightarrow> drive \<Rightarrow> io \<Rightarrow> drive" where
  "drive_step base D (In p) = (if p = base then D\<lparr>at_word := at_word D + 1\<rparr> else D)"
| "drive_step base D (Out p v) =
    (if p = base + 2 then D\<lparr>rg_count := ucast v\<rparr>
     else if p = base + 3 then D\<lparr>rg_low := ucast v\<rparr>
     else if p = base + 4 then D\<lparr>rg_mid := ucast v\<rparr>
     else if p = base + 5 then D\<lparr>rg_high := ucast v\<rparr>
     else if p = base + 6 then D\<lparr>rg_device := ucast v\<rparr>
     else if p = base + 7 then D\<lparr>rg_command := ucast v, at_word := 0\<rparr>
     else if p = base \<and> rg_command D = ATA_CMD_WRITE
     then D\<lparr>media := (media D)(drive_slave D := (media D (drive_slave D))(drive_index D := v)), at_word := at_word D + 1\<rparr>
     else D)"

definition drive_run :: "u16 \<Rightarrow> ports \<Rightarrow> drive \<Rightarrow> drive" where
  "drive_run base p D = foldl (drive_step base) D p"

lemma drive_run_simps [simp]:
  "drive_run base [] D = D" "drive_run base (p @ q) D = drive_run base q (drive_run base p D)"
  "drive_run base (e # p) D = drive_run base p (drive_step base D e)"
  by (simp_all add: drive_run_def)

text \<open>
  The status after the accesses \<open>p\<close>: no error, not busy, ready, and with data while a read is not complete.
\<close>

definition drive_ready :: "hardware \<Rightarrow> u16 \<Rightarrow> u16 \<Rightarrow> drive \<Rightarrow> ports \<Rightarrow> bool" where
  "drive_ready hw base ctl D p \<longleftrightarrow> (let st = ucast (hw p ctl) :: u8; E = drive_run base p D
     in st AND ATA_SR_ERR = 0 \<and> st AND ATA_SR_BSY = 0 \<and> st AND ATA_SR_DRDY = ATA_SR_DRDY \<and>
        (rg_command E = ATA_CMD_READ \<and> at_word E < 256 * unat (rg_count E) \<longrightarrow> st AND ATA_SR_DRQ = ATA_SR_DRQ))"

text \<open>
  The disks on a bus: data reads return the words of a read command, and after any accesses the status becomes ready
  when it is read often enough, without an error in between.
\<close>

definition is_drive :: "hardware \<Rightarrow> u16 \<Rightarrow> u16 \<Rightarrow> drive \<Rightarrow> bool" where
  "is_drive hw base ctl D \<longleftrightarrow>
    (\<forall>p. rg_command (drive_run base p D) = ATA_CMD_READ \<longrightarrow>
       hw p base = media (drive_run base p D) (drive_slave (drive_run base p D)) (drive_index (drive_run base p D))) \<and>
    (\<forall>p. \<exists>n. drive_ready hw base ctl D (p @ replicate n (In ctl)) \<and>
       (\<forall>k < n. (ucast (hw (p @ replicate k (In ctl)) ctl) :: u8) AND ATA_SR_ERR = 0))"

lemma drive_run_status: "ctl \<noteq> base \<Longrightarrow> drive_run base (replicate n (In ctl)) D = D"
  by (induction n) simp_all

lemma busy_wait_ready:
  assumes "drive_ready hw (iobase u) (ctlbase u) D (p @ replicate n (In (ctlbase u)))"
    and "\<forall>k < n. (ucast (hw (p @ replicate k (In (ctlbase u))) (ctlbase u)) :: u8) AND ATA_SR_ERR = 0"
    and "\<And>k. (ucast (hw (p @ replicate n (In (ctlbase u))) (ctlbase u)) :: u8) AND ev = ev"
  shows "\<exists>k. ata_busy_wait hw u ev p = Some (0, p @ replicate k (In (ctlbase u)))"
  using assms
proof (induction n arbitrary: p)
  case 0
  then have "ata_busy_wait hw u ev p = Some (0, p @ [In (ctlbase u)])"
    by (subst ata_busy_wait.simps) (simp add: inb_def inw_def ATA_CTL_ALT_STATUS_def drive_ready_def Let_def)
  then show ?case by (intro exI [of _ 1]) simp
next
  case (Suc n)
  let ?p = "p @ [In (ctlbase u)]" and ?st = "ucast (hw p (ctlbase u)) :: u8"
  have e: "?st AND ATA_SR_ERR = 0" using Suc(3) by (auto dest: spec [of _ 0])
  have r: "p @ replicate (Suc k) (In (ctlbase u)) = ?p @ replicate k (In (ctlbase u))" for k by simp
  have "\<forall>k < n. (ucast (hw (?p @ replicate k (In (ctlbase u))) (ctlbase u)) :: u8) AND ATA_SR_ERR = 0"
    using Suc(3) r by (metis Suc_less_eq)
  from Suc(1) [OF Suc(2) [unfolded r] this Suc(4) [unfolded r]] obtain k where
    k: "ata_busy_wait hw u ev ?p = Some (0, ?p @ replicate k (In (ctlbase u)))" by blast
  have "ata_busy_wait hw u ev p = Some (0, ?p) \<or> ata_busy_wait hw u ev p = ata_busy_wait hw u ev ?p"
    using e by (subst (1 2) ata_busy_wait.simps) (simp add: inb_def inw_def ATA_CTL_ALT_STATUS_def Let_def)
  then have "ata_busy_wait hw u ev p = Some (0, p @ replicate 1 (In (ctlbase u)))
      \<or> ata_busy_wait hw u ev p = Some (0, p @ replicate (Suc k) (In (ctlbase u)))"
    using k by simp
  then show ?case by blast
qed

lemma busy_wait_drive:
  assumes "is_drive hw (iobase (buses x ! b)) (ctlbase (buses x ! b)) D" and "ctlbase (buses x ! b) \<noteq> iobase (buses x ! b)"
  defines "E \<equiv> drive_run (iobase (buses x ! b)) (aports x) D"
  assumes "ev \<in> {ATA_SR_NULL, ATA_SR_DRDY} \<or> ev = ATA_SR_DRQ \<and> rg_command E = ATA_CMD_READ \<and> at_word E < 256 * unat (rg_count E)"
  shows "\<exists>p. busy_wait hw b ev x = Some (0, x\<lparr>aports := p\<rparr>) \<and> drive_run (iobase (buses x ! b)) p D = E"
proof -
  let ?u = "buses x ! b"
  from assms(1) obtain n where n: "drive_ready hw (iobase ?u) (ctlbase ?u) D (aports x @ replicate n (In (ctlbase ?u)))"
    "\<forall>k < n. (ucast (hw (aports x @ replicate k (In (ctlbase ?u))) (ctlbase ?u)) :: u8) AND ATA_SR_ERR = 0"
    unfolding is_drive_def by blast
  have "(ucast (hw (aports x @ replicate n (In (ctlbase ?u))) (ctlbase ?u)) :: u8) AND ev = ev"
    using n(1) assms(2,4) by (auto simp: drive_ready_def Let_def drive_run_status E_def ATA_SR_NULL_def)
  from busy_wait_ready [OF n this] show ?thesis
    using drive_run_status [OF assms(2)] by (auto simp: busy_wait_def E_def)
qed

section \<open>Words of a transfer\<close>

primrec store_words :: "mem \<Rightarrow> addr \<Rightarrow> u16 list \<Rightarrow> mem" where
  "store_words m a [] = m"
| "store_words m a (v # vs) = store_words (wr16 m a v) (a + 2) vs"

primrec put_words :: "(nat \<Rightarrow> u16) \<Rightarrow> nat \<Rightarrow> u16 list \<Rightarrow> nat \<Rightarrow> u16" where
  "put_words f s [] = f"
| "put_words f s (v # vs) = put_words (f(s := v)) (s + 1) vs"

definition load_words :: "mem \<Rightarrow> addr \<Rightarrow> nat \<Rightarrow> u16 list" where
  "load_words m a n = map (\<lambda>i. rd16 m (a + of_nat (2 * i))) [0 ..< n]"

lemma length_load_words [simp]: "length (load_words m a n) = n"
  by (simp add: load_words_def)

lemma load_words_0 [simp]: "load_words m a 0 = []"
  by (simp add: load_words_def)

lemma store_words_append:
  "store_words m a (vs @ ws) = store_words (store_words m a vs) (a + of_nat (2 * length vs)) ws"
  by (induction vs arbitrary: m a) (simp_all add: algebra_simps)

lemma put_words_append: "put_words f s (vs @ ws) = put_words (put_words f s vs) (s + length vs) ws"
  by (induction vs arbitrary: f s) simp_all

lemma put_words_outside: "k < s \<or> s + length vs \<le> k \<Longrightarrow> put_words f s vs k = f k"
  by (induction vs arbitrary: f s) auto

lemma put_words_nth: "k < length vs \<Longrightarrow> put_words f s vs (s + k) = vs ! k"
proof (induction vs arbitrary: f s k)
  case (Cons v vs)
  show ?case
  proof (cases k)
    case 0
    then show ?thesis by (simp add: put_words_outside)
  next
    case (Suc j)
    with Cons.IH [of j "f(s := v)" "s + 1"] Cons.prems show ?thesis by (simp del: fun_upd_apply)
  qed
qed simp

lemma load_words_Suc: "load_words m a (Suc n) = rd16 m a # load_words m (a + 2) n"
  by (simp add: load_words_def map_upt_Suc algebra_simps del: upt_Suc)

lemma load_words_snoc: "load_words m a (Suc n) = load_words m a n @ [rd16 m (a + of_nat (2 * n))]"
  by (simp add: load_words_def)

lemma rd16_bytes: "(ucast (rd16 m a) :: u8) = m a" "(ucast (drop_bit 8 (rd16 m a)) :: u8) = m (a + 1)"
  by (rule bit_word_eqI; simp add: rd16_def bit_simps; fail)
    (rule bit_word_eqI; auto simp: rd16_def bit_simps dest: bit_imp_le_length)

text \<open>Words stored as they were loaded are the bytes at the source.\<close>

lemma store_load_words:
  assumes "2 * n < 2 ^ 32"
  shows "store_words m dst (load_words m' src n) c = (if in_range dst (2 * n) c then m' (src + (c - dst)) else m c)"
  using assms
proof (induction n)
  case (Suc n)
  let ?d = "c - dst"
  have n: "2 * n + 1 < 2 ^ LENGTH(32)" using Suc(2) by simp
  have off: "c = dst + of_nat k \<longleftrightarrow> unat ?d = k" if "k < 2 ^ LENGTH(32)" for k
  proof
    assume "c = dst + of_nat k"
    then have "?d = of_nat k" by simp
    then show "unat ?d = k" using that by (simp add: unat_of_nat take_bit_nat_eq_self)
  next
    assume "unat ?d = k"
    then have "?d = of_nat k" by auto
    then show "c = dst + of_nat k" by (metis diff_add_cancel add.commute)
  qed
  have c: "c = dst + of_nat (2 * n) \<longleftrightarrow> unat ?d = 2 * n" using n by (intro off) linarith
  have c1: "c = dst + of_nat (2 * n) + 1 \<longleftrightarrow> unat ?d = 2 * n + 1"
    using off [OF n] by (simp only: of_nat_add of_nat_1 add.assoc)
  have s: "store_words m dst (load_words m' src (Suc n)) =
    (store_words m dst (load_words m' src n))(dst + of_nat (2 * n) := m' (src + of_nat (2 * n)),
      dst + of_nat (2 * n) + 1 := m' (src + of_nat (2 * n) + 1))"
    unfolding load_words_snoc store_words_append by (simp add: wr16_def rd16_bytes)
  have sd: "src + of_nat k = src + ?d" if "unat ?d = k" for k using that by auto
  have IH: "store_words m dst (load_words m' src n) c = (if unat ?d < 2 * n then m' (src + ?d) else m c)"
    using Suc by (simp add: in_range_def)
  consider "unat ?d = 2 * n" | "unat ?d = 2 * n + 1" | "unat ?d \<noteq> 2 * n" "unat ?d \<noteq> 2 * n + 1" by blast
  then have "store_words m dst (load_words m' src (Suc n)) c = (if unat ?d < 2 * Suc n then m' (src + ?d) else m c)"
  proof cases
    case 1
    have "c \<noteq> dst + of_nat (2 * n) + 1" unfolding c1 using 1 by simp
    then show ?thesis unfolding s fun_upd_apply if_P [OF c [THEN iffD2, OF 1]] if_not_P sd [OF 1] using 1 by simp
  next
    case 2
    have e: "src + of_nat (2 * n) + 1 = src + ?d" using sd [OF 2] by (simp only: of_nat_add of_nat_1 add.assoc)
    then show ?thesis unfolding s fun_upd_apply if_P [OF c1 [THEN iffD2, OF 2]] e using 2 by simp
  next
    case 3
    have "c \<noteq> dst + of_nat (2 * n) + 1" "c \<noteq> dst + of_nat (2 * n)" unfolding c c1 using 3 by simp_all
    then show ?thesis unfolding s fun_upd_apply if_not_P IH using 3 by simp
  qed
  then show ?case by (simp only: in_range_def)
qed (simp add: load_words_def)

section \<open>Transfers\<close>

lemma drive_run_reads: "drive_run base (replicate n (In base)) E = E\<lparr>at_word := at_word E + n\<rparr>"
  by (induction n arbitrary: E) simp_all

lemma read_words_drive:
  assumes "is_drive hw base ctl D" and "rg_command (drive_run base p D) = ATA_CMD_READ"
  defines "E \<equiv> drive_run base p D"
  shows "read_words hw base buf n p m = (p @ replicate n (In base),
    store_words m buf (map (\<lambda>k. media E (drive_slave E) (drive_index E + k)) [0 ..< n]))"
  using assms(2) unfolding E_def
proof (induction n arbitrary: p buf m)
  case (Suc n)
  let ?E = "drive_run base p D" and ?F = "drive_run base (p @ [In base]) D"
  have F: "?F = ?E\<lparr>at_word := at_word ?E + 1\<rparr>" by simp
  have i: "drive_index ?F = drive_index ?E + 1" "drive_slave ?F = drive_slave ?E" "media ?F = media ?E"
    unfolding F by (simp_all add: drive_index_def drive_lba_def drive_slave_def)
  have v: "hw p base = media ?E (drive_slave ?E) (drive_index ?E)" using assms(1) Suc(2) unfolding is_drive_def by blast
  have "rg_command ?F = ATA_CMD_READ" using Suc(2) by simp
  from Suc(1) [OF this, of "buf + 2" "wr16 m buf (hw p base)"] show ?case
    unfolding i by (simp add: inw_def v map_upt_Suc del: upt_Suc)
qed simp

lemma drive_run_writes:
  assumes "rg_command E = ATA_CMD_WRITE"
  shows "drive_run base (map (Out base) ws) E =
    E\<lparr>media := (media E)(drive_slave E := put_words (media E (drive_slave E)) (drive_index E) ws), at_word := at_word E + length ws\<rparr>"
  using assms
proof (induction ws arbitrary: E)
  case (Cons w ws)
  let ?F = "drive_step base E (Out base w)"
  have F: "?F = E\<lparr>media := (media E)(drive_slave E := (media E (drive_slave E))(drive_index E := w)), at_word := at_word E + 1\<rparr>"
    using Cons(2) by simp
  have "rg_command ?F = ATA_CMD_WRITE" using Cons(2) F by simp
  note IH = Cons(1) [OF this]
  have i: "drive_slave ?F = drive_slave E" "drive_index ?F = Suc (drive_index E)"
    "media ?F (drive_slave E) = (media E (drive_slave E))(drive_index E := w)"
    unfolding F by (simp_all add: drive_slave_def drive_index_def drive_lba_def)
  have "(media ?F)(drive_slave E := g) = (media E)(drive_slave E := g)" for g unfolding F by simp
  with IH Cons(2) show ?case unfolding i by (simp add: F del: fun_upd_apply)
qed simp

lemma write_words_ports: "write_words base buf n m p = p @ map (Out base) (load_words m buf n)"
  by (induction n arbitrary: buf p) (simp_all add: outw_def load_words_Suc)

lemma set_amem_simps [simp]:
  "amem (set_amem m x) = m" "aports (set_amem m x) = aports x" "buses (set_amem m x) = buses x" "alocks (set_amem m x) = alocks x"
  "interrupts_used (set_amem m x) = interrupts_used x" "interrupts_used (x\<lparr>aports := p\<rparr>) = interrupts_used x"
  "set_amem m ((set_amem m' x)\<lparr>aports := p\<rparr>) = set_amem m (x\<lparr>aports := p\<rparr>)"
  "set_amem m (set_amem m' x) = set_amem m x"
  by (simp_all add: set_amem_def set_akern_def interrupts_used_def current_task_def)

text \<open>The words \<open>k\<close> with \<open>256 i \<le> k < 256 n\<close> of a command.\<close>

definition command_words :: "drive \<Rightarrow> nat \<Rightarrow> nat \<Rightarrow> u16 list" where
  "command_words E i n = map (\<lambda>k. media E (drive_slave E) (256 * drive_lba E + k)) [256 * i ..< 256 * n]"

lemma command_words_Suc: "i < n \<Longrightarrow> command_words E i n = command_words E i (i + 1) @ command_words E (i + 1) n"
  unfolding command_words_def map_append [symmetric] using upt_add_eq_append [of "256 * i" "256 * (i + 1)" "256 * n - 256 * (i + 1)"]
  by simp

lemma read_sector_drive:
  fixes x :: atasys and b :: nat and D :: drive
  defines "base \<equiv> iobase (buses x ! b)"
  defines "E \<equiv> drive_run base (aports x) D"
  assumes "is_drive hw base ctl D" and "rg_command E = ATA_CMD_READ" and "at_word E = 256 * i"
  shows "ata_pio_read_sector hw b buf x =
    set_amem (store_words (amem x) buf (command_words E i (i + 1))) (x\<lparr>aports := aports x @ replicate 256 (In base)\<rparr>)"
proof -
  have "map (\<lambda>k. media E (drive_slave E) (drive_index E + k)) [0 ..< 256] = command_words E i (i + 1)"
    using map_add_upt [of "256 * i" 256, symmetric] unfolding command_words_def drive_index_def assms(5)
    by (simp add: o_def algebra_simps)
  with read_words_drive [OF assms(3), where p = "aports x" and n = 256 and buf = buf and m = "amem x"] assms(4) show ?thesis
    by (simp add: ata_pio_read_sector_def SECTOR_SIZE_def ATA_IO_DATA_def E_def base_def)
qed

lemma read_loop_drive:
  fixes x :: atasys and b :: nat and D :: drive
  defines "base \<equiv> iobase (buses x ! b)" and "ctl \<equiv> ctlbase (buses x ! b)"
  defines "E \<equiv> drive_run base (aports x) D"
  assumes "is_drive hw base ctl D" and "ctl \<noteq> base" and "\<not> interrupts_used x" and "rg_command E = ATA_CMD_READ" and "rg_count E = cnt"
    and "at_word E = 256 * i" and "i \<le> unat cnt"
  shows "\<exists>p. ata_read_loop hw b buf cnt i False x = Some (Finished 0, set_amem (store_words (amem x) (buf + of_nat (i * SECTOR_SIZE))
      (command_words E i (unat cnt))) (x\<lparr>aports := p\<rparr>)) \<and> drive_run base p D = E\<lparr>at_word := 256 * unat cnt\<rparr>"
  using assms(4-10) unfolding E_def base_def ctl_def
proof (induction "unat cnt - i" arbitrary: i x)
  case 0
  then show ?case
    by (intro exI [of _ "aports x"]) (simp add: ata_read_loop.simps command_words_def set_amem_def set_akern_def)
next
  case (Suc n)
  let ?u = "buses x ! b" and ?E = "drive_run (iobase (buses x ! b)) (aports x) D"
  have i: "i < unat cnt" using Suc(2) by simp
  have "256 * i < 256 * unat cnt" using i by simp
  from busy_wait_drive [OF Suc(3,4), of ATA_SR_DRQ] this Suc(6-8) obtain p where
    p: "busy_wait hw b ATA_SR_DRQ x = Some (0, x\<lparr>aports := p\<rparr>)" "drive_run (iobase ?u) p D = ?E" by auto
  define y where "y = set_amem (store_words (amem x) (buf + of_nat (i * SECTOR_SIZE)) (command_words ?E i (i + 1)))
    (x\<lparr>aports := p @ replicate 256 (In (iobase ?u))\<rparr>)"
  have sec: "ata_pio_read_sector hw b (buf + of_nat (i * SECTOR_SIZE)) (x\<lparr>aports := p\<rparr>) = y"
    using read_sector_drive [of hw "x\<lparr>aports := p\<rparr>" b "ctlbase ?u" D i] Suc(3,6,8) p(2) by (simp add: y_def)
  have y: "buses y = buses x" "\<not> interrupts_used y"
    "drive_run (iobase ?u) (aports y) D = ?E\<lparr>at_word := 256 * (i + 1)\<rparr>"
    using Suc(5,8) by (simp_all add: y_def p(2) drive_run_reads)
  have n: "n = unat cnt - (i + 1)" using Suc(2) by simp
  have w: "command_words (?E\<lparr>at_word := j\<rparr>) k l = command_words ?E k l" for j k l
    by (simp add: command_words_def drive_slave_def drive_lba_def)
  have "\<exists>q. ata_read_loop hw b buf cnt (i + 1) False y = Some (Finished 0, set_amem (store_words (amem y)
        (buf + of_nat ((i + 1) * SECTOR_SIZE)) (command_words ?E (i + 1) (unat cnt))) (y\<lparr>aports := q\<rparr>)) \<and>
      drive_run (iobase ?u) q D = ?E\<lparr>at_word := 256 * unat cnt\<rparr>"
    using Suc(1) [OF n, of y, unfolded y(1) y(3) w] Suc(3,4,6,7) y(2) i by simp
  then obtain q where
    q: "ata_read_loop hw b buf cnt (i + 1) False y = Some (Finished 0, set_amem (store_words (amem y)
        (buf + of_nat ((i + 1) * SECTOR_SIZE)) (command_words ?E (i + 1) (unat cnt))) (y\<lparr>aports := q\<rparr>))"
      "drive_run (iobase ?u) q D = ?E\<lparr>at_word := 256 * unat cnt\<rparr>" by blast
  have l: "length (command_words ?E i (i + 1)) = 256" by (simp add: command_words_def)
  have "store_words (amem y) (buf + of_nat ((i + 1) * SECTOR_SIZE)) (command_words ?E (i + 1) (unat cnt)) =
    store_words (amem x) (buf + of_nat (i * SECTOR_SIZE)) (command_words ?E i (unat cnt))"
    unfolding command_words_Suc [OF i] store_words_append l by (simp add: y_def SECTOR_SIZE_def algebra_simps)
  moreover have "set_amem m (y\<lparr>aports := q\<rparr>) = set_amem m (x\<lparr>aports := q\<rparr>)" for m by (simp add: y_def)
  moreover have "ata_read_loop hw b buf cnt i False x = ata_read_loop hw b buf cnt (i + 1) False y"
    using p(1) by (subst ata_read_loop.simps) (simp add: i Suc(5) sec del: of_nat_mult)
  ultimately have "ata_read_loop hw b buf cnt i False x = Some (Finished 0, set_amem (store_words (amem x)
      (buf + of_nat (i * SECTOR_SIZE)) (command_words ?E i (unat cnt))) (x\<lparr>aports := q\<rparr>))"
    using q(1) by (simp only:)
  with q(2) show ?case by blast
qed

text \<open>The same for writing: sector after sector goes from memory to the disk.\<close>

definition write_media :: "drive \<Rightarrow> nat \<Rightarrow> u16 list \<Rightarrow> drive" where
  "write_media E i ws = E\<lparr>media := (media E)(drive_slave E := put_words (media E (drive_slave E)) (256 * drive_lba E + 256 * i) ws),
     at_word := 256 * i + length ws\<rparr>"

lemma write_media_simps [simp]:
  "rg_command (write_media E i ws) = rg_command E" "rg_count (write_media E i ws) = rg_count E"
  "at_word (write_media E i ws) = 256 * i + length ws"
  by (simp_all add: write_media_def)

lemma write_media_append:
  "length ws = 256 \<Longrightarrow> write_media (write_media E i ws) (i + 1) vs = write_media E i (ws @ vs)"
  by (simp add: write_media_def drive_slave_def drive_lba_def put_words_append algebra_simps)

lemma load_words_append:
  "load_words m a (j + n) = load_words m a j @ load_words m (a + of_nat (2 * j)) n"
  by (induction j arbitrary: a) (simp_all add: load_words_Suc algebra_simps)

lemma write_sector_drive:
  fixes x :: atasys and b :: nat and D :: drive
  defines "base \<equiv> iobase (buses x ! b)"
  defines "E \<equiv> drive_run base (aports x) D"
  assumes "rg_command E = ATA_CMD_WRITE" and "at_word E = 256 * i"
  shows "\<exists>p. ata_pio_write_sector b buf x = x\<lparr>aports := p\<rparr> \<and> drive_run base p D = write_media E i (load_words (amem x) buf 256)"
proof -
  have "drive_run base (aports x @ map (Out base) (load_words (amem x) buf 256)) D = write_media E i (load_words (amem x) buf 256)"
    using drive_run_writes [OF assms(3)] by (simp add: E_def [symmetric] write_media_def assms(4) drive_index_def)
  then show ?thesis
    by (intro exI [of _ "aports x @ map (Out base) (load_words (amem x) buf 256)"])
      (simp add: ata_pio_write_sector_def write_words_ports SECTOR_SIZE_def ATA_IO_DATA_def base_def)
qed

lemma write_loop_drive:
  fixes x :: atasys and b :: nat and D :: drive
  defines "base \<equiv> iobase (buses x ! b)" and "ctl \<equiv> ctlbase (buses x ! b)"
  defines "E \<equiv> drive_run base (aports x) D"
  assumes "is_drive hw base ctl D" and "ctl \<noteq> base" and "\<not> interrupts_used x" and "rg_command E = ATA_CMD_WRITE"
    and "at_word E = 256 * i" and "i \<le> unat cnt"
  shows "\<exists>p. ata_write_loop hw b buf cnt i False x = Some (Finished 0, x\<lparr>aports := p\<rparr>) \<and>
    drive_run base p D = write_media E i (load_words (amem x) (buf + of_nat (i * SECTOR_SIZE)) (256 * unat cnt - 256 * i))"
  using assms(4-9) unfolding E_def base_def ctl_def
proof (induction "unat cnt - i" arbitrary: i x)
  case 0
  then show ?case
    by (intro exI [of _ "aports x"]) (simp add: ata_write_loop.simps write_media_def)
next
  case (Suc n)
  let ?u = "buses x ! b" and ?E = "drive_run (iobase (buses x ! b)) (aports x) D" and ?buf = "buf + of_nat (i * SECTOR_SIZE)"
  have i: "i < unat cnt" using Suc(2) by simp
  let ?F = "write_media ?E i (load_words (amem x) ?buf 256)"
  from write_sector_drive [of x b D i ?buf] Suc(6,7) obtain p where
    p: "ata_pio_write_sector b ?buf x = x\<lparr>aports := p\<rparr>" "drive_run (iobase ?u) p D = ?F" by blast
  have "\<exists>q. busy_wait hw b ATA_SR_NULL (x\<lparr>aports := p\<rparr>) = Some (0, x\<lparr>aports := q\<rparr>) \<and> drive_run (iobase ?u) q D = ?F"
    using busy_wait_drive [of hw "x\<lparr>aports := p\<rparr>" b D ATA_SR_NULL] Suc(3,4) p(2) by simp
  then obtain q where q: "busy_wait hw b ATA_SR_NULL (x\<lparr>aports := p\<rparr>) = Some (0, x\<lparr>aports := q\<rparr>)" "drive_run (iobase ?u) q D = ?F"
    by blast
  define y where "y = x\<lparr>aports := q\<rparr>"
  have y: "buses y = buses x" "\<not> interrupts_used y" "drive_run (iobase ?u) (aports y) D = ?F" "amem y = amem x"
    using Suc(5) by (simp_all add: y_def q(2))
  have n: "n = unat cnt - (i + 1)" using Suc(2) by simp
  have "\<exists>r. ata_write_loop hw b buf cnt (i + 1) False y = Some (Finished 0, y\<lparr>aports := r\<rparr>) \<and>
      drive_run (iobase ?u) r D = write_media ?F (i + 1)
        (load_words (amem x) (buf + of_nat ((i + 1) * SECTOR_SIZE)) (256 * unat cnt - 256 * (i + 1)))"
    using Suc(1) [OF n, of y, unfolded y(1) y(3) y(4)] Suc(3,4,6) y(2) i by simp
  then obtain r where r: "ata_write_loop hw b buf cnt (i + 1) False y = Some (Finished 0, y\<lparr>aports := r\<rparr>)"
    "drive_run (iobase ?u) r D = write_media ?F (i + 1)
        (load_words (amem x) (buf + of_nat ((i + 1) * SECTOR_SIZE)) (256 * unat cnt - 256 * (i + 1)))" by blast
  have "load_words (amem x) ?buf (256 * unat cnt - 256 * i) = load_words (amem x) ?buf 256 @
      load_words (amem x) (buf + of_nat ((i + 1) * SECTOR_SIZE)) (256 * unat cnt - 256 * (i + 1))"
    using load_words_append [of "amem x" ?buf 256 "256 * unat cnt - 256 * (i + 1)"] i by (simp add: SECTOR_SIZE_def algebra_simps)
  then have "drive_run (iobase ?u) r D = write_media ?E i (load_words (amem x) ?buf (256 * unat cnt - 256 * i))"
    using r(2) write_media_append [of "load_words (amem x) ?buf 256" ?E i] by simp
  moreover have "ata_write_loop hw b buf cnt i False x = ata_write_loop hw b buf cnt (i + 1) False y"
    using p(1) q(1) by (subst ata_write_loop.simps) (simp add: i Suc(5) y_def del: of_nat_mult)
  ultimately show ?case using r(1) by (auto simp: y_def)
qed

section \<open>Commands\<close>

lemma upd_bus_simps [simp]:
  "adev (upd_bus b f x) = adev x" "alocks (upd_bus b f x) = alocks x" "aports (upd_bus b f x) = aports x"
  "b < length (buses x) \<Longrightarrow> buses (upd_bus b f x) ! b = f (buses x ! b)" "interrupts_used (upd_bus b f x) = interrupts_used x"
  by (simp_all add: upd_bus_def interrupts_used_def)

lemma reg_out_simps [simp]:
  "adev (reg_out b r v x) = adev x" "alocks (reg_out b r v x) = alocks x" "buses (reg_out b r v x) = buses x"
  "aports (reg_out b r v x) = aports x @ [Out (iobase (buses x ! b) + r) (ucast v)]"
  by (simp_all add: reg_out_def outb_def outw_def)

lemma reg_the_disk: "the_disk b d (reg_out b' r v x) = the_disk b d x" "the_disk b d (x\<lparr>aports := p\<rparr>) = the_disk b d x"
  by (simp_all add: the_disk_def)

lemma ucast_ucast8: "(ucast (ucast (v :: u8) :: u16) :: u8) = v"
  by (rule bit_word_eqI) (simp add: bit_simps)

lemma drive_reg_out:
  "drive_step base D (Out (base + ATA_IO_FEATURE) w) = D"
  "drive_step base D (Out (base + ATA_IO_SECNR) (ucast (v :: u8))) = D\<lparr>rg_count := v\<rparr>"
  "drive_step base D (Out (base + ATA_IO_LBA_LOW) (ucast (v :: u8))) = D\<lparr>rg_low := v\<rparr>"
  "drive_step base D (Out (base + ATA_IO_LBA_MID) (ucast (v :: u8))) = D\<lparr>rg_mid := v\<rparr>"
  "drive_step base D (Out (base + ATA_IO_LBA_HIGH) (ucast (v :: u8))) = D\<lparr>rg_high := v\<rparr>"
  "drive_step base D (Out (base + ATA_IO_DEVICE) (ucast (v :: u8))) = D\<lparr>rg_device := v\<rparr>"
  "drive_step base D (Out (base + ATA_IO_COMMAND) (ucast (v :: u8))) = D\<lparr>rg_command := v, at_word := 0\<rparr>"
  by (simp_all add: ATA_IO_FEATURE_def ATA_IO_SECNR_def ATA_IO_LBA_LOW_def ATA_IO_LBA_MID_def ATA_IO_LBA_HIGH_def
      ATA_IO_DEVICE_def ATA_IO_COMMAND_def ucast_ucast8)

declare drive_step.simps(2) [simp del] drive_reg_out [simp]

lemma low_byte: "unat (ucast (drop_bit k (w :: u32) AND 0xff) :: u8) = unat w div 2 ^ k mod 2 ^ 8"
proof -
  have "drop_bit k w AND 0xff = take_bit 8 (drop_bit k w)" by (simp only: take_bit_eq_mask mask_eq_exp_minus_1) simp
  moreover have "unat (ucast (take_bit 8 (drop_bit k w)) :: u8) = take_bit 8 (unat (take_bit 8 (drop_bit k w)))"
    by (subst unsigned_ucast_eq) simp
  moreover have "take_bit 8 (unat (take_bit 8 (drop_bit k w))) = take_bit 8 (drop_bit k (unat w))"
    by (simp only: unsigned_take_bit_eq unat_drop_bit_eq take_bit_take_bit min.idem)
  ultimately have "unat (ucast (drop_bit k w AND 0xff) :: u8) = take_bit 8 (drop_bit k (unat w))" by (simp only:)
  then show ?thesis by (simp only: drop_bit_eq_div take_bit_eq_mod)
qed

lemma low_nibble:
  assumes "sel AND 0xf = (0 :: u8)"
  shows "unat (sel OR ucast (drop_bit k (w :: u32) AND 0xf)) mod 16 = unat w div 2 ^ k mod 2 ^ 4"
    "bit (sel OR ucast (drop_bit k w AND 0xf)) 4 = bit sel 4"
proof -
  let ?x = "take_bit 4 (drop_bit k w)"
  have m: "drop_bit k w AND 0xf = ?x" "sel AND 0xf = take_bit 4 sel"
    by (simp_all only: take_bit_eq_mask mask_eq_exp_minus_1) simp_all
  have "take_bit 4 (sel OR ucast ?x) = (ucast ?x :: u8)"
    using assms unfolding m(2) take_bit_or by (intro bit_word_eqI) (simp add: bit_simps)
  then have "take_bit 4 (unat (sel OR ucast ?x)) = unat (ucast ?x :: u8)"
    by (simp only: unsigned_take_bit_eq [symmetric])
  moreover have "unat (ucast ?x :: u8) = take_bit 8 (unat ?x)"
    by (subst unsigned_ucast_eq) simp
  moreover have "take_bit 8 (unat ?x) = unat ?x" by (simp only: unsigned_take_bit_eq take_bit_take_bit)
  ultimately have "take_bit 4 (unat (sel OR ucast ?x)) = take_bit 4 (drop_bit k (unat w))"
    by (simp only: unsigned_take_bit_eq unat_drop_bit_eq)
  then show "unat (sel OR ucast (drop_bit k (w :: u32) AND 0xf)) mod 16 = unat w div 2 ^ k mod 2 ^ 4"
    unfolding m(1) by (simp add: take_bit_eq_mod drop_bit_eq_div)
  show "bit (sel OR ucast (drop_bit k w AND 0xf)) 4 = bit sel 4" unfolding m(1) by (simp add: bit_simps)
qed

lemma lba_parts:
  "n mod 2 ^ 8 + 2 ^ 8 * (n div 2 ^ 8 mod 2 ^ 8) + 2 ^ 16 * (n div 2 ^ 16 mod 2 ^ 8) + 2 ^ 24 * (n div 2 ^ 24 mod 2 ^ 4) =
    (n :: nat) mod 2 ^ 28"
  using mod_mult2_eq [of n "2 ^ 8" "2 ^ 8"] mod_mult2_eq [of n "2 ^ 16" "2 ^ 8"] mod_mult2_eq [of n "2 ^ 24" "2 ^ 4"]
  by simp

text \<open>The registers after the command.\<close>

definition commanded :: "ata_disk \<Rightarrow> u32 \<Rightarrow> u8 \<Rightarrow> u8 \<Rightarrow> drive \<Rightarrow> drive" where
  "commanded k lba cnt cmd E = E\<lparr>rg_count := cnt, rg_low := ucast (lba AND 0xff), rg_mid := ucast (drop_bit 8 lba AND 0xff),
     rg_high := ucast (drop_bit 16 lba AND 0xff), rg_device := selector k OR ucast (drop_bit 24 lba AND 0xf), rg_command := cmd,
     at_word := 0\<rparr>"

lemma commanded_fields:
  "rg_low (commanded k lba cnt cmd E) = ucast (lba AND 0xff)" "rg_mid (commanded k lba cnt cmd E) = ucast (drop_bit 8 lba AND 0xff)"
  "rg_high (commanded k lba cnt cmd E) = ucast (drop_bit 16 lba AND 0xff)"
  "rg_device (commanded k lba cnt cmd E) = selector k OR ucast (drop_bit 24 lba AND 0xf)"
  "media (commanded k lba cnt cmd E) = media E" "rg_command (commanded k lba cnt cmd E) = cmd"
  "rg_count (commanded k lba cnt cmd E) = cnt" "at_word (commanded k lba cnt cmd E) = 0"
  by (simp_all add: commanded_def)

lemma commanded_address:
  assumes "selector k AND 0xf = 0"
  shows "drive_lba (commanded k lba cnt cmd E) = unat lba mod 2 ^ 28" "drive_slave (commanded k lba cnt cmd E) = bit (selector k) 4"
proof -
  have "unat (ucast (lba AND 0xff) :: u8) = unat lba mod 2 ^ 8" using low_byte [of 0 lba] by simp
  then show "drive_lba (commanded k lba cnt cmd E) = unat lba mod 2 ^ 28"
    unfolding lba_parts [symmetric] drive_lba_def commanded_fields by (simp only: low_byte low_nibble [OF assms])
  show "drive_slave (commanded k lba cnt cmd E) = bit (selector k) 4"
    unfolding drive_slave_def commanded_fields by (rule low_nibble [OF assms])
qed

lemma command_state:
  fixes x :: atasys and b d :: nat and lba :: u32 and cnt cmd :: u8 and q :: ports
  assumes "b < length (buses x)"
  defines "z \<equiv> reg_out b ATA_IO_COMMAND cmd (ata_select_sector b d lba cnt ((ata_select_disk b d x)\<lparr>aports := q\<rparr>))"
  shows "z = upd_bus b (\<lambda>u. u\<lparr>active := Some (b, d)\<rparr>) (x\<lparr>aports := aports z\<rparr>)"
  using assms(1) by (simp add: z_def ata_select_sector_def ata_select_disk_def reg_out_def upd_bus_def Let_def)

lemma ata_command_drive:
  fixes x :: atasys and b :: nat and D :: drive
  defines "base \<equiv> iobase (buses x ! b)" and "ctl \<equiv> ctlbase (buses x ! b)"
  assumes "b < length (buses x)" and "is_drive hw base ctl D" and "ctl \<noteq> base"
  shows "\<exists>p. ata_command hw b d lba cnt cmd x = Some (upd_bus b (\<lambda>u. u\<lparr>active := Some (b, d)\<rparr>) (x\<lparr>aports := p\<rparr>)) \<and>
    drive_run base p D = commanded (the_disk b d x) lba cnt cmd (drive_run base (aports x) D)"
proof -
  let ?k = "the_disk b d x" and ?E = "drive_run base (aports x) D" and ?y = "ata_select_disk b d x"
  have y: "iobase (buses ?y ! b) = base" "ctlbase (buses ?y ! b) = ctl" "drive_run base (aports ?y) D = ?E\<lparr>rg_device := selector ?k\<rparr>"
    using assms(3) by (simp_all add: ata_select_disk_def base_def ctl_def drive_reg_out)
  have "\<exists>q. busy_wait hw b ATA_SR_DRDY ?y = Some (0, ?y\<lparr>aports := q\<rparr>) \<and> drive_run base q D = ?E\<lparr>rg_device := selector ?k\<rparr>"
    using busy_wait_drive [of hw ?y b D ATA_SR_DRDY] assms(4,5) unfolding y by simp
  then obtain q where q: "busy_wait hw b ATA_SR_DRDY ?y = Some (0, ?y\<lparr>aports := q\<rparr>)" "drive_run base q D = ?E\<lparr>rg_device := selector ?k\<rparr>"
    by blast
  define z where "z = reg_out b ATA_IO_COMMAND cmd (ata_select_sector b d lba cnt (?y\<lparr>aports := q\<rparr>))"
  have ly: "b < length (buses ?y)" using assms(3) by (simp add: ata_select_disk_def upd_bus_def)
  have k: "the_disk b d ?y = ?k" using assms(3) by (simp add: ata_select_disk_def the_disk_def)
  have "z = upd_bus b (\<lambda>u. u\<lparr>active := Some (b, d)\<rparr>) (x\<lparr>aports := aports z\<rparr>)"
    unfolding z_def by (rule command_state [OF assms(3)])
  moreover have "drive_run base (aports z) D = commanded ?k lba cnt cmd ?E"
    using assms(3) q(2) k ly
    by (simp add: z_def ata_select_sector_def Let_def y(1) reg_the_disk commanded_def)
  moreover have "ata_command hw b d lba cnt cmd x = Some z" by (simp add: ata_command_def q(1) z_def)
  ultimately show ?thesis by metis
qed

section \<open>Whole transfers\<close>

text \<open>The lock of the bus is free, interrupts are off and the task does not wait for them, as while the kernel starts.\<close>

definition transfer_ready :: "nat \<Rightarrow> nat \<Rightarrow> atasys \<Rightarrow> bool" where
  "transfer_ready b d x \<longleftrightarrow> (let u = buses x ! b; l = bs_lock u in
     b < length (buses x) \<and> ctlbase u \<noteq> iobase u \<and> selector (the_disk b d x) AND 0xf = 0 \<and>
     \<not> iflag (akern x) \<and> \<not> interrupts_used x \<and> current (akern x) \<noteq> 0 \<and>
     holder (alocks x) l = 0 \<and> repeat (alocks x) l = 0 \<and> semphore (alocks x) (lock_mutex l) \<and>
     dlist (nodes (akern x)) (waiters (lock_mutex l)) [])"

definition bus_drive :: "nat \<Rightarrow> drive \<Rightarrow> atasys \<Rightarrow> drive" where
  "bus_drive b D x = drive_run (iobase (buses x ! b)) (aports x) D"

text \<open>What a transfer leaves alone.\<close>

definition same_system :: "nat \<Rightarrow> nat \<Rightarrow> atasys \<Rightarrow> atasys \<Rightarrow> bool" where
  "same_system b d x y \<longleftrightarrow> (\<exists>m p. y = upd_bus b (\<lambda>u. u\<lparr>active := Some (b, d)\<rparr>) (set_amem m (x\<lparr>aports := p\<rparr>)))"

lemma set_amem_locks: "set_amem m (x\<lparr>alocks := k\<rparr>) = (set_amem m x)\<lparr>alocks := k\<rparr>"
  by (simp add: set_amem_def set_akern_def)

lemma same_system_ready:
  assumes "same_system b d x y" and "transfer_ready b d x"
  shows "transfer_ready b d y"
  using assms by (auto simp: same_system_def transfer_ready_def Let_def the_disk_def)
    (simp_all add: set_amem_def set_akern_def upd_bus_def)

lemma same_system_trans:
  assumes "same_system b d x y" and "same_system b d y z"
  shows "same_system b d x z"
proof -
  let ?f = "\<lambda>u. u\<lparr>active := Some (b, d)\<rparr>"
  from assms obtain m p m' p' where "y = upd_bus b ?f (set_amem m (x\<lparr>aports := p\<rparr>))" "z = upd_bus b ?f (set_amem m' (y\<lparr>aports := p'\<rparr>))"
    unfolding same_system_def by blast
  then have "z = upd_bus b ?f (set_amem m' (x\<lparr>aports := p'\<rparr>))"
    by (cases "b < length (buses x)") (simp_all add: upd_bus_def set_amem_def set_akern_def list_update_beyond)
  then show ?thesis unfolding same_system_def by blast
qed

text \<open>The states with the lock taken, and after the command with the ports \<open>p\<close>.\<close>

definition locked :: "nat \<Rightarrow> atasys \<Rightarrow> atasys" where
  "locked b x = x\<lparr>alocks := lock_held (bs_lock (buses x ! b)) (current (akern x)) (alocks x)\<rparr>"

definition at_command :: "nat \<Rightarrow> nat \<Rightarrow> ports \<Rightarrow> atasys \<Rightarrow> atasys" where
  "at_command b d p x = upd_bus b (\<lambda>u. u\<lparr>active := Some (b, d)\<rparr>) ((locked b x)\<lparr>aports := p\<rparr>)"

definition transferred :: "nat \<Rightarrow> nat \<Rightarrow> mem \<Rightarrow> ports \<Rightarrow> atasys \<Rightarrow> atasys" where
  "transferred b d m p x = upd_bus b (\<lambda>u. u\<lparr>active := Some (b, d)\<rparr>) (set_amem m (x\<lparr>aports := p\<rparr>))"

lemma transferred_simps [simp]:
  "amem (transferred b d m p x) = m" "b < length (buses x) \<Longrightarrow> bus_drive b D (transferred b d m p x) = drive_run (iobase (buses x ! b)) p D"
  "same_system b d x (transferred b d m p x)"
  by (auto simp: transferred_def bus_drive_def same_system_def)

lemma at_command_simps [simp]:
  assumes "b < length (buses x)"
  shows "iobase (buses (at_command b d p x) ! b) = iobase (buses x ! b)" "ctlbase (buses (at_command b d p x) ! b) = ctlbase (buses x ! b)"
    "aports (at_command b d p x) = p" "amem (at_command b d p x) = amem x" "interrupts_used (at_command b d p x) = interrupts_used x"
  using assms by (simp_all add: at_command_def locked_def interrupts_used_def)

lemma lock_bus_free:
  assumes "transfer_ready b d x"
  shows "lock_bus b x = Some (Returned, locked b x)"
  using lock_free_acquire [of "alocks x" "bs_lock (buses x ! b)" "akern x"] assms
  by (simp add: lock_bus_def transfer_ready_def Let_def set_akern_def locked_def)

lemma transfer_command:
  assumes "transfer_ready b d x" and "is_drive hw (iobase (buses x ! b)) (ctlbase (buses x ! b)) D"
  shows "\<exists>p. ata_command hw b d lba cnt cmd (locked b x) = Some (at_command b d p x) \<and>
    drive_run (iobase (buses x ! b)) p D = commanded (the_disk b d x) lba cnt cmd (bus_drive b D x)"
  using ata_command_drive [of b "locked b x" hw D d lba cnt cmd] assms
  by (simp add: transfer_ready_def Let_def locked_def at_command_def the_disk_def bus_drive_def)

lemma transfer_end:
  assumes "transfer_ready b d x"
  shows "unlock_bus b v (set_amem m ((at_command b d p x)\<lparr>aports := q\<rparr>)) = Some (Finished v, transferred b d m q x)"
proof -
  let ?z = "set_amem m ((at_command b d p x)\<lparr>aports := q\<rparr>)" and ?l = "bs_lock (buses x ! b)"
  have z: "alocks ?z = lock_held ?l (current (akern x)) (alocks x)" "bs_lock (buses ?z ! b) = ?l" "akern ?z = (akern x)\<lparr>kmem := m\<rparr>"
    using assms by (simp_all add: transfer_ready_def Let_def at_command_def locked_def set_amem_def set_akern_def)
  have "mutexlock_release ?l (lock_held ?l (current (akern ?z)) (alocks x)) (akern ?z) = Some (Returned, alocks x, akern ?z)"
    by (rule lock_held_release) (use assms z(3) in \<open>simp_all add: transfer_ready_def Let_def\<close>)
  then have "unlock_bus b v ?z = Some (Finished v, ?z\<lparr>alocks := alocks x\<rparr>)" using z by (simp add: unlock_bus_def set_akern_def)
  then show ?thesis by (simp add: transferred_def at_command_def locked_def set_amem_def set_akern_def upd_bus_def)
qed

lemma transfer_readyD:
  assumes "transfer_ready b d x"
  shows "b < length (buses x)" "ctlbase (buses x ! b) \<noteq> iobase (buses x ! b)" "\<not> interrupts_used x"
    "selector (the_disk b d x) AND 0xf = 0" "ASSERT_IRQ_DISABLE (akern x) = Some ()"
  using assms by (simp_all add: transfer_ready_def Let_def ASSERT_IRQ_DISABLE_def get_irq_state_def)

lemma ata_pio_read_law:
  assumes "transfer_ready b d x" and "is_drive hw (iobase (buses x ! b)) (ctlbase (buses x ! b)) D" and "cnt \<noteq> 0"
  shows "\<exists>y. ata_pio_read hw (b, d) buf cnt lba x = Some (Finished 0, y) \<and> same_system b d x y \<and>
    media (bus_drive b D y) = media (bus_drive b D x) \<and>
    amem y = store_words (amem x) buf (map (\<lambda>k. media (bus_drive b D x) (bit (selector (the_disk b d x)) 4)
      (256 * (unat lba mod 2 ^ 28) + k)) [0 ..< 256 * unat cnt])"
proof -
  note r = transfer_readyD [OF assms(1)]
  let ?C = "commanded (the_disk b d x) lba cnt ATA_CMD_READ (bus_drive b D x)" and ?n = "unat cnt"
  from transfer_command [OF assms(1,2)] obtain p where
    p: "ata_command hw b d lba cnt ATA_CMD_READ (locked b x) = Some (at_command b d p x)" "drive_run (iobase (buses x ! b)) p D = ?C"
    by blast
  let ?c = "at_command b d p x" and ?m = "store_words (amem x) buf (command_words ?C 0 ?n)"
  have "\<exists>q. ata_read_loop hw b buf cnt 0 False ?c = Some (Finished 0, set_amem ?m (?c\<lparr>aports := q\<rparr>)) \<and>
      drive_run (iobase (buses x ! b)) q D = ?C\<lparr>at_word := 256 * ?n\<rparr>"
    using read_loop_drive [of hw ?c b D cnt 0 buf] assms(2) r p(2) by (simp add: commanded_fields)
  then obtain q where q: "ata_read_loop hw b buf cnt 0 False ?c = Some (Finished 0, set_amem ?m (?c\<lparr>aports := q\<rparr>))"
    "drive_run (iobase (buses x ! b)) q D = ?C\<lparr>at_word := 256 * ?n\<rparr>" by blast
  have "ata_pio_read hw (b, d) buf cnt lba x = Some (Finished 0, transferred b d ?m q x)"
    using assms(3) q(1) by (simp add: ata_pio_read_def r(5) lock_bus_free [OF assms(1)] p(1) ata_read_from_def transfer_end [OF assms(1)]
        word_neq_0_unat word_less_nat_alt)
  then show ?thesis
    by (intro exI [of _ "transferred b d ?m q x"])
      (simp add: r(1) q(2) command_words_def commanded_fields commanded_address [OF r(4)])
qed

lemma set_amem_same: "set_amem (amem x) x = x"
  by (simp add: set_amem_def set_akern_def)

lemma ata_pio_write_law:
  assumes "transfer_ready b d x" and "is_drive hw (iobase (buses x ! b)) (ctlbase (buses x ! b)) D" and "cnt \<noteq> 0"
  shows "\<exists>y. ata_pio_write hw (b, d) buf cnt lba x = Some (Finished 0, y) \<and> same_system b d x y \<and> amem y = amem x \<and>
    media (bus_drive b D y) = (let M = media (bus_drive b D x); sl = bit (selector (the_disk b d x)) 4
      in M(sl := put_words (M sl) (256 * (unat lba mod 2 ^ 28)) (load_words (amem x) buf (256 * unat cnt))))"
proof -
  note r = transfer_readyD [OF assms(1)]
  let ?C = "commanded (the_disk b d x) lba cnt ATA_CMD_WRITE (bus_drive b D x)" and ?n = "unat cnt"
  from transfer_command [OF assms(1,2)] obtain p where
    p: "ata_command hw b d lba cnt ATA_CMD_WRITE (locked b x) = Some (at_command b d p x)" "drive_run (iobase (buses x ! b)) p D = ?C"
    by blast
  let ?c = "at_command b d p x"
  have "\<exists>q. ata_write_loop hw b buf cnt 0 False ?c = Some (Finished 0, ?c\<lparr>aports := q\<rparr>) \<and>
      drive_run (iobase (buses x ! b)) q D = write_media ?C 0 (load_words (amem x) buf (256 * ?n))"
    using write_loop_drive [of hw ?c b D 0 cnt buf] assms(2) r p(2) by (simp add: commanded_fields)
  then obtain q where q: "ata_write_loop hw b buf cnt 0 False ?c = Some (Finished 0, ?c\<lparr>aports := q\<rparr>)"
    "drive_run (iobase (buses x ! b)) q D = write_media ?C 0 (load_words (amem x) buf (256 * ?n))" by blast
  have "set_amem (amem x) (?c\<lparr>aports := q\<rparr>) = ?c\<lparr>aports := q\<rparr>" using set_amem_same [of "?c\<lparr>aports := q\<rparr>"] r(1) by simp
  then have "unlock_bus b 0 (?c\<lparr>aports := q\<rparr>) = Some (Finished 0, transferred b d (amem x) q x)"
    using transfer_end [OF assms(1), of 0 "amem x" q p] by simp
  then have "ata_pio_write hw (b, d) buf cnt lba x = Some (Finished 0, transferred b d (amem x) q x)"
    using assms(3) q(1) by (simp add: ata_pio_write_def r(5) lock_bus_free [OF assms(1)] p(1) ata_write_from_def
        word_neq_0_unat word_less_nat_alt)
  then show ?thesis
    by (intro exI [of _ "transferred b d (amem x) q x"])
      (simp add: r(1) q(2) write_media_def commanded_fields commanded_address [OF r(4)] Let_def)
qed


text \<open>A drive that is always ready, on the primary bus.\<close>

definition sample_drive :: "drive \<Rightarrow> hardware" where
  "sample_drive D p port = (if port = ATA_IOBASE_PRIMARY
     then let E = drive_run ATA_IOBASE_PRIMARY p D in media E (drive_slave E) (drive_index E) else 0x48)"

definition sample_ata :: atasys where
  "sample_ata = \<lparr>adev = sample_devs\<lparr>kern := sample_lock\<lparr>kmem := (\<lambda>a. ucast a), tcbs := (\<lambda>t. (tcbs sample_lock t)\<lparr>t_state := TASK_READY\<rparr>)\<rparr>\<rparr>,
     alocks = \<lparr>semphore = \<lambda>_. True, holder = \<lambda>_. 0, repeat = \<lambda>_. 0\<rparr>, aports = [], apic = \<lparr>pic_m = 0, pic_s = 0\<rparr>,
     atable = (\<lambda>_. None),
     buses = [\<lparr>bs_lock = 0x4c, iobase = ATA_IOBASE_PRIMARY, ctlbase = ATA_CTLBASE_PRIMARY,
       dk_disks = [\<lparr>dk_bus = 0, selector = ATA_MASTER_SELECTOR, master = True, total_lba = 1000, dk_parts = []\<rparr>],
       active = None, bs_waiter = 0\<rparr>]\<rparr>"

lemma sample_transfer_ready: "transfer_ready 0 0 sample_ata"
  by (simp add: transfer_ready_def sample_ata_def the_disk_def interrupts_used_def current_task_def ATA_IOBASE_PRIMARY_def
      ATA_CTLBASE_PRIMARY_def ATA_MASTER_SELECTOR_def sample_lock_def sample_sched_def boot_state_def dlist_def list_nodes_def
      list_head_def list_tail_def waiters_def lock_mutex_def)

lemma sample_is_drive: "is_drive (sample_drive D) (iobase (buses sample_ata ! 0)) (ctlbase (buses sample_ata ! 0)) D"
proof -
  have "drive_ready (sample_drive D) ATA_IOBASE_PRIMARY ATA_CTLBASE_PRIMARY D p" for p
    by (simp add: drive_ready_def sample_drive_def ATA_IOBASE_PRIMARY_def ATA_CTLBASE_PRIMARY_def ATA_SR_ERR_def ATA_SR_BSY_def
        ATA_SR_DRDY_def ATA_SR_DRQ_def)
  then have "\<exists>n. drive_ready (sample_drive D) ATA_IOBASE_PRIMARY ATA_CTLBASE_PRIMARY D (p @ replicate n (In ATA_CTLBASE_PRIMARY)) \<and>
      (\<forall>k < n. (ucast (sample_drive D (p @ replicate k (In ATA_CTLBASE_PRIMARY)) ATA_CTLBASE_PRIMARY) :: u8) AND ATA_SR_ERR = 0)" for p
    by (intro exI [of _ 0]) simp
  then show ?thesis by (simp add: is_drive_def sample_ata_def sample_drive_def Let_def)
qed


section \<open>Errors\<close>

lemma read_loop_returns:
  fixes x :: atasys and b :: nat
  assumes "\<And>ev p. \<exists>r q. ata_busy_wait hw (buses x ! b) ev p = Some (r, q)" and "\<not> interrupts_used x"
  shows "\<exists>m q. ata_read_loop hw b buf cnt i False x = Some (Finished 0, set_amem m (x\<lparr>aports := q\<rparr>))"
  using assms
proof (induction "unat cnt - i" arbitrary: i x)
  case 0
  then show ?case
    by (intro exI [of _ "amem x"] exI [of _ "aports x"]) (simp add: ata_read_loop.simps set_amem_same)
next
  case (Suc n)
  have i: "i < unat cnt" "n = unat cnt - (i + 1)" using Suc(2) by simp_all
  from Suc(3) [of ATA_SR_DRQ "aports x"] obtain r q where "ata_busy_wait hw (buses x ! b) ATA_SR_DRQ (aports x) = Some (r, q)" by blast
  then have w: "busy_wait hw b ATA_SR_DRQ x = Some (r, x\<lparr>aports := q\<rparr>)" by (simp add: busy_wait_def)
  define y where "y = ata_pio_read_sector hw b (buf + of_nat (i * SECTOR_SIZE)) (x\<lparr>aports := q\<rparr>)"
  have "\<exists>m p. y = set_amem m (x\<lparr>aports := p\<rparr>)" unfolding y_def ata_pio_read_sector_def by (auto split: prod.split)
  then obtain m p where y: "y = set_amem m (x\<lparr>aports := p\<rparr>)" by blast
  have "buses y = buses x" "\<not> interrupts_used y" using Suc(4) by (simp_all add: y)
  with Suc(1) [OF i(2), of y] Suc(3) obtain m' p' where
    "ata_read_loop hw b buf cnt (i + 1) False y = Some (Finished 0, set_amem m' (y\<lparr>aports := p'\<rparr>))" by auto
  then have "ata_read_loop hw b buf cnt i False x = Some (Finished 0, set_amem m' (y\<lparr>aports := p'\<rparr>))"
    using w by (subst ata_read_loop.simps) (simp add: i(1) Suc(4) y_def del: of_nat_mult)
  then show ?case unfolding y by auto
qed

text \<open>
  Property C40. A disk error is never reported: when the status register shows an error at every look, \<^verbatim>\<open>ata_pio_read\<close> still
  returns 0 and the caller finds in its buffer whatever the data register gave.
\<close>

theorem ata_errors_unreported:
  assumes "transfer_ready b d x" and "cnt \<noteq> 0"
    and "\<forall>p. (ucast (hw p (ctlbase (buses x ! b))) :: u8) AND ATA_SR_ERR \<noteq> 0"
  shows "(\<forall>ev p. \<exists>q. ata_busy_wait hw (buses x ! b) ev p = Some (ATA_SR_ERR, q)) \<and>
    (\<exists>y. ata_pio_read hw (b, d) buf cnt lba x = Some (Finished 0, y) \<and> same_system b d x y)"
proof -
  note r = transfer_readyD [OF assms(1)]
  have w: "\<exists>q. ata_busy_wait hw u ev p = Some (ATA_SR_ERR, q)" if "ctlbase u = ctlbase (buses x ! b)" for u ev p
    using assms(3) that by (subst ata_busy_wait.simps) (simp add: inb_def inw_def ATA_CTL_ALT_STATUS_def)
  let ?x = "ata_select_disk b d (locked b x)"
  have u: "ctlbase (buses ?x ! b) = ctlbase (buses x ! b)" using r(1) by (simp add: ata_select_disk_def locked_def)
  from w [OF u] obtain q where "ata_busy_wait hw (buses ?x ! b) ATA_SR_DRDY (aports ?x) = Some (ATA_SR_ERR, q)" by blast
  then have "ata_command hw b d lba cnt ATA_CMD_READ (locked b x) =
      Some (reg_out b ATA_IO_COMMAND ATA_CMD_READ (ata_select_sector b d lba cnt (?x\<lparr>aports := q\<rparr>)))"
    by (simp add: ata_command_def busy_wait_def)
  moreover have "\<exists>p. reg_out b ATA_IO_COMMAND ATA_CMD_READ (ata_select_sector b d lba cnt (?x\<lparr>aports := q\<rparr>)) = at_command b d p x"
    using command_state [of b "locked b x" ATA_CMD_READ d lba cnt q] r(1) unfolding at_command_def by (auto simp: locked_def)
  ultimately obtain p where p: "ata_command hw b d lba cnt ATA_CMD_READ (locked b x) = Some (at_command b d p x)" by metis
  have "\<exists>m q. ata_read_loop hw b buf cnt 0 False (at_command b d p x) = Some (Finished 0, set_amem m ((at_command b d p x)\<lparr>aports := q\<rparr>))"
  proof (rule read_loop_returns)
    show "\<exists>r q. ata_busy_wait hw (buses (at_command b d p x) ! b) ev p' = Some (r, q)" for ev p'
      using w [of "buses (at_command b d p x) ! b" ev p'] r(1) by auto
  qed (use r in simp)
  then obtain m q where "ata_read_loop hw b buf cnt 0 False (at_command b d p x) = Some (Finished 0, set_amem m ((at_command b d p x)\<lparr>aports := q\<rparr>))"
    by blast
  then have "ata_pio_read hw (b, d) buf cnt lba x = Some (Finished 0, transferred b d m q x)"
    using assms(2) by (simp add: ata_pio_read_def r(5) lock_bus_free [OF assms(1)] p ata_read_from_def transfer_end [OF assms(1)]
        word_neq_0_unat word_less_nat_alt)
  then show ?thesis using w by auto
qed

theorem ata_errors_unreported_witness:
  "\<exists>y. ata_pio_read (\<lambda>_ _. 1) (0, 0) 0x1000 1 0 sample_ata = Some (Finished 0, y)"
  using ata_errors_unreported [OF sample_transfer_ready, of 1 "\<lambda>_ _. 1" "0x1000" 0] by (auto simp: ATA_SR_ERR_def)

end
