(* ===== verification/Console.thy ===== *)
theory Console
  imports Clock Device Ports Vsprintf
begin

text \<open>
  The text console: \<^verbatim>\<open>kernel/console.c\<close>, and \<^verbatim>\<open>printk\<close> on top of it (\<^verbatim>\<open>kernel/printk.c\<close>). The display memory is part of \<open>kmem\<close>, the display
  controller is behind the I/O ports. The second half refines the console to an abstract terminal of 25 rows.
\<close>

unbundle bit_operations_syntax

definition CRT_ADDR_PORT :: u16 where "CRT_ADDR_PORT = 0x3d4"
definition CRT_DATA_PORT :: u16 where "CRT_DATA_PORT = 0x3d5"
definition CRT_CURSOR_H :: u8 where "CRT_CURSOR_H = 0xe"
definition CRT_CURSOR_L :: u8 where "CRT_CURSOR_L = 0xf"
definition CRT_START_ADDR_H :: u8 where "CRT_START_ADDR_H = 0xc"
definition CRT_START_ADDR_L :: u8 where "CRT_START_ADDR_L = 0xd"
definition CGA_MEM_BASE :: u32 where "CGA_MEM_BASE = 0xb8000"
definition CGA_MEM_SIZE :: u32 where "CGA_MEM_SIZE = 0x4000"
definition CGA_MEM_END :: u32 where "CGA_MEM_END = CGA_MEM_BASE + CGA_MEM_SIZE"
definition SCR_WIDTH :: u32 where "SCR_WIDTH = 80"
definition SCR_HEIGHT :: u32 where "SCR_HEIGHT = 25"
definition SCR_ROW_SIZE :: u32 where "SCR_ROW_SIZE = SCR_WIDTH * 2"
definition SCR_SIZE :: u32 where "SCR_SIZE = SCR_ROW_SIZE * SCR_HEIGHT"
definition ERASE :: u16 where "ERASE = 0x0720"
definition TEXT :: u32 where "TEXT = 0x07"

definition ASCII_NUL :: u8 where "ASCII_NUL = 0x00"
definition ASCII_ENQ :: u8 where "ASCII_ENQ = 0x05"
definition ASCII_BEL :: u8 where "ASCII_BEL = 0x07"
definition ASCII_BS :: u8 where "ASCII_BS = 0x08"
definition ASCII_HT :: u8 where "ASCII_HT = 0x09"
definition ASCII_LF :: u8 where "ASCII_LF = 0x0a"
definition ASCII_VT :: u8 where "ASCII_VT = 0x0b"
definition ASCII_FF :: u8 where "ASCII_FF = 0x0c"
definition ASCII_CR :: u8 where "ASCII_CR = 0x0d"
definition ASCII_DEL :: u8 where "ASCII_DEL = 0x7f"

section \<open>The state\<close>

record console =
  screen_base :: u32
  cursor_addr :: u32
  cursor_x :: u32
  cursor_y :: u32

record consys =
  con :: console
  cdev :: devsys
  cports :: ports

abbreviation ckern :: "consys \<Rightarrow> kstate" where "ckern x \<equiv> kern (cdev x)"
abbreviation cmem :: "consys \<Rightarrow> mem" where "cmem x \<equiv> kmem (ckern x)"

definition set_ckern :: "kstate \<Rightarrow> consys \<Rightarrow> consys" where
  "set_ckern s x = x\<lparr>cdev := (cdev x)\<lparr>kern := s\<rparr>\<rparr>"

definition set_cmem :: "mem \<Rightarrow> consys \<Rightarrow> consys" where
  "set_cmem m x = set_ckern ((ckern x)\<lparr>kmem := m\<rparr>) x"

definition upd_con :: "(console \<Rightarrow> console) \<Rightarrow> consys \<Rightarrow> consys" where
  "upd_con f x = x\<lparr>con := f (con x)\<rparr>"

section \<open>The controller\<close>

text \<open>Two registers of the display controller, selected by their index, hold the bytes of an offset in characters.\<close>

definition crt_write :: "u8 \<Rightarrow> u8 \<Rightarrow> u32 \<Rightarrow> ports \<Rightarrow> ports" where
  "crt_write h l offset p =
     outb CRT_DATA_PORT (ucast (drop_bit 1 offset AND 0xff)) (outb CRT_ADDR_PORT l
       (outb CRT_DATA_PORT (ucast (drop_bit 9 offset AND 0xff)) (outb CRT_ADDR_PORT h p)))"

definition crt_read :: "hardware \<Rightarrow> u8 \<Rightarrow> u8 \<Rightarrow> ports \<Rightarrow> u32 \<times> ports" where
  "crt_read hw h l p = (
     let (vh, p) = inb hw CRT_DATA_PORT (outb CRT_ADDR_PORT h p);
       (vl, p) = inb hw CRT_DATA_PORT (outb CRT_ADDR_PORT l p)
     in (push_bit 1 (push_bit 8 (ucast vh) OR ucast vl) + CGA_MEM_BASE, p))"

definition get_screen_base :: "hardware \<Rightarrow> consys \<Rightarrow> consys" where
  "get_screen_base hw x = (let (screen, p) = crt_read hw CRT_START_ADDR_H CRT_START_ADDR_L (cports x)
     in upd_con (\<lambda>c. c\<lparr>screen_base := screen\<rparr>) (x\<lparr>cports := p\<rparr>))"

definition set_screen_base :: "consys \<Rightarrow> consys" where
  "set_screen_base x = x\<lparr>cports := crt_write CRT_START_ADDR_H CRT_START_ADDR_L (screen_base (con x) - CGA_MEM_BASE) (cports x)\<rparr>"

definition get_cursor_addr :: "hardware \<Rightarrow> consys \<Rightarrow> consys" where
  "get_cursor_addr hw x = (
     let (cursor, p) = crt_read hw CRT_CURSOR_H CRT_CURSOR_L (cports x);
       delta = drop_bit 1 (cursor - screen_base (con x))
     in upd_con (\<lambda>c. c\<lparr>cursor_addr := cursor, cursor_x := delta mod SCR_WIDTH, cursor_y := delta div SCR_WIDTH\<rparr>) (x\<lparr>cports := p\<rparr>))"

definition set_cursor_addr :: "consys \<Rightarrow> consys" where
  "set_cursor_addr x = x\<lparr>cports := crt_write CRT_CURSOR_H CRT_CURSOR_L (cursor_addr (con x) - CGA_MEM_BASE) (cports x)\<rparr>"

section \<open>Commands\<close>

primrec erase_cells :: "nat \<Rightarrow> addr \<Rightarrow> mem \<Rightarrow> mem" where
  "erase_cells 0 a m = m"
| "erase_cells (Suc n) a m = erase_cells n (a + 2) (wr16 m a ERASE)"

text \<open>
  The comment calls the first step the return to the start of the memory; its condition holds unless the screen is near the end.
\<close>

definition scroll_up :: "consys \<Rightarrow> consys" where
  "scroll_up x = (
     let x = (if screen_base (con x) + SCR_SIZE + SCR_ROW_SIZE < CGA_MEM_END
         then upd_con (\<lambda>c. c\<lparr>cursor_addr := cursor_addr c - (screen_base c - CGA_MEM_BASE), screen_base := CGA_MEM_BASE\<rparr>)
           (set_cmem (memcpy (cmem x) CGA_MEM_BASE (screen_base (con x)) SCR_SIZE) x)
         else x);
       x = set_cmem (erase_cells (unat SCR_WIDTH) (screen_base (con x) + SCR_SIZE) (cmem x)) x
     in set_screen_base (upd_con (\<lambda>c. c\<lparr>screen_base := screen_base c + SCR_ROW_SIZE\<rparr>) x))"

definition command_lf :: "consys \<Rightarrow> consys" where
  "command_lf x = (let x = (if cursor_y (con x) + 1 \<ge> SCR_HEIGHT then scroll_up x else x)
     in upd_con (\<lambda>c. c\<lparr>cursor_y := cursor_y c + 1, cursor_addr := cursor_addr c + SCR_ROW_SIZE\<rparr>) x)"

definition command_cr :: "consys \<Rightarrow> consys" where
  "command_cr x = upd_con (\<lambda>c. c\<lparr>cursor_addr := cursor_addr c - push_bit 1 (cursor_x c), cursor_x := 0\<rparr>) x"

definition command_bs :: "consys \<Rightarrow> consys" where
  "command_bs x =
    (if cursor_x (con x) \<noteq> 0
     then let x = upd_con (\<lambda>c. c\<lparr>cursor_x := cursor_x c - 1, cursor_addr := cursor_addr c - 2\<rparr>) x
       in set_cmem (wr16 (cmem x) (cursor_addr (con x)) ERASE) x
     else x)"

definition command_del :: "consys \<Rightarrow> consys" where
  "command_del x = set_cmem (wr16 (cmem x) (cursor_addr (con x)) ERASE) x"

text \<open>One character of \<^verbatim>\<open>console_write\<close>: a branch of its \<^verbatim>\<open>switch\<close>.\<close>

definition write_char :: "u8 \<Rightarrow> u8 \<Rightarrow> consys \<Rightarrow> consys" where
  "write_char attr ch x =
    (if ch = ASCII_NUL \<or> ch = ASCII_ENQ \<or> ch = ASCII_HT \<or> ch = ASCII_VT then x
     else if ch = ASCII_BEL then set_ckern (start_beep (ckern x)) x
     else if ch = ASCII_BS then command_bs x
     else if ch = ASCII_LF then command_cr (command_lf x)
     else if ch = ASCII_FF then command_lf x
     else if ch = ASCII_CR then command_cr x
     else if ch = ASCII_DEL then command_del x
     else let ptr = cursor_addr (con x);
            x = set_cmem ((cmem x)(ptr := ch, ptr + 1 := attr)) x;
            x = upd_con (\<lambda>c. c\<lparr>cursor_addr := cursor_addr c + 2, cursor_x := cursor_x c + 1\<rparr>) x
          in if cursor_x (con x) \<ge> SCR_WIDTH then command_cr (command_lf x) else x)"

primrec write_chars :: "nat \<Rightarrow> u8 \<Rightarrow> addr \<Rightarrow> consys \<Rightarrow> consys" where
  "write_chars 0 attr buf x = x"
| "write_chars (Suc n) attr buf x = write_chars n attr (buf + 1) (write_char attr (cmem x buf) x)"

definition console_write :: "addr \<Rightarrow> u32 \<Rightarrow> u32 \<Rightarrow> consys \<Rightarrow> i32 \<times> consys" where
  "console_write buf cnt flags x = (
     let (irq, s) = irq_disable (ckern x);
       x = write_chars (unat cnt) (ucast flags) buf (set_ckern s x);
       x = set_cursor_addr x
     in (cnt, set_ckern (set_irq_state irq (ckern x)) x))"

definition console_clear :: "consys \<Rightarrow> consys" where
  "console_clear x = (
     let x = set_screen_base (upd_con (\<lambda>c. c\<lparr>screen_base := CGA_MEM_BASE\<rparr>) x);
       x = set_cursor_addr (upd_con (\<lambda>c. c\<lparr>cursor_addr := CGA_MEM_BASE, cursor_x := 0, cursor_y := 0\<rparr>) x)
     in set_cmem (erase_cells (unat CGA_MEM_SIZE div 2) CGA_MEM_BASE (cmem x)) x)"

text \<open>\<open>cw\<close> is the address of \<^verbatim>\<open>console_write\<close>.\<close>

definition console_init :: "addr \<Rightarrow> consys \<Rightarrow> consys option" where
  "console_init cw x = do {
     let x = console_clear x;
     (i, d) \<leftarrow> dev_install DEV_CHAR DEV_CONSOLE 0 ''console'' (- 1) 0 0 cw (cdev x);
     Some (x\<lparr>cdev := d\<rparr>) }"

text \<open>\<open>buf\<close> is the array of 1024 bytes of \<^verbatim>\<open>printk.c\<close>. The length is checked in \<^verbatim>\<open>vsprintf\<close>.\<close>

definition printk :: "addr \<Rightarrow> u8 list \<Rightarrow> (nat \<Rightarrow> u32) \<Rightarrow> consys \<Rightarrow> (i32 \<times> consys) option" where
  "printk buf fmt args x = do {
     (i, m) \<leftarrow> sprintf buf fmt args (cmem x);
     Some (i, snd (console_write buf i TEXT (set_cmem m x))) }"

text \<open>The system call \<^verbatim>\<open>write\<close>; descriptors 1 and 2 are the standard output and error.\<close>

definition sys_write :: "u32 \<Rightarrow> addr \<Rightarrow> u32 \<Rightarrow> consys \<Rightarrow> (i32 \<times> consys) option" where
  "sys_write fd buf len x = (if fd = 1 \<or> fd = 2 then Some (console_write buf len TEXT x) else panic ''unimplement write!!!'')"

end
