(* ===== verification/Terminal.thy ===== *)
theory Terminal
  imports Console
begin

text \<open>
  What the console promises: a terminal of 25 rows and 80 columns that scrolls up when the text runs over its last row.
  The display memory, the moving screen start and the cursor address of \<open>Console\<close> refine it.
\<close>

section \<open>The abstract terminal\<close>

record terminal =
  tcell :: "nat \<Rightarrow> nat \<Rightarrow> u16"
  tx :: nat
  ty :: nat

definition t_put :: "u16 \<Rightarrow> terminal \<Rightarrow> terminal" where
  "t_put v t = t\<lparr>tcell := (tcell t)(ty t := (tcell t (ty t))(tx t := v))\<rparr>"

definition t_cr :: "terminal \<Rightarrow> terminal" where
  "t_cr t = t\<lparr>tx := 0\<rparr>"

definition t_lf :: "terminal \<Rightarrow> terminal" where
  "t_lf t = (if ty t < 24 then t\<lparr>ty := ty t + 1\<rparr>
     else t\<lparr>tcell := \<lambda>r c. if r < 24 \<and> c < 80 then tcell t (r + 1) c else if r = 24 \<and> c < 80 then ERASE else 0\<rparr>)"

definition t_char :: "u8 \<Rightarrow> u8 \<Rightarrow> terminal \<Rightarrow> terminal" where
  "t_char attr ch t =
    (if ch \<in> {ASCII_NUL, ASCII_ENQ, ASCII_HT, ASCII_VT, ASCII_BEL} then t
     else if ch = ASCII_BS then if tx t > 0 then t_put ERASE (t\<lparr>tx := tx t - 1\<rparr>) else t
     else if ch = ASCII_LF then t_cr (t_lf t)
     else if ch = ASCII_FF then t_lf t
     else if ch = ASCII_CR then t_cr t
     else if ch = ASCII_DEL then t_put ERASE t
     else let t = (t_put (ucast ch OR push_bit 8 (ucast attr)) t)\<lparr>tx := tx t + 1\<rparr> in if tx t \<ge> 80 then t_cr (t_lf t) else t)"

definition t_blank :: terminal where
  "t_blank = \<lparr>tcell = (\<lambda>r c. if r < 25 \<and> c < 80 then ERASE else 0), tx = 0, ty = 0\<rparr>"

section \<open>The display memory\<close>

text \<open>The \<open>k\<close>-th character cell of the display memory.\<close>

definition cell_addr :: "nat \<Rightarrow> addr" where
  "cell_addr k = CGA_MEM_BASE + of_nat (2 * k)"

definition cell :: "mem \<Rightarrow> nat \<Rightarrow> u16" where
  "cell m k = rd16 m (cell_addr k)"

definition cga :: "addr \<Rightarrow> bool" where
  "cga a \<longleftrightarrow> in_range CGA_MEM_BASE (unat CGA_MEM_SIZE) a"

lemma offset_eq:
  assumes "i < 2 ^ 32" and "j < 2 ^ 32"
  shows "(p :: u32) + of_nat i = p + of_nat j \<longleftrightarrow> i = j"
proof
  assume "p + of_nat i = p + of_nat j"
  then have "unat (of_nat i :: u32) = unat (of_nat j :: u32)" by simp
  with assms show "i = j" by (simp add: unat_of_nat take_bit_nat_eq_self)
qed simp

lemma cell_addr_offset: "cell_addr k = CGA_MEM_BASE + of_nat (2 * k)" "cell_addr k + 1 = CGA_MEM_BASE + of_nat (2 * k + 1)"
  by (simp_all add: cell_addr_def)

lemma cell_addr_eq:
  assumes "j < 8192" and "k < 8192"
  shows "cell_addr j = cell_addr k \<longleftrightarrow> j = k" "cell_addr j + 1 = cell_addr k + 1 \<longleftrightarrow> j = k"
    "cell_addr j \<noteq> cell_addr k + 1" "cell_addr j + 1 \<noteq> cell_addr k"
  unfolding cell_addr_offset(2) unfolding cell_addr_offset(1)
  by (subst offset_eq; use assms in \<open>simp; presburger?\<close>)+

lemma rd16_wr16_same: "rd16 (wr16 m a v) a = v"
  by (rule bit_word_eqI) (auto simp: rd16_def wr16_def bit_simps)

lemma cell_wr16:
  assumes "j < 8192" and "k < 8192"
  shows "cell (wr16 m (cell_addr k) v) j = (if j = k then v else cell m j)"
proof (cases "j = k")
  case False
  with cell_addr_eq [OF assms] cell_addr_eq [OF assms(2,1)] show ?thesis by (auto simp: cell_def wr16_def rd16_def)
qed (simp add: cell_def rd16_wr16_same)

lemma cga_cell: "k < 8192 \<Longrightarrow> cga (cell_addr k)" "k < 8192 \<Longrightarrow> cga (cell_addr k + 1)"
  unfolding cga_def cell_addr_offset(2) unfolding cell_addr_offset(1) by (rule in_range_offset; simp add: CGA_MEM_SIZE_def)+

lemma wr16_frame: "k < 8192 \<Longrightarrow> \<not> cga a \<Longrightarrow> wr16 m (cell_addr k) v a = m a"
  using cga_cell [of k] by (auto simp: wr16_def)

lemma erase_cells_cell:
  assumes "k + n \<le> 8192" and "j < 8192"
  shows "cell (erase_cells n (cell_addr k) m) j = (if k \<le> j \<and> j < k + n then ERASE else cell m j)"
  using assms(1)
proof (induction n arbitrary: k m)
  case (Suc n)
  have "cell_addr k + 2 = cell_addr (Suc k)" by (simp add: cell_addr_def)
  then show ?case using Suc assms(2) cell_wr16 [of j k m ERASE] by auto
qed auto

lemma erase_cells_frame:
  assumes "k + n \<le> 8192" and "\<not> cga a"
  shows "erase_cells n (cell_addr k) m a = m a"
  using assms(1)
proof (induction n arbitrary: k m)
  case (Suc n)
  have "cell_addr k + 2 = cell_addr (Suc k)" by (simp add: cell_addr_def)
  then show ?case using Suc assms(2) wr16_frame [of k a] by simp
qed simp

text \<open>A copy to a lower address, byte by byte from the lowest on, moves the block also when source and destination overlap.\<close>

lemma memcpy_down:
  assumes "s + n + d < 2 ^ 32" and "i < 2 ^ 31" and "d < 2 ^ 31"
  shows "memcpy_loop m (p + of_nat s) (p + of_nat (s + d)) n (p + of_nat i) = m (p + of_nat (if s \<le> i \<and> i < s + n then i + d else i))"
  using assms(1)
proof (induction n arbitrary: s m)
  case (Suc n)
  let ?m = "m(p + of_nat s := m (p + of_nat (s + d)))"
  have n: "p + of_nat s + 1 = p + of_nat (Suc s)" "p + of_nat (s + d) + 1 = p + of_nat (Suc s + d)" by simp_all
  have "memcpy_loop m (p + of_nat s) (p + of_nat (s + d)) (Suc n) (p + of_nat i) =
      ?m (p + of_nat (if Suc s \<le> i \<and> i < Suc s + n then i + d else i))"
    unfolding memcpy_loop.simps n by (rule Suc(1)) (use Suc(2) in simp)
  moreover have "p + of_nat (if Suc s \<le> i \<and> i < Suc s + n then i + d else i) = p + of_nat s \<longleftrightarrow> i = s"
    by (subst offset_eq) (use Suc(2) assms(2,3) in auto)
  ultimately show ?case by auto
qed auto

lemma memcpy_cells:
  assumes "j < 8192" and "k \<le> 80"
  shows "cell (memcpy m CGA_MEM_BASE (cell_addr k) SCR_SIZE) j = (if j < 2000 then cell m (j + k) else cell m j)"
proof -
  have c: "memcpy m CGA_MEM_BASE (cell_addr k) SCR_SIZE (CGA_MEM_BASE + of_nat i) =
      m (CGA_MEM_BASE + of_nat (if i < 4000 then i + 2 * k else i))" if "i < 2 ^ 31" for i
    using memcpy_down [of 0 4000 "2 * k" i m CGA_MEM_BASE] that assms(2)
    by (simp add: memcpy_def SCR_SIZE_def SCR_ROW_SIZE_def SCR_WIDTH_def SCR_HEIGHT_def cell_addr_def)
  show ?thesis
    unfolding cell_def rd16_def cell_addr_offset(2) unfolding cell_addr_offset(1)
    using c [of "2 * j"] c [of "2 * j + 1"] assms by (simp add: cell_addr_def algebra_simps)
qed

lemma memcpy_frame:
  assumes "\<not> cga a"
  shows "memcpy m CGA_MEM_BASE src SCR_SIZE a = m a"
proof -
  have "memcpy_loop m (p + of_nat s) q n a = m a" if "s + n \<le> 4000" "p = CGA_MEM_BASE" for p q s n
    using that
  proof (induction n arbitrary: s q m)
    case (Suc n)
    have "in_range CGA_MEM_BASE (unat CGA_MEM_SIZE) (CGA_MEM_BASE + of_nat s)"
      by (rule in_range_offset) (use Suc(2) in \<open>simp_all add: CGA_MEM_SIZE_def\<close>)
    then have "a \<noteq> p + of_nat s" using assms Suc(3) by (auto simp: cga_def)
    moreover have "p + of_nat s + 1 = p + of_nat (Suc s)" by simp
    ultimately show ?case using Suc(1) [of "Suc s"] Suc(2,3) by (simp only: memcpy_loop.simps) simp
  qed simp
  from this [of 0 4000 CGA_MEM_BASE] show ?thesis
    by (simp add: memcpy_def SCR_SIZE_def SCR_ROW_SIZE_def SCR_WIDTH_def SCR_HEIGHT_def)
qed

section \<open>The console refines the terminal\<close>

definition row :: "consys \<Rightarrow> nat" where
  "row x = min 24 (unat (cursor_y (con x)))"

text \<open>The screen starts at row \<open>q\<close> of the display memory; the cursor is in it, or just behind the end of its row.\<close>

definition con_at :: "nat \<Rightarrow> consys \<Rightarrow> bool" where
  "con_at q x \<longleftrightarrow> q \<le> 1 \<and> screen_base (con x) = cell_addr (80 * q) \<and> unat (cursor_x (con x)) \<le> 80 \<and>
     cursor_addr (con x) = cell_addr (80 * q + 80 * row x + unat (cursor_x (con x)))"

definition con_ok :: "consys \<Rightarrow> bool" where
  "con_ok x \<longleftrightarrow> (\<exists>q. con_at q x) \<and> unat (cursor_x (con x)) < 80"

definition terminal_of :: "consys \<Rightarrow> terminal" where
  "terminal_of x = \<lparr>tcell = (\<lambda>r c. if r < 25 \<and> c < 80 then rd16 (cmem x) (screen_base (con x) + of_nat (160 * r + 2 * c)) else 0),
     tx = unat (cursor_x (con x)), ty = row x\<rparr>"

lemma con_simps [simp]:
  "con (upd_con f x) = f (con x)" "ckern (upd_con f x) = ckern x" "con (set_cmem m x) = con x" "cmem (set_cmem m x) = m"
  "con (set_ckern s x) = con x" "ckern (set_ckern s x) = s" "con (set_screen_base x) = con x" "ckern (set_screen_base x) = ckern x"
  "con (set_cursor_addr x) = con x" "ckern (set_cursor_addr x) = ckern x" "set_cmem m (set_cmem m' x) = set_cmem m x"
  by (simp_all add: upd_con_def set_cmem_def set_ckern_def set_screen_base_def set_cursor_addr_def)

lemma terminal_of_at:
  assumes "con_at q x"
  shows "terminal_of x = \<lparr>tcell = (\<lambda>r c. if r < 25 \<and> c < 80 then cell (cmem x) (80 * q + 80 * r + c) else 0),
    tx = unat (cursor_x (con x)), ty = row x\<rparr>"
proof -
  have "cell_addr (80 * q) + of_nat (160 * r + 2 * c) = cell_addr (80 * q + 80 * r + c)" for r c
    by (simp add: cell_addr_def algebra_simps)
  then have "rd16 (cmem x) (screen_base (con x) + of_nat (160 * r + 2 * c)) = cell (cmem x) (80 * q + 80 * r + c)" for r c
    using assms by (simp only: con_at_def cell_def)
  then show ?thesis by (simp only: terminal_of_def)
qed

lemma cell_addr_add: "cell_addr k + of_nat (2 * n) = cell_addr (k + n)"
  by (simp add: cell_addr_def algebra_simps)

lemma cell_addr_shift: "cell_addr (k + n) - (cell_addr k - CGA_MEM_BASE) = cell_addr n"
  by (simp add: cell_addr_def algebra_simps)

lemma scroll_up_at:
  assumes "con_at q x"
  shows "screen_base (con (scroll_up x)) = cell_addr 80" "cursor_x (con (scroll_up x)) = cursor_x (con x)"
    "cursor_y (con (scroll_up x)) = cursor_y (con x)"
    "cursor_addr (con (scroll_up x)) = cell_addr (80 * row x + unat (cursor_x (con x)))"
    "j < 8192 \<Longrightarrow> cell (cmem (scroll_up x)) j =
      (if 2000 \<le> j \<and> j < 2080 then ERASE else if j < 2000 then cell (cmem x) (j + 80 * q) else cell (cmem x) j)"
    "\<not> cga a \<Longrightarrow> cmem (scroll_up x) a = cmem x a"
proof -
  have q: "q = 0 \<or> q = 1" "screen_base (con x) = cell_addr (80 * q)" using assms by (auto simp: con_at_def)
  have c: "screen_base (con x) + SCR_SIZE + SCR_ROW_SIZE < CGA_MEM_END"
    using q by (auto simp: cell_addr_def SCR_SIZE_def SCR_ROW_SIZE_def SCR_WIDTH_def SCR_HEIGHT_def CGA_MEM_END_def CGA_MEM_BASE_def
        CGA_MEM_SIZE_def)
  have w: "CGA_MEM_BASE + SCR_SIZE = cell_addr 2000" "CGA_MEM_BASE + SCR_ROW_SIZE = cell_addr 80" "unat SCR_WIDTH = 80"
    by (simp_all add: SCR_SIZE_def SCR_ROW_SIZE_def SCR_WIDTH_def SCR_HEIGHT_def cell_addr_def)
  let ?m = "memcpy (cmem x) CGA_MEM_BASE (cell_addr (80 * q)) SCR_SIZE"
  have s: "con (scroll_up x) = (con x)\<lparr>cursor_addr := cursor_addr (con x) - (cell_addr (80 * q) - CGA_MEM_BASE), screen_base := cell_addr 80\<rparr>"
    "cmem (scroll_up x) = erase_cells 80 (cell_addr 2000) ?m"
    using c by (simp_all add: scroll_up_def Let_def w q(2))
  show "screen_base (con (scroll_up x)) = cell_addr 80" "cursor_x (con (scroll_up x)) = cursor_x (con x)"
    "cursor_y (con (scroll_up x)) = cursor_y (con x)"
    by (simp_all add: s)
  show "cursor_addr (con (scroll_up x)) = cell_addr (80 * row x + unat (cursor_x (con x)))"
    using assms by (simp add: s con_at_def cell_addr_shift add.assoc)
  show "cmem (scroll_up x) a = cmem x a" if "\<not> cga a"
    using that by (simp add: s erase_cells_frame memcpy_frame)
  show "cell (cmem (scroll_up x)) j =
      (if 2000 \<le> j \<and> j < 2080 then ERASE else if j < 2000 then cell (cmem x) (j + 80 * q) else cell (cmem x) j)" if "j < 8192"
    unfolding s(2) using that q(1) by (subst erase_cells_cell) (auto simp: memcpy_cells)
qed

lemma command_lf_at:
  assumes "con_at q x" and "unat (cursor_y (con x)) + 1 < 2 ^ 32"
  shows "\<exists>q. con_at q (command_lf x)" "terminal_of (command_lf x) = t_lf (terminal_of x)"
    "cursor_x (con (command_lf x)) = cursor_x (con x)" "unat (cursor_y (con (command_lf x))) = unat (cursor_y (con x)) + 1"
    "\<not> cga a \<Longrightarrow> cmem (command_lf x) a = cmem x a"
proof -
  let ?y = "command_lf x" and ?n = "unat (cursor_y (con x))" and ?x = "unat (cursor_x (con x))"
  have n: "unat (cursor_y (con x) + 1) = ?n + 1" using assms(2) by (simp add: unat_plus_noof)
  then have le: "SCR_HEIGHT \<le> cursor_y (con x) + 1 \<longleftrightarrow> 24 \<le> ?n" by (simp add: SCR_HEIGHT_def word_le_nat_alt)
  have w: "cell_addr k + SCR_ROW_SIZE = cell_addr (k + 80)" for k
    using cell_addr_add [of k 80] by (simp add: SCR_ROW_SIZE_def SCR_WIDTH_def)
  have x: "q \<le> 1" "screen_base (con x) = cell_addr (80 * q)" "?x \<le> 80" "cursor_addr (con x) = cell_addr (80 * q + 80 * row x + ?x)"
    using assms(1) by (simp_all add: con_at_def)
  show cx: "cursor_x (con ?y) = cursor_x (con x)" using scroll_up_at(2) [OF assms(1)] by (simp add: command_lf_def Let_def)
  show cy: "unat (cursor_y (con ?y)) = ?n + 1" using scroll_up_at(3) [OF assms(1)] n by (simp add: command_lf_def Let_def)
  show "cmem ?y a = cmem x a" if "\<not> cga a" using scroll_up_at(6) [OF assms(1) that] by (simp add: command_lf_def Let_def)
  have "(\<exists>q. con_at q ?y) \<and> terminal_of ?y = t_lf (terminal_of x)"
  proof (cases "24 \<le> ?n")
    case True
    have r: "row x = 24" "row ?y = 24" using True cy by (simp_all add: row_def)
    have lf: "?y = upd_con (\<lambda>c. c\<lparr>cursor_y := cursor_y c + 1, cursor_addr := cursor_addr c + SCR_ROW_SIZE\<rparr>) (scroll_up x)"
      using True by (simp add: command_lf_def Let_def le)
    have e: "80 * row x + ?x + 80 = 80 * 1 + 80 * 24 + ?x" by (simp add: r(1))
    have y: "screen_base (con ?y) = cell_addr (80 * 1)" "cmem ?y = cmem (scroll_up x)" "cursor_addr (con ?y) = cell_addr (80 * 1 + 80 * 24 + ?x)"
      using scroll_up_at(1,4) [OF assms(1)] unfolding lf e [symmetric] w [symmetric] by simp_all
    have at: "con_at 1 ?y" using y(1,3) x(3) by (simp add: con_at_def cx r(2))
    have "cell (cmem (scroll_up x)) (80 * 1 + 80 * r + c) = (if r < 24 then cell (cmem x) (80 * q + 80 * (r + 1) + c) else ERASE)"
      if "r < 25" "c < 80" for r c
      using that scroll_up_at(5) [OF assms(1), of "80 * 1 + 80 * r + c"] by (auto simp: algebra_simps)
    moreover from this [of 24] have "cell (cmem (scroll_up x)) (2000 + c) = ERASE" if "c < 80" for c using that by simp
    moreover have "r = 24" if "r < 25" "\<not> r < 24" for r :: nat using that by simp
    ultimately have "terminal_of ?y = t_lf (terminal_of x)"
      unfolding terminal_of_at [OF at] terminal_of_at [OF assms(1)] t_lf_def y(2) by (auto simp: r cx fun_eq_iff)
    with at show ?thesis by blast
  next
    case False
    have r: "row x = ?n" "row ?y = ?n + 1" using False cy by (simp_all add: row_def)
    have lf: "?y = upd_con (\<lambda>c. c\<lparr>cursor_y := cursor_y c + 1, cursor_addr := cursor_addr c + SCR_ROW_SIZE\<rparr>) x"
      using False by (simp add: command_lf_def Let_def le)
    have e: "80 * q + 80 * row ?y + ?x = 80 * q + 80 * row x + ?x + 80" by (simp add: r)
    have y: "screen_base (con ?y) = cell_addr (80 * q)" "cmem ?y = cmem x" "cursor_addr (con ?y) = cell_addr (80 * q + 80 * row ?y + ?x)"
      unfolding e w [symmetric] unfolding lf using x by simp_all
    have at: "con_at q ?y" using x y(1,3) by (simp add: con_at_def cx)
    have "terminal_of ?y = t_lf (terminal_of x)"
      unfolding terminal_of_at [OF at] terminal_of_at [OF assms(1)] t_lf_def y(2) using False by (auto simp: r cx)
    with at show ?thesis by blast
  qed
  then show "\<exists>q. con_at q ?y" "terminal_of ?y = t_lf (terminal_of x)" by blast+
qed

lemma command_cr_at:
  assumes "con_at q x"
  shows "con_at q (command_cr x)" "terminal_of (command_cr x) = t_cr (terminal_of x)" "cursor_x (con (command_cr x)) = 0"
    "cursor_y (con (command_cr x)) = cursor_y (con x)" "cmem (command_cr x) = cmem x"
proof -
  let ?x = "unat (cursor_x (con x))"
  show c: "cursor_x (con (command_cr x)) = 0" "cursor_y (con (command_cr x)) = cursor_y (con x)" "cmem (command_cr x) = cmem x"
    by (simp_all add: command_cr_def)
  have "push_bit 1 (cursor_x (con x)) = of_nat (2 * ?x)" by (simp add: push_bit_eq_mult)
  then have "cell_addr (80 * q + 80 * row x + ?x) - push_bit 1 (cursor_x (con x)) = cell_addr (80 * q + 80 * row x)"
    by (simp only: cell_addr_add [symmetric]) simp
  then show at: "con_at q (command_cr x)" using assms by (simp add: con_at_def command_cr_def row_def)
  show "terminal_of (command_cr x) = t_cr (terminal_of x)"
    unfolding terminal_of_at [OF at] terminal_of_at [OF assms] c by (simp add: t_cr_def c row_def)
qed

lemma term_simps [simp]: "tx (terminal_of x) = unat (cursor_x (con x))" "ty (terminal_of x) = row x"
  by (simp_all add: terminal_of_def)

lemma grid_eq:
  assumes "c < 80" and "d < 80"
  shows "80 * r + c = 80 * s + d \<longleftrightarrow> r = s \<and> c = (d :: nat)"
proof
  assume e: "80 * r + c = 80 * s + d"
  from arg_cong [OF e, of "\<lambda>n. n mod 80"] have "c = d" using assms by simp
  with e show "r = s \<and> c = d" by simp
qed simp

text \<open>A write to the cell under the cursor.\<close>

lemma cursor_write_at:
  fixes x :: consys and q :: nat and v :: u16
  assumes "con_at q x" and "unat (cursor_x (con x)) < 80"
  defines "y \<equiv> set_cmem (wr16 (cmem x) (cursor_addr (con x)) v) x"
  shows "con_at q y" "terminal_of y = t_put v (terminal_of x)" "\<not> cga a \<Longrightarrow> cmem y a = cmem x a"
proof -
  let ?k = "80 * q + 80 * row x + unat (cursor_x (con x))"
  have k: "cursor_addr (con x) = cell_addr ?k" "?k < 8192" "q \<le> 1" using assms(1,2) by (auto simp: con_at_def row_def)
  show at: "con_at q y" using assms(1) by (simp add: con_at_def y_def row_def)
  show "cmem y a = cmem x a" if "\<not> cga a" using wr16_frame [OF k(2) that] by (simp add: y_def k(1))
  have w: "cell (cmem y) (80 * q + 80 * r + c) = (if r = row x \<and> c = unat (cursor_x (con x)) then v else cell (cmem x) (80 * q + 80 * r + c))"
    if "r < 25" "c < 80" for r c
  proof -
    have "80 * q + 80 * r + c = ?k \<longleftrightarrow> r = row x \<and> c = unat (cursor_x (con x))" using grid_eq [OF that(2) assms(2), of r "row x"] by simp
    then show ?thesis using that k by (simp add: y_def cell_wr16)
  qed
  let ?t = "terminal_of x"
  have "tcell (terminal_of y) r c = ((tcell ?t)(row x := (tcell ?t (row x))(unat (cursor_x (con x)) := v))) r c" for r c
  proof (cases "r < 25 \<and> c < 80")
    case True
    then show ?thesis unfolding terminal_of_at [OF at] terminal_of_at [OF assms(1)] using w by simp
  next
    case False
    then have "r = row x \<longrightarrow> c \<noteq> unat (cursor_x (con x))" using assms(2) by (auto simp: row_def)
    with False show ?thesis unfolding terminal_of_at [OF at] terminal_of_at [OF assms(1)] by auto
  qed
  then have "tcell (terminal_of y) = (tcell ?t)(row x := (tcell ?t (row x))(unat (cursor_x (con x)) := v))" by (intro ext)
  then show "terminal_of y = t_put v ?t"
    by (intro terminal.equality) (simp_all add: t_put_def y_def row_def del: fun_upd_apply)
qed

lemma terminal_of_moved:
  assumes "con_at q x" and "con_at q y" and "cmem y = cmem x" and "row y = row x"
  shows "terminal_of y = (terminal_of x)\<lparr>tx := unat (cursor_x (con y))\<rparr>"
  unfolding terminal_of_at [OF assms(1)] terminal_of_at [OF assms(2)] unfolding assms(3,4) by simp

lemma same_view:
  assumes "con y = con x" and "cmem y = cmem x"
  shows "terminal_of y = terminal_of x" "con_ok y \<longleftrightarrow> con_ok x" "unat (cursor_y (con y)) = unat (cursor_y (con x))"
  unfolding terminal_of_def con_ok_def con_at_def row_def assms by (rule refl)+

lemma newline_at:
  assumes "con_at q x" and "unat (cursor_y (con x)) + 1 < 2 ^ 32"
  defines "y \<equiv> command_cr (command_lf x)"
  shows "con_ok y" "terminal_of y = t_cr (t_lf (terminal_of x))" "unat (cursor_y (con y)) = unat (cursor_y (con x)) + 1"
    "\<not> cga a \<Longrightarrow> cmem y a = cmem x a"
proof -
  note lf = command_lf_at [OF assms(1,2)]
  from lf(1) obtain q' where q: "con_at q' (command_lf x)" by blast
  note cr = command_cr_at [OF q]
  show "con_ok y" using cr(1,3) unfolding con_ok_def y_def by auto
  show "terminal_of y = t_cr (t_lf (terminal_of x))" using cr(2) lf(2) by (simp add: y_def)
  show "unat (cursor_y (con y)) = unat (cursor_y (con x)) + 1" using cr(4) lf(4) by (simp add: y_def)
  show "cmem y a = cmem x a" if "\<not> cga a" using cr(5) lf(5) [OF that] by (simp add: y_def)
qed

lemma command_bs_at:
  assumes "con_at q x" and "unat (cursor_x (con x)) < 80"
  shows "con_ok (command_bs x)"
    "terminal_of (command_bs x) =
      (let t = terminal_of x in if tx t > 0 then t_put ERASE (t\<lparr>tx := tx t - 1\<rparr>) else t)"
    "cursor_y (con (command_bs x)) = cursor_y (con x)" "\<not> cga a \<Longrightarrow> cmem (command_bs x) a = cmem x a"
proof -
  have "con_ok (command_bs x) \<and> terminal_of (command_bs x) =
      (let t = terminal_of x in if tx t > 0 then t_put ERASE (t\<lparr>tx := tx t - 1\<rparr>) else t) \<and>
    cursor_y (con (command_bs x)) = cursor_y (con x) \<and> (\<not> cga a \<longrightarrow> cmem (command_bs x) a = cmem x a)"
  proof (cases "cursor_x (con x) = 0")
    case True
    then show ?thesis using assms by (auto simp: command_bs_def con_ok_def)
  next
    case False
    let ?y = "upd_con (\<lambda>c. c\<lparr>cursor_x := cursor_x c - 1, cursor_addr := cursor_addr c - 2\<rparr>) x" and ?x = "unat (cursor_x (con x))"
    have x: "unat (cursor_x (con x) - 1) = ?x - 1" "0 < ?x" using False by (simp_all add: unat_minus_one unat_gt_0)
    have "cell_addr (Suc k) - 2 = cell_addr k" for k by (simp add: cell_addr_def)
    moreover have "80 * q + 80 * row x + ?x = Suc (80 * q + 80 * row x + (?x - 1))" using x(2) by simp
    ultimately have "cell_addr (80 * q + 80 * row x + ?x) - 2 = cell_addr (80 * q + 80 * row x + (?x - 1))" by (simp only:)
    then have at: "con_at q ?y" using assms x by (simp add: con_at_def row_def)
    have lt: "unat (cursor_x (con ?y)) < 80" using assms(2) x by simp
    have "command_bs x = set_cmem (wr16 (cmem ?y) (cursor_addr (con ?y)) ERASE) ?y" using False by (simp add: command_bs_def Let_def)
    moreover have "terminal_of ?y = (terminal_of x)\<lparr>tx := ?x - 1\<rparr>"
      using terminal_of_moved [OF assms(1) at] x by (simp add: row_def)
    ultimately show ?thesis using cursor_write_at [OF at lt, where v = ERASE] lt x by (auto simp: con_ok_def Let_def)
  qed
  then show "con_ok (command_bs x)" "terminal_of (command_bs x) =
      (let t = terminal_of x in if tx t > 0 then t_put ERASE (t\<lparr>tx := tx t - 1\<rparr>) else t)"
    "cursor_y (con (command_bs x)) = cursor_y (con x)" "\<not> cga a \<Longrightarrow> cmem (command_bs x) a = cmem x a"
    by blast+
qed

text \<open>The branch for a printable character: the cell, then the cursor, then a new line at the end of the row.\<close>

lemma put_char_at:
  fixes x :: consys and q :: nat and attr ch :: u8
  assumes "con_at q x" and "unat (cursor_x (con x)) < 80" and "unat (cursor_y (con x)) + 1 < 2 ^ 32"
    and "ch \<notin> {ASCII_NUL, ASCII_ENQ, ASCII_HT, ASCII_VT, ASCII_BEL, ASCII_BS, ASCII_LF, ASCII_FF, ASCII_CR, ASCII_DEL}"
  defines "y \<equiv> write_char attr ch x"
  shows "con_ok y" "terminal_of y = t_char attr ch (terminal_of x)" "unat (cursor_y (con y)) \<le> unat (cursor_y (con x)) + 1"
    "\<not> cga a \<Longrightarrow> cmem y a = cmem x a"
proof -
  let ?v = "ucast ch OR push_bit 8 (ucast attr) :: u16"
  define z where "z = set_cmem (wr16 (cmem x) (cursor_addr (con x)) ?v) x"
  define w where "w = upd_con (\<lambda>c. c\<lparr>cursor_addr := cursor_addr c + 2, cursor_x := cursor_x c + 1\<rparr>) z"
  note wr = cursor_write_at [OF assms(1,2), where v = ?v, folded z_def]
  have "(ucast ?v :: u8) = ch" "(ucast (drop_bit 8 ?v) :: u8) = attr"
    by (rule bit_word_eqI; auto simp: bit_simps dest: bit_imp_le_length)+
  then have y: "y = (if cursor_x (con w) \<ge> SCR_WIDTH then command_cr (command_lf w) else w)"
    using assms(4) by (simp add: y_def write_char_def w_def z_def wr16_def Let_def)
  have x: "unat (cursor_x (con w)) = unat (cursor_x (con x)) + 1" "cursor_y (con w) = cursor_y (con x)" "cmem w = cmem z"
    using assms(2) by (simp_all add: w_def z_def unat_plus_noof)
  have "cell_addr k + 2 = cell_addr (k + 1)" for k by (simp add: cell_addr_def)
  then have at: "con_at q w" using wr(1) x assms(2) by (simp add: con_at_def row_def w_def z_def add.assoc)
  have t: "terminal_of w = (t_put ?v (terminal_of x))\<lparr>tx := unat (cursor_x (con x)) + 1\<rparr>"
    using terminal_of_moved [OF wr(1) at x(3)] x(1,2) wr(2) by (simp add: row_def z_def)
  have le: "SCR_WIDTH \<le> cursor_x (con w) \<longleftrightarrow> 80 \<le> unat (cursor_x (con x)) + 1" using x(1) by (simp add: SCR_WIDTH_def word_le_nat_alt)
  have c: "t_char attr ch (terminal_of x) = (if 80 \<le> unat (cursor_x (con x)) + 1 then t_cr (t_lf (terminal_of w)) else terminal_of w)"
    using assms(4) by (auto simp: t_char_def Let_def t t_put_def)
  have nl: "unat (cursor_y (con w)) + 1 < 2 ^ 32" using assms(3) x(2) by simp
  note nl = newline_at [OF at nl]
  show "con_ok y" using nl(1) at le x(1) unfolding y by (auto simp: con_ok_def)
  show "terminal_of y = t_char attr ch (terminal_of x)" unfolding y c le using nl(2) by simp
  show "unat (cursor_y (con y)) \<le> unat (cursor_y (con x)) + 1" unfolding y using nl(3) x(2) by simp
  show "cmem y a = cmem x a" if "\<not> cga a" unfolding y using nl(4) [OF that] wr(3) [OF that] x(3) by simp
qed

lemma write_char_at:
  fixes x :: consys and attr ch :: u8
  assumes "con_ok x" and "unat (cursor_y (con x)) + 1 < 2 ^ 32"
  defines "y \<equiv> write_char attr ch x"
  shows "con_ok y \<and> terminal_of y = t_char attr ch (terminal_of x) \<and> unat (cursor_y (con y)) \<le> unat (cursor_y (con x)) + 1 \<and>
    (\<forall>a. \<not> cga a \<longrightarrow> cmem y a = cmem x a)"
proof -
  from assms(1) obtain q where q: "con_at q x" "unat (cursor_x (con x)) < 80" unfolding con_ok_def by blast
  note ascii = ASCII_NUL_def ASCII_ENQ_def ASCII_HT_def ASCII_VT_def ASCII_BEL_def ASCII_BS_def ASCII_LF_def ASCII_FF_def ASCII_CR_def
    ASCII_DEL_def
  consider "ch \<in> {ASCII_NUL, ASCII_ENQ, ASCII_HT, ASCII_VT}" | "ch = ASCII_BEL" | "ch = ASCII_BS" | "ch = ASCII_LF" | "ch = ASCII_FF" |
    "ch = ASCII_CR" | "ch = ASCII_DEL" |
    "ch \<notin> {ASCII_NUL, ASCII_ENQ, ASCII_HT, ASCII_VT, ASCII_BEL, ASCII_BS, ASCII_LF, ASCII_FF, ASCII_CR, ASCII_DEL}" by blast
  then show ?thesis
  proof cases
    case 1
    then have "y = x" "t_char attr ch (terminal_of x) = terminal_of x" by (auto simp: y_def write_char_def t_char_def)
    then show ?thesis using assms(1) by simp
  next
    case 2
    have "con y = con x" "cmem y = cmem x" using 2 by (simp_all add: y_def write_char_def ascii start_beep_def)
    from same_view [OF this] show ?thesis using assms(1) 2 \<open>cmem y = cmem x\<close> by (simp add: t_char_def)
  next
    case 3
    then have "y = command_bs x" "t_char attr ch t = (if tx t > 0 then t_put ERASE (t\<lparr>tx := tx t - 1\<rparr>) else t)" for t
      by (simp_all add: y_def write_char_def t_char_def ascii)
    then show ?thesis using command_bs_at [OF q] by (simp add: Let_def)
  next
    case 4
    then have "y = command_cr (command_lf x)" "t_char attr ch t = t_cr (t_lf t)" for t
      by (simp_all add: y_def write_char_def t_char_def ascii)
    then show ?thesis using newline_at [OF q(1) assms(2)] by simp
  next
    case 5
    then have "y = command_lf x" "t_char attr ch t = t_lf t" for t by (simp_all add: y_def write_char_def t_char_def ascii)
    then show ?thesis using command_lf_at [OF q(1) assms(2)] q(2) by (simp add: con_ok_def)
  next
    case 6
    then have "y = command_cr x" "t_char attr ch t = t_cr t" for t by (simp_all add: y_def write_char_def t_char_def ascii)
    then show ?thesis using command_cr_at [OF q(1)] by (auto simp: con_ok_def)
  next
    case 7
    then have "y = command_del x" "t_char attr ch t = t_put ERASE t" for t by (simp_all add: y_def write_char_def t_char_def ascii)
    then show ?thesis using cursor_write_at [OF q, where v = ERASE] q by (auto simp: con_ok_def command_del_def)
  next
    case 8
    then show ?thesis unfolding y_def using put_char_at [OF q assms(2) 8] by blast
  qed
qed

lemma write_chars_at:
  fixes x :: consys and attr :: u8 and buf :: addr and n :: nat
  assumes "con_ok x" and "unat (cursor_y (con x)) + n < 2 ^ 32" and "\<forall>i < n. \<not> cga (buf + of_nat i)"
  defines "y \<equiv> write_chars n attr buf x"
  shows "con_ok y \<and> terminal_of y = fold (t_char attr) (map (\<lambda>i. cmem x (buf + of_nat i)) [0 ..< n]) (terminal_of x) \<and>
    (\<forall>a. \<not> cga a \<longrightarrow> cmem y a = cmem x a)"
  using assms(1-3) unfolding y_def
proof (induction n arbitrary: x buf)
  case (Suc n)
  let ?z = "write_char attr (cmem x buf) x"
  have z: "con_ok ?z \<and> terminal_of ?z = t_char attr (cmem x buf) (terminal_of x) \<and> unat (cursor_y (con ?z)) \<le> unat (cursor_y (con x)) + 1 \<and>
    (\<forall>a. \<not> cga a \<longrightarrow> cmem ?z a = cmem x a)"
    by (rule write_char_at) (use Suc(2,3) in auto)
  have b: "\<forall>i < n. \<not> cga (buf + 1 + of_nat i)" using Suc(4) by (auto dest: spec [of _ "Suc _"] simp: algebra_simps)
  have "map (\<lambda>i. cmem ?z (buf + 1 + of_nat i)) [0 ..< n] = map (\<lambda>i. cmem x (buf + of_nat (Suc i))) [0 ..< n]"
    using z b by (simp add: algebra_simps)
  moreover have "con_ok (write_chars n attr (buf + 1) ?z) \<and>
      terminal_of (write_chars n attr (buf + 1) ?z) = fold (t_char attr) (map (\<lambda>i. cmem ?z (buf + 1 + of_nat i)) [0 ..< n]) (terminal_of ?z) \<and>
      (\<forall>a. \<not> cga a \<longrightarrow> cmem (write_chars n attr (buf + 1) ?z) a = cmem ?z a)"
    by (rule Suc(1)) (use Suc(3) z b in auto)
  moreover have "map (\<lambda>i. cmem x (buf + of_nat i)) [0 ..< Suc n] = cmem x buf # map (\<lambda>i. cmem x (buf + of_nat (Suc i))) [0 ..< n]"
    by (simp add: map_upt_Suc del: upt_Suc)
  ultimately show ?case using z by (simp only: write_chars.simps fold.simps o_apply) simp
qed simp

section \<open>The operations\<close>

lemma console_clear_blank: "con_ok (console_clear x)" "terminal_of (console_clear x) = t_blank"
  "\<not> cga a \<Longrightarrow> cmem (console_clear x) a = cmem x a"
proof -
  let ?y = "console_clear x"
  have b: "CGA_MEM_BASE = cell_addr 0" "unat CGA_MEM_SIZE div 2 = 8192" by (simp_all add: cell_addr_def CGA_MEM_SIZE_def)
  have y: "con ?y = \<lparr>screen_base = cell_addr 0, cursor_addr = cell_addr 0, cursor_x = 0, cursor_y = 0\<rparr>"
    "cmem ?y = erase_cells 8192 (cell_addr 0) (cmem x)"
    by (simp_all add: console_clear_def Let_def b)
  have at: "con_at 0 ?y" by (simp add: con_at_def y row_def)
  then show "con_ok ?y" by (auto simp: con_ok_def y)
  have "cell (cmem ?y) (80 * 0 + 80 * r + c) = ERASE" if "r < 25" "c < 80" for r c
    unfolding y(2) using that by (subst erase_cells_cell) simp_all
  then show "terminal_of ?y = t_blank"
    unfolding terminal_of_at [OF at] t_blank_def by (auto simp: y row_def fun_eq_iff)
  show "cmem ?y a = cmem x a" if "\<not> cga a" unfolding y(2) using that by (simp add: erase_cells_frame)
qed

lemma console_write_law:
  fixes x :: consys and buf :: addr and cnt flags :: u32
  assumes "con_ok x" and "unat (cursor_y (con x)) + unat cnt < 2 ^ 32" and "\<forall>i < unat cnt. \<not> cga (buf + of_nat i)"
  defines "y \<equiv> snd (console_write buf cnt flags x)"
  shows "con_ok y" "terminal_of y = fold (t_char (ucast flags)) (map (\<lambda>i. cmem x (buf + of_nat i)) [0 ..< unat cnt]) (terminal_of x)"
    "iflag (ckern y) = iflag (ckern x)" "\<not> cga a \<Longrightarrow> cmem y a = cmem x a"
proof -
  define z where "z = set_ckern (snd (irq_disable (ckern x))) x"
  have "con z = con x" "cmem z = cmem x" by (simp_all add: z_def irq_disable_def set_irq_state_def Let_def)
  note z = this same_view [OF this]
  let ?w = "write_chars (unat cnt) (ucast flags) buf z"
  have w: "con_ok ?w \<and> terminal_of ?w = fold (t_char (ucast flags)) (map (\<lambda>i. cmem z (buf + of_nat i)) [0 ..< unat cnt]) (terminal_of z) \<and>
      (\<forall>a. \<not> cga a \<longrightarrow> cmem ?w a = cmem z a)"
    by (rule write_chars_at) (use assms(1-3) z in auto)
  have "con y = con ?w" "cmem y = cmem ?w"
    by (simp_all add: y_def console_write_def z_def irq_disable_def set_irq_state_def Let_def)
  note y = this same_view [OF this]
  show "con_ok y" "terminal_of y = fold (t_char (ucast flags)) (map (\<lambda>i. cmem x (buf + of_nat i)) [0 ..< unat cnt]) (terminal_of x)"
    using w y z by simp_all
  show "cmem y a = cmem x a" if "\<not> cga a" using w y z that by simp
  show "iflag (ckern y) = iflag (ckern x)"
    by (simp add: y_def console_write_def irq_disable_def set_irq_state_def get_irq_state_def Let_def)
qed

text \<open>
  Property C7. \<^verbatim>\<open>console_write\<close> implements a terminal. Whatever the bytes of the text, it shows them as the terminal does, one
  after the other, with line feeds, scrolling, backspace and the other control characters; it returns the number of bytes,
  writes no memory but the display, leaves the interrupt flag as it was, and the cursor stays on the screen.
  (The count of rows, which is never reset, must not reach \<open>2 ^ 32\<close>.)
\<close>

theorem console_write_terminal:
  assumes "con_ok x" and "unat (cursor_y (con x)) + unat cnt < 2 ^ 32" and "\<forall>i < unat cnt. \<not> cga (buf + of_nat i)"
  shows "\<exists>y. console_write buf cnt flags x = (cnt, y) \<and> con_ok y \<and>
    terminal_of y = fold (t_char (ucast flags)) (map (\<lambda>i. cmem x (buf + of_nat i)) [0 ..< unat cnt]) (terminal_of x) \<and>
    iflag (ckern y) = iflag (ckern x) \<and> (\<forall>a. \<not> cga a \<longrightarrow> cmem y a = cmem x a)"
proof -
  have "console_write buf cnt flags x = (cnt, snd (console_write buf cnt flags x))" by (simp add: console_write_def split_def Let_def)
  with console_write_law [OF assms, where flags = flags] show ?thesis by blast
qed

definition sample_console :: consys where
  "sample_console = console_clear \<lparr>con = \<lparr>screen_base = 0, cursor_addr = 0, cursor_x = 0, cursor_y = 0\<rparr>,
     cdev = sample_devs\<lparr>kern := sample_lock\<lparr>kmem := (\<lambda>_. 0)(0x2000 := 104, 0x2001 := 105)\<rparr>\<rparr>, cports = []\<rparr>"

theorem console_write_terminal_witness:
  "\<exists>y. console_write 0x2000 2 7 sample_console = (2, y) \<and> con_ok y \<and> tcell (terminal_of y) 0 1 = 0x0769 \<and> tx (terminal_of y) = 2"
proof -
  have n: "\<not> cga 0x2000" "\<not> cga 0x2001" by (simp_all add: cga_def in_range_def CGA_MEM_BASE_def CGA_MEM_SIZE_def)
  have y: "cursor_y (con sample_console) = 0" by (simp add: sample_console_def console_clear_def Let_def)
  have m: "cmem sample_console 0x2000 = 104" "cmem sample_console 0x2001 = 105"
    unfolding sample_console_def console_clear_blank(3) [OF n(1)] console_clear_blank(3) [OF n(2)] by simp_all
  have u: "unat (2 :: u32) = 2" "[0 ..< 2] = [0, 1 :: nat]" by (simp_all add: upt_rec)
  have "\<forall>i < unat (2 :: u32). \<not> cga ((0x2000 :: addr) + of_nat i)" unfolding u using n by (auto simp: less_2_cases_iff)
  moreover have "con_ok sample_console" unfolding sample_console_def by (rule console_clear_blank)
  moreover have "terminal_of sample_console = t_blank" unfolding sample_console_def by (rule console_clear_blank)
  ultimately obtain z where "console_write 0x2000 2 7 sample_console = (2, z)" "con_ok z" "terminal_of z = fold (t_char 7) [104, 105] t_blank"
    using console_write_terminal [of sample_console 2 "0x2000" 7] unfolding y u by (auto simp: m)
  moreover have "tcell (fold (t_char 7) [104, 105] t_blank) 0 1 = 0x0769" "tx (fold (t_char 7) [104, 105] t_blank) = 2"
    by (simp_all add: t_char_def t_put_def t_blank_def ASCII_NUL_def ASCII_ENQ_def ASCII_HT_def ASCII_VT_def ASCII_BEL_def ASCII_BS_def
        ASCII_LF_def ASCII_FF_def ASCII_CR_def ASCII_DEL_def Let_def)
  ultimately show ?thesis by metis
qed

end
