(* ===== verification/Kernel.thy ===== *)
theory Kernel
  imports Arena Terminal Keyboard
begin

text \<open>
  What ties the components to the processor: the segment descriptors and the task state segment of \<^verbatim>\<open>kernel/global.c\<close>, the
  exceptions of \<^verbatim>\<open>kernel/interrupt.c\<close>, and the system calls: the table of \<^verbatim>\<open>kernel/syscall.c\<close> and the entry in \<^verbatim>\<open>kernel/handler.asm\<close>.
\<close>

unbundle bit_operations_syntax

section \<open>Segments\<close>

definition GDT_SIZE :: nat where "GDT_SIZE = 128"
definition KERNEL_CODE_IDX :: nat where "KERNEL_CODE_IDX = 1"
definition KERNEL_DATA_IDX :: nat where "KERNEL_DATA_IDX = 2"
definition KERNEL_TSS_IDX :: nat where "KERNEL_TSS_IDX = 3"
definition USER_CODE_IDX :: nat where "USER_CODE_IDX = 4"
definition USER_DATA_IDX :: nat where "USER_DATA_IDX = 5"
definition KERNEL_DATA_SELECTOR :: u32 where "KERNEL_DATA_SELECTOR = push_bit 3 (of_nat KERNEL_DATA_IDX)"
definition KERNEL_TSS_SELECTOR :: u32 where "KERNEL_TSS_SELECTOR = push_bit 3 (of_nat KERNEL_TSS_IDX)"

text \<open>The members of the eight bytes; a bit field holds the value it was given reduced to its width.\<close>

record descriptor =
  d_limit_low :: u16
  d_base_low :: u32
  d_type :: nat
  d_segment :: nat
  d_DPL :: nat
  d_present :: nat
  d_limit_high :: u8
  d_available :: nat
  d_long_mode :: nat
  d_big :: nat
  d_granularity :: nat
  d_base_high :: u8

definition zero_descriptor :: descriptor where
  "zero_descriptor = \<lparr>d_limit_low = 0, d_base_low = 0, d_type = 0, d_segment = 0, d_DPL = 0, d_present = 0, d_limit_high = 0,
     d_available = 0, d_long_mode = 0, d_big = 0, d_granularity = 0, d_base_high = 0\<rparr>"

definition descriptor_init :: "u32 \<Rightarrow> u32 \<Rightarrow> descriptor \<Rightarrow> descriptor" where
  "descriptor_init base limit desc = desc\<lparr>d_base_low := base AND 0xffffff, d_base_high := ucast (drop_bit 24 base AND 0xff),
     d_limit_low := ucast (limit AND 0xffff), d_limit_high := ucast (drop_bit 16 limit AND 0xf)\<rparr>"

definition user_descriptors_init :: "descriptor list \<Rightarrow> descriptor list" where
  "user_descriptors_init gdt = (
     let gdt = gdt[USER_CODE_IDX := (descriptor_init 0 0xFFFFF (gdt ! USER_CODE_IDX))\<lparr>d_segment := 1, d_granularity := 1, d_big := 1,
           d_long_mode := 0, d_present := 1, d_DPL := 3, d_type := 0b1010\<rparr>]
     in gdt[USER_DATA_IDX := (descriptor_init 0 0xFFFFF (gdt ! USER_DATA_IDX))\<lparr>d_segment := 1, d_granularity := 1, d_big := 1,
           d_long_mode := 0, d_present := 1, d_DPL := 3, d_type := 0b0010\<rparr>])"

text \<open>\<open>old\<close> is the table the boot loader left; the result is the kernel's table, at \<open>here\<close>, and the new base and limit.\<close>

definition gdt_init :: "addr \<Rightarrow> descriptor list \<Rightarrow> descriptor list \<Rightarrow> descriptor list \<times> addr \<times> u16" where
  "gdt_init here old gdt = (user_descriptors_init (old @ drop (length old) gdt), here, of_nat (8 * GDT_SIZE - 1))"

record tss =
  ts_esp0 :: u32
  ts_ss0 :: u32
  ts_iobase :: u16
  ts_other :: "u32 list"

definition sizeof_tss :: u32 where "sizeof_tss = 108"

text \<open>The other members are cleared by \<^verbatim>\<open>memset\<close>; they are the words \<open>ts_other\<close>. The result also has the selector that \<^verbatim>\<open>ltr\<close> loads.\<close>

definition tss_init :: "addr \<Rightarrow> descriptor list \<Rightarrow> tss \<times> descriptor list \<times> u32" where
  "tss_init here gdt = (\<lparr>ts_esp0 = 0, ts_ss0 = KERNEL_DATA_SELECTOR, ts_iobase = ucast sizeof_tss, ts_other = List.replicate 24 0\<rparr>,
     gdt[KERNEL_TSS_IDX := (descriptor_init here (sizeof_tss - 1) (gdt ! KERNEL_TSS_IDX))\<lparr>d_segment := 0, d_granularity := 0, d_big := 0,
       d_long_mode := 0, d_present := 1, d_DPL := 0, d_type := 0b1001\<rparr>],
     KERNEL_TSS_SELECTOR)"

text \<open>The segment that a descriptor describes.\<close>

definition d_base :: "descriptor \<Rightarrow> u32" where
  "d_base d = d_base_low d OR push_bit 24 (ucast (d_base_high d))"

definition d_limit :: "descriptor \<Rightarrow> u32" where
  "d_limit d = ucast (d_limit_low d) OR push_bit 16 (ucast (d_limit_high d))"

lemma descriptor_roundtrip:
  "d_base (descriptor_init base limit d) = base" "d_limit (descriptor_init base limit d) = take_bit 20 limit"
proof -
  have m: "(0xffffff :: u32) = mask 24" "(0xff :: u32) = mask 8" "(0xffff :: u32) = mask 16" "(0xf :: u32) = mask 4"
    by (simp_all add: mask_eq_exp_minus_1)
  show "d_base (descriptor_init base limit d) = base"
    unfolding d_base_def descriptor_init_def m by (rule bit_word_eqI) (auto simp: bit_simps)
  show "d_limit (descriptor_init base limit d) = take_bit 20 limit"
    unfolding d_limit_def descriptor_init_def m by (rule bit_word_eqI) (auto simp: bit_simps)
qed

section \<open>Exceptions\<close>

definition messages :: "string list" where
  "messages = [''#DE Divide Error'', ''#DB RESERVED'', ''--  NMI Interrupt'', ''#BP Breakpoint'', ''#OF Overflow'',
     ''#BR BOUND Range Exceeded'', ''#UD Invalid Opcode (Undefined Opcode)'', ''#NM Device Not Available (No Math Coprocessor)'',
     ''#DF Double Fault'', ''    Coprocessor Segment Overrun (reserved)'', ''#TS Invalid TSS'', ''#NP Segment Not Present'',
     ''#SS Stack-Segment Fault'', ''#GP General Protection'', ''#PF Page Fault'', ''--  (Intel reserved. Do not use.)'',
     ''#MF x87 FPU Floating-Point Error (Math Fault)'', ''#AC Alignment Check'', ''#MC Machine Check'',
     ''#XF SIMD Floating-Point Exception'', ''#VE Virtualization Exception'', ''#CP Control Protection Exception'']"

text \<open>
  What \<^verbatim>\<open>exception_handler\<close> prints; the state is the one in which it calls \<^verbatim>\<open>hang\<close>, which never returns. \<open>msg i\<close> is the address of
  message \<open>i\<close>, and \<open>buf\<close> is that of \<open>printk\<close>. The vector is at least 0, since the entry stubs push 0 to 0x2f.
\<close>

definition message_of :: "(nat \<Rightarrow> addr) \<Rightarrow> u32 \<Rightarrow> addr" where
  "message_of msg vector = (if sint vector < 0x16 then msg (unat vector) else msg 0x0f)"

definition print1 :: "addr \<Rightarrow> string \<Rightarrow> u32 \<Rightarrow> consys \<Rightarrow> consys option" where
  "print1 buf fmt v x = map_option snd (printk buf (map of_char fmt) (\<lambda>_. v) x)"

definition exception_handler :: "addr \<Rightarrow> (nat \<Rightarrow> addr) \<Rightarrow> u32 \<Rightarrow> u32 \<Rightarrow> u32 \<Rightarrow> u32 \<Rightarrow> u32 \<Rightarrow> u32 \<Rightarrow> consys \<Rightarrow> consys option" where
  "exception_handler buf msg vector error eflags cs eip esp x = do {
     let message = message_of msg vector;
     x \<leftarrow> print1 buf [CHR 0x0a] 0 x;
     x \<leftarrow> print1 buf (''EXCEPTION : %s '' @ [CHR 0x0a]) message x;
     x \<leftarrow> print1 buf (''   VECTOR : 0x%02X'' @ [CHR 0x0a]) vector x;
     x \<leftarrow> print1 buf (''    ERROR : 0x%08X'' @ [CHR 0x0a]) error x;
     x \<leftarrow> print1 buf (''   EFLAGS : 0x%08X'' @ [CHR 0x0a]) eflags x;
     x \<leftarrow> print1 buf (''       CS : 0x%02X'' @ [CHR 0x0a]) cs x;
     x \<leftarrow> print1 buf (''      EIP : 0x%08X'' @ [CHR 0x0a]) eip x;
     print1 buf (''      ESP : 0x%08X'' @ [CHR 0x0a]) esp x }"

definition default_handler :: "u32 \<Rightarrow> ports \<Rightarrow> ports" where
  "default_handler vector p = outs (send_eoi vector) p"

definition interrupt_init :: "(nat \<Rightarrow> addr) \<Rightarrow> addr \<Rightarrow> ports \<Rightarrow> ((nat \<rightharpoonup> gate) \<times> (nat \<rightharpoonup> handler)) \<times> ports" where
  "interrupt_init entries sys p = (idt_init entries sys, outs pic_init p)"

section \<open>System calls\<close>

definition SYSCALL_SIZE :: u32 where "SYSCALL_SIZE = 256"
definition SYS_TEST :: u32 where "SYS_TEST = 0"
definition SYS_EXIT :: u32 where "SYS_EXIT = 1"
definition SYS_FORK :: u32 where "SYS_FORK = 2"
definition SYS_WRITE :: u32 where "SYS_WRITE = 4"
definition SYS_WAITPID :: u32 where "SYS_WAITPID = 7"
definition SYS_TIME :: u32 where "SYS_TIME = 13"
definition SYS_GETPID :: u32 where "SYS_GETPID = 20"
definition SYS_BRK :: u32 where "SYS_BRK = 45"
definition SYS_UMASK :: u32 where "SYS_UMASK = 60"
definition SYS_GETPPID :: u32 where "SYS_GETPPID = 64"
definition SYS_YIELD :: u32 where "SYS_YIELD = 158"
definition SYS_SLEEP :: u32 where "SYS_SLEEP = 162"

text \<open>The entries of \<^verbatim>\<open>syscall_table\<close>.\<close>

datatype sysfun = Default | Test | Exit | Fork | Write | Waitpid | Time | Getpid | Brk | Umask | Getppid | Yield | Sleep

definition syscall_check :: "u32 \<Rightarrow> unit option" where
  "syscall_check sys_num = (if sys_num \<ge> SYSCALL_SIZE then panic ''invalid syscall number!!!'' else Some ())"

definition syscall_init :: "u32 \<Rightarrow> sysfun" where
  "syscall_init = (\<lambda>_. Default)(SYS_TEST := Test, SYS_SLEEP := Sleep, SYS_YIELD := Yield, SYS_WRITE := Write, SYS_BRK := Brk,
     SYS_GETPID := Getpid, SYS_GETPPID := Getppid, SYS_FORK := Fork, SYS_EXIT := Exit, SYS_WAITPID := Waitpid,
     SYS_TIME := Time, SYS_UMASK := Umask)"

text \<open>
  \<^verbatim>\<open>sys_test\<close> reads one character from the first keyboard into the byte \<open>ch\<close> of its stack and shows it on the first console.
\<close>

definition sys_test :: "(addr \<Rightarrow> transfer) \<Rightarrow> addr \<Rightarrow> devsys \<Rightarrow> (u32 \<times> devsys) option" where
  "sys_test call ch x = do {
     i \<leftarrow> dev_find DEV_KEYBOARD 0 x;
     (_, x) \<leftarrow> dev_read call (dv_id (devices x ! i)) ch 1 0 0 x;
     i \<leftarrow> dev_find DEV_CONSOLE 0 x;
     (_, x) \<leftarrow> dev_write call (dv_id (devices x ! i)) ch 1 0 2 x;
     Some (255, x) }"

text \<open>
  What a call gives the caller: a result in \<^verbatim>\<open>eax\<close>, or nothing yet, since another task runs, or ever, since it has ended.
  Calls without a result leave what was in the register, which is not part of the model; it is 0 here. A call that has to wait goes on in
  a later step, when its task runs again.
\<close>

datatype sysret = Result u32 | Waits | Ended

text \<open>
  \<^verbatim>\<open>syscall_entry\<close>, with the call number and the arguments from \<^verbatim>\<open>eax\<close>, \<^verbatim>\<open>ebx\<close>, \<^verbatim>\<open>ecx\<close> and \<^verbatim>\<open>edx\<close>. \<open>call\<close> and \<open>ch\<close> are those of
  \<open>sys_test\<close>, \<open>ret\<close> is the address of \<^verbatim>\<open>interrupt_exit\<close>, \<open>st\<close> the value of \<^verbatim>\<open>startup_time\<close>.
\<close>

definition syscall_entry :: "(addr \<Rightarrow> transfer) \<Rightarrow> addr \<Rightarrow> addr \<Rightarrow> u32 \<Rightarrow> u32 \<Rightarrow> u32 \<Rightarrow> u32 \<Rightarrow> u32 \<Rightarrow> consys \<Rightarrow> (sysret \<times> consys) option" where
  "syscall_entry call ch ret st n a b c x = do {
     syscall_check n;
     let s = ckern x;
     case syscall_init n of
       Default \<Rightarrow> panic ''syscall is not implemented!!!''
     | Test \<Rightarrow> do { (r, d) \<leftarrow> sys_test call ch (cdev x); Some (Result r, x\<lparr>cdev := d\<rparr>) }
     | Exit \<Rightarrow> do { s \<leftarrow> sys_exit a s; Some (Ended, set_ckern s x) }
     | Fork \<Rightarrow> do { (r, s) \<leftarrow> sys_fork ret s; Some (Result r, set_ckern s x) }
     | Write \<Rightarrow> do { (r, x) \<leftarrow> sys_write a b c x; Some (Result r, x) }
     | Waitpid \<Rightarrow> do {
         (r, s) \<leftarrow> sys_waitpid a s;
         Some (case r of
             Reaped pid status \<Rightarrow>
               (Result pid, set_ckern (if b \<noteq> 0 then s\<lparr>kmem := wr16 (wr16 (kmem s) b (ucast status)) (b + 2) (ucast (drop_bit 16 status))\<rparr> else s) x)
           | No_child \<Rightarrow> (Result (- 1), set_ckern s x)
           | wait_result.Blocked \<Rightarrow> (Waits, set_ckern s x)) }
     | Time \<Rightarrow> Some (Result (sys_time st s), x)
     | Getpid \<Rightarrow> Some (Result (sys_getpid s), x)
     | Brk \<Rightarrow> do { (r, s) \<leftarrow> sys_brk s a; Some (Result r, set_ckern s x) }
     | Umask \<Rightarrow> (let (r, s) = sys_umask (ucast a) s in Some (Result (ucast r), set_ckern s x))
     | Getppid \<Rightarrow> Some (Result (sys_getppid s), x)
     | Yield \<Rightarrow> do { s' \<leftarrow> sys_yield s; Some (if current_task s' = current_task s then Result 0 else Waits, set_ckern s' x) }
     | Sleep \<Rightarrow> do { s' \<leftarrow> sys_sleep a s; Some (Waits, set_ckern s' x) } }"

text \<open>The calls that the table knows, and no others, get past the entry.\<close>

lemma syscall_known:
  assumes "n \<notin> {SYS_TEST, SYS_SLEEP, SYS_YIELD, SYS_WRITE, SYS_BRK, SYS_GETPID, SYS_GETPPID, SYS_FORK, SYS_EXIT, SYS_WAITPID, SYS_TIME, SYS_UMASK}"
  shows "syscall_entry call ch ret st n a b c x = None"
  using assms by (simp add: syscall_entry_def syscall_init_def syscall_check_def panic_def)

lemma syscall_write_stdout: "syscall_entry call ch ret st SYS_WRITE 1 b c x = Some (Result c, snd (console_write b c TEXT x))"
  by (simp add: syscall_entry_def syscall_check_def syscall_init_def sys_write_def console_write_def split_def Let_def
      SYSCALL_SIZE_def SYS_TEST_def SYS_EXIT_def SYS_FORK_def SYS_WRITE_def SYS_WAITPID_def SYS_TIME_def SYS_GETPID_def SYS_BRK_def
      SYS_UMASK_def SYS_GETPPID_def SYS_YIELD_def SYS_SLEEP_def)

end
