(* ===== verification/User.thy ===== *)
theory User
  imports Kernel
begin

text \<open>
  The other side of the system calls: the functions of \<^verbatim>\<open>lib/syscall.c\<close> that programs call, \<^verbatim>\<open>printf\<close> of \<^verbatim>\<open>lib/printf.c\<close>, the
  debug output of \<^verbatim>\<open>kernel/debug.c\<close> and the threads of \<^verbatim>\<open>kernel/thread.c\<close>.
\<close>

section \<open>The calls\<close>

text \<open>What \<open>syscall_entry\<close> takes besides the call, and what the caller has in the registers that are not arguments.\<close>

record environment =
  en_call :: "addr \<Rightarrow> transfer"
  en_ch :: addr
  en_ret :: addr
  en_startup :: u32
  en_ebx :: u32
  en_ecx :: u32
  en_edx :: u32

text \<open>
  \<^verbatim>\<open>int $0x80\<close>. The gate clears the interrupt flag; the return, if it comes in this step, brings back the caller's.
\<close>

definition set_flag :: "bool \<Rightarrow> consys \<Rightarrow> consys" where
  "set_flag f x = set_ckern ((ckern x)\<lparr>iflag := f\<rparr>) x"

definition int80 :: "environment \<Rightarrow> u32 \<Rightarrow> u32 \<Rightarrow> u32 \<Rightarrow> u32 \<Rightarrow> consys \<Rightarrow> (sysret \<times> consys) option" where
  "int80 en n a b c x = do {
     (r, y) \<leftarrow> syscall_entry (en_call en) (en_ch en) (en_ret en) (en_startup en) n a b c (set_flag False x);
     Some (r, case r of Result _ \<Rightarrow> set_flag (iflag (ckern x)) y | _ \<Rightarrow> y) }"

definition syscall0 :: "environment \<Rightarrow> u32 \<Rightarrow> consys \<Rightarrow> (sysret \<times> consys) option" where
  "syscall0 en n = int80 en n (en_ebx en) (en_ecx en) (en_edx en)"

definition syscall1 :: "environment \<Rightarrow> u32 \<Rightarrow> u32 \<Rightarrow> consys \<Rightarrow> (sysret \<times> consys) option" where
  "syscall1 en n a = int80 en n a (en_ecx en) (en_edx en)"

definition syscall2 :: "environment \<Rightarrow> u32 \<Rightarrow> u32 \<Rightarrow> u32 \<Rightarrow> consys \<Rightarrow> (sysret \<times> consys) option" where
  "syscall2 en n a b = int80 en n a b (en_edx en)"

definition syscall3 :: "environment \<Rightarrow> u32 \<Rightarrow> u32 \<Rightarrow> u32 \<Rightarrow> u32 \<Rightarrow> consys \<Rightarrow> (sysret \<times> consys) option" where
  "syscall3 en n a b c = int80 en n a b c"

definition test :: "environment \<Rightarrow> consys \<Rightarrow> (sysret \<times> consys) option" where "test en = syscall0 en SYS_TEST"
definition yield :: "environment \<Rightarrow> consys \<Rightarrow> (sysret \<times> consys) option" where "yield en = syscall0 en SYS_YIELD"
definition sleep :: "environment \<Rightarrow> u32 \<Rightarrow> consys \<Rightarrow> (sysret \<times> consys) option" where "sleep en ms = syscall1 en SYS_SLEEP ms"
definition write_fd :: "environment \<Rightarrow> u32 \<Rightarrow> addr \<Rightarrow> u32 \<Rightarrow> consys \<Rightarrow> (sysret \<times> consys) option" where
  "write_fd en fd buf len = syscall3 en SYS_WRITE fd buf len"
definition brk :: "environment \<Rightarrow> addr \<Rightarrow> consys \<Rightarrow> (sysret \<times> consys) option" where "brk en a = syscall1 en SYS_BRK a"
definition getpid :: "environment \<Rightarrow> consys \<Rightarrow> (sysret \<times> consys) option" where "getpid en = syscall0 en SYS_GETPID"
definition getppid :: "environment \<Rightarrow> consys \<Rightarrow> (sysret \<times> consys) option" where "getppid en = syscall0 en SYS_GETPPID"
definition fork :: "environment \<Rightarrow> consys \<Rightarrow> (sysret \<times> consys) option" where "fork en = syscall0 en SYS_FORK"
definition exit :: "environment \<Rightarrow> i32 \<Rightarrow> consys \<Rightarrow> (sysret \<times> consys) option" where "exit en status = syscall1 en SYS_EXIT status"
definition waitpid :: "environment \<Rightarrow> i32 \<Rightarrow> addr \<Rightarrow> consys \<Rightarrow> (sysret \<times> consys) option" where
  "waitpid en pid status = syscall2 en SYS_WAITPID pid status"
definition time :: "environment \<Rightarrow> consys \<Rightarrow> (sysret \<times> consys) option" where "time en = syscall0 en SYS_TIME"
definition umask :: "environment \<Rightarrow> u16 \<Rightarrow> consys \<Rightarrow> (sysret \<times> consys) option" where "umask en msk = syscall1 en SYS_UMASK (ucast msk)"

section \<open>Output\<close>

definition STDOUT :: u32 where "STDOUT = 1"

text \<open>\<^verbatim>\<open>printf\<close> returns the number of characters, whatever \<^verbatim>\<open>write\<close> returns; \<open>buf\<close> is its own array.\<close>

definition printf :: "environment \<Rightarrow> addr \<Rightarrow> u8 list \<Rightarrow> (nat \<Rightarrow> u32) \<Rightarrow> consys \<Rightarrow> (i32 \<times> consys) option" where
  "printf en buf fmt args x = do {
     (i, m) \<leftarrow> sprintf buf fmt args (cmem x);
     (r, x) \<leftarrow> write_fd en STDOUT buf i (set_cmem m x);
     Some (i, x) }"

text \<open>\<open>kbuf\<close> is the buffer of \<open>printk\<close>, \<open>buf\<close> that of \<open>debugk\<close>, \<open>file\<close> the address of the file name.\<close>

definition debugk :: "addr \<Rightarrow> addr \<Rightarrow> addr \<Rightarrow> u32 \<Rightarrow> u8 list \<Rightarrow> (nat \<Rightarrow> u32) \<Rightarrow> consys \<Rightarrow> consys option" where
  "debugk kbuf buf file line fmt args x = do {
     (_, m) \<leftarrow> sprintf buf fmt args (cmem x);
     (_, x) \<leftarrow> printk kbuf (map of_char ''[%s] [%d] %s'') (\<lambda>i. if i = 0 then file else if i = 1 then line else buf) (set_cmem m x);
     Some x }"

section \<open>The threads\<close>

text \<open>One round of the loop of each thread; \<^verbatim>\<open>hlt\<close> waits for an interrupt, which is a step of its own.\<close>

definition idle_thread :: "environment \<Rightarrow> consys \<Rightarrow> (sysret \<times> consys) option" where
  "idle_thread en x = yield en (set_flag True x)"

definition user_init_thread :: "environment \<Rightarrow> consys \<Rightarrow> (sysret \<times> consys) option" where
  "user_init_thread en = sleep en 1000"

text \<open>\<open>target\<close> is the address of \<^verbatim>\<open>user_init_thread\<close>.\<close>

definition init_thread :: "addr \<Rightarrow> kstate \<Rightarrow> (addr \<times> kstate) option" where
  "init_thread target = real_task_to_user_mode target"

text \<open>The part before the loop of \<^verbatim>\<open>test_thread\<close>, and a round.\<close>

definition test_thread_start :: "environment \<Rightarrow> consys \<Rightarrow> (sysret \<times> consys) option" where
  "test_thread_start en x = umask en 2 (set_ckern (irq_enable (ckern x)) x)"

definition test_thread :: "environment \<Rightarrow> consys \<Rightarrow> (sysret \<times> consys) option" where
  "test_thread en = sleep en 20"

section \<open>printf and printk\<close>

lemma write_console:
  "write_fd en STDOUT buf len x = Some (Result len, snd (console_write buf len TEXT x))"
  by (simp add: write_fd_def syscall3_def int80_def STDOUT_def syscall_write_stdout console_write_def set_flag_def irq_disable_def
      get_irq_state_def set_irq_state_def set_ckern_def split_def Let_def)


end
