(* ===== verification/Boot.thy ===== *)
theory Boot
  imports Kernel Fs Ata
begin

text \<open>
  The start of the kernel: \<^verbatim>\<open>kernel_init\<close> of \<^verbatim>\<open>kernel/main.c\<close> calls the initialisation of every component, in order, on one
  state of the whole machine. The timers' own initialisation is here too.
\<close>

section \<open>The timers\<close>

definition CMOS_ADDR_PORT :: u16 where "CMOS_ADDR_PORT = 0x70"
definition CMOS_DATA_PORT :: u16 where "CMOS_DATA_PORT = 0x71"
definition CMOS_NMI :: u8 where "CMOS_NMI = 0x80"

definition cmos_read :: "hardware \<Rightarrow> u8 \<Rightarrow> ports \<Rightarrow> u8 \<times> ports" where
  "cmos_read hw addr p = inb hw CMOS_DATA_PORT (outb CMOS_ADDR_PORT (CMOS_NMI OR addr) p)"

definition cmos_write :: "u8 \<Rightarrow> u8 \<Rightarrow> ports \<Rightarrow> ports" where
  "cmos_write addr value p = outb CMOS_DATA_PORT value (outb CMOS_ADDR_PORT (CMOS_NMI OR addr) p)"

text \<open>\<open>h\<close> is the address of the handler; the lines are 0 for the clock, 8 for the alarm and 2 for the second controller.\<close>

definition clock_init :: "'h \<Rightarrow> (nat \<rightharpoonup> 'h) \<Rightarrow> pic \<Rightarrow> ports \<Rightarrow> ((nat \<rightharpoonup> 'h) \<times> pic \<times> ports) option" where
  "clock_init h table pc p = do {
     let p = outs pit_init p;
     table \<leftarrow> set_interrupt_handler 0 h table;
     pc \<leftarrow> set_interrupt_mask 0 True pc;
     Some (table, pc, p) }"

definition rtc_init :: "'h \<Rightarrow> (nat \<rightharpoonup> 'h) \<Rightarrow> pic \<Rightarrow> ((nat \<rightharpoonup> 'h) \<times> pic) option" where
  "rtc_init h table pc = do {
     table \<leftarrow> set_interrupt_handler 8 h table;
     pc \<leftarrow> set_interrupt_mask 8 True pc;
     pc \<leftarrow> set_interrupt_mask 2 True pc;
     Some (table, pc) }"

section \<open>The whole state\<close>

text \<open>
  The state of the file system holds those of the block cache, the devices and the kernel; the locks of the block cache stand for all the
  locks of the kernel.
\<close>

record machine =
  filesys :: fssys
  mcon :: console
  mkb :: keyboard
  mpressed :: "nat \<Rightarrow> bool \<times> bool"
  mbuses :: "ata_bus list"
  mports :: ports
  mpic :: pic
  mtable :: "nat \<rightharpoonup> addr"
  mgates :: "nat \<rightharpoonup> gate"
  mgdt :: "descriptor list"
  mgdt_ptr :: "addr \<times> u16"
  mtss :: tss
  mtask :: u32
  msyscalls :: "u32 \<Rightarrow> sysfun"

definition mdev :: "machine \<Rightarrow> devsys" where "mdev k = dsys (cache (filesys k))"

definition set_mdev :: "devsys \<Rightarrow> machine \<Rightarrow> machine" where
  "set_mdev d k = k\<lparr>filesys := (filesys k)\<lparr>cache := (cache (filesys k))\<lparr>dsys := d\<rparr>\<rparr>\<rparr>"

definition mlocks :: "machine \<Rightarrow> locks" where "mlocks k = block_locks (cache (filesys k))"

definition set_mlocks :: "locks \<Rightarrow> machine \<Rightarrow> machine" where
  "set_mlocks l k = k\<lparr>filesys := (filesys k)\<lparr>cache := (cache (filesys k))\<lparr>block_locks := l\<rparr>\<rparr>\<rparr>"

text \<open>The operations of each component, on its part of the machine.\<close>

definition on_dev :: "(devsys \<Rightarrow> devsys option) \<Rightarrow> machine \<Rightarrow> machine option" where
  "on_dev f k = do { d \<leftarrow> f (mdev k); Some (set_mdev d k) }"

definition on_kern :: "(kstate \<Rightarrow> kstate option) \<Rightarrow> machine \<Rightarrow> machine option" where
  "on_kern f = on_dev (\<lambda>d. do { s \<leftarrow> f (kern d); Some (d\<lparr>kern := s\<rparr>) })"

definition on_con :: "(consys \<Rightarrow> consys option) \<Rightarrow> machine \<Rightarrow> machine option" where
  "on_con f k = do {
     x \<leftarrow> f \<lparr>con = mcon k, cdev = mdev k, cports = mports k\<rparr>;
     Some (set_mdev (cdev x) (k\<lparr>mcon := con x, mports := cports x\<rparr>)) }"

definition on_kb :: "(kbsys \<Rightarrow> kbsys option) \<Rightarrow> machine \<Rightarrow> machine option" where
  "on_kb f k = do {
     x \<leftarrow> f \<lparr>kb = mkb k, pressed = mpressed k, kdev = mdev k, klocks = mlocks k, kports = mports k, kpic = mpic k, ktable = mtable k\<rparr>;
     Some (set_mlocks (klocks x) (set_mdev (kdev x)
       (k\<lparr>mkb := kb x, mpressed := pressed x, mports := kports x, mpic := kpic x, mtable := ktable x\<rparr>))) }"

definition on_ata :: "(atasys \<Rightarrow> (progress \<times> atasys) option) \<Rightarrow> machine \<Rightarrow> (progress \<times> machine) option" where
  "on_ata f k = do {
     (r, x) \<leftarrow> f \<lparr>adev = mdev k, alocks = mlocks k, aports = mports k, apic = mpic k, atable = mtable k, buses = mbuses k\<rparr>;
     Some (r, set_mlocks (alocks x) (set_mdev (adev x)
       (k\<lparr>mbuses := buses x, mports := aports x, mpic := apic x, mtable := atable x\<rparr>))) }"

section \<open>kernel_init\<close>

text \<open>
  What the linker and the boot loader decide: the addresses of the tables and functions, and the information of the boot loader. \<open>im_call\<close> is
  the driver behind a function pointer of a device.
\<close>

record image =
  im_hw :: hardware
  im_cmos :: cmos
  im_call :: "addr \<Rightarrow> transfer"
  im_ata :: ata_addrs
  im_magic :: u32
  im_info :: addr
  im_old_gdt :: "descriptor list"
  im_gdt :: addr
  im_tss :: addr
  im_devices :: addr
  im_descriptors :: addr
  im_entries :: "nat \<Rightarrow> addr"
  im_syscall_entry :: addr
  im_handlers :: "handler \<Rightarrow> addr"
  im_console_write :: addr
  im_clock_handler :: addr
  im_keyboard_handler :: addr
  im_keyboard_read :: addr
  im_threads :: "addr \<times> addr \<times> addr"

definition init_segments :: "image \<Rightarrow> machine \<Rightarrow> machine" where
  "init_segments im k = (
     let (g, here, lim) = gdt_init (im_gdt im) (im_old_gdt im) (mgdt k);
         (t, g, sel) = tss_init (im_tss im) g
     in k\<lparr>mgdt := g, mgdt_ptr := (here, lim), mtss := t, mtask := sel\<rparr>)"

text \<open>All lines are closed when \<^verbatim>\<open>pic_init\<close> returns.\<close>

definition init_interrupts :: "image \<Rightarrow> machine \<Rightarrow> machine" where
  "init_interrupts im k = (
     let ((g, h), p) = interrupt_init (im_entries im) (im_syscall_entry im) (mports k)
     in k\<lparr>mgates := g, mtable := map_option (im_handlers im) \<circ> h, mports := p, mpic := \<lparr>pic_m = 0xff, pic_s = 0xff\<rparr>\<rparr>)"

definition init_clock :: "image \<Rightarrow> machine \<Rightarrow> machine option" where
  "init_clock im k = do {
     (t, pc, p) \<leftarrow> clock_init (im_clock_handler im) (mtable k) (mpic k) (mports k);
     Some (k\<lparr>mtable := t, mpic := pc, mports := p\<rparr>) }"

definition init_time :: "image \<Rightarrow> machine \<Rightarrow> machine option" where
  "init_time im k = do {
     (t, n) \<leftarrow> time_init (im_cmos im) 0;
     Some (k\<lparr>filesys := (filesys k)\<lparr>startup_time := t\<rparr>\<rparr>) }"

definition init_buffers :: "machine \<Rightarrow> machine option" where
  "init_buffers k = do {
     b \<leftarrow> buffer_init (cache (filesys k));
     Some (k\<lparr>filesys := (filesys k)\<lparr>cache := b\<rparr>\<rparr>) }"

definition init_files :: "image \<Rightarrow> machine \<Rightarrow> (unit run \<times> machine) option" where
  "init_files im k = do {
     (r, x) \<leftarrow> super_init (im_call im) (inode_init (filesys k));
     Some (r, k\<lparr>filesys := x\<rparr>) }"

text \<open>\<open>Done ()\<close>: \<^verbatim>\<open>kernel_init\<close> has come to \<^verbatim>\<open>hang\<close>, with the interrupts on; \<open>Blocked\<close>: it waits for the disk.\<close>

definition kernel_init :: "image \<Rightarrow> machine \<Rightarrow> (unit run \<times> machine) option" where
  "kernel_init im k = do {
     k \<leftarrow> on_dev (device_init (im_devices im)) k;
     k \<leftarrow> on_con (console_init (im_console_write im)) k;
     let k = init_segments im k;
     k \<leftarrow> on_kern (memory_init (im_magic im) (im_info im)) k;
     k \<leftarrow> on_kern kernel_map_init k;
     k \<leftarrow> on_kern (arena_init (im_descriptors im)) k;
     let k = init_interrupts im k;
     k \<leftarrow> init_clock im k;
     k \<leftarrow> on_kb (keyboard_init (im_hw im) (im_keyboard_handler im) (im_keyboard_read im)) k;
     k \<leftarrow> init_time im k;
     (r, k) \<leftarrow> on_ata (ata_init (im_hw im) (im_ata im)) k;
     case r of
       Finished _ \<Rightarrow> do {
         k \<leftarrow> init_buffers k;
         k \<leftarrow> on_kern (task_init (inode_base (filesys k) + 40 * of_nat get_root_inode) (im_threads im)) k;
         (r, k) \<leftarrow> init_files im (k\<lparr>msyscalls := syscall_init\<rparr>);
         (case r of
            Done _ \<Rightarrow> do { k \<leftarrow> on_kern (\<lambda>s. Some (irq_enable s)) k; Some (Done (), k) }
          | Blocked \<Rightarrow> Some (Blocked, k)) }
     | _ \<Rightarrow> Some (Blocked, k) }"

section \<open>The machine after the start\<close>

text \<open>The tables of the processor and of the system calls that a start leaves; nothing after its own initialisation touches them.\<close>

definition same_tables :: "machine \<Rightarrow> machine \<Rightarrow> bool" where
  "same_tables k k' \<longleftrightarrow> mgdt k' = mgdt k \<and> mgdt_ptr k' = mgdt_ptr k \<and> mtss k' = mtss k \<and> mtask k' = mtask k \<and> mgates k' = mgates k \<and>
     msyscalls k' = msyscalls k"

lemma same_tables_trans: "same_tables k k' \<Longrightarrow> same_tables k' k'' \<Longrightarrow> same_tables k k''"
  by (simp add: same_tables_def)

lemma same_tables_set [simp]: "same_tables k (set_mdev d k)" "same_tables k (set_mlocks l k)"
  by (simp_all add: same_tables_def set_mdev_def set_mlocks_def)

lemma on_tables:
  "on_dev f k = Some k' \<Longrightarrow> same_tables k k'" "on_kern f1 k = Some k' \<Longrightarrow> same_tables k k'"
  "on_con g k = Some k' \<Longrightarrow> same_tables k k'" "on_kb h k = Some k' \<Longrightarrow> same_tables k k'"
  "on_ata a k = Some (r, k') \<Longrightarrow> same_tables k k'" "init_clock im k = Some k' \<Longrightarrow> same_tables k k'"
  "init_time im k = Some k' \<Longrightarrow> same_tables k k'" "init_buffers k = Some k' \<Longrightarrow> same_tables k k'"
  "init_files im k = Some (q, k') \<Longrightarrow> same_tables k k'"
  by (auto simp: on_dev_def on_kern_def on_con_def on_kb_def on_ata_def init_clock_def init_time_def init_buffers_def init_files_def
      same_tables_def set_mdev_def set_mlocks_def split: Option.bind_splits)

text \<open>
  A start that gets to the end leaves the interrupts on, the gate of the system calls open to user mode and all others closed to it, the
  task register on the task state segment, and every system call in the table.
\<close>

lemma init_segments_tss:
  assumes "KERNEL_TSS_IDX < length (mgdt k)"
  shows "d_base (mgdt (init_segments im k) ! KERNEL_TSS_IDX) = im_tss im"
proof -
  have "KERNEL_TSS_IDX < length (fst (gdt_init (im_gdt im) (im_old_gdt im) (mgdt k)))"
    using assms by (simp add: gdt_init_def user_descriptors_init_def Let_def)
  moreover have "d_base (d\<lparr>d_segment := a, d_granularity := b, d_big := c, d_long_mode := e, d_present := f, d_DPL := g, d_type := h\<rparr>) = d_base d"
    for d a b c e f g h by (simp add: d_base_def)
  ultimately show ?thesis
    by (simp add: init_segments_def tss_init_def split_def Let_def descriptor_roundtrip)
qed

lemma kernel_init_tables:
  assumes "kernel_init im k = Some (Done (), k')" and "KERNEL_TSS_IDX < length (mgdt k)"
  shows "iflag (kern (mdev k'))" "mgates k' 0x80 = Some (interrupt_gate (im_syscall_entry im) 3)"
    "\<And>i. i < 0x30 \<Longrightarrow> mgates k' i = Some (interrupt_gate (im_entries im i) 0)"
    "d_base (mgdt k' ! KERNEL_TSS_IDX) = im_tss im" "msyscalls k' = syscall_init"
proof -
  from assms(1) obtain k1 k2 k4 k5 k6 k8 k9 k10 k11 k12 k13 k14 v where
    b: "on_dev (device_init (im_devices im)) k = Some k1" "on_con (console_init (im_console_write im)) k1 = Some k2"
      "on_kern (memory_init (im_magic im) (im_info im)) (init_segments im k2) = Some k4" "on_kern kernel_map_init k4 = Some k5"
      "on_kern (arena_init (im_descriptors im)) k5 = Some k6" "init_clock im (init_interrupts im k6) = Some k8"
      "on_kb (keyboard_init (im_hw im) (im_keyboard_handler im) (im_keyboard_read im)) k8 = Some k9" "init_time im k9 = Some k10"
      "on_ata (ata_init (im_hw im) (im_ata im)) k10 = Some (Finished v, k11)" "init_buffers k11 = Some k12"
      "on_kern (task_init (inode_base (filesys k12) + 40 * of_nat get_root_inode) (im_threads im)) k12 = Some k13"
      "init_files im (k13\<lparr>msyscalls := syscall_init\<rparr>) = Some (Done (), k14)" "on_kern (\<lambda>s. Some (irq_enable s)) k14 = Some k'"
    by (auto simp: kernel_init_def Let_def split: Option.bind_splits progress.splits run.splits prod.splits)
  have seg: "mgdt k2 = mgdt k" using on_tables(1) [OF b(1)] on_tables(3) [OF b(2)] by (simp add: same_tables_def)
  have gdt: "mgdt k6 = mgdt (init_segments im k2)"
    using on_tables(2) [OF b(3)] on_tables(2) [OF b(4)] on_tables(2) [OF b(5)] by (simp add: same_tables_def)
  have s13: "same_tables (init_interrupts im k6) k13"
    using on_tables(6) [OF b(6)] on_tables(4) [OF b(7)] on_tables(7) [OF b(8)] on_tables(5) [OF b(9)] on_tables(8) [OF b(10)] on_tables(2) [OF b(11)]
    by (blast intro: same_tables_trans)
  have s: "same_tables (k13\<lparr>msyscalls := syscall_init\<rparr>) k'"
    using on_tables(9) [OF b(12)] on_tables(2) [OF b(13)] by (rule same_tables_trans)
  show "iflag (kern (mdev k'))"
    using b(13) by (auto simp: on_kern_def on_dev_def irq_enable_def set_irq_state_def mdev_def set_mdev_def)
  show "mgates k' 0x80 = Some (interrupt_gate (im_syscall_entry im) 3)"
    "\<And>i. i < 0x30 \<Longrightarrow> mgates k' i = Some (interrupt_gate (im_entries im i) 0)"
    using s s13 by (simp_all add: same_tables_def init_interrupts_def interrupt_init_def idt_init_def Let_def)
  show "d_base (mgdt k' ! KERNEL_TSS_IDX) = im_tss im"
    using s s13 seg gdt init_segments_tss [of k2 im] assms(2)
    by (simp add: same_tables_def init_interrupts_def interrupt_init_def idt_init_def Let_def)
  show "msyscalls k' = syscall_init" using s by (simp add: same_tables_def)
qed

end
