(* ===== verification/Spec2Isabelle.thy ===== *)
theory Spec2Isabelle
  imports Prelude Klist Kstring Bitmap Fifo Ktime Kstate Memory Paging Arena Fork Exit Irq Task Sched Family Clock Mutex Device Buffer Fs Inode Ports Vsprintf Keys Keyboard Ata Drive Console Terminal Kernel User Boot
begin

text \<open>
  A formal model of the XOS kernel, a small 32-bit kernel for one x86 processor. The code is under \<^verbatim>\<open>src/src\<close>: the
  kernel in \<^verbatim>\<open>kernel\<close>, its file system in \<^verbatim>\<open>fs\<close>, the routines it shares with programs in \<^verbatim>\<open>lib\<close>, declarations in
  \<^verbatim>\<open>include/xos\<close>. Function names below are those of the code, and a definition has the name of the function it models.

  \<^bold>\<open>How the program is modelled.\<close> A function of the code is a function on an explicit state. It returns an \<open>option\<close>:
  \<open>None\<close> is a run that does not come back, because of a failed assertion, a panic, an access through \<open>NULL\<close>, a division by
  zero or an endless loop. Integers keep their width (\<open>u8\<close>, \<open>u16\<close>, \<open>u32\<close>) and wrap around; signed comparisons and divisions
  are written out with \<open>sint\<close>. Addresses are 32-bit words. Loops that count are \<open>primrec\<close> or \<open>fold\<close>; loops that follow
  pointers or wait for a device are \<open>partial_function (option)\<close>, and the theorems about them show that they end. No
  definition needs fuel; the only counters stand for loops that the code bounds itself.

  A kernel function that lets another task run ends at the switch: \<open>schedule\<close> changes \<open>current\<close>, and what the code does when the
  task runs again is a further operation or a value of the result (\<open>Switched\<close> in \<open>Mutex\<close>, \<open>Blocked\<close> in \<open>Buffer\<close> and \<open>Fs\<close>,
  \<open>WaitsForLock\<close> and \<open>WaitsForDisk\<close> in \<open>Ata\<close>, \<open>Waits\<close> in \<open>Kernel\<close>). Interleaving is explicit in the step relations \<open>kernel_step\<close> and
  \<open>mutex_step\<close>.

  \<^bold>\<open>State.\<close> \<open>kstate\<close> (theory \<open>Kstate\<close>) is the state that memory management, tasks and interrupts share: byte memory, page
  frames, list nodes, task control blocks, bitmaps, heap pages, stack frames, the interrupt flag and the control registers,
  the variables of \<^verbatim>\<open>memory.c\<close>, \<^verbatim>\<open>arena.c\<close>, \<^verbatim>\<open>task.c\<close>, \<^verbatim>\<open>interrupt.c\<close> and \<^verbatim>\<open>clock.c\<close>. Memory is split by the type of what it
  holds. The components above add their own part: \<open>devsys\<close> (device table and requests), \<open>bufsys\<close> (block cache), \<open>fssys\<close> (super
  blocks and inodes), \<open>kbsys\<close>, \<open>atasys\<close> and \<open>consys\<close>; \<open>Boot.machine\<close> puts all of them together. The devices behind the I/O ports
  are a parameter \<open>hw\<close> of the model: the value of a read depends on the history of all port accesses before it.

  \<^bold>\<open>Theories.\<close>
    \<^item> \<open>Prelude\<close>: word types, assertions and panics, bounded loops, word arithmetic.
    \<^item> \<open>Klist\<close>, \<open>Kstring\<close>, \<open>Bitmap\<close>, \<open>Fifo\<close>: \<^verbatim>\<open>lib/list.c\<close>, \<^verbatim>\<open>lib/string.c\<close>, \<^verbatim>\<open>lib/bitmap.c\<close>, \<^verbatim>\<open>lib/fifo.c\<close>. Lists are a heap of nodes, refined to
      lists of addresses (\<open>dlist\<close>, \<open>klists\<close>). Locales state what the clients rely on (\<open>list_store\<close>, \<open>index_alloc\<close>, \<open>byte_queue\<close>)
      and are interpreted on these definitions.
    \<^item> \<open>Ktime\<close>: \<^verbatim>\<open>kernel/time.c\<close>, \<^verbatim>\<open>lib/stdlib.c\<close>, \<open>set_alarm\<close> of \<^verbatim>\<open>kernel/rtc.c\<close>; the calendar is the reference.
    \<^item> \<open>Vsprintf\<close>: \<^verbatim>\<open>lib/vsprintf.c\<close>, with the value and the width of printed numbers.
    \<^item> \<open>Memory\<close>, \<open>Paging\<close>, \<open>Arena\<close>: \<^verbatim>\<open>kernel/memory.c\<close> with the page fault handler, and \<^verbatim>\<open>kernel/arena.c\<close>. \<open>mm_ok\<close> is the invariant of the
      frame counters, \<open>as_ok\<close> that of an address space. The locale \<open>frame_alloc\<close> is the interface of the page allocator.
    \<^item> \<open>Fork\<close>, \<open>Exit\<close>: what \<^verbatim>\<open>copy_pgdir\<close> makes of an address space (\<open>can_fork\<close> is what it needs, \<open>forked\<close> the invariant of its loop) and what
      \<^verbatim>\<open>free_pgdir\<close> gives back (\<open>space_frames\<close> are the references that an address space holds).
    \<^item> \<open>Irq\<close>: the interrupt flag, the interrupt controllers and the descriptor table of \<^verbatim>\<open>kernel/interrupt.c\<close>.
    \<^item> \<open>Task\<close>, \<open>Sched\<close>, \<open>Clock\<close>: \<^verbatim>\<open>kernel/task.c\<close> and \<^verbatim>\<open>kernel/clock.c\<close>. \<open>sched_inv\<close> is the invariant of the task table and its queues,
      \<open>clock_inv\<close> adds the order of the sleeping queue; \<open>kernel_step\<close> is the relation of the operations that change them.
    \<^item> \<open>Family\<close>: parents and children, in the end of \<^verbatim>\<open>sys_exit\<close> and in \<^verbatim>\<open>sys_waitpid\<close>.
    \<^item> \<open>Mutex\<close>: \<^verbatim>\<open>kernel/mutex.c\<close>, in every interleaving of its users with the other tasks and the clock.
    \<^item> \<open>Device\<close>, \<open>Buffer\<close>, \<open>Fs\<close>: \<^verbatim>\<open>kernel/device.c\<close> with the elevator, \<^verbatim>\<open>kernel/buffer.c\<close> with the invariant \<open>cache_ok\<close> of the hash table
      and the free list, and \<^verbatim>\<open>fs/fsmap.c\<close>, \<^verbatim>\<open>fs/inode.c\<close>, \<^verbatim>\<open>fs/super.c\<close>. The locale \<open>block_cache\<close> is
      what the cache promises to its clients.
    \<^item> \<open>Inode\<close>: the pool of inodes above the cache (\<open>pool_ok\<close>), with the references that \<open>iget\<close> and \<open>iput\<close> count.
    \<^item> \<open>Ports\<close>, \<open>Keys\<close>, \<open>Keyboard\<close>, \<open>Ata\<close>, \<open>Drive\<close>: \<^verbatim>\<open>kernel/io.asm\<close>, \<^verbatim>\<open>kernel/keyboard.c\<close> and \<^verbatim>\<open>kernel/ata.c\<close>. \<open>Drive\<close> says what the driver relies on of
      a disk (\<open>is_drive\<close>), with a concrete disk that satisfies it, and what the driver makes it do.
    \<^item> \<open>Console\<close>, \<open>Terminal\<close>: \<^verbatim>\<open>kernel/console.c\<close> and \<^verbatim>\<open>kernel/printk.c\<close>, and the abstract terminal that they refine.
    \<^item> \<open>Kernel\<close>: \<^verbatim>\<open>kernel/global.c\<close>, the exceptions, the system calls (\<^verbatim>\<open>kernel/syscall.c\<close>, \<^verbatim>\<open>kernel/handler.asm\<close>).
    \<^item> \<open>User\<close>: \<^verbatim>\<open>lib/syscall.c\<close>, \<^verbatim>\<open>lib/printf.c\<close>, \<^verbatim>\<open>kernel/debug.c\<close>, \<^verbatim>\<open>kernel/thread.c\<close>.
    \<^item> \<open>Boot\<close>: \<^verbatim>\<open>kernel/main.c\<close>, the order in which everything is initialised on one state.

  \<^bold>\<open>What is shown.\<close> The properties carry a number in the text before them. In every state that tasks and clock ticks
  can reach, exactly one task is running, the queues are consistent and no assertion fails (\<open>Clock\<close>); at most one task is in
  a critical section, and waiters are served in order (\<open>Mutex\<close>); sleepers wake on time (\<open>Clock\<close>). Page frames are handed out once and
  counted (\<open>Memory\<close>), a write to a shared page gives a private copy (\<open>Paging\<close>), and heap blocks and pages can be given back (\<open>Arena\<close>).
  A forked task has the same pages, shared and read-only, in tables of its own; a later write of the parent does not reach the child
  (\<open>Fork\<close>), and when the child exits every counter is as before (\<open>Exit\<close>). An exiting task hands its children over and wakes its
  parent, which then takes it out of the task table (\<open>Family\<close>).
  The block cache never loses a block, and its reads of the block index of a file are the entries on the disk (\<open>Buffer\<close>,
  \<open>Fs\<close>); the elevator serves every request (\<open>Device\<close>); sectors written are read back (\<open>Drive\<close>). What is typed is what is read
  (\<open>Keyboard\<close>), and what is written appears as on a terminal (\<open>Terminal\<close>), whether a program or the kernel writes it (\<open>User\<close>).
  Several properties state behaviour that is a fault of the code: the search of \<open>sys_waitpid\<close>, page tables that are not
  cleared, \<open>brelse\<close> with a waiting task, \<open>balloc\<close> on a full disk, errors of the disk that are not reported, the calendar from April on.

  \<^bold>\<open>Bounds.\<close> The calendar theorem covers the years 1970 to 2069 that two digits can hold. Start-up theorems of the disk assume that
  the drive gets ready, as the code waits for it without end. List lemmas hold for lists of any length; the scheduler's
  queue has the 64 entries of \<open>NUM_TASKS\<close>, the cache as many buffers as fit into its memory.

  \<^bold>\<open>Not modelled.\<close>
    \<^item> The assembly that saves and restores registers (\<^verbatim>\<open>start.asm\<close>, \<^verbatim>\<open>schedule.asm\<close>, the stubs of \<^verbatim>\<open>handler.asm\<close>): its effect is the change of
      \<open>current\<close>, the frames of new tasks and the result of \<open>syscall_entry\<close>. The boot loader is 16-bit assembly; what it hands over
      is a parameter.
    \<^item> The lines that \<^verbatim>\<open>LOGK\<close> and \<^verbatim>\<open>DEBUGK\<close> print. \<open>debugk\<close> itself is modelled, but its calls are left out of the callers.
    \<^item> The translation cache of the processor. \<open>flush_tlb\<close> has no effect in the model, so stale translations are not seen.
    \<^item> \<open>vsprintf\<close> does not read its own output buffer, and its \<^verbatim>\<open>int\<close> variables are unbounded, as their overflow is undefined in C.
    \<^item> Overlap of differently typed objects in memory, as after a stack overflow.
    \<^item> The functions behind the pointers of the device table are the parameter \<open>call\<close> of the operations that use them.
\<close>

end
